(* ===== verification/Mdb_Prelude.thy ===== *)
theory Mdb_Prelude
  imports Main "HOL-Library.Word" "HOL-Library.Multiset"
begin

text \<open>
  Shared vocabulary of the development: the fact collections the component theories add to,
  and generic lemmas on lists that are updated by index, on filtered lists and on multisets.
\<close>

named_theorems mdb_frame \<open>what an operation leaves unchanged\<close>

named_theorems mdb_inv \<open>operations keep the invariant of their component\<close>

type_synonym u16 = "16 word"
type_synonym u32 = "32 word"
type_synonym u64 = "64 word"

subsection \<open>Lists updated by index\<close>

lemma nth_upd: "j < length xs \<Longrightarrow> xs[i := x] ! j = (if i = j then x else xs ! j)"
  by (cases "i < length xs") (auto simp: nth_list_update list_update_beyond)

lemma mset_move_hole:
  assumes "i < length xs" "j < length xs" "i \<noteq> j"
  shows "mset (xs[i := xs ! j, j := e]) = mset (xs[i := e])"
proof -
  have "mset (xs[i := xs ! j, j := e]) = add_mset e (add_mset (xs ! j) (mset xs - {#xs ! i#}) - {#xs ! j#})"
    using assms by (simp add: mset_update)
  also have "\<dots> = add_mset e (mset xs - {#xs ! i#})"
    by simp
  also have "\<dots> = mset (xs[i := e])"
    using assms by (simp add: mset_update)
  finally show ?thesis .
qed

lemma take_update_hole:
  "i < n \<Longrightarrow> take n (xs[i := e]) = (take n xs)[i := e]"
  by (simp add: take_update_swap)

lemma mset_take_move_hole:
  assumes "i < n" "j < n" "n \<le> length xs" "i \<noteq> j"
  shows "mset (take n (xs[i := xs ! j, j := e])) = mset (take n (xs[i := e]))"
  using mset_move_hole [of i "take n xs" j e] assms by (simp add: take_update_swap)

subsection \<open>Removing one element\<close>

lemma filter_remove1_len:
  assumes "distinct xs"
  shows "length (filter P (remove1 x xs)) =
         length (filter P xs) - (if x \<in> set xs \<and> P x then 1 else 0)"
proof (cases "x \<in> set xs")
  case True
  then have "0 < length (filter P xs)" if "P x"
    using that by (auto simp: length_greater_0_conv filter_empty_conv simp del: length_greater_0_conv)
  with True show ?thesis using assms
    by (auto simp: filter_remove1 length_remove1)
qed (simp add: remove1_idem)

lemma filter_cong_set:
  "(\<And>x. x \<in> set xs \<Longrightarrow> P x = Q x) \<Longrightarrow> filter P xs = filter Q xs"
  by (rule filter_cong) auto

lemma distinct_mset_sub:
  assumes "mset xs \<subseteq># mset ys" "distinct ys"
  shows "distinct xs"
proof -
  have "count (mset xs) a \<le> count (mset ys) a" for a
    using assms(1) by (rule mset_subset_eq_count)
  moreover have "count (mset ys) a \<le> 1" for a
    using assms(2) by (simp add: distinct_count_atmost_1)
  ultimately have "count (mset xs) a \<le> 1" for a by (meson order_trans)
  then have "count (mset xs) a = (if a \<in> set xs then 1 else 0)" for a
    by (metis One_nat_def count_mset_0_iff le_Suc_eq le_zero_eq)
  then show ?thesis by (simp add: distinct_count_atmost_1)
qed

subsection \<open>Lock holders that must not conflict\<close>

text \<open>
  What the lock managers share: a symmetric conflict relation on lock types, and holders, each
  with a type and an owner, of which no two of different owners may conflict.
\<close>

definition holders_ok :: "('y \<Rightarrow> 'y \<Rightarrow> bool) \<Rightarrow> ('h \<Rightarrow> 'y) \<Rightarrow> ('h \<Rightarrow> 'c) \<Rightarrow> 'h set \<Rightarrow> bool" where
  "holders_ok conf ty ow H \<longleftrightarrow> (\<forall>t\<in>H. \<forall>u\<in>H. ow t \<noteq> ow u \<longrightarrow> \<not> conf (ty t) (ty u))"

locale lock_compatibility =
  fixes conf :: "'y \<Rightarrow> 'y \<Rightarrow> bool"
  assumes conf_sym: "conf a b \<Longrightarrow> conf b a"
begin

lemma holders_ok_empty: "holders_ok conf ty ow {}"
  by (simp add: holders_ok_def)

lemma holders_ok_mono: "holders_ok conf ty ow H \<Longrightarrow> K \<subseteq> H \<Longrightarrow> holders_ok conf ty ow K"
  by (auto simp: holders_ok_def)

lemma holders_ok_insert:
  assumes "holders_ok conf ty ow H" "\<And>u. u \<in> H \<Longrightarrow> ow u \<noteq> ow t \<Longrightarrow> \<not> conf (ty u) (ty t)"
  shows "holders_ok conf ty ow (insert t H)"
  using assms conf_sym unfolding holders_ok_def by (metis insert_iff)

lemma holders_ok_retype:
  assumes "holders_ok conf ty ow H" "\<And>u. u \<in> H \<Longrightarrow> ow u \<noteq> ow t \<Longrightarrow> \<not> conf (ty u) y"
  shows "holders_ok conf (ty(t := y)) ow H"
  using assms conf_sym unfolding holders_ok_def by (metis fun_upd_apply)

lemma holders_ok_exclusive:
  assumes "holders_ok conf ty ow H" "t \<in> H" "u \<in> H" "conf (ty t) (ty u)"
  shows "ow t = ow u"
  using assms unfolding holders_ok_def by blast

end

end
