(* ===== verification/Mdb_Queue.thy ===== *)
theory Mdb_Queue
  imports Mdb_Prelude
begin

text \<open>
  The priority queue of \<^verbatim>\<open>mysys/queues.c\<close> and \<^verbatim>\<open>include/queues.h\<close>: a binary
  heap in an array whose cells 1 to \<open>elements\<close> are in use. A cell holds the address of an
  element; \<open>compare\<close> stands for the comparison call with \<open>first_cmp_arg\<close> and
  \<open>offset_to_key\<close> applied, and \<open>queue_pos\<close> is the word at
  \<open>offset_to_queue_pos - 1\<close> of each element. The allocator is an argument of the operations
  that allocate. A violated \<^verbatim>\<open>DBUG_ASSERT\<close> is the result \<open>None\<close>. The counters of a queue are \<^verbatim>\<open>uint\<close> in the
  source and numbers here; where the source computes a new capacity from them, the sum is taken at the
  width of \<^verbatim>\<open>uint\<close>. Indexes stay below the capacity.
\<close>

definition uint_add :: "nat \<Rightarrow> nat \<Rightarrow> nat" where
  "uint_add a b = (a + b) mod 2 ^ 32"

lemma uint_add_small [simp]: "a + b < 2 ^ 32 \<Longrightarrow> uint_add a b = a + b"
  by (simp add: uint_add_def)

record 'e QUEUE =
  root :: "'e list"
  elements :: nat
  max_elements :: nat
  offset_to_queue_pos :: nat
  auto_extent :: nat
  max_at_top :: int
  compare :: "'e \<Rightarrow> 'e \<Rightarrow> int"
  queue_pos :: "'e \<Rightarrow> nat"

type_synonym 'e malloc = "nat \<Rightarrow> 'e list option"
type_synonym 'e realloc = "'e list \<Rightarrow> nat \<Rightarrow> 'e list option"

definition queue_set_max_at_top :: "'e QUEUE \<Rightarrow> bool \<Rightarrow> 'e QUEUE" where
  "queue_set_max_at_top q set_arg = q\<lparr>max_at_top := (if set_arg then -1 else 1)\<rparr>"

definition init_queue ::
  "'e malloc \<Rightarrow> ('e \<Rightarrow> nat) \<Rightarrow> nat \<Rightarrow> bool \<Rightarrow> ('e \<Rightarrow> 'e \<Rightarrow> int) \<Rightarrow> nat \<Rightarrow> nat \<Rightarrow> 'e QUEUE option" where
  "init_queue my_malloc mem max_elts max_top cmp pos_off auto_ext =
     (case my_malloc (uint_add max_elts 1) of
        None \<Rightarrow> None
      | Some block \<Rightarrow>
          Some (queue_set_max_at_top
            \<lparr>root = block, elements = 0, max_elements = max_elts,
             offset_to_queue_pos = pos_off, auto_extent = auto_ext, max_at_top = 1,
             compare = cmp, queue_pos = mem\<rparr> max_top))"

definition resize_queue :: "'e realloc \<Rightarrow> 'e QUEUE \<Rightarrow> nat \<Rightarrow> nat \<times> 'e QUEUE" where
  "resize_queue my_realloc q max_elts =
     (if max_elements q = max_elts then (0, q)
      else case my_realloc (root q) (uint_add max_elts 1) of
        None \<Rightarrow> (1, q)
      | Some new_root \<Rightarrow>
          (0, q\<lparr>elements := min (elements q) max_elts, max_elements := max_elts,
                root := new_root\<rparr>))"

definition reinit_queue ::
  "'e realloc \<Rightarrow> 'e QUEUE \<Rightarrow> nat \<Rightarrow> bool \<Rightarrow> ('e \<Rightarrow> 'e \<Rightarrow> int) \<Rightarrow> nat \<Rightarrow> nat \<Rightarrow> nat \<times> 'e QUEUE" where
  "reinit_queue my_realloc q max_elts max_top cmp pos_off auto_ext =
     resize_queue my_realloc
       (queue_set_max_at_top
          (q\<lparr>elements := 0, compare := cmp, offset_to_queue_pos := pos_off,
             auto_extent := auto_ext\<rparr>) max_top) max_elts"

text \<open>Storing an element in a cell, with its position when the queue keeps positions.\<close>

definition put_at :: "'e QUEUE \<Rightarrow> nat \<Rightarrow> 'e \<Rightarrow> 'e QUEUE" where
  "put_at q idx e =
     q\<lparr>root := (root q)[idx := e],
       queue_pos := (if offset_to_queue_pos q \<noteq> 0 then (queue_pos q)(e := idx) else queue_pos q)\<rparr>"

function insert_at :: "'e QUEUE \<Rightarrow> 'e \<Rightarrow> nat \<Rightarrow> 'e QUEUE" where
  "insert_at q element idx =
     (let next_index = idx div 2 in
      if next_index > 0 \<and> compare q element (root q ! next_index) * max_at_top q < 0
      then insert_at (put_at q idx (root q ! next_index)) element next_index
      else put_at q idx element)"
  by pat_completeness auto
termination by (relation "measure (\<lambda>(q, e, idx). idx)") auto

definition queue_insert :: "'e QUEUE \<Rightarrow> 'e \<Rightarrow> 'e QUEUE option" where
  "queue_insert q element =
     (if elements q < max_elements q
      then Some (insert_at (q\<lparr>elements := elements q + 1\<rparr>) element (elements q + 1))
      else None)"

definition queue_insert_safe :: "'e realloc \<Rightarrow> 'e QUEUE \<Rightarrow> 'e \<Rightarrow> (nat \<times> 'e QUEUE) option" where
  "queue_insert_safe my_realloc q element =
     (if elements q = max_elements q then
        if auto_extent q = 0 then Some (2, q)
        else case resize_queue my_realloc q (uint_add (max_elements q) (auto_extent q)) of
          (rc, q') \<Rightarrow>
            if rc \<noteq> 0 then Some (1, q')
            else map_option (\<lambda>q''. (0, q'')) (queue_insert q' element)
      else map_option (\<lambda>q''. (0, q'')) (queue_insert q element))"

text \<open>The child that \<^verbatim>\<open>_downheap()\<close> and \<^verbatim>\<open>queue_replace()\<close> step to.\<close>

definition next_child :: "'e QUEUE \<Rightarrow> nat \<Rightarrow> nat" where
  "next_child q idx =
     (let next_index = idx + idx in
      if next_index < elements q \<and>
         compare q (root q ! next_index) (root q ! (next_index + 1)) * max_at_top q > 0
      then next_index + 1 else next_index)"

function downheap_loop :: "'e QUEUE \<Rightarrow> 'e \<Rightarrow> nat \<Rightarrow> 'e QUEUE" where
  "downheap_loop q element idx =
     (if 0 < idx \<and> idx \<le> elements q div 2 \<and>
         \<not> compare q (root q ! next_child q idx) element * max_at_top q \<ge> 0
      then downheap_loop (put_at q idx (root q ! next_child q idx)) element (next_child q idx)
      else put_at q idx element)"
  by pat_completeness auto
termination
  by (relation "measure (\<lambda>(q, e, idx). elements q - idx)")
     (auto simp: next_child_def put_at_def Let_def)

definition downheap :: "'e QUEUE \<Rightarrow> nat \<Rightarrow> 'e QUEUE" where
  "downheap q idx = downheap_loop q (root q ! idx) idx"

primrec queue_fix_loop :: "'e QUEUE \<Rightarrow> nat \<Rightarrow> 'e QUEUE" where
  "queue_fix_loop q 0 = q"
| "queue_fix_loop q (Suc i) = queue_fix_loop (downheap q (Suc i)) i"

definition queue_fix :: "'e QUEUE \<Rightarrow> 'e QUEUE" where
  "queue_fix q = queue_fix_loop q (elements q div 2)"

text \<open>
  The loop of \<^verbatim>\<open>queue_replace()\<close>: the test against the element is made at the first
  cell only, afterwards the smaller child moves up all the way to a leaf.
\<close>

function queue_replace_loop :: "'e QUEUE \<Rightarrow> 'e \<Rightarrow> nat \<Rightarrow> bool \<Rightarrow> 'e QUEUE \<times> nat" where
  "queue_replace_loop q element idx first =
     (if 0 < idx \<and> idx \<le> elements q div 2 then
        if first \<and> compare q (root q ! next_child q idx) element * max_at_top q \<ge> 0
        then (put_at q idx element, idx)
        else queue_replace_loop (put_at q idx (root q ! next_child q idx)) element
               (next_child q idx) False
      else (q, idx))"
  by pat_completeness auto
termination
  by (relation "measure (\<lambda>(q, e, idx, first). elements q - idx)")
     (auto simp: next_child_def put_at_def Let_def)

definition queue_replace :: "'e QUEUE \<Rightarrow> nat \<Rightarrow> 'e QUEUE" where
  "queue_replace q idx =
     (case queue_replace_loop q (root q ! idx) idx True of
        (q', idx') \<Rightarrow> insert_at q' (root q ! idx) idx')"

definition queue_remove :: "'e QUEUE \<Rightarrow> nat \<Rightarrow> ('e \<times> 'e QUEUE) option" where
  "queue_remove q idx =
     (if 1 \<le> idx \<and> idx \<le> elements q
      then Some (root q ! idx,
                 queue_replace (q\<lparr>root := (root q)[idx := root q ! elements q],
                                  elements := elements q - 1\<rparr>) idx)
      else None)"

definition queue_remove_all :: "'e QUEUE \<Rightarrow> 'e QUEUE" where
  "queue_remove_all q = q\<lparr>elements := 0\<rparr>"

definition queue_top :: "'e QUEUE \<Rightarrow> 'e" where
  "queue_top q = root q ! 1"

definition queue_remove_top :: "'e QUEUE \<Rightarrow> ('e \<times> 'e QUEUE) option" where
  "queue_remove_top q = queue_remove q 1"

definition queue_replace_top :: "'e QUEUE \<Rightarrow> 'e QUEUE" where
  "queue_replace_top q = downheap q 1"

definition queue_empty :: "'e QUEUE \<Rightarrow> bool" where
  "queue_empty q \<longleftrightarrow> elements q = 0"

definition queue_is_full :: "'e QUEUE \<Rightarrow> bool" where
  "queue_is_full q \<longleftrightarrow> elements q = max_elements q"

declare insert_at.simps [simp del] downheap_loop.simps [simp del] queue_replace_loop.simps [simp del]


subsection \<open>The heap order and the queue invariant\<close>

definition queue_above :: "'e QUEUE \<Rightarrow> 'e \<Rightarrow> 'e \<Rightarrow> bool" where
  "queue_above q x y \<longleftrightarrow> compare q x y * max_at_top q \<le> 0"

text \<open>What the queue relies on of the comparison function: it orders the elements totally.\<close>

definition queue_order :: "'e QUEUE \<Rightarrow> bool" where
  "queue_order q \<longleftrightarrow>
     (max_at_top q = 1 \<or> max_at_top q = -1) \<and>
     (\<forall>x y. sgn (compare q x y) = - sgn (compare q y x)) \<and>
     (\<forall>x y z. compare q x y \<le> 0 \<longrightarrow> compare q y z \<le> 0 \<longrightarrow> compare q x z \<le> 0)"

definition heap_from :: "nat \<Rightarrow> 'e QUEUE \<Rightarrow> bool" where
  "heap_from l q \<longleftrightarrow>
     (\<forall>c. 2 \<le> c \<and> c \<le> elements q \<and> l \<le> c div 2 \<longrightarrow> queue_above q (root q ! (c div 2)) (root q ! c))"

definition queue_wf :: "'e QUEUE \<Rightarrow> bool" where
  "queue_wf q \<longleftrightarrow> length (root q) = max_elements q + 1 \<and> elements q \<le> max_elements q"

definition pos_ok :: "'e QUEUE \<Rightarrow> bool" where
  "pos_ok q \<longleftrightarrow> offset_to_queue_pos q \<noteq> 0 \<longrightarrow> (\<forall>i\<in>{1..elements q}. queue_pos q (root q ! i) = i)"

definition queue_inv :: "'e QUEUE \<Rightarrow> bool" where
  "queue_inv q \<longleftrightarrow> queue_wf q \<and> queue_order q \<and> heap_from 1 q \<and> pos_ok q"

definition queue_mset :: "'e QUEUE \<Rightarrow> 'e multiset" where
  "queue_mset q = mset (take (elements q) (tl (root q)))"

lemma above_flip:
  assumes "queue_order q"
  shows "compare q x y * max_at_top q < 0 \<longleftrightarrow> \<not> queue_above q y x"
    and "compare q x y * max_at_top q \<ge> 0 \<longleftrightarrow> queue_above q y x"
    and "compare q x y * max_at_top q > 0 \<longleftrightarrow> \<not> queue_above q x y"
proof -
  have s: "sgn (compare q x y) = - sgn (compare q y x)"
    and m: "max_at_top q = 1 \<or> max_at_top q = -1"
    using assms unfolding queue_order_def by blast+
  show "compare q x y * max_at_top q < 0 \<longleftrightarrow> \<not> queue_above q y x"
    using s m by (auto simp: queue_above_def sgn_if split: if_splits)
  show "compare q x y * max_at_top q \<ge> 0 \<longleftrightarrow> queue_above q y x"
    using s m by (auto simp: queue_above_def sgn_if split: if_splits)
  show "compare q x y * max_at_top q > 0 \<longleftrightarrow> \<not> queue_above q x y"
    by (auto simp: queue_above_def)
qed

lemma above_total: "queue_order q \<Longrightarrow> \<not> queue_above q x y \<Longrightarrow> queue_above q y x"
  using above_flip(3) [of q x y] above_flip(1) [of q y x] by (auto simp: queue_above_def)

lemma above_trans:
  assumes "queue_order q" "queue_above q x y" "queue_above q y z"
  shows "queue_above q x z"
proof -
  have s: "\<And>x y. sgn (compare q x y) = - sgn (compare q y x)"
    and t: "\<And>x y z. compare q x y \<le> 0 \<Longrightarrow> compare q y z \<le> 0 \<Longrightarrow> compare q x z \<le> 0"
    and m: "max_at_top q = 1 \<or> max_at_top q = -1"
    using assms(1) unfolding queue_order_def by blast+
  have flip: "0 \<le> compare q x y \<longleftrightarrow> compare q y x \<le> 0" for x y
    using s [of x y] by (auto simp: sgn_if split: if_splits)
  from m show ?thesis
  proof
    assume "max_at_top q = 1"
    with assms(2,3) t [of x y z] show ?thesis by (simp add: queue_above_def)
  next
    assume "max_at_top q = -1"
    with assms(2,3) t [of z y x] show ?thesis by (simp add: queue_above_def flip)
  qed
qed

subsection \<open>Frame facts\<close>

lemma put_at_frame [simp]:
  "elements (put_at q i e) = elements q" "max_elements (put_at q i e) = max_elements q"
  "compare (put_at q i e) = compare q" "max_at_top (put_at q i e) = max_at_top q"
  "offset_to_queue_pos (put_at q i e) = offset_to_queue_pos q"
  "auto_extent (put_at q i e) = auto_extent q"
  "root (put_at q i e) = (root q)[i := e]"
  by (simp_all add: put_at_def)

lemma above_put_at [simp]: "queue_above (put_at q i e) = queue_above q"
  by (simp add: queue_above_def fun_eq_iff)

lemma queue_order_put_at [simp]: "queue_order (put_at q i e) = queue_order q"
  unfolding queue_order_def put_at_frame ..

definition same_frame :: "'e QUEUE \<Rightarrow> 'e QUEUE \<Rightarrow> bool" where
  "same_frame q q' \<longleftrightarrow>
     elements q' = elements q \<and> max_elements q' = max_elements q \<and> compare q' = compare q \<and>
     max_at_top q' = max_at_top q \<and> offset_to_queue_pos q' = offset_to_queue_pos q \<and>
     auto_extent q' = auto_extent q \<and> length (root q') = length (root q)"

lemma same_frame_put_at [simp]:
  "same_frame (put_at q i e) q' \<longleftrightarrow> same_frame q q'" "same_frame q (put_at q i e)"
  by (simp_all add: same_frame_def)

lemma insert_at_frame: "same_frame q (insert_at q e idx)"
proof (induction q e idx rule: insert_at.induct)
  case (1 q e idx)
  show ?case
    using "1.IH" by (subst insert_at.simps) (auto simp: Let_def)
qed

lemma downheap_loop_frame: "same_frame q (downheap_loop q e idx)"
proof (induction q e idx rule: downheap_loop.induct)
  case (1 q e idx)
  show ?case
    using "1.IH" by (subst downheap_loop.simps) auto
qed

lemma downheap_frame: "same_frame q (downheap q idx)"
  by (simp add: downheap_def downheap_loop_frame)

subsection \<open>Moving an element up\<close>

text \<open>
  The loops keep one cell as a hole for the element in hand. \<open>hole_up\<close> says that with the
  element in the hole every edge of the heap holds but the one from the hole to its parent.
\<close>

definition hole_up :: "'e QUEUE \<Rightarrow> nat \<Rightarrow> 'e \<Rightarrow> bool" where
  "hole_up q idx e \<longleftrightarrow>
     (\<forall>c. 2 \<le> c \<and> c \<le> elements q \<and> c \<noteq> idx \<and> c div 2 \<noteq> idx \<longrightarrow>
          queue_above q (root q ! (c div 2)) (root q ! c)) \<and>
     (\<forall>c. c \<le> elements q \<and> c div 2 = idx \<longrightarrow> queue_above q e (root q ! c)) \<and>
     (2 \<le> idx \<longrightarrow> (\<forall>c. c \<le> elements q \<and> c div 2 = idx \<longrightarrow>
          queue_above q (root q ! (idx div 2)) (root q ! c)))"

lemma hole_up_edge:
  "hole_up q idx e \<Longrightarrow> 2 \<le> c \<Longrightarrow> c \<le> elements q \<Longrightarrow> c \<noteq> idx \<Longrightarrow> c div 2 \<noteq> idx \<Longrightarrow>
   queue_above q (root q ! (c div 2)) (root q ! c)"
  by (simp add: hole_up_def)

lemma hole_up_child:
  "hole_up q idx e \<Longrightarrow> c \<le> elements q \<Longrightarrow> c div 2 = idx \<Longrightarrow> queue_above q e (root q ! c)"
  "hole_up q idx e \<Longrightarrow> c \<le> elements q \<Longrightarrow> c div 2 = idx \<Longrightarrow> 2 \<le> idx \<Longrightarrow>
   queue_above q (root q ! (idx div 2)) (root q ! c)"
  unfolding hole_up_def by blast+

lemma hole_up_step:
  assumes ord: "queue_order q" and h: "hole_up q idx e"
    and idx: "2 \<le> idx" "idx \<le> elements q" "elements q < length (root q)"
    and up: "\<not> queue_above q (root q ! (idx div 2)) e"
  shows "hole_up (put_at q idx (root q ! (idx div 2))) (idx div 2) e"
proof -
  let ?p = "idx div 2"
  have p: "1 \<le> ?p" "?p < idx" "?p div 2 \<noteq> idx" "?p div 2 < idx" using idx by auto
  have ep: "queue_above q e (root q ! ?p)" using above_total [OF ord up] .
  have sib: "queue_above q (root q ! ?p) (root q ! c)" if "c div 2 = ?p" "c \<noteq> idx" "c \<le> elements q" for c
    using hole_up_edge [OF h, of c] that p by auto
  have grand: "queue_above q (root q ! (?p div 2)) (root q ! ?p)" if "2 \<le> ?p"
    using hole_up_edge [OF h, of ?p] that p idx by auto
  have below: "queue_above q (root q ! ?p) (root q ! c)" if "c div 2 = idx" "c \<le> elements q" for c
    using h that idx by (auto simp: hole_up_def)
  have r: "(root q)[idx := root q ! ?p] ! i = (if i = idx then root q ! ?p else root q ! i)"
    if "i \<le> elements q" for i
    using that idx by (simp add: nth_upd)
  show ?thesis
    unfolding hole_up_def
  proof (intro conjI allI impI, goal_cases)
    case (1 c)
    then have "c \<le> elements q" "c div 2 \<le> elements q" "c \<noteq> idx" by auto
    with 1 show ?case
      by (cases "c div 2 = idx") (simp_all add: r below hole_up_edge [OF h])
  next
    case (2 c)
    then show ?case
      by (cases "c = idx") (simp_all add: r ep above_trans [OF ord ep] sib)
  next
    case (3 c)
    then have "?p div 2 \<le> elements q" using p idx by linarith
    with 3 p show ?case
      by (cases "c = idx") (simp_all add: r grand above_trans [OF ord grand] sib)
  qed
qed

lemma hole_up_fill:
  assumes h: "hole_up q idx e" and idx: "1 \<le> idx" "idx < length (root q)" "elements q < length (root q)"
    and stop: "idx div 2 > 0 \<Longrightarrow> queue_above q (root q ! (idx div 2)) e"
  shows "heap_from 1 (put_at q idx e)"
  unfolding heap_from_def
proof (intro allI impI, goal_cases)
  case (1 c)
  then have c: "2 \<le> c" "c \<le> elements q" "c div 2 < c" "c div 2 \<le> elements q" by auto
  have r: "(root q)[idx := e] ! i = (if i = idx then e else root q ! i)" if "i \<le> elements q" for i
    using that idx by (simp add: nth_upd)
  consider "c = idx" | "c \<noteq> idx" "c div 2 = idx" | "c \<noteq> idx" "c div 2 \<noteq> idx" by blast
  then show ?case
  proof cases
    case 1
    with c stop show ?thesis by (simp add: r)
  next
    case 2
    with c h show ?thesis by (simp add: r hole_up_def)
  next
    case 3
    with c show ?thesis by (simp add: r hole_up_edge [OF h])
  qed
qed

lemma insert_at_heap:
  assumes "queue_order q" "hole_up q idx e" "1 \<le> idx" "idx \<le> elements q" "elements q < length (root q)"
  shows "heap_from 1 (insert_at q e idx)"
  using assms
proof (induction q e idx rule: insert_at.induct)
  case (1 q e idx)
  let ?p = "idx div 2"
  show ?case
  proof (cases "?p > 0 \<and> compare q e (root q ! ?p) * max_at_top q < 0")
    case True
    then have up: "\<not> queue_above q (root q ! ?p) e" and two: "2 \<le> idx"
      using above_flip(1) [OF "1.prems"(1), of e "root q ! ?p"] by auto
    have "hole_up (put_at q idx (root q ! ?p)) ?p e"
      using hole_up_step [OF "1.prems"(1,2) two _ _ up] "1.prems" by simp
    with True "1.prems" have "heap_from 1 (insert_at (put_at q idx (root q ! ?p)) e ?p)"
      by (intro "1.IH") auto
    then show ?thesis using True by (subst insert_at.simps) (simp add: Let_def)
  next
    case False
    then have "queue_above q (root q ! ?p) e" if "?p > 0"
      using above_flip(1) [OF "1.prems"(1), of e "root q ! ?p"] that by auto
    then have "heap_from 1 (put_at q idx e)"
      using hole_up_fill [OF "1.prems"(2)] "1.prems" by auto
    then show ?thesis using False by (subst insert_at.simps) (auto simp: Let_def)
  qed
qed

text \<open>The elements: the loop permutes the cells with the element in the hole.\<close>

lemma insert_at_mset:
  assumes "1 \<le> idx" "idx < n" "n \<le> length (root q)"
  shows "mset (take n (root (insert_at q e idx))) = mset (take n ((root q)[idx := e])) \<and>
         root (insert_at q e idx) ! 0 = root q ! 0"
  using assms
proof (induction q e idx rule: insert_at.induct)
  case (1 q e idx)
  let ?p = "idx div 2"
  show ?case
  proof (cases "?p > 0 \<and> compare q e (root q ! ?p) * max_at_top q < 0")
    case True
    have "?p < idx" using "1.prems" by auto
    then have "mset (take n (root (insert_at (put_at q idx (root q ! ?p)) e ?p))) =
               mset (take n ((root q)[idx := root q ! ?p, ?p := e])) \<and>
               root (insert_at (put_at q idx (root q ! ?p)) e ?p) ! 0 = root q ! 0"
      using "1.IH" [OF refl True] True "1.prems" by auto
    moreover have "mset (take n ((root q)[idx := root q ! ?p, ?p := e])) = mset (take n ((root q)[idx := e]))"
      using "1.prems" \<open>?p < idx\<close> by (intro mset_take_move_hole) auto
    moreover have "insert_at q e idx = insert_at (put_at q idx (root q ! ?p)) e ?p"
      using True by (subst insert_at.simps) (simp add: Let_def)
    ultimately show ?thesis by simp
  next
    case False
    then have "insert_at q e idx = put_at q idx e"
      by (subst insert_at.simps) (auto simp: Let_def)
    then show ?thesis using "1.prems" by simp
  qed
qed

text \<open>The stored positions: every cell but the hole is in step with its element.\<close>

definition hole_pos :: "'e QUEUE \<Rightarrow> nat \<Rightarrow> 'e \<Rightarrow> bool" where
  "hole_pos q idx e \<longleftrightarrow> offset_to_queue_pos q \<noteq> 0 \<longrightarrow>
     (\<forall>i\<in>{1..elements q} - {idx}. queue_pos q (root q ! i) = i \<and> root q ! i \<noteq> e)"

lemma hole_pos_step:
  assumes h: "hole_pos q idx e" and p: "p \<in> {1..elements q} - {idx}" and len: "elements q < length (root q)"
  shows "hole_pos (put_at q idx (root q ! p)) p e"
  unfolding hole_pos_def
proof (intro impI ballI)
  fix i assume off: "offset_to_queue_pos (put_at q idx (root q ! p)) \<noteq> 0"
    and i: "i \<in> {1..elements (put_at q idx (root q ! p))} - {p}"
  have "(root q)[idx := root q ! p] ! i = (if idx = i then root q ! p else root q ! i)"
    using i len by (auto intro: nth_upd)
  moreover have "queue_pos q (root q ! j) = j" "root q ! j \<noteq> e" if "j \<in> {1..elements q} - {idx}" for j
    using h off that by (auto simp: hole_pos_def)
  ultimately show "queue_pos (put_at q idx (root q ! p)) (root (put_at q idx (root q ! p)) ! i) = i \<and>
      root (put_at q idx (root q ! p)) ! i \<noteq> e"
    using i p off by (cases "idx = i") (auto simp: put_at_def, metis Diff_iff atLeastAtMost_iff One_nat_def singletonD)
qed

lemma hole_pos_fill:
  assumes h: "hole_pos q idx e" and len: "elements q < length (root q)"
  shows "pos_ok (put_at q idx e)"
  unfolding pos_ok_def
proof (intro impI ballI)
  fix i assume off: "offset_to_queue_pos (put_at q idx e) \<noteq> 0" and i: "i \<in> {1..elements (put_at q idx e)}"
  have "(root q)[idx := e] ! i = (if idx = i then e else root q ! i)"
    using i len by (auto intro: nth_upd)
  with h i off show "queue_pos (put_at q idx e) (root (put_at q idx e) ! i) = i"
    by (auto simp: put_at_def hole_pos_def)
qed

lemma insert_at_pos:
  assumes "hole_pos q idx e" "1 \<le> idx" "idx \<le> Suc (elements q)" "elements q < length (root q)"
  shows "pos_ok (insert_at q e idx)"
  using assms
proof (induction q e idx rule: insert_at.induct)
  case (1 q e idx)
  let ?p = "idx div 2"
  show ?case
  proof (cases "?p > 0 \<and> compare q e (root q ! ?p) * max_at_top q < 0")
    case True
    have "hole_pos (put_at q idx (root q ! ?p)) ?p e"
      using True "1.prems" by (intro hole_pos_step) auto
    with True "1.prems" have "pos_ok (insert_at (put_at q idx (root q ! ?p)) e ?p)"
      by (intro "1.IH") auto
    then show ?thesis using True by (subst insert_at.simps) (simp add: Let_def)
  next
    case False
    then show ?thesis using hole_pos_fill "1.prems" by (subst insert_at.simps) (auto simp: Let_def)
  qed
qed

subsection \<open>Moving a hole down\<close>

definition gap :: "nat \<Rightarrow> 'e QUEUE \<Rightarrow> nat \<Rightarrow> bool" where
  "gap l q idx \<longleftrightarrow>
     (\<forall>c. 2 \<le> c \<and> c \<le> elements q \<and> l \<le> c div 2 \<and> c \<noteq> idx \<and> c div 2 \<noteq> idx \<longrightarrow>
          queue_above q (root q ! (c div 2)) (root q ! c)) \<and>
     (l \<le> idx div 2 \<longrightarrow> (\<forall>c. c \<le> elements q \<and> c div 2 = idx \<longrightarrow>
          queue_above q (root q ! (idx div 2)) (root q ! c)))"

lemma gap_edge:
  "gap l q idx \<Longrightarrow> 2 \<le> c \<Longrightarrow> c \<le> elements q \<Longrightarrow> l \<le> c div 2 \<Longrightarrow> c \<noteq> idx \<Longrightarrow> c div 2 \<noteq> idx \<Longrightarrow>
   queue_above q (root q ! (c div 2)) (root q ! c)"
  by (simp add: gap_def)

lemma next_child_range:
  assumes "1 \<le> idx" "idx \<le> elements q div 2"
  shows "next_child q idx div 2 = idx" "idx < next_child q idx" "next_child q idx \<le> elements q"
  using assms by (auto simp: next_child_def Let_def)

lemma next_child_above:
  assumes ord: "queue_order q" and c: "c div 2 = idx" "c \<le> elements q" "1 \<le> idx"
  shows "queue_above q (root q ! next_child q idx) (root q ! c)"
proof -
  have refl: "queue_above q x x" for x using above_total [OF ord] by blast
  have "c = idx + idx \<or> c = idx + idx + 1" using c by presburger
  then show ?thesis
    using c refl above_flip(3) [OF ord] above_total [OF ord, of "root q ! (idx + idx)"]
    by (auto simp: next_child_def Let_def)
qed

lemma gap_step:
  assumes ord: "queue_order q" and g: "gap l q idx"
    and idx: "1 \<le> idx" "idx \<le> elements q div 2" "elements q < length (root q)" "1 \<le> l" "l \<le> idx"
  shows "gap l (put_at q idx (root q ! next_child q idx)) (next_child q idx)"
proof -
  let ?k = "next_child q idx"
  note k = next_child_range [OF idx(1,2)]
  have r: "(root q)[idx := root q ! ?k] ! i = (if i = idx then root q ! ?k else root q ! i)"
    if "i \<le> elements q" for i
    using that idx by (simp add: nth_upd)
  have par: "queue_above q (root q ! (idx div 2)) (root q ! ?k)" if "l \<le> idx div 2"
    using g that k by (simp add: gap_def)
  show ?thesis
    unfolding gap_def
  proof (intro conjI allI impI, goal_cases)
    case (1 c)
    then have c: "c \<le> elements q" "c div 2 \<le> elements q" "c \<noteq> ?k" "c div 2 \<noteq> c" by auto
    consider "c = idx" | "c \<noteq> idx" "c div 2 = idx" | "c \<noteq> idx" "c div 2 \<noteq> idx" by blast
    then show ?case
      using 1 c idx by cases (simp_all add: r par next_child_above [OF ord] gap_edge [OF g])
  next
    case (2 c)
    then have "c \<noteq> idx" "2 \<le> c" "c div 2 \<noteq> idx" "idx \<le> elements q" using k idx by auto
    with 2 k idx show ?case
      using gap_edge [OF g, of c] by (simp add: r)
  qed
qed

lemma downheap_loop_heap:
  assumes "queue_order q" "gap l q idx" "1 \<le> l" "l \<le> idx" "idx \<le> elements q"
    "elements q < length (root q)"
    "l \<le> idx div 2 \<longrightarrow> queue_above q (root q ! (idx div 2)) e"
  shows "heap_from l (downheap_loop q e idx)"
  using assms
proof (induction q e idx rule: downheap_loop.induct)
  case (1 q e idx)
  note ord = "1.prems"(1)
  let ?k = "next_child q idx"
  show ?case
  proof (cases "0 < idx \<and> idx \<le> elements q div 2 \<and> \<not> compare q (root q ! ?k) e * max_at_top q \<ge> 0")
    case True
    then have idx: "1 \<le> idx" "idx \<le> elements q div 2" by auto
    note k = next_child_range [OF idx]
    from True have "queue_above q (root q ! ?k) e"
      using above_flip(2) [OF ord] above_total [OF ord] by blast
    with True k "1.prems" gap_step [OF ord "1.prems"(2) idx]
    have "heap_from l (downheap_loop (put_at q idx (root q ! ?k)) e ?k)"
      by (intro "1.IH") auto
    with True show ?thesis by (subst downheap_loop.simps) simp
  next
    case False
    have child: "queue_above q e (root q ! c)" if "c div 2 = idx" "c \<le> elements q" for c
    proof -
      have "0 < idx" "idx \<le> elements q div 2" using that "1.prems" by auto
      with False have "queue_above q e (root q ! ?k)" using above_flip(2) [OF ord] by blast
      then show ?thesis
        using above_trans [OF ord] next_child_above [OF ord that] \<open>0 < idx\<close> by auto
    qed
    have "heap_from l (put_at q idx e)"
      unfolding heap_from_def
    proof (intro allI impI, goal_cases)
      case (1 c)
      then have c: "c \<le> elements q" "c div 2 \<le> elements q" "c div 2 \<noteq> c" by auto
      have r: "(root q)[idx := e] ! i = (if i = idx then e else root q ! i)" if "i \<le> elements q" for i
        using that "1.prems"(6) by (simp add: nth_upd)
      consider "c = idx" | "c \<noteq> idx" "c div 2 = idx" | "c \<noteq> idx" "c div 2 \<noteq> idx" by blast
      then show ?case
        using 1 c "1.prems"(7) by cases (simp_all add: r child gap_edge [OF "1.prems"(2)])
    qed
    with False show ?thesis by (subst downheap_loop.simps) auto
  qed
qed

lemma downheap_heap:
  assumes "queue_order q" "heap_from (Suc idx) q" "1 \<le> idx" "idx \<le> elements q" "elements q < length (root q)"
  shows "heap_from idx (downheap q idx)"
  unfolding downheap_def
proof (rule downheap_loop_heap)
  show "gap idx q idx"
    unfolding gap_def
  proof (intro conjI allI impI, goal_cases)
    case (1 c)
    then show ?case using assms(2) by (auto simp: heap_from_def)
  qed (use assms in auto)
qed (use assms in auto)

lemma downheap_loop_mset:
  assumes "1 \<le> idx" "idx \<le> elements q" "n = Suc (elements q)" "n \<le> length (root q)"
  shows "mset (take n (root (downheap_loop q e idx))) = mset (take n ((root q)[idx := e])) \<and>
         root (downheap_loop q e idx) ! 0 = root q ! 0"
  using assms
proof (induction q e idx rule: downheap_loop.induct)
  case (1 q e idx)
  let ?k = "next_child q idx"
  show ?case
  proof (cases "0 < idx \<and> idx \<le> elements q div 2 \<and> \<not> compare q (root q ! ?k) e * max_at_top q \<ge> 0")
    case True
    then have k: "?k div 2 = idx" "idx < ?k" "?k \<le> elements q"
      using next_child_range [of idx q] by auto
    have "mset (take n (root (downheap_loop (put_at q idx (root q ! ?k)) e ?k))) =
          mset (take n ((root q)[idx := root q ! ?k, ?k := e])) \<and>
          root (downheap_loop (put_at q idx (root q ! ?k)) e ?k) ! 0 = root q ! 0"
      using "1.IH" [OF True] k "1.prems" by auto
    moreover have "mset (take n ((root q)[idx := root q ! ?k, ?k := e])) = mset (take n ((root q)[idx := e]))"
      using "1.prems" k by (intro mset_take_move_hole) auto
    moreover have "downheap_loop q e idx = downheap_loop (put_at q idx (root q ! ?k)) e ?k"
      using True by (subst downheap_loop.simps) simp
    ultimately show ?thesis by simp
  next
    case False
    then have "downheap_loop q e idx = put_at q idx e"
      by (subst downheap_loop.simps) auto
    then show ?thesis using "1.prems" by simp
  qed
qed

lemma downheap_loop_pos:
  assumes "hole_pos q idx e" "1 \<le> idx" "idx \<le> elements q" "elements q < length (root q)"
  shows "pos_ok (downheap_loop q e idx)"
  using assms
proof (induction q e idx rule: downheap_loop.induct)
  case (1 q e idx)
  let ?k = "next_child q idx"
  show ?case
  proof (cases "0 < idx \<and> idx \<le> elements q div 2 \<and> \<not> compare q (root q ! ?k) e * max_at_top q \<ge> 0")
    case True
    then have k: "idx < ?k" "?k \<le> elements q" using next_child_range [of idx q] by auto
    then have "hole_pos (put_at q idx (root q ! ?k)) ?k e"
      using "1.prems" by (intro hole_pos_step) auto
    with True k "1.prems" have "pos_ok (downheap_loop (put_at q idx (root q ! ?k)) e ?k)"
      by (intro "1.IH") auto
    with True show ?thesis by (subst downheap_loop.simps) simp
  next
    case False
    then show ?thesis using hole_pos_fill "1.prems" by (subst downheap_loop.simps) auto
  qed
qed

subsection \<open>The loop of queue\_replace\<close>

lemma gap_hole_up:
  assumes "gap 1 q idx" "\<And>c. c \<le> elements q \<Longrightarrow> c div 2 = idx \<Longrightarrow> queue_above q e (root q ! c)"
  shows "hole_up q idx e"
  unfolding hole_up_def
proof (intro conjI allI impI, goal_cases)
  case (1 c)
  then have "1 \<le> c div 2" by auto
  then show ?case using 1 gap_edge [OF assms(1)] by auto
next
  case (2 c)
  then show ?case using assms(2) by auto
next
  case (3 c)
  then have "1 \<le> idx div 2" by auto
  then show ?case using 3 assms(1) by (auto simp: gap_def)
qed

lemma hole_up_put_at:
  assumes "hole_up q idx e" "1 \<le> idx" "elements q < length (root q)"
  shows "hole_up (put_at q idx x) idx e"
proof -
  have r: "(root q)[idx := x] ! i = root q ! i" if "i \<noteq> idx" for i
    using that by simp
  have ne: "c \<noteq> idx" if "c div 2 = idx" for c using that assms(2) by auto
  have d: "idx div 2 \<noteq> idx" using assms(2) by auto
  show ?thesis
    unfolding hole_up_def
  proof (intro conjI allI impI, goal_cases)
    case (1 c)
    then show ?case using hole_up_edge [OF assms(1), of c] by simp
  next
    case (2 c)
    then show ?case using ne [of c] hole_up_child(1) [OF assms(1), of c] by simp
  next
    case (3 c)
    then show ?case using ne [of c] d hole_up_child(2) [OF assms(1), of c] by simp
  qed
qed

definition replace_post :: "'e QUEUE \<Rightarrow> 'e \<Rightarrow> nat \<Rightarrow> 'e QUEUE \<times> nat \<Rightarrow> bool" where
  "replace_post q e idx res \<longleftrightarrow>
     (case res of (q', i) \<Rightarrow>
        same_frame q q' \<and> 1 \<le> i \<and> i \<le> elements q \<and> hole_up q' i e \<and>
        (hole_pos q idx e \<longrightarrow> hole_pos q' i e) \<and>
        mset (take (Suc (elements q)) ((root q')[i := e])) =
          mset (take (Suc (elements q)) ((root q)[idx := e])) \<and>
        root q' ! 0 = root q ! 0)"

lemma replace_loop_post:
  assumes "queue_order q" "gap 1 q idx" "1 \<le> idx" "idx \<le> elements q" "elements q < length (root q)"
  shows "replace_post q e idx (queue_replace_loop q e idx first)"
  using assms
proof (induction q e idx first rule: queue_replace_loop.induct)
  case (1 q e idx first)
  note ord = "1.prems"(1) and g = "1.prems"(2)
  let ?k = "next_child q idx" and ?n = "Suc (elements q)"
  consider (leaf) "\<not> idx \<le> elements q div 2"
    | (stop) "idx \<le> elements q div 2" "first" "compare q (root q ! ?k) e * max_at_top q \<ge> 0"
    | (down) "idx \<le> elements q div 2" "\<not> (first \<and> compare q (root q ! ?k) e * max_at_top q \<ge> 0)"
    by blast
  then show ?case
  proof cases
    case leaf
    then have "hole_up q idx e" by (intro gap_hole_up [OF g]) auto
    moreover have "queue_replace_loop q e idx first = (q, idx)"
      using leaf by (subst queue_replace_loop.simps) simp
    ultimately show ?thesis using "1.prems" by (simp add: replace_post_def same_frame_def)
  next
    case stop
    then have "queue_above q e (root q ! ?k)" using above_flip(2) [OF ord] by blast
    then have "queue_above q e (root q ! c)" if "c \<le> elements q" "c div 2 = idx" for c
      using above_trans [OF ord] next_child_above [OF ord that(2,1)] "1.prems"(3) by blast
    then have "hole_up (put_at q idx e) idx e"
      using "1.prems" by (intro hole_up_put_at gap_hole_up [OF g]) auto
    moreover have "hole_pos q idx e \<longrightarrow> hole_pos (put_at q idx e) idx e"
      by (auto simp: hole_pos_def put_at_def)
    moreover have "queue_replace_loop q e idx first = (put_at q idx e, idx)"
      using stop "1.prems" by (subst queue_replace_loop.simps) simp
    ultimately show ?thesis using "1.prems" by (simp add: replace_post_def)
  next
    case down
    let ?q = "put_at q idx (root q ! ?k)"
    have idx: "0 < idx \<and> idx \<le> elements q div 2" using down "1.prems" by auto
    have k: "idx < ?k" "?k \<le> elements q" using next_child_range [of idx q] idx by auto
    have "replace_post ?q e ?k (queue_replace_loop ?q e ?k False)"
      using "1.IH" [OF idx down(2)] gap_step [OF ord g] idx k "1.prems" by auto
    moreover have "mset (take ?n ((root q)[idx := root q ! ?k, ?k := e])) = mset (take ?n ((root q)[idx := e]))"
      using "1.prems" k by (intro mset_take_move_hole) auto
    moreover have "hole_pos q idx e \<longrightarrow> hole_pos ?q ?k e"
      using k "1.prems" by (auto intro!: hole_pos_step)
    moreover have "queue_replace_loop q e idx first = queue_replace_loop ?q e ?k False"
      using idx down by (subst queue_replace_loop.simps) auto
    ultimately show ?thesis using "1.prems" by (auto simp: replace_post_def)
  qed
qed

subsection \<open>The operations keep the invariant\<close>

lemma queue_mset_take:
  assumes "elements q < length (root q)"
  shows "mset (take (Suc (elements q)) (root q)) = add_mset (root q ! 0) (queue_mset q)"
  using assms by (cases "root q") (auto simp: queue_mset_def)

lemma queue_mset_eqI:
  assumes "mset (take (Suc (elements q)) (root q')) = mset (take (Suc (elements q)) xs)"
    "root q' ! 0 = xs ! 0" "elements q' = elements q" "elements q < length (root q')" "elements q < length xs"
  shows "queue_mset q' = mset (take (elements q) (tl xs))"
  using assms by (cases "root q'"; cases xs) (auto simp: queue_mset_def)

lemma queue_mset_in: "x \<in># queue_mset q \<Longrightarrow> queue_wf q \<Longrightarrow> \<exists>i\<in>{1..elements q}. x = root q ! i"
  by (auto simp: queue_mset_def queue_wf_def in_set_conv_nth nth_tl intro!: bexI [of _ "Suc _"])

lemma queue_mset_nth: "i \<in> {1..elements q} \<Longrightarrow> queue_wf q \<Longrightarrow> root q ! i \<in># queue_mset q"
  by (cases i) (auto simp: queue_mset_def queue_wf_def in_set_conv_nth nth_tl intro!: exI [of _ "i - 1"])

lemma queue_order_cong:
  "compare q' = compare q \<Longrightarrow> max_at_top q' = max_at_top q \<Longrightarrow> queue_order q' = queue_order q"
  by (simp only: queue_order_def)

lemma same_frame_facts:
  assumes "same_frame q q'"
  shows "queue_wf q' = queue_wf q" "queue_order q' = queue_order q" "queue_above q' = queue_above q"
  using assms by (simp_all add: same_frame_def queue_wf_def queue_order_cong [of q' q] queue_above_def fun_eq_iff)

lemma pos_ok_inj:
  assumes "pos_ok q" "offset_to_queue_pos q \<noteq> 0" "i \<in> {1..elements q}" "j \<in> {1..elements q}"
    "root q ! i = root q ! j"
  shows "i = j"
  using assms unfolding pos_ok_def by metis

lemma pos_ok_hole_pos:
  assumes "pos_ok q" "idx \<in> {1..elements q}"
  shows "hole_pos q idx (root q ! idx)"
  unfolding hole_pos_def
proof (intro impI ballI conjI)
  fix i assume i: "offset_to_queue_pos q \<noteq> 0" "i \<in> {1..elements q} - {idx}"
  then show "queue_pos q (root q ! i) = i" using assms by (auto simp: pos_ok_def)
  show "root q ! i \<noteq> root q ! idx" using pos_ok_inj [OF assms(1) i(1), of i idx] i assms(2) by auto
qed

text \<open>
  \<^verbatim>\<open>queue_replace()\<close>: only the key of the element in cell \<open>idx\<close> may have changed.
\<close>

lemma queue_replace_inv:
  assumes wf: "queue_wf q" and ord: "queue_order q" and g: "gap 1 q idx"
    and hp: "hole_pos q idx (root q ! idx)" and idx: "1 \<le> idx" "idx \<le> elements q"
  shows "queue_inv (queue_replace q idx) \<and> queue_mset (queue_replace q idx) = queue_mset q \<and>
         same_frame q (queue_replace q idx)"
proof -
  let ?e = "root q ! idx" and ?n = "Suc (elements q)"
  have len: "elements q < length (root q)" using wf by (simp add: queue_wf_def)
  obtain q' i where qi: "queue_replace_loop q ?e idx True = (q', i)" by fastforce
  have post: "same_frame q q'" "1 \<le> i" "i \<le> elements q" "hole_up q' i ?e" "hole_pos q' i ?e"
    "mset (take ?n ((root q')[i := ?e])) = mset (take ?n (root q))" "root q' ! 0 = root q ! 0"
    using replace_loop_post [OF ord g idx len, of ?e True] hp qi by (auto simp: replace_post_def)
  have fr: "elements q' = elements q" "length (root q') = length (root q)"
    using post(1) by (auto simp: same_frame_def)
  let ?r = "insert_at q' ?e i"
  have frame: "same_frame q ?r"
    using insert_at_frame [of q' ?e i] post(1) by (simp add: same_frame_def)
  have "heap_from 1 ?r"
    using insert_at_heap [of q' i ?e] post ord fr len same_frame_facts [OF post(1)] by auto
  moreover have "pos_ok ?r"
    using insert_at_pos [OF post(5)] post fr len by auto
  moreover have "mset (take ?n (root ?r)) = mset (take ?n (root q)) \<and> root ?r ! 0 = root q ! 0"
    using insert_at_mset [of i ?n q' ?e] post fr len by auto
  then have "queue_mset ?r = queue_mset q"
    using queue_mset_eqI [of q ?r "root q"] len frame by (simp add: queue_mset_def same_frame_def)
  ultimately show ?thesis
    using wf ord frame same_frame_facts [OF frame] qi by (simp add: queue_replace_def queue_inv_def)
qed

text \<open>\<^verbatim>\<open>queue_insert()\<close> adds one element that is not in the queue yet.\<close>

lemma queue_insert_inv:
  assumes inv: "queue_inv q" and new: "offset_to_queue_pos q \<noteq> 0 \<Longrightarrow> e \<notin># queue_mset q"
    and ins: "queue_insert q e = Some q'"
  shows "queue_inv q' \<and> queue_mset q' = add_mset e (queue_mset q) \<and> elements q' = elements q + 1 \<and>
         max_elements q' = max_elements q \<and> compare q' = compare q \<and> max_at_top q' = max_at_top q \<and>
         offset_to_queue_pos q' = offset_to_queue_pos q \<and> auto_extent q' = auto_extent q"
proof -
  let ?i = "elements q + 1" and ?q = "q\<lparr>elements := elements q + 1\<rparr>"
  have full: "elements q < max_elements q" and q': "q' = insert_at ?q e ?i"
    using ins by (auto simp: queue_insert_def split: if_splits)
  have wf: "queue_wf q" "queue_order q" "heap_from 1 q" "pos_ok q" using inv by (auto simp: queue_inv_def)
  have ord: "queue_order ?q" using wf(2) queue_order_cong [of ?q q] by simp
  have len: "?i < length (root q)" using wf full by (simp add: queue_wf_def)
  have "hole_up ?q ?i e"
    using wf(3) by (auto simp: hole_up_def heap_from_def queue_above_def)
  then have "heap_from 1 q'"
    using insert_at_heap [OF ord] len q' by simp
  moreover have "hole_pos ?q ?i e"
    using wf new queue_mset_nth [OF _ wf(1)] by (auto simp: hole_pos_def pos_ok_def)
  then have "pos_ok q'" using insert_at_pos [of ?q ?i e] len q' by simp
  moreover have frame: "same_frame ?q q'" using insert_at_frame q' by simp
  moreover have "queue_mset q' = add_mset e (queue_mset q)"
  proof -
    have "queue_mset q' = mset (take ?i (tl ((root q)[?i := e])))"
      using insert_at_mset [of ?i "Suc ?i" ?q e] len q' frame
        queue_mset_eqI [of ?q q' "(root q)[?i := e]"] by (simp add: same_frame_def)
    also have "take ?i (tl ((root q)[?i := e])) = take (elements q) (tl (root q)) @ [e]"
      using len by (cases "root q") (auto simp: take_Suc_conv_app_nth)
    finally show ?thesis by (simp add: queue_mset_def)
  qed
  moreover have "queue_wf q'" "queue_order q'"
    using same_frame_facts [OF frame] ord wf(1) full by (auto simp: queue_wf_def)
  ultimately show ?thesis by (simp add: queue_inv_def same_frame_def)
qed

lemma heap_from_gap:
  assumes ord: "queue_order q" and heap: "heap_from 1 q" and idx: "1 \<le> idx" "idx \<le> elements q"
  shows "gap 1 q idx"
  unfolding gap_def
proof (intro conjI allI impI, goal_cases)
  case (1 c)
  then show ?case using heap by (auto simp: heap_from_def)
next
  case (2 c)
  have "queue_above q (root q ! (idx div 2)) (root q ! idx)"
    using heap idx 2 by (auto simp: heap_from_def)
  moreover have "queue_above q (root q ! idx) (root q ! c)"
  proof -
    have "2 \<le> c" "1 \<le> c div 2" using 2 idx by auto
    then show ?thesis using heap 2 by (auto simp: heap_from_def)
  qed
  ultimately show ?case by (rule above_trans [OF ord])
qed

lemma gap_cong:
  assumes "gap l q idx" "compare q' = compare q" "max_at_top q' = max_at_top q" "elements q' \<le> elements q"
    "\<And>i. i \<noteq> idx \<Longrightarrow> i \<le> elements q' \<Longrightarrow> root q' ! i = root q ! i" "1 \<le> idx" "idx \<le> elements q'"
  shows "gap l q' idx"
proof -
  have ab: "queue_above q' = queue_above q" using assms(2,3) by (simp add: queue_above_def fun_eq_iff)
  show ?thesis
    unfolding gap_def ab
  proof (intro conjI allI impI, goal_cases)
    case (1 c)
    then have "c \<le> elements q" "c div 2 \<le> elements q'" using assms(4) by auto
    with 1 assms(5) gap_edge [OF assms(1), of c] show ?case by auto
  next
    case (2 c)
    have "c \<noteq> idx" "idx div 2 \<noteq> idx" "idx div 2 \<le> elements q'" "c \<le> elements q"
      using 2 assms(4,6,7) by auto
    with 2 assms(1,5) show ?case by (auto simp: gap_def)
  qed
qed

lemma mset_take_replace_last:
  assumes "j < length ys"
  shows "mset (take (length ys - 1) (ys[j := ys ! (length ys - 1)])) = mset ys - {#ys ! j#}"
proof -
  obtain zs z where ys: "ys = zs @ [z]" using assms by (cases ys rule: rev_cases) auto
  show ?thesis
  proof (cases "j < length zs")
    case True
    then show ?thesis by (simp add: ys nth_append list_update_append mset_update)
  next
    case False
    then have "j = length zs" using assms ys by simp
    then show ?thesis by (simp add: ys)
  qed
qed

lemma queue_mset_shrink:
  assumes "queue_wf q" "1 \<le> idx" "idx \<le> elements q"
  shows "mset (take (elements q - 1) (tl ((root q)[idx := root q ! elements q]))) =
         queue_mset q - {#root q ! idx#}"
proof -
  obtain x xs where r: "root q = x # xs" using assms by (cases "root q") (auto simp: queue_wf_def)
  define ys where "ys = take (elements q) xs"
  have len: "elements q \<le> length xs" using assms r by (simp add: queue_wf_def)
  obtain j where idx: "idx = Suc j" "j < elements q" using assms by (cases idx) auto
  have "take (elements q - 1) (xs[j := xs ! (elements q - 1)]) =
        take (length ys - 1) (ys[j := ys ! (length ys - 1)])"
    using len idx by (simp add: ys_def take_update_swap min_def)
  moreover have "root q ! elements q = xs ! (elements q - 1)" "root q ! idx = ys ! j" "j < length ys"
    using r idx len by (auto simp: ys_def nth_Cons')
  ultimately show ?thesis
    using mset_take_replace_last [of j ys] r idx by (simp add: queue_mset_def ys_def)
qed

lemma queue_remove_inv:
  assumes inv: "queue_inv q" and rem: "queue_remove q idx = Some (e, q')"
  shows "queue_inv q' \<and> e = root q ! idx \<and> e \<in># queue_mset q \<and> queue_mset q' = queue_mset q - {#e#} \<and>
         elements q' = elements q - 1 \<and> max_elements q' = max_elements q \<and> compare q' = compare q \<and>
         max_at_top q' = max_at_top q \<and> offset_to_queue_pos q' = offset_to_queue_pos q \<and>
         auto_extent q' = auto_extent q"
proof -
  let ?n = "elements q" and ?x = "root q ! elements q"
  define q1 where "q1 = q\<lparr>root := (root q)[idx := ?x], elements := ?n - 1\<rparr>"
  have idx: "1 \<le> idx" "idx \<le> ?n" and e: "e = root q ! idx" and q': "q' = queue_replace q1 idx"
    using rem by (auto simp: queue_remove_def q1_def split: if_splits)
  have wf: "queue_wf q" "queue_order q" "heap_from 1 q" "pos_ok q" using inv by (auto simp: queue_inv_def)
  have len: "?n < length (root q)" using wf by (simp add: queue_wf_def)
  have wf1: "queue_wf q1" using wf by (auto simp: queue_wf_def q1_def)
  have ord1: "queue_order q1" using wf queue_order_cong [of q1 q] by (simp add: q1_def)
  have in_q: "e \<in># queue_mset q" using queue_mset_nth [OF _ wf(1)] idx e by auto
  have ms1: "queue_mset q1 = queue_mset q - {#e#}"
    using queue_mset_shrink [OF wf(1) idx] e by (simp add: queue_mset_def q1_def)
  have "queue_inv q' \<and> queue_mset q' = queue_mset q1 \<and> same_frame q1 q'"
  proof (cases "idx < ?n")
    case True
    have g: "gap 1 q1 idx"
      using gap_cong [OF heap_from_gap [OF wf(2,3) idx], of q1] True idx by (simp add: q1_def)
    have "hole_pos q1 idx ?x"
      unfolding hole_pos_def
    proof (intro impI ballI)
      fix i assume off: "offset_to_queue_pos q1 \<noteq> 0" and "i \<in> {1..elements q1} - {idx}"
      then have i: "1 \<le> i" "i < ?n" "i \<noteq> idx" by (auto simp: q1_def)
      then have "root q ! i \<noteq> ?x" using off pos_ok_inj [OF wf(4), of i ?n] by (auto simp: q1_def)
      then show "queue_pos q1 (root q1 ! i) = i \<and> root q1 ! i \<noteq> ?x"
        using wf(4) off i by (auto simp: q1_def pos_ok_def)
    qed
    then show ?thesis
      using queue_replace_inv [OF wf1 ord1 g] True idx len q' by (auto simp: q1_def)
  next
    case False
    then have n: "idx = ?n" using idx by simp
    have r: "root q1 = root q" using n by (simp add: q1_def)
    have top: "queue_above q1 (root q ! (idx div 2)) ?x" if "idx div 2 > 0"
    proof -
      have "2 \<le> ?n" using that n by auto
      then show ?thesis using wf(3) that n by (auto simp: heap_from_def queue_above_def q1_def)
    qed
    have "queue_replace_loop q1 (root q1 ! idx) idx True = (q1, idx)"
      using n idx by (subst queue_replace_loop.simps) (auto simp: q1_def)
    then have "q' = put_at q1 idx ?x"
      using q' r n top above_flip(1) [OF ord1, of ?x "root q ! (idx div 2)"]
      by (simp add: queue_replace_def) (subst insert_at.simps, auto simp: Let_def)
    moreover have "put_at q1 idx ?x = q1\<lparr>queue_pos := queue_pos (put_at q1 idx ?x)\<rparr>"
      using r n by (simp add: put_at_def)
    moreover have "heap_from 1 q1" using wf(3) r by (auto simp: heap_from_def queue_above_def q1_def)
    moreover have "pos_ok (put_at q1 idx ?x)"
    proof -
      have sub: "{1..elements q1} - {idx} \<subseteq> {1..?n} - {?n}" using n by (auto simp: q1_def)
      have "hole_pos q ?n ?x" using pos_ok_hole_pos [OF wf(4), of ?n] n idx by auto
      then have "hole_pos q1 idx ?x" using sub r unfolding hole_pos_def by (auto simp: q1_def)
      then show ?thesis using len r by (intro hole_pos_fill) (auto simp: q1_def)
    qed
    ultimately show ?thesis
      using wf1 ord1 queue_order_cong [of q' q1]
      by (auto simp: queue_inv_def heap_from_def queue_above_def queue_wf_def queue_mset_def
          same_frame_def r n)
  qed
  then show ?thesis using in_q e ms1 by (auto simp: same_frame_def q1_def)
qed

lemma downheap_inv_step:
  assumes wf: "queue_wf q" and ord: "queue_order q" and heap: "heap_from (Suc idx) q" and pos: "pos_ok q"
    and idx: "1 \<le> idx" "idx \<le> elements q"
  shows "queue_wf (downheap q idx)" "queue_order (downheap q idx)" "heap_from idx (downheap q idx)"
    "pos_ok (downheap q idx)" "queue_mset (downheap q idx) = queue_mset q"
    "same_frame q (downheap q idx)"
proof -
  have len: "elements q < length (root q)" using wf by (simp add: queue_wf_def)
  show fr: "same_frame q (downheap q idx)" by (rule downheap_frame)
  show "queue_wf (downheap q idx)" "queue_order (downheap q idx)"
    using same_frame_facts [OF fr] wf ord by auto
  show "heap_from idx (downheap q idx)" by (rule downheap_heap [OF ord heap idx len])
  show "pos_ok (downheap q idx)"
    using downheap_loop_pos [OF pos_ok_hole_pos [OF pos]] idx len by (auto simp: downheap_def)
  show "queue_mset (downheap q idx) = queue_mset q"
    using downheap_loop_mset [OF idx refl, of "root q ! idx"] len fr
      queue_mset_eqI [of q "downheap q idx" "root q"]
    by (simp add: downheap_def same_frame_def queue_mset_def)
qed

lemma queue_fix_loop_inv:
  assumes "queue_wf q" "queue_order q" "heap_from (Suc i) q" "pos_ok q" "i \<le> elements q"
  shows "queue_inv (queue_fix_loop q i) \<and> queue_mset (queue_fix_loop q i) = queue_mset q \<and>
         same_frame q (queue_fix_loop q i)"
  using assms
proof (induction i arbitrary: q)
  case 0
  then show ?case by (simp add: queue_inv_def same_frame_def)
next
  case (Suc i)
  note d = downheap_inv_step [OF Suc.prems(1-4), simplified]
  have "elements (downheap q (Suc i)) = elements q" using downheap_frame [of q "Suc i"] by (simp add: same_frame_def)
  with d Suc.prems have "queue_inv (queue_fix_loop (downheap q (Suc i)) i) \<and>
      queue_mset (queue_fix_loop (downheap q (Suc i)) i) = queue_mset (downheap q (Suc i)) \<and>
      same_frame (downheap q (Suc i)) (queue_fix_loop (downheap q (Suc i)) i)"
    by (intro Suc.IH) auto
  with d Suc.prems show ?case by (auto simp: same_frame_def)
qed

text \<open>\<^verbatim>\<open>queue_fix()\<close> builds a heap from cells in any order.\<close>

lemma queue_fix_inv:
  assumes "queue_wf q" "queue_order q" "pos_ok q"
  shows "queue_inv (queue_fix q) \<and> queue_mset (queue_fix q) = queue_mset q \<and> same_frame q (queue_fix q)"
  unfolding queue_fix_def
  by (rule queue_fix_loop_inv) (use assms in \<open>auto simp: heap_from_def\<close>)

text \<open>\<^verbatim>\<open>queue_replace_top()\<close>: only the key of the top element may have changed.\<close>

lemma queue_replace_top_inv:
  assumes "queue_wf q" "queue_order q" "heap_from 2 q" "pos_ok q" "elements q \<noteq> 0"
  shows "queue_inv (queue_replace_top q) \<and> queue_mset (queue_replace_top q) = queue_mset q"
  using downheap_inv_step [of q 1] assms by (simp add: queue_replace_top_def queue_inv_def numeral_2_eq_2)

lemma heap_top_above:
  assumes "queue_order q" "heap_from 1 q" "1 \<le> i" "i \<le> elements q"
  shows "queue_above q (root q ! 1) (root q ! i)"
  using assms(3,4)
proof (induction i rule: less_induct)
  case (less i)
  have refl: "queue_above q x x" for x using above_total [OF assms(1)] by blast
  show ?case
  proof (cases "i = 1")
    case False
    then have i: "2 \<le> i" "1 \<le> i div 2" "i div 2 < i" using less.prems by auto
    then have "queue_above q (root q ! 1) (root q ! (i div 2))" using less by auto
    moreover have "queue_above q (root q ! (i div 2)) (root q ! i)"
      using assms(2) i less.prems by (auto simp: heap_from_def)
    ultimately show ?thesis by (rule above_trans [OF assms(1)])
  qed (simp add: refl)
qed

lemma queue_top_least:
  assumes inv: "queue_inv q" and x: "x \<in># queue_mset q"
  shows "queue_top q \<in># queue_mset q \<and> queue_above q (queue_top q) x"
proof -
  have wf: "queue_wf q" "queue_order q" "heap_from 1 q" using inv by (auto simp: queue_inv_def)
  obtain i where i: "i \<in> {1..elements q}" "x = root q ! i" using queue_mset_in [OF x wf(1)] by blast
  then show ?thesis
    using heap_top_above [OF wf(2,3), of i] queue_mset_nth [of 1 q] wf(1) by (auto simp: queue_top_def)
qed

text \<open>
  The allocator: a new block has the length asked for, a resized one keeps what fits of the
  old contents.
\<close>

definition realloc_ok :: "'e realloc \<Rightarrow> bool" where
  "realloc_ok my_realloc \<longleftrightarrow>
     (\<forall>xs n ys. my_realloc xs n = Some ys \<longrightarrow>
        length ys = n \<and> take (min n (length xs)) ys = take (min n (length xs)) xs)"

lemma resize_queue_inv:
  assumes inv: "queue_inv q" and ok: "realloc_ok my_realloc"
    and grow: "elements q \<le> n" and width: "n + 1 < 2 ^ 32" and res: "resize_queue my_realloc q n = (rc, q')"
  shows "queue_inv q' \<and> queue_mset q' = queue_mset q \<and> elements q' = elements q \<and>
         compare q' = compare q \<and> max_at_top q' = max_at_top q \<and>
         offset_to_queue_pos q' = offset_to_queue_pos q \<and> auto_extent q' = auto_extent q \<and>
         max_elements q' = (if rc = 0 then n else max_elements q)"
proof (cases "my_realloc (root q) (n + 1)")
  case None
  then show ?thesis using res inv width by (auto simp: resize_queue_def split: if_splits)
next
  case (Some ys)
  show ?thesis
  proof (cases "max_elements q = n")
    case True
    then show ?thesis using res inv by (auto simp: resize_queue_def)
  next
    case False
    then have q': "rc = 0" "q' = q\<lparr>elements := elements q, max_elements := n, root := ys\<rparr>"
      using res Some grow width by (auto simp: resize_queue_def min_def)
    have wf: "queue_wf q" using inv by (simp add: queue_inv_def)
    have len: "length ys = n + 1" and pre: "take (min (n + 1) (length (root q))) ys =
        take (min (n + 1) (length (root q))) (root q)"
      using ok Some by (auto simp: realloc_ok_def)
    have same: "ys ! i = root q ! i" if "i \<le> elements q" for i
    proof -
      have "i < min (n + 1) (length (root q))" using that wf grow by (auto simp: queue_wf_def)
      then show ?thesis using pre by (metis nth_take)
    qed
    have "take (Suc (elements q)) ys = take (Suc (elements q)) (root q)"
      using same len wf grow by (intro nth_equalityI) (auto simp: queue_wf_def)
    then have "take (elements q) (tl ys) = take (elements q) (tl (root q))"
      using len wf by (cases ys; cases "root q") (auto simp: queue_wf_def)
    moreover have "queue_order q'" using inv queue_order_cong [of q' q] q' by (simp add: queue_inv_def)
    moreover have "heap_from 1 q'"
      unfolding heap_from_def
    proof (intro allI impI, goal_cases)
      case (1 c)
      then have "c div 2 \<le> elements q" "c \<le> elements q" using q' by auto
      then show ?case using 1 inv q' same by (auto simp: queue_inv_def heap_from_def queue_above_def)
    qed
    moreover have "pos_ok q'" using inv q' same by (auto simp: queue_inv_def pos_ok_def)
    ultimately show ?thesis
      using wf q' len grow by (auto simp: queue_inv_def queue_mset_def queue_wf_def)
  qed
qed

lemma queue_insert_safe_inv:
  assumes inv: "queue_inv q" and ok: "realloc_ok my_realloc"
    and new: "offset_to_queue_pos q \<noteq> 0 \<Longrightarrow> e \<notin># queue_mset q" and width: "max_elements q + auto_extent q + 1 < 2 ^ 32"
  shows "\<exists>rc q'. queue_insert_safe my_realloc q e = Some (rc, q') \<and> queue_inv q' \<and>
           queue_mset q' = (if rc = 0 then add_mset e (queue_mset q) else queue_mset q) \<and>
           compare q' = compare q \<and> max_at_top q' = max_at_top q \<and>
           offset_to_queue_pos q' = offset_to_queue_pos q \<and> auto_extent q' = auto_extent q"
proof -
  have room: "\<exists>q'. queue_insert p e = Some q' \<and> queue_inv q' \<and> queue_mset q' = add_mset e (queue_mset p) \<and>
      compare q' = compare p \<and> max_at_top q' = max_at_top p \<and>
      offset_to_queue_pos q' = offset_to_queue_pos p \<and> auto_extent q' = auto_extent p"
    if "queue_inv p" "elements p < max_elements p" "offset_to_queue_pos p \<noteq> 0 \<Longrightarrow> e \<notin># queue_mset p" for p
    using queue_insert_inv [OF that(1,3)] that(2) by (auto simp: queue_insert_def)
  show ?thesis
  proof (cases "elements q = max_elements q")
    case False
    then have "elements q < max_elements q" using inv by (auto simp: queue_inv_def queue_wf_def)
    from room [OF inv this new] False show ?thesis by (auto simp: queue_insert_safe_def)
  next
    case full: True
    show ?thesis
    proof (cases "auto_extent q = 0")
      case True
      with full inv show ?thesis by (auto simp: queue_insert_safe_def)
    next
      case ext: False
      obtain rc p where p: "resize_queue my_realloc q (max_elements q + auto_extent q) = (rc, p)"
        by fastforce
      note r = resize_queue_inv [OF inv ok _ width p, simplified full, simplified]
      show ?thesis
      proof (cases "rc = 0")
        case True
        then have "elements p < max_elements p" using r ext full by auto
        then obtain q' where "queue_insert p e = Some q'" "queue_inv q'"
          "queue_mset q' = add_mset e (queue_mset p)" "compare q' = compare p"
          "max_at_top q' = max_at_top p" "offset_to_queue_pos q' = offset_to_queue_pos p"
          "auto_extent q' = auto_extent p"
          using room [of p] r new by auto
        then show ?thesis using full ext p True r width by (simp add: queue_insert_safe_def)
      next
        case False
        then show ?thesis using full ext p r width by (auto simp: queue_insert_safe_def)
      qed
    qed
  qed
qed

subsection \<open>The interface a client of the queue relies on\<close>

text \<open>Taking the top element \<open>n\<close> times.\<close>

primrec pop_seq :: "('q \<Rightarrow> ('e \<times> 'q) option) \<Rightarrow> nat \<Rightarrow> 'q \<Rightarrow> 'e list \<times> 'q" where
  "pop_seq pop 0 q = ([], q)"
| "pop_seq pop (Suc n) q =
     (case pop q of
        None \<Rightarrow> ([], q)
      | Some (e, q') \<Rightarrow> (case pop_seq pop n q' of (es, q'') \<Rightarrow> (e # es, q'')))"

locale priority_queue =
  fixes inv :: "'q \<Rightarrow> bool"
    and elems :: "'q \<Rightarrow> 'e multiset"
    and le :: "'q \<Rightarrow> 'e \<Rightarrow> 'e \<Rightarrow> bool"
    and top :: "'q \<Rightarrow> 'e"
    and pop :: "'q \<Rightarrow> ('e \<times> 'q) option"
  assumes top_least: "inv q \<Longrightarrow> x \<in># elems q \<Longrightarrow> top q \<in># elems q \<and> le q (top q) x"
    and pop_some: "inv q \<Longrightarrow> elems q \<noteq> {#} \<Longrightarrow>
      \<exists>q'. pop q = Some (top q, q') \<and> inv q' \<and> elems q' = elems q - {#top q#} \<and> le q' = le q"
    and pop_none: "inv q \<Longrightarrow> elems q = {#} \<Longrightarrow> pop q = None"
begin

lemma pop_seq_elems:
  "inv q \<Longrightarrow> pop_seq pop n q = (es, q') \<Longrightarrow>
   inv q' \<and> mset es + elems q' = elems q \<and> length es = min n (size (elems q)) \<and> le q' = le q"
proof (induction n arbitrary: q es q')
  case 0
  then show ?case by auto
next
  case (Suc n)
  show ?case
  proof (cases "elems q = {#}")
    case True
    then show ?thesis using Suc.prems pop_none by auto
  next
    case False
    then obtain p where p: "pop q = Some (top q, p)" "inv p" "elems p = elems q - {#top q#}" "le p = le q"
      using pop_some [OF Suc.prems(1)] by blast
    obtain fs where fs: "pop_seq pop n p = (fs, q')" "es = top q # fs"
      using Suc.prems(2) p(1) by (auto split: prod.splits)
    have "top q \<in># elems q" using top_least [OF Suc.prems(1)] False by (metis multiset_nonemptyE)
    moreover have "0 < size (elems q)" using False by (simp add: nonempty_has_size)
    ultimately show ?thesis
      using Suc.IH [OF p(2) fs(1)] p fs by (auto simp: size_Diff_singleton)
  qed
qed

lemma pop_seq_sorted:
  "inv q \<Longrightarrow> pop_seq pop n q = (es, q') \<Longrightarrow>
   sorted_wrt (le q) es \<and> (\<forall>e\<in>set es. \<forall>x\<in>#elems q'. le q e x)"
proof (induction n arbitrary: q es q')
  case 0
  then show ?case by auto
next
  case (Suc n)
  show ?case
  proof (cases "elems q = {#}")
    case True
    then show ?thesis using Suc.prems pop_none by auto
  next
    case False
    then obtain p where p: "pop q = Some (top q, p)" "inv p" "elems p = elems q - {#top q#}" "le p = le q"
      using pop_some [OF Suc.prems(1)] by blast
    obtain fs where fs: "pop_seq pop n p = (fs, q')" "es = top q # fs"
      using Suc.prems(2) p(1) by (auto split: prod.splits)
    have IH: "sorted_wrt (le q) fs" "\<forall>e\<in>set fs. \<forall>x\<in>#elems q'. le q e x"
      using Suc.IH [OF p(2) fs(1)] p(4) by auto
    have "mset fs + elems q' = elems p" using pop_seq_elems [OF p(2) fs(1)] by auto
    then have "x \<in># elems q" if "x \<in> set fs \<or> x \<in># elems q'" for x
      using that p(3) by (metis in_diffD set_mset_mset union_iff)
    then have "le q (top q) x" if "x \<in> set fs \<or> x \<in># elems q'" for x
      using that top_least [OF Suc.prems(1)] by blast
    with IH fs(2) show ?thesis by auto
  qed
qed

end

interpretation mdb_queue: priority_queue queue_inv queue_mset queue_above queue_top queue_remove_top
proof
  fix q :: "'a QUEUE" and x
  assume "queue_inv q" "x \<in># queue_mset q"
  then show "queue_top q \<in># queue_mset q \<and> queue_above q (queue_top q) x" by (rule queue_top_least)
next
  fix q :: "'a QUEUE"
  assume inv: "queue_inv q" and ne: "queue_mset q \<noteq> {#}"
  then have "1 \<le> elements q" by (cases "elements q") (auto simp: queue_mset_def)
  then obtain e q' where r: "queue_remove q 1 = Some (e, q')" by (auto simp: queue_remove_def)
  show "\<exists>q'. queue_remove_top q = Some (queue_top q, q') \<and> queue_inv q' \<and>
      queue_mset q' = queue_mset q - {#queue_top q#} \<and> queue_above q' = queue_above q"
    using queue_remove_inv [OF inv r] r
    by (auto simp: queue_remove_top_def queue_top_def queue_above_def fun_eq_iff)
next
  fix q :: "'a QUEUE"
  assume "queue_inv q" "queue_mset q = {#}"
  then have "elements q = 0"
    by (cases "elements q"; cases "root q") (auto simp: queue_mset_def queue_inv_def queue_wf_def)
  then show "queue_remove_top q = None" by (simp add: queue_remove_top_def queue_remove_def)
qed

subsection \<open>Properties\<close>

definition example_queue :: "nat QUEUE" where
  "example_queue =
     \<lparr>root = [0, 3, 7, 5, 9, 0], elements = 4, max_elements = 5, offset_to_queue_pos = 1,
      auto_extent = 2, max_at_top = 1, compare = (\<lambda>a b. int a - int b),
      queue_pos = (\<lambda>e. if e = 3 then 1 else if e = 7 then 2 else if e = 5 then 3 else 4)\<rparr>"

lemma example_queue_order: "queue_order (example_queue\<lparr>elements := n\<rparr>)" "queue_order example_queue"
  by (auto simp: queue_order_def example_queue_def sgn_if)

lemma example_queue_inv: "queue_inv example_queue"
proof -
  have le4: "c = 1 \<or> c = 2 \<or> c = 3 \<or> c = 4" if "c \<in> {1..4}" for c :: nat
    using that by auto
  have "heap_from 1 example_queue"
    unfolding heap_from_def
  proof (intro allI impI)
    fix c
    assume c: "2 \<le> c \<and> c \<le> elements example_queue \<and> 1 \<le> c div 2"
    then have "c = 2 \<or> c = 3 \<or> c = 4" by (auto simp: example_queue_def)
    then show "queue_above example_queue (root example_queue ! (c div 2)) (root example_queue ! c)"
      by (elim disjE) (simp_all add: example_queue_def queue_above_def)
  qed
  moreover have "queue_pos example_queue (root example_queue ! i) = i" if "i \<in> {1..4}" for i
    using le4 [OF that] by (elim disjE) (simp_all add: example_queue_def)
  then have "pos_ok example_queue" by (simp add: pos_ok_def example_queue_def)
  moreover have "queue_wf example_queue" by (simp add: queue_wf_def example_queue_def)
  ultimately show ?thesis using example_queue_order(2) by (simp add: queue_inv_def)
qed

text \<open>
  C37: removing the element at any valid index of a heap returns that element, leaves a queue
  that satisfies the whole invariant again (heap order, size, stored positions) and holds
  exactly the other elements.
\<close>

theorem queue_remove_correct:
  assumes "queue_inv q" "1 \<le> idx" "idx \<le> elements q"
  shows "\<exists>q'. queue_remove q idx = Some (root q ! idx, q') \<and> queue_inv q' \<and>
           queue_mset q' = queue_mset q - {#root q ! idx#} \<and> elements q' = elements q - 1"
proof -
  obtain e q' where r: "queue_remove q idx = Some (e, q')"
    using assms by (auto simp: queue_remove_def)
  with queue_remove_inv [OF assms(1) r] show ?thesis by auto
qed

theorem queue_remove_correct_witness:
  "\<exists>q'. queue_remove example_queue 2 = Some (7, q') \<and> queue_inv q' \<and> elements q' = 3"
  using queue_remove_correct [OF example_queue_inv, of 2] by (simp add: example_queue_def) blast

text \<open>
  C38: \<^verbatim>\<open>queue_insert_safe()\<close> of an element that is not in the queue never trips the capacity
  assertion of \<^verbatim>\<open>queue_insert()\<close>; it keeps the invariant on every path, and adds the element
  exactly when it returns 0. It returns 2 only when the queue is full and may not grow. This is for a
  queue whose new capacity and its number of cells, \<^verbatim>\<open>max_elements + auto_extent + 1\<close>, are below 2 to the
  32: the sum is a \<^verbatim>\<open>uint\<close>, the code does not look for an overflow, and a sum that has wrapped around
  would make the queue smaller.
\<close>

theorem queue_insert_safe_correct:
  assumes "queue_inv q" "realloc_ok my_realloc" "e \<notin># queue_mset q" "max_elements q + auto_extent q + 1 < 2 ^ 32"
  shows "\<exists>rc q'. queue_insert_safe my_realloc q e = Some (rc, q') \<and> queue_inv q' \<and>
           queue_mset q' = (if rc = 0 then add_mset e (queue_mset q) else queue_mset q) \<and>
           (rc = 2 \<longleftrightarrow> queue_is_full q \<and> auto_extent q = 0)"
proof -
  have "queue_insert_safe my_realloc q e = Some (rc, q') \<Longrightarrow>
      rc = 2 \<longleftrightarrow> queue_is_full q \<and> auto_extent q = 0" for rc q'
    by (auto simp: queue_insert_safe_def queue_is_full_def split: if_splits prod.splits)
  with queue_insert_safe_inv [OF assms(1,2) _ assms(4)] assms(3) show ?thesis by metis
qed

definition example_realloc :: "nat realloc" where
  "example_realloc xs n = Some (take n xs @ replicate (n - length xs) 0)"

theorem queue_insert_safe_correct_witness:
  "\<exists>rc q'. queue_insert_safe example_realloc example_queue 4 = Some (rc, q') \<and> queue_inv q' \<and> rc \<noteq> 2"
proof -
  have "realloc_ok example_realloc" by (auto simp: realloc_ok_def example_realloc_def min_def)
  moreover have "4 \<notin># queue_mset example_queue" by (simp add: queue_mset_def example_queue_def)
  moreover have "max_elements example_queue + auto_extent example_queue + 1 < 2 ^ 32" by (simp add: example_queue_def)
  ultimately obtain rc q' where "queue_insert_safe example_realloc example_queue 4 = Some (rc, q')"
    "queue_inv q'" "rc = 2 \<longleftrightarrow> queue_is_full example_queue \<and> auto_extent example_queue = 0"
    using queue_insert_safe_correct [OF example_queue_inv, of example_realloc 4] by blast
  then show ?thesis by (auto simp: queue_is_full_def example_queue_def)
qed

text \<open>
  C39: \<^verbatim>\<open>queue_replace()\<close> restores the invariant after the key of the element at \<open>idx\<close>
  changed in any way, up or down: the comparison function may differ from the one the heap was
  built with wherever that element is compared.
\<close>

theorem queue_replace_correct:
  assumes "queue_inv q" "idx \<in> {1..elements q}" "q1 = q\<lparr>compare := cmp\<rparr>" "queue_order q1"
    and other: "\<And>i j. i \<in> {1..elements q} - {idx} \<Longrightarrow> j \<in> {1..elements q} - {idx} \<Longrightarrow>
      cmp (root q ! i) (root q ! j) = compare q (root q ! i) (root q ! j)"
  shows "queue_inv (queue_replace q1 idx) \<and> queue_mset (queue_replace q1 idx) = queue_mset q"
proof -
  have inv: "queue_wf q" "queue_order q" "heap_from 1 q" "pos_ok q"
    using assms(1) by (auto simp: queue_inv_def)
  have g: "gap 1 q idx" using heap_from_gap [OF inv(2,3)] assms(2) by auto
  have ab: "queue_above q1 (root q ! i) (root q ! j)"
    if "queue_above q (root q ! i) (root q ! j)" "i \<in> {1..elements q} - {idx}" "j \<in> {1..elements q} - {idx}" for i j
    using that other assms(3) by (simp add: queue_above_def)
  have r: "root q1 = root q" "elements q1 = elements q" using assms(3) by auto
  have g1: "gap 1 q1 idx"
    unfolding gap_def r
  proof (intro conjI allI impI, goal_cases)
    case (1 c)
    then have "c \<in> {1..elements q} - {idx}" "c div 2 \<in> {1..elements q} - {idx}" by auto
    then show ?case using ab gap_edge [OF g, of c] 1 by auto
  next
    case (2 c)
    then have "c \<in> {1..elements q} - {idx}" "idx div 2 \<in> {1..elements q} - {idx}" using assms(2) by auto
    then show ?case using ab g 2 unfolding gap_def by blast
  qed
  have "hole_pos q1 idx (root q1 ! idx)"
    using pos_ok_hole_pos [OF inv(4) assms(2)] assms(3) by (simp add: hole_pos_def)
  moreover have "queue_wf q1" "queue_mset q1 = queue_mset q"
    using inv(1) assms(3) by (auto simp: queue_wf_def queue_mset_def)
  ultimately show ?thesis
    using queue_replace_inv [OF _ assms(4) g1] assms(2) r by auto
qed

theorem queue_replace_correct_witness:
  "queue_inv (queue_replace (example_queue\<lparr>compare := (\<lambda>a b. (if a = 9 then 1 else int a) - (if b = 9 then 1 else int b))\<rparr>) 4)"
proof -
  let ?cmp = "\<lambda>a b :: nat. (if a = 9 then 1 else int a) - (if b = 9 then 1 else int b)"
  have ord: "queue_order (example_queue\<lparr>compare := ?cmp\<rparr>)"
    by (auto simp: queue_order_def example_queue_def sgn_if)
  have le4: "c \<le> 4 \<Longrightarrow> c \<noteq> 0 \<Longrightarrow> c \<noteq> 4 \<Longrightarrow> c = 1 \<or> c = 2 \<or> c = 3" for c :: nat by auto
  show ?thesis
    by (rule queue_replace_correct [OF example_queue_inv _ refl ord, THEN conjunct1])
       (auto simp: example_queue_def dest!: le4)
qed

text \<open>
  C40: taking the top of the queue until it is empty lists all its elements, each one ordered
  before all later ones.
\<close>

theorem queue_drain_sorted:
  assumes "queue_inv q" "pop_seq queue_remove_top (elements q) q = (es, q')"
  shows "mset es = queue_mset q \<and> sorted_wrt (queue_above q) es \<and> queue_empty q'"
proof -
  have size: "size (queue_mset p) = elements p" if "queue_inv p" for p :: "'a QUEUE"
    using that by (cases "root p") (auto simp: queue_mset_def queue_inv_def queue_wf_def)
  have e: "queue_inv q' \<and> mset es + queue_mset q' = queue_mset q \<and> length es = elements q"
    using mdb_queue.pop_seq_elems [OF assms] size [OF assms(1)] by simp
  have "length es + size (queue_mset q') = size (queue_mset q)"
    using e by (metis size_mset size_union)
  with e have z: "size (queue_mset q') = 0" using size [OF assms(1)] by linarith
  with e size [of q'] have "queue_mset q' = {#}" "queue_empty q'" by (auto simp: queue_empty_def)
  with e mdb_queue.pop_seq_sorted [OF assms] show ?thesis by simp
qed

theorem queue_drain_sorted_witness:
  "\<exists>es q'. pop_seq queue_remove_top 4 example_queue = (es, q') \<and>
     mset es = {#3, 5, 7, 9#} \<and> sorted_wrt (queue_above example_queue) es"
proof -
  obtain es q' where p: "pop_seq queue_remove_top 4 example_queue = (es, q')" by fastforce
  moreover have "elements example_queue = 4" "queue_mset example_queue = {#3, 5, 7, 9#}"
    by (auto simp: example_queue_def queue_mset_def)
  ultimately show ?thesis using queue_drain_sorted [OF example_queue_inv, of es q'] by auto
qed

end
