(* ===== verification/Mdb_Timer.thy ===== *)
theory Mdb_Timer
  imports Mdb_Queue
begin

text \<open>
  The timers of \<^verbatim>\<open>mysys/thr_timer.c\<close> and \<^verbatim>\<open>include/thr_timer.h\<close>: a thread sleeps until the earliest of the
  timers in a priority queue expires, calls their functions, and sleeps again. A timer is known by its
  address, a number; \<^verbatim>\<open>timer\<close> gives the structures. The key of an element of the queue is its \<^verbatim>\<open>expire_time\<close>, and
  its \<^verbatim>\<open>index_in_queue\<close> is the position the queue stores. The clock, \<^verbatim>\<open>my_hrtime_coarse\<close> in microseconds,
  is an argument of the operations that read it. A violated \<^verbatim>\<open>DBUG_ASSERT\<close> is the result \<^const>\<open>None\<close>.
\<close>

subsection \<open>Times\<close>

record timespec =
  tv_sec :: nat
  tv_nsec :: nat

definition cmp_timespec :: "timespec \<Rightarrow> timespec \<Rightarrow> int" where
  "cmp_timespec ts1 ts2 =
     (if tv_sec ts1 > tv_sec ts2 \<or> tv_sec ts1 = tv_sec ts2 \<and> tv_nsec ts1 > tv_nsec ts2 then 1
      else if tv_sec ts1 < tv_sec ts2 \<or> tv_sec ts1 = tv_sec ts2 \<and> tv_nsec ts1 < tv_nsec ts2 then -1
      else 0)"

definition set_timespec_time_nsec :: "u64 \<Rightarrow> timespec" where
  "set_timespec_time_nsec now = \<lparr> tv_sec = unat (now div 1000000000), tv_nsec = unat (now mod 1000000000) \<rparr>"

definition set_timespec_nsec :: "u64 \<Rightarrow> u64 \<Rightarrow> timespec" where
  "set_timespec_nsec clock nsec = set_timespec_time_nsec (clock * 1000 + nsec)"

definition max_time :: timespec where
  "max_time = \<lparr> tv_sec = 2 ^ 32 - 1, tv_nsec = 0 \<rparr>"

subsection \<open>Timers\<close>

record thr_timer_t =
  expire_time :: timespec
  period :: u64
  timeout :: u64
  expired :: bool
  func :: nat
  func_arg :: nat

record timers =
  timer_queue :: "nat QUEUE"
  timer :: "nat \<Rightarrow> thr_timer_t"
  next_timer_expire_time :: timespec
  thr_timer_inited :: bool

text \<open>The dummy element, a static variable of the source.\<close>

definition max_timer_data :: nat where
  "max_timer_data = 0"

definition compare_timespec :: "(nat \<Rightarrow> thr_timer_t) \<Rightarrow> nat \<Rightarrow> nat \<Rightarrow> int" where
  "compare_timespec tm a b = cmp_timespec (expire_time (tm a)) (expire_time (tm b))"

text \<open>The queue compares the expiry times as they are in memory.\<close>

definition queue_now :: "timers \<Rightarrow> nat QUEUE" where
  "queue_now st = (timer_queue st)\<lparr> compare := compare_timespec (timer st) \<rparr>"

definition set_timer :: "timers \<Rightarrow> nat \<Rightarrow> thr_timer_t \<Rightarrow> timers" where
  "set_timer st t d = st\<lparr> timer := (timer st)(t := d) \<rparr>"

text \<open>
  \<^verbatim>\<open>offs\<close> is \<^verbatim>\<open>offsetof(thr_timer_t, index_in_queue)\<close>. The result of \<^verbatim>\<open>init_queue\<close> is not looked at: without memory
  the next statement writes through a null pointer. \<^verbatim>\<open>thread_ok\<close> is whether the thread could be created.
\<close>

definition init_thr_timer :: "nat malloc \<Rightarrow> nat \<Rightarrow> bool \<Rightarrow> nat \<Rightarrow> timers \<Rightarrow> (bool \<times> timers) option" where
  "init_thr_timer my_malloc offs thread_ok alloc_timers st =
     (let st1 = set_timer st max_timer_data
            \<lparr> expire_time = max_time, period = 0, timeout = 0, expired = False, func = 0, func_arg = 0 \<rparr> in
      Option.bind
        (init_queue my_malloc ((queue_pos (timer_queue st))(max_timer_data := 0)) (uint_add alloc_timers 2) False
           (compare_timespec (timer st1)) (offs + 1) 1)
        (\<lambda>q. Option.bind (queue_insert q max_timer_data)
          (\<lambda>q1. Some (\<not> thread_ok,
             st1\<lparr> timer_queue := (if thread_ok then q1 else q1\<lparr> root := [] \<rparr>), next_timer_expire_time := max_time,
                  thr_timer_inited := thread_ok \<rparr>))))"

text \<open>After the thread has seen the end and has been joined.\<close>

definition end_thr_timer :: "timers \<Rightarrow> timers" where
  "end_thr_timer st =
     (if \<not> thr_timer_inited st then st
      else st\<lparr> thr_timer_inited := False, timer_queue := (timer_queue st)\<lparr> root := [] \<rparr> \<rparr>)"

definition thr_timer_init :: "nat \<Rightarrow> nat \<Rightarrow> nat \<Rightarrow> timers \<Rightarrow> timers" where
  "thr_timer_init t f arg st =
     (set_timer st t \<lparr> expire_time = \<lparr> tv_sec = 0, tv_nsec = 0 \<rparr>, period = 0, timeout = 0, expired = True, func = f, func_arg = arg \<rparr>)
       \<lparr> timer_queue := (timer_queue st)\<lparr> queue_pos := (queue_pos (timer_queue st))(t := 0) \<rparr> \<rparr>"

definition thr_timer_set_period :: "nat \<Rightarrow> u64 \<Rightarrow> timers \<Rightarrow> timers" where
  "thr_timer_set_period t micro_seconds st = set_timer st t ((timer st t)\<lparr> period := micro_seconds \<rparr>)"

text \<open>The result: the return value, and whether \<^verbatim>\<open>COND_timer\<close> is signalled.\<close>

definition thr_timer_settime :: "nat realloc \<Rightarrow> u64 \<Rightarrow> nat \<Rightarrow> u64 \<Rightarrow> timers \<Rightarrow> (bool \<times> bool \<times> timers) option" where
  "thr_timer_settime my_realloc clock t micro_seconds st =
     (if \<not> expired (timer st t) then None
      else
        (let d = (timer st t)\<lparr> timeout := micro_seconds, expire_time := set_timespec_nsec clock (micro_seconds * 1000),
               expired := False \<rparr>;
             st1 = set_timer st t d
         in Option.bind (queue_insert_safe my_realloc (queue_now st1) t)
              (\<lambda>(rc, q).
                if rc \<noteq> 0 then Some (True, False, (set_timer st1 t (d\<lparr> expired := True \<rparr>))\<lparr> timer_queue := q \<rparr>)
                else Some (False, cmp_timespec (next_timer_expire_time st1) (expire_time d) > 0, st1\<lparr> timer_queue := q \<rparr>))))"

definition thr_timer_end :: "nat \<Rightarrow> timers \<Rightarrow> timers option" where
  "thr_timer_end t st =
     (if expired (timer st t) then Some st
      else
        (let q = queue_now st; i = queue_pos q t in
         if i = 0 \<or> root q ! i \<noteq> t then None
         else Option.bind (queue_remove q i)
                (\<lambda>(e, q1). Some ((set_timer st t ((timer st t)\<lparr> expired := True \<rparr>))\<lparr> timer_queue := q1 \<rparr>))))"

subsection \<open>The timer thread\<close>

text \<open>
  The function of a timer may change the periods of timers. \<^verbatim>\<open>callback f arg\<close> gives the periods after the call;
  \<^verbatim>\<open>clock k\<close> is the clock when the timer called as number \<^verbatim>\<open>k\<close> is put back.
\<close>

type_synonym callback = "nat \<Rightarrow> nat \<Rightarrow> (nat \<Rightarrow> u64) \<Rightarrow> nat \<Rightarrow> u64"

definition call_function :: "callback \<Rightarrow> nat \<Rightarrow> nat \<Rightarrow> timers \<Rightarrow> timers" where
  "call_function cb f arg st =
     st\<lparr> timer := (\<lambda>t. (timer st t)\<lparr> period := cb f arg (\<lambda>i. period (timer st i)) t \<rparr>) \<rparr>"

text \<open>One turn of the loop of \<^verbatim>\<open>process_timers\<close>, up to the test of the next timer.\<close>

definition process_top :: "callback \<Rightarrow> u64 \<Rightarrow> timers \<Rightarrow> ((nat \<times> nat) \<times> timers) option" where
  "process_top cb clock st =
     (let q = queue_now st; t = queue_top q; d = timer st t; is_periodic = period d \<noteq> 0;
          st1 = set_timer st t (d\<lparr> expired := True \<rparr>)
      in Option.bind (queue_remove_top (queue_now st1))
           (\<lambda>(e, q1).
             (let st2 = call_function cb (func d) (func_arg d) (st1\<lparr> timer_queue := q1 \<rparr>) in
              if is_periodic \<and> period (timer st2 t) \<noteq> 0 then
                (let st3 = set_timer st2 t ((timer st2 t)\<lparr>
                       expire_time := set_timespec_nsec clock (period (timer st2 t) * 1000), expired := False \<rparr>)
                 in Option.bind (queue_insert (queue_now st3) t)
                      (\<lambda>q2. Some ((func d, func_arg d), st3\<lparr> timer_queue := q2 \<rparr>)))
              else Some ((func d, func_arg d), st2))))"

definition top_time :: "timers \<Rightarrow> timespec" where
  "top_time st = expire_time (timer st (queue_top (queue_now st)))"

partial_function (option) process_timers ::
  "callback \<Rightarrow> (nat \<Rightarrow> u64) \<Rightarrow> timespec \<Rightarrow> nat \<Rightarrow> timers \<Rightarrow> ((nat \<times> nat) list \<times> timers) option" where
  "process_timers cb clock now k st =
     Option.bind (process_top cb (clock k) st)
       (\<lambda>(c, st1).
         if cmp_timespec (top_time st1) now > 0 then Some ([c], st1)
         else Option.bind (process_timers cb clock now (k + 1) st1) (\<lambda>(cs, st2). Some (c # cs, st2)))"

text \<open>One turn of the loop of \<^verbatim>\<open>timer_handler\<close>, until the thread waits on \<^verbatim>\<open>COND_timer\<close>.\<close>

definition timer_handler :: "callback \<Rightarrow> u64 \<Rightarrow> (nat \<Rightarrow> u64) \<Rightarrow> timers \<Rightarrow> ((nat \<times> nat) list \<times> timers) option" where
  "timer_handler cb clock0 clock st =
     (let now = set_timespec_nsec clock0 0 in
      Option.bind
        (if cmp_timespec (top_time st) now \<le> 0 then process_timers cb clock now 0 st else Some ([], st))
        (\<lambda>(cs, st1). Some (cs, st1\<lparr> next_timer_expire_time := top_time st1 \<rparr>)))"

end
