(* ===== verification/Mdb_Timer_Inv.thy ===== *)
theory Mdb_Timer_Inv
  imports Mdb_Timer
begin

text \<open>
  The invariant of the timers and that every operation keeps it; what one run of the timer thread
  does.
\<close>

subsection \<open>The order of times\<close>

text \<open>A time as one number of nanoseconds would not do for the dummy element; times are ordered by seconds first.\<close>

definition earlier :: "timespec \<Rightarrow> timespec \<Rightarrow> bool" where
  "earlier a b \<longleftrightarrow> tv_sec a < tv_sec b \<or> tv_sec a = tv_sec b \<and> tv_nsec a < tv_nsec b"

definition no_later :: "timespec \<Rightarrow> timespec \<Rightarrow> bool" where
  "no_later a b \<longleftrightarrow> \<not> earlier b a"

lemma cmp_timespec_sign:
  "cmp_timespec a b > 0 \<longleftrightarrow> earlier b a" "cmp_timespec a b \<le> 0 \<longleftrightarrow> no_later a b"
  "cmp_timespec a b < 0 \<longleftrightarrow> earlier a b" "sgn (cmp_timespec a b) = - sgn (cmp_timespec b a)"
  by (auto simp: cmp_timespec_def earlier_def no_later_def)

lemma no_later_trans: "no_later a b \<Longrightarrow> no_later b c \<Longrightarrow> no_later a c"
  by (auto simp: no_later_def earlier_def)

lemma no_later_mix: "earlier a b \<Longrightarrow> no_later b c \<Longrightarrow> earlier a c" "no_later a b \<Longrightarrow> earlier b c \<Longrightarrow> earlier a c"
    "earlier a b \<Longrightarrow> no_later a b" "no_later a a" "\<not> earlier a a"
  by (auto simp: no_later_def earlier_def)

lemma time_order:
  assumes "compare q = compare_timespec tm" "max_at_top q = 1"
  shows "queue_order q" "queue_above q x y \<longleftrightarrow> no_later (expire_time (tm x)) (expire_time (tm y))"
proof -
  show "queue_order q"
    unfolding queue_order_def assms compare_timespec_def cmp_timespec_sign(2) using cmp_timespec_sign(4) no_later_trans by blast
  show "queue_above q x y \<longleftrightarrow> no_later (expire_time (tm x)) (expire_time (tm y))"
    by (simp add: queue_above_def assms compare_timespec_def cmp_timespec_sign)
qed

text \<open>Times computed from the clock.\<close>

lemma set_timespec_later:
  assumes "unat c0 \<le> unat c" "0 < unat p" "unat c * 1000 + unat p * 1000 < 2 ^ 64"
  shows "earlier (set_timespec_nsec c0 0) (set_timespec_nsec c (p * 1000))"
proof -
  let ?a = "unat c0 * 1000" and ?b = "unat c * 1000 + unat p * 1000"
  have u: "unat (c0 * 1000 + 0 :: u64) = ?a" "unat (c * 1000 + p * 1000 :: u64) = ?b"
    using assms by (simp_all add: unat_word_ariths)
  have "?a < ?b" using assms by simp
  then have "?a div 1000000000 < ?b div 1000000000 \<or>
      ?a div 1000000000 = ?b div 1000000000 \<and> ?a mod 1000000000 < ?b mod 1000000000"
    by (metis div_le_mono le_neq_implies_less mult_div_mod_eq nat_add_left_cancel_less less_imp_le)
  then show ?thesis
    using u by (simp add: earlier_def set_timespec_nsec_def set_timespec_time_nsec_def unat_div unat_mod)
qed

subsection \<open>The invariant\<close>

definition in_queue :: "timers \<Rightarrow> nat set" where
  "in_queue st = set_mset (queue_mset (timer_queue st))"

definition timers_inv :: "timers \<Rightarrow> bool" where
  "timers_inv st \<longleftrightarrow>
     queue_inv (queue_now st) \<and> max_at_top (timer_queue st) = 1 \<and> offset_to_queue_pos (timer_queue st) \<noteq> 0 \<and>
     auto_extent (timer_queue st) \<noteq> 0 \<and> max_timer_data \<in> in_queue st \<and>
     (\<forall>t. t \<in> in_queue st \<longleftrightarrow> \<not> expired (timer st t)) \<and>
     expire_time (timer st max_timer_data) = max_time"

lemma queue_now_simps [simp]:
  "root (queue_now st) = root (timer_queue st)" "elements (queue_now st) = elements (timer_queue st)"
  "max_elements (queue_now st) = max_elements (timer_queue st)" "queue_mset (queue_now st) = queue_mset (timer_queue st)"
  "offset_to_queue_pos (queue_now st) = offset_to_queue_pos (timer_queue st)" "auto_extent (queue_now st) = auto_extent (timer_queue st)"
  "max_at_top (queue_now st) = max_at_top (timer_queue st)" "compare (queue_now st) = compare_timespec (timer st)"
  "queue_pos (queue_now st) = queue_pos (timer_queue st)" "queue_top (queue_now st) = queue_top (timer_queue st)"
  by (simp_all add: queue_now_def queue_mset_def queue_top_def)

text \<open>The queue depends on the times of its elements only.\<close>

lemma queue_inv_rekey:
  assumes inv: "queue_inv q" and m: "max_at_top q = 1" and k: "compare q = compare_timespec tm"
    and same: "\<And>x. x \<in># queue_mset q \<Longrightarrow> expire_time (tm' x) = expire_time (tm x)"
  shows "queue_inv (q\<lparr> compare := compare_timespec tm' \<rparr>)"
proof -
  let ?q = "q\<lparr> compare := compare_timespec tm' \<rparr>"
  have wf: "queue_wf q" "heap_from 1 q" "pos_ok q" using inv by (auto simp: queue_inv_def)
  have o: "queue_order ?q" by (rule time_order(1)) (use m in auto)
  have "queue_above ?q (root q ! (c div 2)) (root q ! c)" if c: "2 \<le> c" "c \<le> elements q" for c
  proof -
    have "queue_above q (root q ! (c div 2)) (root q ! c)" using wf(2) c by (auto simp: heap_from_def)
    moreover have "root q ! c \<in># queue_mset q" "root q ! (c div 2) \<in># queue_mset q"
    proof -
      have "c \<in> {1..elements q}" "c div 2 \<in> {1..elements q}" using c by auto
      then show "root q ! c \<in># queue_mset q" "root q ! (c div 2) \<in># queue_mset q" using queue_mset_nth [OF _ wf(1)] by blast+
    qed
    ultimately show ?thesis using same time_order(2) [OF k m] time_order(2) [of ?q tm'] m by simp
  qed
  then have "heap_from 1 ?q" by (auto simp: heap_from_def)
  then show ?thesis using wf o by (simp add: queue_inv_def queue_wf_def pos_ok_def)
qed

lemma queue_mset_unique:
  assumes inv: "queue_inv q" and off: "offset_to_queue_pos q \<noteq> 0"
  shows "x \<notin># queue_mset q - {#x#}"
proof -
  let ?xs = "take (elements q) (tl (root q))"
  have wf: "queue_wf q" "pos_ok q" using inv by (auto simp: queue_inv_def)
  have "distinct ?xs"
  proof (subst distinct_conv_nth, intro allI impI)
    fix i j assume ij: "i < length ?xs" "j < length ?xs" "i \<noteq> j"
    then have "?xs ! i = root q ! Suc i" "?xs ! j = root q ! Suc j" "Suc i \<in> {1..elements q}" "Suc j \<in> {1..elements q}"
      using wf(1) by (auto simp: nth_tl queue_wf_def)
    then show "?xs ! i \<noteq> ?xs ! j" using pos_ok_inj [OF wf(2) off, of "Suc i" "Suc j"] ij(3) by auto
  qed
  then have "count (queue_mset q) x \<le> 1" by (auto simp: queue_mset_def distinct_count_atmost_1)
  then show ?thesis by (simp add: not_in_iff)
qed

lemma timers_invD:
  assumes "timers_inv st"
  shows "queue_inv (queue_now st)" "max_at_top (timer_queue st) = 1" "offset_to_queue_pos (timer_queue st) \<noteq> 0"
    "auto_extent (timer_queue st) \<noteq> 0" "max_timer_data \<in> in_queue st" "t \<in> in_queue st \<longleftrightarrow> \<not> expired (timer st t)"
    "expire_time (timer st max_timer_data) = max_time"
  using assms by (auto simp: timers_inv_def)

text \<open>The first timer of the queue expires no later than the others.\<close>

lemma top_first:
  assumes "timers_inv st" "t \<in> in_queue st"
  shows "queue_top (timer_queue st) \<in> in_queue st" "no_later (top_time st) (expire_time (timer st t))"
  using queue_top_least [OF timers_invD(1) [OF assms(1)], of t] assms(2)
    time_order(2) [of "queue_now st" "timer st"] timers_invD(2) [OF assms(1)]
  by (auto simp: in_queue_def top_time_def)

subsection \<open>Arming and stopping a timer\<close>

text \<open>A queue that was changed under the present times, put back into the state.\<close>

lemma inv_put_queue:
  assumes "queue_inv q" "compare q = compare_timespec (timer st)" "max_at_top q = 1" "offset_to_queue_pos q \<noteq> 0" "auto_extent q \<noteq> 0"
    "max_timer_data \<in># queue_mset q" "\<And>t. t \<in># queue_mset q \<longleftrightarrow> \<not> expired (timer st t)" "expire_time (timer st max_timer_data) = max_time"
  shows "timers_inv (st\<lparr> timer_queue := q \<rparr>)"
proof -
  have q: "queue_now (st\<lparr> timer_queue := q \<rparr>) = q" using assms(2) by (simp add: queue_now_def)
  show ?thesis unfolding timers_inv_def q using assms by (simp add: in_queue_def)
qed

lemma queue_now_set_timer:
  assumes i: "timers_inv st" and t: "t \<notin> in_queue st \<or> expire_time d = expire_time (timer st t)"
  shows "queue_inv (queue_now (set_timer st t d))"
proof -
  have "expire_time ((timer (set_timer st t d)) x) = expire_time (timer st x)" if "x \<in># queue_mset (queue_now st)" for x
    using that t by (auto simp: set_timer_def in_queue_def)
  then have "queue_inv ((queue_now st)\<lparr> compare := compare_timespec (timer (set_timer st t d)) \<rparr>)"
    by (intro queue_inv_rekey [OF timers_invD(1) [OF i]]) (use timers_invD(2) [OF i] in simp_all)
  then show ?thesis by (simp add: queue_now_def set_timer_def)
qed

lemma settime_ok:
  assumes i: "timers_inv st" and t: "expired (timer st t)" and ra: "realloc_ok my_realloc"
    and width: "max_elements (timer_queue st) + auto_extent (timer_queue st) + 1 < 2 ^ 32"
  shows "\<exists>err sig st'. thr_timer_settime my_realloc clock t us st = Some (err, sig, st') \<and> timers_inv st' \<and>
    in_queue st' = (if err then in_queue st else insert t (in_queue st)) \<and>
    next_timer_expire_time st' = next_timer_expire_time st \<and> thr_timer_inited st' = thr_timer_inited st \<and>
    (\<forall>x. x \<noteq> t \<longrightarrow> timer st' x = timer st x) \<and> expire_time (timer st' t) = set_timespec_nsec clock (us * 1000) \<and>
    period (timer st' t) = period (timer st t) \<and>
    (sig \<longleftrightarrow> \<not> err \<and> earlier (set_timespec_nsec clock (us * 1000)) (next_timer_expire_time st))"
proof -
  define d where "d = (timer st t)\<lparr> timeout := us, expire_time := set_timespec_nsec clock (us * 1000), expired := False \<rparr>"
  define st1 where "st1 = set_timer st t d"
  have tq: "t \<notin> in_queue st" using timers_invD(6) [OF i] t by blast
  have tm: "timer st1 = (timer st)(t := d)" "timer_queue st1 = timer_queue st" "next_timer_expire_time st1 = next_timer_expire_time st"
    by (simp_all add: st1_def set_timer_def)
  have qi: "queue_inv (queue_now st1)" unfolding st1_def by (rule queue_now_set_timer [OF i]) (use tq in blast)
  have new: "t \<notin># queue_mset (queue_now st1)" using tq tm by (simp add: in_queue_def)
  have mt: "max_timer_data \<noteq> t" using timers_invD(5) [OF i] tq by auto
  obtain rc q where q: "queue_insert_safe my_realloc (queue_now st1) t = Some (rc, q)" "queue_inv q"
      "queue_mset q = (if rc = 0 then add_mset t (queue_mset (queue_now st1)) else queue_mset (queue_now st1))"
      "compare q = compare (queue_now st1)" "max_at_top q = max_at_top (queue_now st1)"
      "offset_to_queue_pos q = offset_to_queue_pos (queue_now st1)" "auto_extent q = auto_extent (queue_now st1)"
    using queue_insert_safe_inv [OF qi ra new] width tm(2) by (auto simp: queue_now_def)
  show ?thesis
  proof (cases "rc = 0")
    case True
    let ?st = "st1\<lparr> timer_queue := q \<rparr>"
    have "thr_timer_settime my_realloc clock t us st = Some (False, earlier (expire_time d) (next_timer_expire_time st), ?st)"
      using t q(1) True tm by (simp add: thr_timer_settime_def d_def [symmetric] st1_def [symmetric] Let_def cmp_timespec_sign)
    moreover have "timers_inv ?st"
      by (rule inv_put_queue) (use q True tm mt timers_invD [OF i] in \<open>auto simp: in_queue_def d_def\<close>)
    moreover have "in_queue ?st = insert t (in_queue st)" using q(3) True tm by (simp add: in_queue_def)
    ultimately show ?thesis using tm by (auto simp: d_def st1_def set_timer_def)
  next
    case False
    let ?st2 = "set_timer st1 t (d\<lparr> expired := True \<rparr>)"
    let ?st = "?st2\<lparr> timer_queue := q \<rparr>"
    have "thr_timer_settime my_realloc clock t us st = Some (True, False, ?st)"
      using t q(1) False by (simp add: thr_timer_settime_def d_def [symmetric] st1_def [symmetric] Let_def)
    moreover have "timers_inv ?st"
    proof -
      have c: "compare_timespec (timer ?st2) = compare_timespec (timer st1)"
        by (auto simp: compare_timespec_def fun_eq_iff set_timer_def tm)
      show ?thesis
        by (rule inv_put_queue) (use q False c tm mt timers_invD [OF i] tq in \<open>auto simp: in_queue_def set_timer_def\<close>)
    qed
    moreover have "in_queue ?st = in_queue st" using q(3) False tm by (simp add: in_queue_def)
    ultimately show ?thesis using tm by (auto simp: d_def st1_def set_timer_def)
  qed
qed

lemma end_ok:
  assumes i: "timers_inv st" and t: "t \<noteq> max_timer_data"
  shows "\<exists>st'. thr_timer_end t st = Some st' \<and> timers_inv st' \<and> in_queue st' = in_queue st - {t} \<and> expired (timer st' t) \<and>
    next_timer_expire_time st' = next_timer_expire_time st \<and> thr_timer_inited st' = thr_timer_inited st \<and>
    (\<forall>x. timer st' x = (timer st x)\<lparr> expired := expired (timer st' x) \<rparr>)"
proof (cases "expired (timer st t)")
  case True
  then have "t \<notin> in_queue st" using timers_invD(6) [OF i] by blast
  then show ?thesis using True i by (intro exI [of _ st]) (simp add: thr_timer_end_def)
next
  case False
  let ?q = "queue_now st"
  note qi = timers_invD(1) [OF i]
  have wf: "queue_wf ?q" "pos_ok ?q" using qi by (auto simp: queue_inv_def)
  have "t \<in># queue_mset ?q" using False timers_invD(6) [OF i, of t] by (simp add: in_queue_def)
  then obtain j where j: "j \<in> {1..elements ?q}" "root ?q ! j = t" using queue_mset_in [OF _ wf(1)] by metis
  then have pos: "queue_pos ?q t = j" using wf(2) timers_invD(3) [OF i] by (auto simp: pos_ok_def)
  obtain e q where r: "queue_remove ?q j = Some (e, q)" using j by (auto simp: queue_remove_def)
  note R = queue_remove_inv [OF qi r]
  let ?st1 = "set_timer st t ((timer st t)\<lparr> expired := True \<rparr>)"
  let ?st = "?st1\<lparr> timer_queue := q \<rparr>"
  have e: "e = t" using R j by simp
  have c: "compare_timespec (timer ?st1) = compare_timespec (timer st)"
    by (auto simp: compare_timespec_def fun_eq_iff set_timer_def)
  have mq: "x \<in># queue_mset q \<longleftrightarrow> x \<in> in_queue st \<and> x \<noteq> t" for x
  proof (cases "x = t")
    case True
    then show ?thesis using queue_mset_unique [OF qi, of t] timers_invD(3) [OF i] R e by simp
  next
    case False
    then show ?thesis using R e by (simp add: in_queue_def in_diff_count not_in_iff count_greater_zero_iff [symmetric] del: count_greater_zero_iff)
  qed
  have "timers_inv ?st"
    by (rule inv_put_queue) (use R c mq t timers_invD [OF i] in \<open>auto simp: set_timer_def\<close>)
  moreover have "in_queue ?st = in_queue st - {t}" using mq by (auto simp: in_queue_def)
  moreover have "thr_timer_end t st = Some ?st"
    using False r pos j by (simp add: thr_timer_end_def Let_def)
  ultimately show ?thesis by (intro exI [of _ ?st]) (auto simp: set_timer_def)
qed

lemma init_timer_ok:
  assumes i: "timers_inv st" and t: "t \<notin> in_queue st"
  shows "timers_inv (thr_timer_init t f arg st) \<and> in_queue (thr_timer_init t f arg st) = in_queue st"
proof -
  let ?d = "\<lparr> expire_time = \<lparr> tv_sec = 0, tv_nsec = 0 \<rparr>, period = 0, timeout = 0, expired = True, func = f, func_arg = arg \<rparr>"
  let ?st = "thr_timer_init t f arg st"
  let ?q = "queue_now (set_timer st t ?d)"
  have q: "queue_now ?st = ?q\<lparr> queue_pos := (queue_pos ?q)(t := 0) \<rparr>" by (simp add: thr_timer_init_def queue_now_def set_timer_def)
  have qi: "queue_inv ?q" by (rule queue_now_set_timer [OF i]) (use t in blast)
  have wf: "queue_wf ?q" "pos_ok ?q" "queue_order ?q" "heap_from 1 ?q" using qi by (auto simp: queue_inv_def)
  have mem: "root ?q ! j \<noteq> t" if "j \<in> {1..elements ?q}" for j
    using queue_mset_nth [OF that wf(1)] t by (auto simp: in_queue_def set_timer_def)
  have "queue_order (queue_now ?st)" unfolding q using queue_order_cong [of "?q\<lparr> queue_pos := (queue_pos ?q)(t := 0) \<rparr>" ?q] wf(3) by simp
  moreover have "heap_from 1 (queue_now ?st)" unfolding q using wf(4) by (simp add: heap_from_def queue_above_def)
  moreover have "pos_ok (queue_now ?st)" unfolding q using wf(2) mem by (auto simp: pos_ok_def)
  moreover have "queue_wf (queue_now ?st)" unfolding q using wf(1) by (simp add: queue_wf_def)
  ultimately have "queue_inv (queue_now ?st)" by (simp add: queue_inv_def)
  moreover have "in_queue ?st = in_queue st" by (simp add: in_queue_def thr_timer_init_def set_timer_def queue_mset_def)
  ultimately show ?thesis using i t by (auto simp: timers_inv_def thr_timer_init_def set_timer_def)
qed

lemma set_period_ok:
  assumes i: "timers_inv st"
  shows "timers_inv (thr_timer_set_period t us st) \<and> in_queue (thr_timer_set_period t us st) = in_queue st"
proof -
  have "queue_inv (queue_now (set_timer st t ((timer st t)\<lparr> period := us \<rparr>)))" by (rule queue_now_set_timer [OF i]) simp
  then show ?thesis using i by (auto simp: timers_inv_def thr_timer_set_period_def set_timer_def in_queue_def)
qed

subsection \<open>Expired timers\<close>

definition due :: "timespec \<Rightarrow> timers \<Rightarrow> nat set" where
  "due now st = {t \<in> in_queue st. no_later (expire_time (timer st t)) now}"

text \<open>What stays of a timer that is not called: everything but the period, which any of the called functions may set.\<close>

definition same_timer :: "thr_timer_t \<Rightarrow> thr_timer_t \<Rightarrow> bool" where
  "same_timer d d' \<longleftrightarrow> d' = d\<lparr> period := period d' \<rparr>"

lemma same_timerD:
  "same_timer d d' \<Longrightarrow> expire_time d' = expire_time d \<and> expired d' = expired d \<and> func d' = func d \<and> func_arg d' = func_arg d"
  by (cases d; cases d') (simp add: same_timer_def)

lemma same_timer_trans: "same_timer a b \<Longrightarrow> same_timer b c \<Longrightarrow> same_timer a c"
  by (cases a; cases b; cases c) (simp add: same_timer_def)

lemma same_timer_period: "same_timer d (d\<lparr> period := p \<rparr>)"
  by (cases d) (simp add: same_timer_def)

lemma process_top_ok:
  assumes i: "timers_inv st" and t: "t = queue_top (timer_queue st)" "t \<noteq> max_timer_data"
  shows "\<exists>st'. process_top cb c st = Some ((func (timer st t), func_arg (timer st t)), st') \<and> timers_inv st' \<and>
    (\<forall>x. x \<noteq> t \<longrightarrow> same_timer (timer st x) (timer st' x)) \<and>
    (\<forall>x. period (timer st' x) = cb (func (timer st t)) (func_arg (timer st t)) (\<lambda>j. period (timer st j)) x) \<and>
    next_timer_expire_time st' = next_timer_expire_time st \<and> thr_timer_inited st' = thr_timer_inited st \<and>
    (in_queue st' = in_queue st - {t} \<or> in_queue st' = in_queue st \<and> period (timer st' t) \<noteq> 0 \<and>
       expire_time (timer st' t) = set_timespec_nsec c (period (timer st' t) * 1000))"
proof -
  define d where "d = timer st t"
  define st1 where "st1 = set_timer st t (d\<lparr> expired := True \<rparr>)"
  have q1: "queue_now st1 = queue_now st"
    by (auto simp: queue_now_def st1_def set_timer_def d_def compare_timespec_def fun_eq_iff)
  note qi = timers_invD(1) [OF i]
  have "queue_mset (queue_now st) \<noteq> {#}" using timers_invD(5) [OF i] by (auto simp: in_queue_def)
  then have el: "1 \<le> elements (queue_now st)" by (cases "elements (queue_now st)") (auto simp: queue_mset_def)
  then obtain e q where r: "queue_remove (queue_now st) 1 = Some (e, q)" by (auto simp: queue_remove_def)
  note R = queue_remove_inv [OF qi r]
  have e: "e = t" using R t(1) by (simp add: queue_top_def)
  have mq: "x \<in># queue_mset q \<longleftrightarrow> x \<in> in_queue st \<and> x \<noteq> t" for x
  proof (cases "x = t")
    case True
    then show ?thesis using queue_mset_unique [OF qi, of t] timers_invD(3) [OF i] R e by simp
  next
    case False
    then show ?thesis using R e by (simp add: in_queue_def in_diff_count not_in_iff count_greater_zero_iff [symmetric] del: count_greater_zero_iff)
  qed
  have per: "(\<lambda>j. period (timer st1 j)) = (\<lambda>j. period (timer st j))" by (auto simp: st1_def set_timer_def d_def)
  define st2 where "st2 = call_function cb (func d) (func_arg d) (st1\<lparr> timer_queue := q \<rparr>)"
  have tm2: "timer st2 x = (timer st1 x)\<lparr> period := cb (func d) (func_arg d) (\<lambda>j. period (timer st j)) x \<rparr>" for x
    by (simp add: st2_def call_function_def per)
  have ex2: "expire_time (timer st2 x) = expire_time (timer st x)" "expired (timer st2 x) \<longleftrightarrow> expired (timer st x) \<or> x = t" for x
    by (auto simp: tm2 st1_def set_timer_def d_def)
  have c2: "compare q = compare_timespec (timer st2)"
    using R by (auto simp: compare_timespec_def fun_eq_iff ex2)
  have st2: "st2 = st2\<lparr> timer_queue := q \<rparr>" by (simp add: st2_def call_function_def)
  have i2: "timers_inv st2"
    by (subst st2, rule inv_put_queue) (use R c2 mq t ex2 timers_invD [OF i] in auto)
  have in2: "in_queue st2 = in_queue st - {t}" using mq by (subst st2) (auto simp: in_queue_def)
  have oth: "same_timer (timer st x) (timer st2 x)" if "x \<noteq> t" for x
    using that same_timer_period by (simp add: tm2 st1_def set_timer_def)
  have fr: "next_timer_expire_time st2 = next_timer_expire_time st" "thr_timer_inited st2 = thr_timer_inited st"
    by (simp_all add: st2_def call_function_def st1_def set_timer_def)
  have top: "process_top cb c st =
      (if period d \<noteq> 0 \<and> period (timer st2 t) \<noteq> 0 then
         (let st3 = set_timer st2 t ((timer st2 t)\<lparr> expire_time := set_timespec_nsec c (period (timer st2 t) * 1000), expired := False \<rparr>)
          in Option.bind (queue_insert (queue_now st3) t) (\<lambda>q2. Some ((func d, func_arg d), st3\<lparr> timer_queue := q2 \<rparr>)))
       else Some ((func d, func_arg d), st2))"
    using r q1 by (simp add: process_top_def queue_remove_top_def t(1) [symmetric] d_def [symmetric] st1_def [symmetric] st2_def [symmetric] Let_def)
  show ?thesis
  proof (cases "period d \<noteq> 0 \<and> period (timer st2 t) \<noteq> 0")
    case False
    then have "process_top cb c st = Some ((func d, func_arg d), st2)" using top by (simp only: if_False)
    then show ?thesis using i2 oth in2 fr tm2 by (intro exI [of _ st2]) (simp add: d_def)
  next
    case True
    define d3 where "d3 = (timer st2 t)\<lparr> expire_time := set_timespec_nsec c (period (timer st2 t) * 1000), expired := False \<rparr>"
    define st3 where "st3 = set_timer st2 t d3"
    have t2: "t \<notin> in_queue st2" using in2 by simp
    have q3: "queue_inv (queue_now st3)" unfolding st3_def by (rule queue_now_set_timer [OF i2]) (use t2 in blast)
    have tm3: "timer st3 = (timer st2)(t := d3)" "timer_queue st3 = q" by (simp_all add: st3_def set_timer_def st2_def call_function_def)
    have "elements q < max_elements q" using R el qi by (auto simp: queue_inv_def queue_wf_def)
    then obtain q2 where ins: "queue_insert (queue_now st3) t = Some q2" using tm3 by (auto simp: queue_insert_def)
    have new: "t \<notin># queue_mset (queue_now st3)" using tm3 mq by simp
    note Q = queue_insert_inv [OF q3 new ins]
    let ?st = "st3\<lparr> timer_queue := q2 \<rparr>"
    have mq2: "queue_mset q2 = add_mset t (queue_mset q)" using Q tm3 by simp
    have "timers_inv ?st"
      by (rule inv_put_queue) (use Q tm3 mq2 mq R ex2 t timers_invD [OF i] in \<open>auto simp: d3_def\<close>)
    moreover have "in_queue ?st = in_queue st" using mq2 mq top_first(1) [OF i timers_invD(5) [OF i]] t(1) by (auto simp: in_queue_def)
    moreover have "process_top cb c st = Some ((func d, func_arg d), ?st)"
      using True ins unfolding top by (simp add: d3_def [symmetric] st3_def [symmetric] Let_def)
    ultimately show ?thesis using oth tm3 fr tm2 True
      by (intro exI [of _ ?st]) (auto simp: d_def d3_def st3_def set_timer_def)
  qed
qed

end
