(* ===== verification/Mdb_Timer_System.thy ===== *)
theory Mdb_Timer_System
  imports Mdb_Timer_Inv
begin

text \<open>
  The timer thread among the threads that set and stop timers: what one run of the thread does, the
  interleavings of its runs with the other operations, and the results on them.
\<close>

subsection \<open>A run of the timer thread\<close>

text \<open>
  Bounds that keep the computation of times within 64 bits: clock and periods below \<open>2 ^ 53\<close> microseconds,
  about 285 years. The clock does not go back while the thread runs.
\<close>

definition clock_ok :: "u64 \<Rightarrow> (nat \<Rightarrow> u64) \<Rightarrow> bool" where
  "clock_ok c0 clock \<longleftrightarrow> (\<forall>k. unat c0 \<le> unat (clock k) \<and> unat (clock k) < 2 ^ 53)"

definition periods_ok :: "timers \<Rightarrow> bool" where
  "periods_ok st \<longleftrightarrow> (\<forall>t. unat (period (timer st t)) < 2 ^ 53)"

definition callback_ok :: "callback \<Rightarrow> bool" where
  "callback_ok cb \<longleftrightarrow> (\<forall>f arg p. (\<forall>t. unat (p t) < 2 ^ 53) \<longrightarrow> (\<forall>t. unat (cb f arg p t) < 2 ^ 53))"

definition fires :: "timers \<Rightarrow> nat \<Rightarrow> nat \<times> nat" where
  "fires st t = (func (timer st t), func_arg (timer st t))"

lemma due_finite: "finite (due now st)"
  by (rule finite_subset [of _ "in_queue st"]) (auto simp: due_def in_queue_def)

lemma top_due:
  assumes i: "timers_inv st"
  shows "cmp_timespec (top_time st) now > 0 \<longleftrightarrow> due now st = {}"
proof
  assume "cmp_timespec (top_time st) now > 0"
  then have n: "\<not> no_later (top_time st) now" by (simp add: cmp_timespec_sign no_later_def)
  have "\<not> no_later (expire_time (timer st t)) now" if "t \<in> in_queue st" for t
    using top_first(2) [OF i that] no_later_trans n by blast
  then show "due now st = {}" by (simp add: due_def)
next
  assume "due now st = {}"
  then have "\<not> no_later (top_time st) now"
    using top_first(1) [OF i timers_invD(5) [OF i]] by (auto simp: due_def top_time_def)
  then show "cmp_timespec (top_time st) now > 0" by (simp add: cmp_timespec_sign no_later_def)
qed

lemma process_timers_ok:
  assumes "timers_inv st" "periods_ok st" "callback_ok cb" "clock_ok c0 clock" "now = set_timespec_nsec c0 0" "earlier now max_time"
    "due now st \<noteq> {}"
  shows "\<exists>ids st'. process_timers cb clock now k st = Some (map (fires st) ids, st') \<and> distinct ids \<and> set ids = due now st \<and>
    sorted_wrt (\<lambda>a b. no_later (expire_time (timer st a)) (expire_time (timer st b))) ids \<and>
    timers_inv st' \<and> periods_ok st' \<and> due now st' = {} \<and> in_queue st - due now st \<subseteq> in_queue st' \<and> in_queue st' \<subseteq> in_queue st \<and>
    (\<forall>t. t \<notin> due now st \<longrightarrow> same_timer (timer st t) (timer st' t)) \<and> thr_timer_inited st' = thr_timer_inited st"
  using assms
proof (induction "card (due now st)" arbitrary: st k rule: less_induct)
  case less
  let ?t = "queue_top (timer_queue st)"
  obtain x where x: "x \<in> due now st" using less.prems(7) by blast
  then have "x \<in> in_queue st" "no_later (expire_time (timer st x)) now" by (auto simp: due_def)
  then have tq: "?t \<in> in_queue st" and td: "no_later (expire_time (timer st ?t)) now"
    using top_first [OF less.prems(1), of x] no_later_trans by (auto simp: top_time_def)
  have t: "?t \<in> due now st" using tq td by (simp add: due_def)
  have tm: "?t \<noteq> max_timer_data"
    using td less.prems(6) timers_invD(7) [OF less.prems(1)] no_later_mix by metis
  obtain st1 where st1: "process_top cb (clock k) st = Some (fires st ?t, st1)" "timers_inv st1"
      "\<forall>x. x \<noteq> ?t \<longrightarrow> same_timer (timer st x) (timer st1 x)"
      "\<forall>x. period (timer st1 x) = cb (func (timer st ?t)) (func_arg (timer st ?t)) (\<lambda>j. period (timer st j)) x"
      "thr_timer_inited st1 = thr_timer_inited st"
      "in_queue st1 = in_queue st - {?t} \<or> in_queue st1 = in_queue st \<and> period (timer st1 ?t) \<noteq> 0 \<and>
         expire_time (timer st1 ?t) = set_timespec_nsec (clock k) (period (timer st1 ?t) * 1000)"
    using process_top_ok [OF less.prems(1) refl tm, of cb "clock k"] by (auto simp: fires_def)
  have p1: "periods_ok st1" using less.prems(2,3) st1(4) by (simp add: periods_ok_def callback_ok_def)
  have "earlier now (set_timespec_nsec (clock k) (period (timer st1 ?t) * 1000))" if "period (timer st1 ?t) \<noteq> 0"
    unfolding less.prems(5)
  proof (rule set_timespec_later)
    show "0 < unat (period (timer st1 ?t))" using that by (simp add: unat_gt_0)
    have "unat (clock k) < 2 ^ 53" "unat (period (timer st1 ?t)) < 2 ^ 53" "unat c0 \<le> unat (clock k)"
      using less.prems(4) p1 by (auto simp: clock_ok_def periods_ok_def)
    then show "unat c0 \<le> unat (clock k)" "unat (clock k) * 1000 + unat (period (timer st1 ?t)) * 1000 < 2 ^ 64" by simp_all
  qed
  then have nt: "?t \<notin> due now st1" using st1(6) by (auto simp: due_def no_later_def)
  have "x \<in> due now st1 \<longleftrightarrow> x \<in> due now st" if "x \<noteq> ?t" for x
  proof -
    have "expire_time (timer st1 x) = expire_time (timer st x)" using st1(3) that same_timerD by blast
    moreover have "x \<in> in_queue st1 \<longleftrightarrow> x \<in> in_queue st" using st1(6) that by auto
    ultimately show ?thesis by (simp add: due_def)
  qed
  then have due1: "due now st1 = due now st - {?t}" using nt by (intro set_eqI) (metis DiffD1 DiffD2 DiffI singletonD singletonI)
  have sub: "in_queue st1 \<subseteq> in_queue st" "in_queue st - {?t} \<subseteq> in_queue st1" using st1(6) by auto
  have first: "no_later (expire_time (timer st ?t)) (expire_time (timer st y))" if "y \<in> due now st" for y
    using top_first(2) [OF less.prems(1), of y] that by (simp add: due_def top_time_def)
  note next_due = top_due [OF st1(2), of now]
  show ?case
  proof (cases "due now st1 = {}")
    case True
    then have "due now st = {?t}" using due1 t by auto
    moreover have "process_timers cb clock now k st = Some (map (fires st) [?t], st1)"
      using st1(1) next_due True by (subst process_timers.simps) simp
    ultimately show ?thesis using st1(2,3,5) p1 sub True by (intro exI [of _ "[?t]"] exI [of _ st1]) auto
  next
    case False
    have "card (due now st1) < card (due now st)" unfolding due1 using t due_finite by (metis card_Diff1_less)
    from less.hyps [OF this st1(2) p1 less.prems(3,4,5,6) False, of "k + 1"]
    obtain ids st' where r: "process_timers cb clock now (k + 1) st1 = Some (map (fires st1) ids, st')" "distinct ids"
        "set ids = due now st1" "sorted_wrt (\<lambda>a b. no_later (expire_time (timer st1 a)) (expire_time (timer st1 b))) ids"
        "timers_inv st'" "periods_ok st'" "due now st' = {}" "in_queue st1 - due now st1 \<subseteq> in_queue st'" "in_queue st' \<subseteq> in_queue st1"
        "\<forall>t. t \<notin> due now st1 \<longrightarrow> same_timer (timer st1 t) (timer st' t)" "thr_timer_inited st' = thr_timer_inited st1" by blast
    have same: "same_timer (timer st y) (timer st1 y)" if "y \<in> set ids" for y
    proof -
      have "y \<noteq> ?t" using that r(3) due1 by auto
      then show ?thesis using st1(3) by blast
    qed
    then have ids: "fires st1 y = fires st y" "expire_time (timer st1 y) = expire_time (timer st y)" if "y \<in> set ids" for y
      using same_timerD [OF same [OF that]] by (auto simp: fires_def)
    have "process_timers cb clock now k st = Some (map (fires st) (?t # ids), st')"
      using st1(1) next_due False r(1) ids(1) by (subst process_timers.simps) simp
    moreover have "sorted_wrt (\<lambda>a b. no_later (expire_time (timer st a)) (expire_time (timer st b))) (?t # ids)"
    proof -
      have "sorted_wrt (\<lambda>a b. no_later (expire_time (timer st a)) (expire_time (timer st b))) ids"
        by (rule sorted_wrt_mono_rel [OF _ r(4)]) (simp add: ids(2))
      then show ?thesis using first r(3) due1 by simp
    qed
    moreover have "set (?t # ids) = due now st" "distinct (?t # ids)" using r(2,3) due1 t by auto
    moreover have "same_timer (timer st y) (timer st' y)" if "y \<notin> due now st" for y
      using that st1(3) r(10) due1 t same_timer_trans by (metis DiffD1)
    moreover have "in_queue st - due now st \<subseteq> in_queue st'" using r(8) sub(2) due1 t by auto
    ultimately show ?thesis using r(5,6,7,9,11) sub(1) st1(5) by (intro exI [of _ "?t # ids"] exI [of _ st']) auto
  qed
qed

lemma handler_ok:
  assumes i: "timers_inv st" and p: "periods_ok st" and cb: "callback_ok cb" and c: "clock_ok c0 clock"
    and now: "now = set_timespec_nsec c0 0" "earlier now max_time"
  shows "\<exists>ids st'. timer_handler cb c0 clock st = Some (map (fires st) ids, st') \<and> distinct ids \<and> set ids = due now st \<and>
    sorted_wrt (\<lambda>a b. no_later (expire_time (timer st a)) (expire_time (timer st b))) ids \<and>
    timers_inv st' \<and> periods_ok st' \<and> due now st' = {} \<and> in_queue st - due now st \<subseteq> in_queue st' \<and> in_queue st' \<subseteq> in_queue st \<and>
    (\<forall>t. t \<notin> due now st \<longrightarrow> same_timer (timer st t) (timer st' t)) \<and> thr_timer_inited st' = thr_timer_inited st \<and>
    earlier now (next_timer_expire_time st') \<and> (\<forall>t\<in>in_queue st'. no_later (next_timer_expire_time st') (expire_time (timer st' t)))"
proof -
  have fin: "timers_inv (st1\<lparr> next_timer_expire_time := top_time st1 \<rparr>)" "earlier now (top_time st1)"
      "\<forall>t\<in>in_queue st1. no_later (top_time st1) (expire_time (timer st1 t))"
    if "timers_inv st1" "due now st1 = {}" for st1
  proof -
    show "timers_inv (st1\<lparr> next_timer_expire_time := top_time st1 \<rparr>)"
      using that(1) by (auto simp: timers_inv_def in_queue_def queue_now_def)
    show "earlier now (top_time st1)" using top_due [OF that(1), of now] that(2) by (simp add: cmp_timespec_sign)
    show "\<forall>t\<in>in_queue st1. no_later (top_time st1) (expire_time (timer st1 t))" using top_first(2) [OF that(1)] by blast
  qed
  have fr: "periods_ok (st1\<lparr> next_timer_expire_time := x \<rparr>) = periods_ok st1" "due now (st1\<lparr> next_timer_expire_time := x \<rparr>) = due now st1"
      "in_queue (st1\<lparr> next_timer_expire_time := x \<rparr>) = in_queue st1" for st1 x
    by (simp_all add: periods_ok_def due_def in_queue_def)
  show ?thesis
  proof (cases "due now st = {}")
    case True
    then have "timer_handler cb c0 clock st = Some (map (fires st) [], st\<lparr> next_timer_expire_time := top_time st \<rparr>)"
      using top_due [OF i, of now] by (simp add: timer_handler_def now(1) [symmetric] Let_def not_less [symmetric] del: not_less)
    then show ?thesis using True i p fin [OF i True]
      by (intro exI [of _ "[]"] exI [of _ "st\<lparr> next_timer_expire_time := top_time st \<rparr>"]) (simp add: fr same_timer_def)
  next
    case False
    obtain ids st1 where r: "process_timers cb clock now 0 st = Some (map (fires st) ids, st1)" "distinct ids" "set ids = due now st"
        "sorted_wrt (\<lambda>a b. no_later (expire_time (timer st a)) (expire_time (timer st b))) ids" "timers_inv st1" "periods_ok st1"
        "due now st1 = {}" "in_queue st - due now st \<subseteq> in_queue st1" "in_queue st1 \<subseteq> in_queue st"
        "\<forall>t. t \<notin> due now st \<longrightarrow> same_timer (timer st t) (timer st1 t)" "thr_timer_inited st1 = thr_timer_inited st"
      using process_timers_ok [OF i p cb c now False, of 0] by blast
    have "timer_handler cb c0 clock st = Some (map (fires st) ids, st1\<lparr> next_timer_expire_time := top_time st1 \<rparr>)"
      using top_due [OF i, of now] False r(1) by (simp add: timer_handler_def now(1) [symmetric] Let_def not_less [symmetric] del: not_less)
    then show ?thesis using r fin [OF r(5,7)]
      by (intro exI [of _ ids] exI [of _ "st1\<lparr> next_timer_expire_time := top_time st1 \<rparr>"]) (simp add: fr)
  qed
qed


subsection \<open>Interleavings\<close>

text \<open>
  \<^verbatim>\<open>asleep\<close>: the thread waits on \<^verbatim>\<open>COND_timer\<close>, until \<^verbatim>\<open>next_timer_expire_time\<close> at the latest. \<^verbatim>\<open>signal\<close>: a signal is about
  to be sent, which \<^verbatim>\<open>thr_timer_settime\<close> does after it has released the mutex. The capacity of the queue,
  a \<^verbatim>\<open>uint\<close> that \<^verbatim>\<open>queue_insert_safe\<close> adds to without a test for overflow, stays within its width: a
  timer is not set when 2 to the 32 less 2 places are in use.
\<close>

record timer_sys =
  state :: timers
  asleep :: bool
  signal :: bool

inductive timer_step :: "timer_sys \<Rightarrow> timer_sys \<Rightarrow> bool" where
  init: "t \<notin> in_queue (state s) \<Longrightarrow> timer_step s (s\<lparr> state := thr_timer_init t f arg (state s) \<rparr>)"
| set_period: "unat us < 2 ^ 53 \<Longrightarrow> timer_step s (s\<lparr> state := thr_timer_set_period t us (state s) \<rparr>)"
| settime: "expired (timer (state s) t) \<Longrightarrow> realloc_ok ra \<Longrightarrow>
    max_elements (timer_queue (state s)) + auto_extent (timer_queue (state s)) + 1 < 2 ^ 32 \<Longrightarrow> thr_timer_settime ra c t us (state s) = Some (err, sig, st') \<Longrightarrow>
    timer_step s (s\<lparr> state := st', signal := (signal s \<or> sig) \<rparr>)"
| stop: "t \<noteq> max_timer_data \<Longrightarrow> thr_timer_end t (state s) = Some st' \<Longrightarrow> timer_step s (s\<lparr> state := st' \<rparr>)"
| signalled: "signal s \<Longrightarrow> timer_step s (s\<lparr> signal := False, asleep := False \<rparr>)"
| wake: "asleep s \<Longrightarrow> timer_step s (s\<lparr> asleep := False \<rparr>)"
| run: "\<not> asleep s \<Longrightarrow> callback_ok cb \<Longrightarrow> clock_ok c0 clock \<Longrightarrow> earlier (set_timespec_nsec c0 0) max_time \<Longrightarrow>
    timer_handler cb c0 clock (state s) = Some (calls, st') \<Longrightarrow> timer_step s (s\<lparr> state := st', asleep := True \<rparr>)"

text \<open>The state when the thread has been started; no timer is armed.\<close>

definition timer_start :: "timer_sys \<Rightarrow> bool" where
  "timer_start s \<longleftrightarrow> (\<exists>my_malloc offs alloc st0.
     (\<forall>n b. my_malloc n = Some b \<longrightarrow> length b = n) \<and> alloc + 3 < 2 ^ 32 \<and> (\<forall>t. expired (timer st0 t)) \<and> periods_ok st0 \<and>
     init_thr_timer my_malloc offs True alloc st0 = Some (False, state s) \<and> \<not> asleep s \<and> \<not> signal s)"

inductive timer_reachable :: "timer_sys \<Rightarrow> bool" where
  start: "timer_start s \<Longrightarrow> timer_reachable s"
| step: "timer_reachable s \<Longrightarrow> timer_step s s' \<Longrightarrow> timer_reachable s'"

definition sys_inv :: "timer_sys \<Rightarrow> bool" where
  "sys_inv s \<longleftrightarrow> timers_inv (state s) \<and> periods_ok (state s) \<and>
     (asleep s \<and> \<not> signal s \<longrightarrow>
        (\<forall>t\<in>in_queue (state s). no_later (next_timer_expire_time (state s)) (expire_time (timer (state s) t))))"

lemma start_inv:
  assumes "timer_start s"
  shows "sys_inv s"
proof -
  obtain my_malloc offs alloc st0 where a: "\<forall>n b. my_malloc n = Some b \<longrightarrow> length b = n" "\<forall>t. expired (timer st0 t)" "periods_ok st0"
      "init_thr_timer my_malloc offs True alloc st0 = Some (False, state s)" "\<not> asleep s" and w: "alloc + 3 < 2 ^ 32"
    using assms by (auto simp: timer_start_def)
  define d where "d = \<lparr> expire_time = max_time, period = 0, timeout = 0, expired = False, func = 0, func_arg = 0 \<rparr>"
  define st1 where "st1 = set_timer st0 max_timer_data d"
  obtain b q1 where m: "my_malloc (alloc + 2 + 1) = Some b"
      and q: "queue_insert \<lparr> root = b, elements = 0, max_elements = alloc + 2, offset_to_queue_pos = offs + 1, auto_extent = 1, max_at_top = 1,
        compare = compare_timespec (timer st1), queue_pos = (queue_pos (timer_queue st0))(max_timer_data := 0) \<rparr> max_timer_data = Some q1"
      and st: "state s = st1\<lparr> timer_queue := q1, next_timer_expire_time := max_time, thr_timer_inited := True \<rparr>"
    using a(4) w by (auto simp: init_thr_timer_def init_queue_def queue_set_max_at_top_def Let_def d_def [symmetric] st1_def [symmetric]
        split: option.splits bind_splits)
  let ?q = "\<lparr> root = b, elements = 0, max_elements = alloc + 2, offset_to_queue_pos = offs + 1, auto_extent = 1, max_at_top = 1,
        compare = compare_timespec (timer st1), queue_pos = (queue_pos (timer_queue st0))(max_timer_data := 0) \<rparr>"
  have "length b = alloc + 3" using a(1) m by auto
  then have qi: "queue_inv ?q"
    using time_order(1) [of ?q "timer st1"] by (simp add: queue_inv_def queue_wf_def heap_from_def pos_ok_def)
  have e: "queue_mset ?q = {#}" by (simp add: queue_mset_def)
  have Q: "queue_inv q1" "queue_mset q1 = add_mset max_timer_data (queue_mset ?q)" "compare q1 = compare ?q" "max_at_top q1 = 1"
      "offset_to_queue_pos q1 = offs + 1" "auto_extent q1 = 1"
    using queue_insert_inv [OF qi _ q] e by auto
  have "timers_inv ((st1\<lparr> next_timer_expire_time := max_time, thr_timer_inited := True \<rparr>)\<lparr> timer_queue := q1 \<rparr>)"
    by (rule inv_put_queue) (use Q e a(2) in \<open>auto simp: st1_def set_timer_def d_def\<close>)
  moreover have "state s = (st1\<lparr> next_timer_expire_time := max_time, thr_timer_inited := True \<rparr>)\<lparr> timer_queue := q1 \<rparr>"
    unfolding st by (cases st1) simp
  ultimately have "timers_inv (state s)" by simp
  moreover have "periods_ok (state s)" using a(3) by (auto simp: st st1_def set_timer_def d_def periods_ok_def)
  ultimately show ?thesis using a(5) by (simp add: sys_inv_def)
qed

lemma step_inv:
  assumes "sys_inv s" "timer_step s s'"
  shows "sys_inv s'"
  using assms(2,1)
proof cases
  case (init t f arg)
  have "next_timer_expire_time (thr_timer_init t f arg (state s)) = next_timer_expire_time (state s)"
    "timer (thr_timer_init t f arg (state s)) x = timer (state s) x" if "x \<noteq> t" for x
    using that by (simp_all add: thr_timer_init_def set_timer_def)
  moreover have "unat (period (timer (thr_timer_init t f arg (state s)) x)) < 2 ^ 53" if "periods_ok (state s)" for x
    using that by (auto simp: thr_timer_init_def set_timer_def periods_ok_def)
  ultimately show ?thesis
    using assms(1) init_timer_ok [of "state s" t f arg] init by (auto simp: sys_inv_def periods_ok_def) metis
next
  case (set_period us t)
  have "expire_time (timer (thr_timer_set_period t us (state s)) x) = expire_time (timer (state s) x)"
    "next_timer_expire_time (thr_timer_set_period t us (state s)) = next_timer_expire_time (state s)" for x
    by (simp_all add: thr_timer_set_period_def set_timer_def)
  moreover have "periods_ok (thr_timer_set_period t us (state s))" if "periods_ok (state s)"
    using that set_period(2) by (auto simp: thr_timer_set_period_def set_timer_def periods_ok_def)
  ultimately show ?thesis using assms(1) set_period_ok [of "state s" t us] set_period by (simp add: sys_inv_def)
next
  case (settime t ra c us err sig st')
  have i: "timers_inv (state s)" using assms(1) by (simp add: sys_inv_def)
  have S: "timers_inv st'" "in_queue st' = (if err then in_queue (state s) else insert t (in_queue (state s)))"
      "next_timer_expire_time st' = next_timer_expire_time (state s)" "\<forall>x. x \<noteq> t \<longrightarrow> timer st' x = timer (state s) x"
      "expire_time (timer st' t) = set_timespec_nsec c (us * 1000)" "period (timer st' t) = period (timer (state s) t)"
      "sig \<longleftrightarrow> \<not> err \<and> earlier (set_timespec_nsec c (us * 1000)) (next_timer_expire_time (state s))"
    using settime_ok [OF i settime(2,3,4), of c us] settime(5) by auto
  have "periods_ok st'" using assms(1) S(4,6) unfolding sys_inv_def periods_ok_def by metis
  moreover have "no_later (next_timer_expire_time st') (expire_time (timer st' x))"
    if "asleep s" "\<not> (signal s \<or> sig)" "x \<in> in_queue st'" for x
  proof (cases "x = t")
    case True
    have "t \<notin> in_queue (state s)" using timers_invD(6) [OF i] settime(2) by blast
    then have "\<not> err" using that(3) True S(2) by auto
    then show ?thesis using True that(2) S(3,5,7) by (simp add: no_later_def)
  next
    case False
    then have "x \<in> in_queue (state s)" using that(3) S(2) by (auto split: if_splits)
    then show ?thesis using assms(1) that(1,2) S(3,4) False by (simp add: sys_inv_def)
  qed
  ultimately show ?thesis using S(1) settime(1) by (simp add: sys_inv_def)
next
  case (stop t st')
  have i: "timers_inv (state s)" using assms(1) by (simp add: sys_inv_def)
  have S: "timers_inv st'" "in_queue st' = in_queue (state s) - {t}" "next_timer_expire_time st' = next_timer_expire_time (state s)"
      "\<forall>x. timer st' x = (timer (state s) x)\<lparr> expired := expired (timer st' x) \<rparr>"
    using end_ok [OF i stop(2)] stop(3) by auto
  have e: "expire_time (timer st' x) = expire_time (timer (state s) x)" "period (timer st' x) = period (timer (state s) x)" for x
    using S(4) by (metis thr_timer_t.select_convs(1,2) thr_timer_t.surjective thr_timer_t.update_convs(4))+
  then show ?thesis using assms(1) S(1,2,3) stop(1) by (auto simp: sys_inv_def periods_ok_def)
next
  case (run cb c0 clock calls st')
  have i: "timers_inv (state s)" "periods_ok (state s)" using assms(1) by (simp_all add: sys_inv_def)
  show ?thesis using handler_ok [OF i run(3,4) refl run(5)] run(1,6) by (auto simp: sys_inv_def)
qed (use assms(1) in \<open>auto simp: sys_inv_def\<close>)

lemma reachable_inv: "timer_reachable s \<Longrightarrow> sys_inv s"
  by (induction rule: timer_reachable.induct) (blast intro: start_inv step_inv)+

end
