(* ===== verification/Mdb_Timer_Theorems.thy ===== *)
theory Mdb_Timer_Theorems
  imports Mdb_Timer_System
begin

text \<open>The results on timers, with a run of one timer as an instance.\<close>

subsection \<open>A run\<close>

definition ex_malloc :: "nat malloc" where
  "ex_malloc n = Some (replicate n 0)"

definition ex_realloc :: "nat realloc" where
  "ex_realloc xs n = None"

definition ex_timers :: timers where
  "ex_timers = \<lparr> timer_queue = \<lparr> root = [], elements = 0, max_elements = 0, offset_to_queue_pos = 0, auto_extent = 0, max_at_top = 1,
       compare = (\<lambda>a b. 0), queue_pos = (\<lambda>t. 0) \<rparr>,
     timer = (\<lambda>t. \<lparr> expire_time = \<lparr> tv_sec = 0, tv_nsec = 0 \<rparr>, period = 0, timeout = 0, expired = True, func = 0, func_arg = 0 \<rparr>),
     next_timer_expire_time = max_time, thr_timer_inited = False \<rparr>"

lemma ex_times:
  "set_timespec_nsec 10 5000 = \<lparr> tv_sec = 0, tv_nsec = 15000 \<rparr>" "set_timespec_nsec 11 0 = \<lparr> tv_sec = 0, tv_nsec = 11000 \<rparr>"
  "set_timespec_nsec 20 0 = \<lparr> tv_sec = 0, tv_nsec = 20000 \<rparr>"
  by (simp_all add: set_timespec_nsec_def set_timespec_time_nsec_def)

lemma ex_order: "\<not> no_later max_time (set_timespec_nsec 11 0)" "\<not> no_later (set_timespec_nsec 10 5000) (set_timespec_nsec 11 0)"
    "\<not> no_later max_time (set_timespec_nsec 20 0)" "no_later (set_timespec_nsec 10 5000) (set_timespec_nsec 20 0)"
  by (simp_all add: no_later_def earlier_def ex_times max_time_def)

lemma ex_not_expired: "timer_reachable s \<Longrightarrow> in_queue (state s) = {0, 1} \<Longrightarrow> \<not> expired (timer (state s) 1)"
  using reachable_inv [of s] timers_invD(6) [of "state s" 1] by (simp add: sys_inv_def)

text \<open>Timer 1 calls function 7 with argument 8, five microseconds after the clock shows 10.\<close>

lemma ex_armed:
  "\<exists>s. timer_reachable s \<and> \<not> asleep s \<and> in_queue (state s) = {0, 1} \<and> fires (state s) 1 = (7, 8) \<and>
     expire_time (timer (state s) 1) = set_timespec_nsec 10 5000"
proof -
  obtain st1 where st1: "init_thr_timer ex_malloc 3 True 5 ex_timers = Some (False, st1)"
      "elements (timer_queue st1) = 1" "max_elements (timer_queue st1) = 7" "\<forall>t. expired (timer st1 t) \<longleftrightarrow> t \<noteq> 0" "auto_extent (timer_queue st1) = 1"
    by (simp add: init_thr_timer_def init_queue_def ex_malloc_def ex_timers_def queue_insert_def queue_set_max_at_top_def insert_at.simps
        put_at_def set_timer_def max_timer_data_def)
  let ?s1 = "\<lparr> state = st1, asleep = False, signal = False \<rparr>"
  have "timer_start ?s1"
    unfolding timer_start_def
    by (rule exI [of _ ex_malloc], rule exI [of _ 3], rule exI [of _ 5], rule exI [of _ ex_timers])
      (simp add: st1(1), simp add: ex_malloc_def ex_timers_def periods_ok_def)
  then have r1: "timer_reachable ?s1" by (rule timer_reachable.start)
  have i1: "timers_inv st1" using reachable_inv [OF r1] by (simp add: sys_inv_def)
  have in1: "in_queue st1 = {0}" using timers_invD(6) [OF i1] st1(4) by auto
  let ?st2 = "thr_timer_init 1 7 8 st1"
  have st2: "timers_inv ?st2" "in_queue ?st2 = {0}" "timer ?st2 1 = \<lparr> expire_time = \<lparr> tv_sec = 0, tv_nsec = 0 \<rparr>, period = 0, timeout = 0,
      expired = True, func = 7, func_arg = 8 \<rparr>" "elements (timer_queue ?st2) < max_elements (timer_queue ?st2)"
    using init_timer_ok [OF i1, of 1 7 8] st1(2,3) in1 by (simp_all add: thr_timer_init_def set_timer_def)
  have r2: "timer_reachable \<lparr> state = ?st2, asleep = False, signal = False \<rparr>"
    using timer_reachable.step [OF r1 timer_step.init [of 1 ?s1 7 8]] in1 by simp
  have ra: "realloc_ok ex_realloc" by (simp add: realloc_ok_def ex_realloc_def)
  have w2: "max_elements (timer_queue ?st2) + auto_extent (timer_queue ?st2) + 1 < 2 ^ 32"
    using st1(3,5) by (simp add: thr_timer_init_def set_timer_def)
  obtain err sig st3 where S: "thr_timer_settime ex_realloc 10 1 5 ?st2 = Some (err, sig, st3)"
      "in_queue st3 = (if err then in_queue ?st2 else insert 1 (in_queue ?st2))" "expire_time (timer st3 1) = set_timespec_nsec 10 (5 * 1000)"
    using settime_ok [OF st2(1) _ ra w2, of 1 10 5] st2(3) by auto
  have "\<not> err" "func (timer st3 1) = 7" "func_arg (timer st3 1) = 8"
    using S(1) st2(3,4) by (auto simp: thr_timer_settime_def queue_insert_safe_def set_timer_def Let_def split: bind_splits if_splits)
  moreover have "timer_reachable \<lparr> state = st3, asleep = False, signal = sig \<rparr>"
    using timer_reachable.step [OF r2 timer_step.settime [OF _ ra, of _ 1]] S(1) st2(3) w2 by auto
  ultimately show ?thesis using S st2(2) by (intro exI [of _ "\<lparr> state = st3, asleep = False, signal = sig \<rparr>"]) (auto simp: fires_def)
qed

subsection \<open>The properties\<close>

text \<open>
  C18: Timers are never slept over. In every state that can be reached by setting and stopping timers,
  changing periods, signals, timeouts and runs of the timer thread: when the thread sleeps and no signal
  to it is on the way, it sleeps no longer than until the time at which any armed timer expires. (The
  capacity of the queue, a \<^verbatim>\<open>uint\<close>, does not overflow.)
\<close>

theorem timer_thread_wakes_in_time:
  assumes "timer_reachable s" and "asleep s" and "\<not> signal s" and "\<not> expired (timer (state s) t)"
  shows "cmp_timespec (next_timer_expire_time (state s)) (expire_time (timer (state s) t)) \<le> 0"
  using reachable_inv [OF assms(1)] assms(2-4) timers_invD(6) [of "state s" t] by (auto simp: sys_inv_def cmp_timespec_sign)

theorem timer_thread_wakes_in_time_witness:
  "\<exists>s. timer_reachable s \<and> asleep s \<and> \<not> signal s \<and> \<not> expired (timer (state s) 1) \<and>
     cmp_timespec (next_timer_expire_time (state s)) (expire_time (timer (state s) 1)) \<le> 0"
proof -
  obtain s where s: "timer_reachable s" "\<not> asleep s" "in_queue (state s) = {0, 1}" "expire_time (timer (state s) 1) = set_timespec_nsec 10 5000"
    using ex_armed by blast
  have ok: "callback_ok (\<lambda>f arg p. p)" "clock_ok 11 (\<lambda>k. 11)" "earlier (set_timespec_nsec 11 0) max_time"
    by (simp_all add: callback_ok_def clock_ok_def earlier_def ex_times max_time_def)
  have run: "\<exists>st'. timer_handler (\<lambda>f arg p. p) 11 (\<lambda>k. 11) (state u) = Some ([], st') \<and> in_queue st' = in_queue (state u) \<and>
      expire_time (timer st' 1) = expire_time (timer (state u) 1)"
    if u: "timer_reachable u" "in_queue (state u) = {0, 1}" "expire_time (timer (state u) 1) = set_timespec_nsec 10 5000" for u
  proof -
    have i: "timers_inv (state u)" "periods_ok (state u)" using reachable_inv [OF u(1)] by (simp_all add: sys_inv_def)
    have "due (set_timespec_nsec 11 0) (state u) = {}"
    proof -
      have "\<not> no_later (expire_time (timer (state u) t)) (set_timespec_nsec 11 0)" if "t \<in> {0, 1}" for t
        using that u(3) timers_invD(7) [OF i(1)] ex_order by (cases "t = 0") (auto simp: max_timer_data_def)
      then show ?thesis unfolding due_def u(2) by blast
    qed
    then obtain st' where "timer_handler (\<lambda>f arg p. p) 11 (\<lambda>k. 11) (state u) = Some ([], st')" "in_queue (state u) \<subseteq> in_queue st'"
        "in_queue st' \<subseteq> in_queue (state u)" "same_timer (timer (state u) 1) (timer st' 1)"
      using handler_ok [OF i ok(1,2) refl ok(3)] by auto
    then show ?thesis using same_timerD by blast
  qed
  obtain st1 where st1: "timer_handler (\<lambda>f arg p. p) 11 (\<lambda>k. 11) (state s) = Some ([], st1)" "in_queue st1 = {0, 1}"
      "expire_time (timer st1 1) = set_timespec_nsec 10 5000" using run [OF s(1,3,4)] s(3,4) by auto
  let ?s1 = "s\<lparr> state := st1, asleep := True \<rparr>"
  have r1: "timer_reachable ?s1" by (rule timer_reachable.step [OF s(1) timer_step.run [OF s(2) ok st1(1)]])
  show ?thesis
  proof (cases "signal s")
    case False
    moreover have "\<not> expired (timer st1 1)" using ex_not_expired [OF r1] st1(2) by simp
    ultimately show ?thesis using timer_thread_wakes_in_time [OF r1, of 1] r1 by (intro exI [of _ ?s1]) simp
  next
    case True
    let ?s2 = "?s1\<lparr> signal := False, asleep := False \<rparr>"
    have r2: "timer_reachable ?s2" by (rule timer_reachable.step [OF r1 timer_step.signalled]) (simp add: True)
    obtain st3 where st3: "timer_handler (\<lambda>f arg p. p) 11 (\<lambda>k. 11) (state ?s2) = Some ([], st3)" "in_queue st3 = {0, 1}"
      using run [OF r2] st1(2,3) by auto
    let ?s3 = "?s2\<lparr> state := st3, asleep := True \<rparr>"
    have r3: "timer_reachable ?s3" by (rule timer_reachable.step [OF r2 timer_step.run [OF _ ok st3(1)]]) simp
    have "\<not> expired (timer st3 1)" using ex_not_expired [OF r3] st3(2) by simp
    then show ?thesis using timer_thread_wakes_in_time [OF r3, of 1] r3 by (intro exI [of _ ?s3]) simp
  qed
qed

text \<open>
  C19: A run of the timer thread returns. It calls the functions of exactly the timers whose time has come, each
  once, in the order of their times; afterwards no armed timer is due, every other timer is as it was but for its period,
  the queue is intact, and the thread goes to sleep until the earliest armed timer. Hypotheses: the
  clock does not go back while the thread runs, times stay within 64 bits, and the clock has
  not reached the time of the dummy element, the year 2106; the capacity of the queue, a \<^verbatim>\<open>uint\<close>, does not
  overflow.
\<close>

theorem timer_handler_fires:
  assumes "timer_reachable s" and "callback_ok cb" and "clock_ok c0 clock" and "now = set_timespec_nsec c0 0" and "earlier now max_time"
  shows "\<exists>ids st'. timer_handler cb c0 clock (state s) = Some (map (fires (state s)) ids, st') \<and> distinct ids \<and>
    set ids = {t. \<not> expired (timer (state s) t) \<and> cmp_timespec (expire_time (timer (state s) t)) now \<le> 0} \<and>
    sorted_wrt (\<lambda>a b. cmp_timespec (expire_time (timer (state s) a)) (expire_time (timer (state s) b)) \<le> 0) ids \<and>
    timers_inv st' \<and> (\<forall>t. t \<notin> set ids \<longrightarrow> same_timer (timer (state s) t) (timer st' t)) \<and>
    (\<forall>t. \<not> expired (timer st' t) \<longrightarrow> cmp_timespec (expire_time (timer st' t)) now > 0 \<and>
       cmp_timespec (next_timer_expire_time st') (expire_time (timer st' t)) \<le> 0)"
proof -
  have i: "timers_inv (state s)" "periods_ok (state s)" using reachable_inv [OF assms(1)] by (simp_all add: sys_inv_def)
  obtain ids st' where r: "timer_handler cb c0 clock (state s) = Some (map (fires (state s)) ids, st')" "distinct ids" "set ids = due now (state s)"
      "sorted_wrt (\<lambda>a b. no_later (expire_time (timer (state s) a)) (expire_time (timer (state s) b))) ids" "timers_inv st'" "due now st' = {}"
      "\<forall>t. t \<notin> due now (state s) \<longrightarrow> same_timer (timer (state s) t) (timer st' t)"
      "\<forall>t\<in>in_queue st'. no_later (next_timer_expire_time st') (expire_time (timer st' t))"
    using handler_ok [OF i assms(2-5)] by blast
  have "due now (state s) = {t. \<not> expired (timer (state s) t) \<and> cmp_timespec (expire_time (timer (state s) t)) now \<le> 0}"
    using timers_invD(6) [OF i(1)] by (auto simp: due_def cmp_timespec_sign)
  then show ?thesis using r timers_invD(6) [OF r(5)]
    by (intro exI [of _ ids] exI [of _ st']) (auto simp: cmp_timespec_sign due_def no_later_def)
qed

theorem timer_handler_fires_witness:
  "\<exists>s st'. timer_reachable s \<and> timer_handler (\<lambda>f arg p. p) 20 (\<lambda>k. 20) (state s) = Some ([(7, 8)], st')"
proof -
  obtain s where s: "timer_reachable s" "in_queue (state s) = {0, 1}" "fires (state s) 1 = (7, 8)"
      "expire_time (timer (state s) 1) = set_timespec_nsec 10 5000"
    using ex_armed by blast
  let ?now = "set_timespec_nsec 20 0"
  have ok: "callback_ok (\<lambda>f arg p. p)" "clock_ok 20 (\<lambda>k. 20)" "earlier ?now max_time"
    by (simp_all add: callback_ok_def clock_ok_def earlier_def ex_times max_time_def)
  have i: "timers_inv (state s)" using reachable_inv [OF s(1)] by (simp add: sys_inv_def)
  have "{t. \<not> expired (timer (state s) t) \<and> cmp_timespec (expire_time (timer (state s) t)) ?now \<le> 0} = due ?now (state s)"
    using timers_invD(6) [OF i] by (auto simp: due_def cmp_timespec_sign)
  also have "\<dots> = {1}"
  proof -
    have "expire_time (timer (state s) 0) = max_time" using timers_invD(7) [OF i] by (simp add: max_timer_data_def)
    then show ?thesis unfolding due_def s(2) using s(4) ex_order by auto
  qed
  finally obtain ids st' where r: "timer_handler (\<lambda>f arg p. p) 20 (\<lambda>k. 20) (state s) = Some (map (fires (state s)) ids, st')" "distinct ids" "set ids = {1}"
    using timer_handler_fires [OF s(1) ok(1,2) refl ok(3)] by auto
  have "ids = [1]" using r(2,3) by (cases ids; cases "tl ids") auto
  then show ?thesis using r(1) s(1,3) by auto
qed

end
