(* ===== verification/Mdb_Hash.thy ===== *)
theory Mdb_Hash
  imports Mdb_Prelude
begin

text \<open>
  The hash table of \<^verbatim>\<open>mysys/hash.c\<close> and \<^verbatim>\<open>include/hash.h\<close>: linear hashing in one array whose slots are
  linked into chains by index. A bucket is a slot number; the records of a bucket form a chain
  that starts in that slot. With each insertion the array grows by one slot and one bucket is split;
  with each deletion the last slot is freed and its bucket is merged back.

  A record is known by its address; \<^verbatim>\<open>memory\<close> gives the bytes found there. \<^verbatim>\<open>HASH::array\<close>, a
  \<^verbatim>\<open>DYNAMIC_ARRAY\<close>, is the list of its elements. The hash function and the comparison of the
  character set are functions on byte strings. Loops that follow links are partial functions: their
  value is \<^const>\<open>None\<close> when they do not end.
\<close>

type_synonym bytes = "8 word list"
type_synonym rec_id = nat
type_synonym memory = "rec_id \<Rightarrow> bytes"

definition NO_RECORD :: nat where
  "NO_RECORD = 2 ^ 32 - 1"

record HASH_LINK =
  link_next :: nat
  hash_nr :: u32
  link_data :: rec_id

record HASH =
  key_offset :: nat
  key_length :: nat
  blength :: nat
  records :: nat
  unique_keys :: bool
  links :: "HASH_LINK list"
  get_key :: "(bytes \<Rightarrow> bytes) option"
  hash_function :: "bytes \<Rightarrow> u32"
  strnncoll :: "bytes \<Rightarrow> bytes \<Rightarrow> int"
  has_free :: bool

text \<open>
  \<^verbatim>\<open>hash_sort\<close> is the hash function of the character set (\<^verbatim>\<open>my_hash_sort\<close>), \<^verbatim>\<open>coll\<close> its comparison (\<^verbatim>\<open>my_strnncoll\<close>).
\<close>

definition my_hash_init2 :: "nat \<Rightarrow> nat \<Rightarrow> (bytes \<Rightarrow> bytes) option \<Rightarrow> (bytes \<Rightarrow> u32) option \<Rightarrow> (bytes \<Rightarrow> u32) \<Rightarrow>
    (bytes \<Rightarrow> bytes \<Rightarrow> int) \<Rightarrow> bool \<Rightarrow> bool \<Rightarrow> HASH" where
  "my_hash_init2 offset len get hf hash_sort coll free uniq =
     \<lparr> key_offset = offset, key_length = len, blength = 1, records = 0, unique_keys = uniq, links = [],
       get_key = get, hash_function = (case hf of Some f \<Rightarrow> f | None \<Rightarrow> hash_sort), strnncoll = coll, has_free = free \<rparr>"

text \<open>Freeing reports the records passed to the free function, in order.\<close>

definition my_hash_free_elements :: "HASH \<Rightarrow> rec_id list \<times> HASH" where
  "my_hash_free_elements H =
     (if records H = 0 then ([], H)
      else (if has_free H then map link_data (take (records H) (links H)) else [], H\<lparr> records := 0 \<rparr>))"

definition my_hash_free :: "HASH \<Rightarrow> rec_id list \<times> HASH" where
  "my_hash_free H =
     (case my_hash_free_elements H of (fs, H1) \<Rightarrow> (fs, H1\<lparr> has_free := False, links := [], blength := 0 \<rparr>))"

definition my_hash_reset :: "HASH \<Rightarrow> rec_id list \<times> HASH" where
  "my_hash_reset H =
     (case my_hash_free_elements H of (fs, H1) \<Rightarrow> (fs, H1\<lparr> links := [], blength := 1 \<rparr>))"

definition my_hash_key :: "HASH \<Rightarrow> memory \<Rightarrow> rec_id \<Rightarrow> bytes" where
  "my_hash_key H mem r =
     (case get_key H of
        Some g \<Rightarrow> g (mem r)
      | None \<Rightarrow> take (key_length H) (drop (key_offset H) (mem r)))"

text \<open>\<^verbatim>\<open>size_t\<close> minus one wraps around at zero.\<close>

definition size_dec :: "nat \<Rightarrow> nat" where
  "size_dec n = (if n = 0 then 2 ^ 64 - 1 else n - 1)"

definition my_hash_mask :: "u32 \<Rightarrow> nat \<Rightarrow> nat \<Rightarrow> nat" where
  "my_hash_mask hashnr buffmax maxlength =
     (if and (unat hashnr) (size_dec buffmax) < maxlength
      then and (unat hashnr) (size_dec buffmax)
      else and (unat hashnr) (size_dec (buffmax div 2)))"

definition my_hash_rec_mask :: "HASH_LINK \<Rightarrow> nat \<Rightarrow> nat \<Rightarrow> nat" where
  "my_hash_rec_mask pos buffmax maxlength = my_hash_mask (hash_nr pos) buffmax maxlength"

definition rec_hashnr :: "HASH \<Rightarrow> memory \<Rightarrow> rec_id \<Rightarrow> u32" where
  "rec_hashnr H mem r = hash_function H (my_hash_key H mem r)"

definition hashcmp :: "HASH \<Rightarrow> memory \<Rightarrow> HASH_LINK \<Rightarrow> bytes \<Rightarrow> int" where
  "hashcmp H mem pos key = strnncoll H (my_hash_key H mem (link_data pos)) key"

text \<open>A key argument: the bytes at its address, as many as given, or \<^verbatim>\<open>key_length\<close> for length 0.\<close>

definition key_arg :: "HASH \<Rightarrow> bytes \<Rightarrow> nat \<Rightarrow> bytes" where
  "key_arg H key len = take (if len = 0 then key_length H else len) key"

subsection \<open>Searching\<close>

text \<open>A search returns the record found and its slot, the value of \<^verbatim>\<open>HASH_SEARCH_STATE\<close>.\<close>

partial_function (option) search_loop ::
  "HASH \<Rightarrow> memory \<Rightarrow> bytes \<Rightarrow> nat \<Rightarrow> bool \<Rightarrow> (rec_id \<times> nat) option option" where
  "search_loop H mem key idx flag =
     (let pos = links H ! idx in
      if hashcmp H mem pos key = 0 then Some (Some (link_data pos, idx))
      else if flag \<and> my_hash_rec_mask pos (blength H) (records H) \<noteq> idx then Some None
      else if link_next pos = NO_RECORD then Some None
      else search_loop H mem key (link_next pos) False)"

definition my_hash_first_from_hash_value ::
  "HASH \<Rightarrow> memory \<Rightarrow> u32 \<Rightarrow> bytes \<Rightarrow> nat \<Rightarrow> (rec_id \<times> nat) option option" where
  "my_hash_first_from_hash_value H mem hash_value key len =
     (if records H \<noteq> 0
      then search_loop H mem (key_arg H key len) (my_hash_mask hash_value (blength H) (records H)) True
      else Some None)"

definition my_hash_first :: "HASH \<Rightarrow> memory \<Rightarrow> bytes \<Rightarrow> nat \<Rightarrow> (rec_id \<times> nat) option option" where
  "my_hash_first H mem key len =
     my_hash_first_from_hash_value H mem (hash_function H (key_arg H key len)) key len"

definition my_hash_search :: "HASH \<Rightarrow> memory \<Rightarrow> bytes \<Rightarrow> nat \<Rightarrow> rec_id option option" where
  "my_hash_search H mem key len = map_option (map_option fst) (my_hash_first H mem key len)"

partial_function (option) next_loop :: "HASH \<Rightarrow> memory \<Rightarrow> bytes \<Rightarrow> nat \<Rightarrow> (rec_id \<times> nat) option option" where
  "next_loop H mem key idx =
     (if idx = NO_RECORD then Some None
      else
        (let pos = links H ! idx in
         if hashcmp H mem pos key = 0 then Some (Some (link_data pos, idx))
         else next_loop H mem key (link_next pos)))"

definition my_hash_next :: "HASH \<Rightarrow> memory \<Rightarrow> bytes \<Rightarrow> nat \<Rightarrow> nat \<Rightarrow> (rec_id \<times> nat) option option" where
  "my_hash_next H mem key len current_record =
     (if current_record \<noteq> NO_RECORD
      then next_loop H mem (key_arg H key len) (link_next (links H ! current_record))
      else Some None)"

definition my_hash_element :: "HASH \<Rightarrow> nat \<Rightarrow> rec_id option" where
  "my_hash_element H idx = (if idx < records H then Some (link_data (links H ! idx)) else None)"

definition my_hash_replace :: "HASH \<Rightarrow> nat \<Rightarrow> rec_id \<Rightarrow> HASH" where
  "my_hash_replace H current_record new_row =
     (if current_record \<noteq> NO_RECORD
      then H\<lparr> links := (links H)[current_record := (links H ! current_record)\<lparr> link_data := new_row \<rparr>] \<rparr>
      else H)"

text \<open>The calls of the action, up to the first that returns true.\<close>

fun iterate_loop :: "(rec_id \<Rightarrow> bool) \<Rightarrow> rec_id list \<Rightarrow> bool \<times> rec_id list" where
  "iterate_loop action [] = (False, [])"
| "iterate_loop action (r # rs) =
     (if action r then (True, [r]) else (case iterate_loop action rs of (b, cs) \<Rightarrow> (b, r # cs)))"

definition my_hash_iterate :: "HASH \<Rightarrow> (rec_id \<Rightarrow> bool) \<Rightarrow> bool \<times> rec_id list" where
  "my_hash_iterate H action = iterate_loop action (map link_data (take (records H) (links H)))"

subsection \<open>Inserting\<close>

partial_function (option) movelink :: "HASH_LINK list \<Rightarrow> nat \<Rightarrow> nat \<Rightarrow> nat \<Rightarrow> HASH_LINK list option" where
  "movelink d seek next_link newlink =
     (if link_next (d ! next_link) \<noteq> seek
      then movelink d seek (link_next (d ! next_link)) newlink
      else Some (d[next_link := (d ! next_link)\<lparr> link_next := newlink \<rparr>]))"

text \<open>
  The local variables of the loop of \<^verbatim>\<open>my_hash_insert\<close> that splits a bucket. \<^verbatim>\<open>flag\<close> is four truth values;
  \<^verbatim>\<open>rec_data\<close> and \<^verbatim>\<open>rec_hash_nr\<close> are a pair, pointers are slot numbers.
\<close>

record split =
  s_links :: "HASH_LINK list"
  s_empty :: nat
  lowfind :: bool
  lowused :: bool
  highfind :: bool
  highused :: bool
  gpos :: nat
  saved :: "rec_id \<times> u32"
  gpos2 :: nat
  saved2 :: "rec_id \<times> u32"

definition write_link :: "HASH_LINK list \<Rightarrow> nat \<Rightarrow> rec_id \<times> u32 \<Rightarrow> nat \<Rightarrow> HASH_LINK list" where
  "write_link d g rec nx = d[g := \<lparr> link_next = nx, hash_nr = snd rec, link_data = fst rec \<rparr>]"

definition split_step :: "nat \<Rightarrow> nat \<Rightarrow> split \<Rightarrow> split" where
  "split_step halfbuff p s =
     (let pos = s_links s ! p; cont = (link_data pos, hash_nr pos) in
      if and (unat (hash_nr pos)) halfbuff = 0 then
        if \<not> lowfind s then
          if highfind s
          then s\<lparr> lowfind := True, lowused := False, highused := False, gpos := s_empty s, saved := cont, s_empty := p \<rparr>
          else s\<lparr> lowfind := True, lowused := True, highfind := False, highused := False, gpos := p, saved := cont \<rparr>
        else
          (let s1 = (if \<not> lowused s
                     then s\<lparr> s_links := write_link (s_links s) (gpos s) (saved s) p, lowused := True, highused := False \<rparr>
                     else s)
           in s1\<lparr> gpos := p, saved := cont \<rparr>)
      else
        if \<not> highfind s
        then s\<lparr> highfind := True, lowused := False, highused := False, gpos2 := s_empty s, s_empty := p, saved2 := cont \<rparr>
        else
          (let s1 = (if \<not> highused s
                     then s\<lparr> s_links := write_link (s_links s) (gpos2 s) (saved2 s) p, highused := True, lowused := False \<rparr>
                     else s)
           in s1\<lparr> gpos2 := p, saved2 := cont \<rparr>))"

definition no_flags :: "split \<Rightarrow> bool" where
  "no_flags s \<longleftrightarrow> \<not> lowfind s \<and> \<not> lowused s \<and> \<not> highfind s \<and> \<not> highused s"

partial_function (option) split_loop :: "nat \<Rightarrow> nat \<Rightarrow> nat \<Rightarrow> nat \<Rightarrow> nat \<Rightarrow> split \<Rightarrow> split option" where
  "split_loop blen nrec first_index halfbuff idx s =
     (if no_flags s \<and> my_hash_mask (hash_nr (s_links s ! idx)) blen nrec \<noteq> first_index then Some s
      else
        (let s1 = split_step halfbuff idx s; nx = link_next (s_links s1 ! idx) in
         if nx = NO_RECORD then Some s1 else split_loop blen nrec first_index halfbuff nx s1))"

definition split_finish :: "split \<Rightarrow> split" where
  "split_finish s =
     (let s1 = (if lowfind s \<and> \<not> lowused s then s\<lparr> s_links := write_link (s_links s) (gpos s) (saved s) NO_RECORD \<rparr> else s)
      in if highfind s1 \<and> \<not> highused s1
         then s1\<lparr> s_links := write_link (s_links s1) (gpos2 s1) (saved2 s1) NO_RECORD \<rparr> else s1)"

definition split_init :: "HASH_LINK list \<Rightarrow> nat \<Rightarrow> split" where
  "split_init d emp = \<lparr> s_links = d, s_empty = emp, lowfind = False, lowused = False, highfind = False, highused = False,
     gpos = 0, saved = (0, 0), gpos2 = 0, saved2 = (0, 0) \<rparr>"

text \<open>The part that puts the new record into the slot of its bucket.\<close>

definition put_record :: "HASH_LINK list \<Rightarrow> nat \<Rightarrow> nat \<Rightarrow> nat \<Rightarrow> rec_id \<Rightarrow> u32 \<Rightarrow> HASH_LINK list option" where
  "put_record d emp blen nrec r h =
     (let idx = my_hash_mask h blen nrec in
      Option.bind
        (if idx = emp then Some (d[idx := (d ! idx)\<lparr> link_next := NO_RECORD \<rparr>])
         else
           (let d1 = d[emp := d ! idx]; g = my_hash_rec_mask (d1 ! idx) blen nrec in
            if idx = g then Some (d1[idx := (d1 ! idx)\<lparr> link_next := emp \<rparr>])
            else movelink (d1[idx := (d1 ! idx)\<lparr> link_next := NO_RECORD \<rparr>]) idx g emp))
        (\<lambda>d2. Some (d2[idx := (d2 ! idx)\<lparr> link_data := r, hash_nr := h \<rparr>])))"

text \<open>
  \<^verbatim>\<open>new_slot\<close> is the result of \<^verbatim>\<open>alloc_dynamic\<close>: no memory, or a slot with unknown contents.
\<close>

definition my_hash_insert :: "HASH \<Rightarrow> memory \<Rightarrow> rec_id \<Rightarrow> HASH_LINK option \<Rightarrow> (bool \<times> HASH) option" where
  "my_hash_insert H mem r new_slot =
     (let key = my_hash_key H mem r; h = hash_function H key in
      Option.bind
        (if unique_keys H then my_hash_first_from_hash_value H mem h key (length key) else Some None)
        (\<lambda>dup.
          if dup \<noteq> None then Some (True, H)
          else
            (case new_slot of
               None \<Rightarrow> Some (True, H)
             | Some slot \<Rightarrow>
                 (let n = records H; halfbuff = blength H div 2; first_index = n - halfbuff;
                      s0 = split_init (links H @ [slot]) n
                  in Option.bind
                       (if first_index \<noteq> n
                        then map_option split_finish (split_loop (blength H) n first_index halfbuff first_index s0)
                        else Some s0)
                       (\<lambda>s. Option.bind (put_record (s_links s) (s_empty s) (blength H) (n + 1) r h)
                         (\<lambda>d. Some (False, H\<lparr> links := d, records := n + 1,
                            blength := (if n + 1 = blength H then blength H + blength H else blength H) \<rparr>)))))))"

subsection \<open>Deleting\<close>

partial_function (option) find_loop :: "HASH_LINK list \<Rightarrow> rec_id \<Rightarrow> nat \<Rightarrow> nat option \<Rightarrow> (nat \<times> nat option) option option" where
  "find_loop d r pos prev =
     (if link_data (d ! pos) = r then Some (Some (pos, prev))
      else if link_next (d ! pos) = NO_RECORD then Some None
      else find_loop d r (link_next (d ! pos)) (Some pos))"

text \<open>
  Unlinking the record at \<^verbatim>\<open>pos\<close>: the array and the slot that is now empty. When the record is the
  first of its chain the next one takes its slot.
\<close>

definition unlink_record :: "HASH_LINK list \<Rightarrow> nat \<Rightarrow> nat option \<Rightarrow> HASH_LINK list \<times> nat" where
  "unlink_record d pos prev =
     (case prev of
        Some g \<Rightarrow> (d[g := (d ! g)\<lparr> link_next := link_next (d ! pos) \<rparr>], pos)
      | None \<Rightarrow>
          if link_next (d ! pos) \<noteq> NO_RECORD
          then (d[pos := d ! link_next (d ! pos)], link_next (d ! pos))
          else (d, pos))"

text \<open>
  Moving the record in the last slot into the empty one. \<^verbatim>\<open>old_blength\<close> is \<^verbatim>\<open>blength\<close> before the
  deletion, \<^verbatim>\<open>blen\<close> and \<^verbatim>\<open>nrec\<close> are the values after it; \<^verbatim>\<open>nrec\<close> is also the last slot.
\<close>

definition move_last :: "HASH_LINK list \<Rightarrow> nat \<Rightarrow> nat \<Rightarrow> nat \<Rightarrow> nat \<Rightarrow> HASH_LINK list option" where
  "move_last d emp old_blength blen nrec =
     (if emp = nrec then Some d
      else
        (let last = d ! nrec; pos = my_hash_mask (hash_nr last) blen nrec in
         if pos = emp then Some (d[emp := last])
         else
           (let pos3 = my_hash_mask (hash_nr (d ! pos)) blen nrec in
            if pos \<noteq> pos3 then movelink (d[emp := d ! pos, pos := last]) pos pos3 emp
            else
              (let pos2 = my_hash_mask (hash_nr last) old_blength (nrec + 1);
                   same = pos2 = my_hash_mask (hash_nr (d ! pos)) old_blength (nrec + 1)
               in if same \<and> pos2 \<noteq> nrec then movelink (d[emp := last]) nrec pos emp
                  else
                    Option.bind
                      (movelink (d[emp := last]) (if same then pos else NO_RECORD) emp (link_next (d ! pos)))
                      (\<lambda>d2. Some (d2[pos := (d2 ! pos)\<lparr> link_next := emp \<rparr>]))))))"

text \<open>The result: whether the record was not found, and the records passed to the free function.\<close>

definition my_hash_delete :: "HASH \<Rightarrow> memory \<Rightarrow> rec_id \<Rightarrow> (bool \<times> rec_id list \<times> HASH) option" where
  "my_hash_delete H mem r =
     (if records H = 0 then Some (True, [], H)
      else
        Option.bind (find_loop (links H) r (my_hash_mask (rec_hashnr H mem r) (blength H) (records H)) None)
          (\<lambda>found.
            case found of
              None \<Rightarrow> Some (True, [], H)
            | Some (pos, prev) \<Rightarrow>
                (let n = records H - 1;
                     blen = (if n < blength H div 2 then blength H div 2 else blength H)
                 in case unlink_record (links H) pos prev of
                      (d, emp) \<Rightarrow>
                        Option.bind (move_last d emp (blength H) blen n)
                          (\<lambda>d2. Some (False, if has_free H then [r] else [],
                             H\<lparr> links := butlast d2, records := n, blength := blen \<rparr>)))))"


subsection \<open>Updating\<close>

text \<open>Whether a record other than the given one is found; the first search result is given.\<close>

partial_function (option) other_loop :: "HASH \<Rightarrow> memory \<Rightarrow> rec_id \<Rightarrow> bytes \<Rightarrow> (rec_id \<times> nat) option \<Rightarrow> bool option" where
  "other_loop H mem r key found =
     (case found of
        None \<Rightarrow> Some False
      | Some (f, state) \<Rightarrow>
          if f \<noteq> r then Some True
          else Option.bind (my_hash_next H mem key (length key) state) (\<lambda>found. other_loop H mem r key found))"

text \<open>Linking the record, whose old link is \<^verbatim>\<open>org\<close>, into its new bucket, with \<^verbatim>\<open>emp\<close> the free slot.\<close>

definition relink :: "HASH_LINK list \<Rightarrow> HASH_LINK \<Rightarrow> nat \<Rightarrow> nat \<Rightarrow> nat \<Rightarrow> u32 \<Rightarrow> nat \<Rightarrow> nat \<Rightarrow> HASH_LINK list option" where
  "relink d org idx emp new_index h blen nrec =
     (if new_index = emp then
        (let d1 = (if emp \<noteq> idx then d[emp := org] else d)
         in Some (d1[emp := (d1 ! emp)\<lparr> link_next := NO_RECORD, hash_nr := h \<rparr>]))
      else
        (let new_pos_index = my_hash_rec_mask (d ! new_index) blen nrec in
         if new_index \<noteq> new_pos_index then
           Option.bind (movelink (d[emp := d ! new_index]) new_index new_pos_index emp)
             (\<lambda>d2. Some (d2[new_index := org\<lparr> link_next := NO_RECORD, hash_nr := h \<rparr>]))
         else
           (let d1 = d[emp := org\<lparr> link_next := link_next (d ! new_index), hash_nr := h \<rparr>]
            in Some (d1[new_index := (d1 ! new_index)\<lparr> link_next := emp \<rparr>]))))"

definition my_hash_update :: "HASH \<Rightarrow> memory \<Rightarrow> rec_id \<Rightarrow> bytes \<Rightarrow> nat \<Rightarrow> (bool \<times> HASH) option" where
  "my_hash_update H mem r old_key old_key_length =
     (let new_key = my_hash_key H mem r; h = hash_function H new_key in
      Option.bind
        (if unique_keys H
         then Option.bind (my_hash_first_from_hash_value H mem h new_key (length new_key))
                (\<lambda>found. other_loop H mem r new_key found)
         else Some False)
        (\<lambda>dup.
          if dup then Some (True, H)
          else
            (let org_index = my_hash_mask (hash_function H (key_arg H old_key old_key_length)) (blength H) (records H);
                 new_index = my_hash_mask h (blength H) (records H)
             in Option.bind (find_loop (links H) r org_index None)
                  (\<lambda>found.
                    case found of
                      None \<Rightarrow> Some (True, H)
                    | Some (idx, prev) \<Rightarrow>
                        if org_index = new_index
                        then Some (False, H\<lparr> links := (links H)[idx := (links H ! idx)\<lparr> hash_nr := h \<rparr>] \<rparr>)
                        else
                          (case unlink_record (links H) idx prev of
                             (d, emp) \<Rightarrow>
                               Option.bind (relink d (links H ! idx) idx emp new_index h (blength H) (records H))
                                 (\<lambda>d2. Some (False, H\<lparr> links := d2 \<rparr>)))))))"

subsection \<open>The consistency check of debug builds\<close>

partial_function (option) check_chain :: "HASH \<Rightarrow> nat \<Rightarrow> nat \<Rightarrow> nat \<Rightarrow> bool \<Rightarrow> (nat \<times> bool) option" where
  "check_chain H i idx fnd err =
     (if idx = NO_RECORD \<or> \<not> fnd < records H + 1 then Some (fnd, err)
      else
        (let wrong = my_hash_rec_mask (links H ! idx) (blength H) (records H) \<noteq> i in
         check_chain H i (link_next (links H ! idx)) (if wrong then fnd else fnd + 1)
           (err \<or> idx \<ge> records H \<or> wrong)))"

primrec check_slots :: "HASH \<Rightarrow> memory \<Rightarrow> nat list \<Rightarrow> nat \<times> bool \<Rightarrow> (nat \<times> bool) option" where
  "check_slots H mem [] fe = Some fe"
| "check_slots H mem (i # is) fe =
     (let err = (snd fe \<or> hash_nr (links H ! i) \<noteq> rec_hashnr H mem (link_data (links H ! i))) in
      Option.bind
        (if my_hash_rec_mask (links H ! i) (blength H) (records H) = i
         then check_chain H i (link_next (links H ! i)) (fst fe + 1) err
         else Some (fst fe, err))
        (\<lambda>fe1. check_slots H mem is fe1))"

definition my_hash_check :: "HASH \<Rightarrow> memory \<Rightarrow> bool option" where
  "my_hash_check H mem =
     Option.bind (check_slots H mem [0..<records H] (0, False))
       (\<lambda>(fnd, err). Some (err \<or> fnd \<noteq> records H))"

end
