(* ===== verification/Mdb_Hash_Chain.thy ===== *)
theory Mdb_Hash_Chain
  imports Mdb_Hash "HOL-Library.Multiset"
begin

text \<open>
  Chains of slots: the representation invariant of the hash table for one assignment of buckets to hash
  numbers, and the elementary changes the operations are made of.
\<close>

subsection \<open>Buckets\<close>

fun chain_linked :: "HASH_LINK list \<Rightarrow> nat list \<Rightarrow> bool" where
  "chain_linked d [] \<longleftrightarrow> True"
| "chain_linked d [p] \<longleftrightarrow> link_next (d ! p) = NO_RECORD"
| "chain_linked d (p # q # ps) \<longleftrightarrow> link_next (d ! p) = q \<and> chain_linked d (q # ps)"

definition cont :: "HASH_LINK \<Rightarrow> rec_id \<times> u32" where
  "cont l = (link_data l, hash_nr l)"

definition home :: "(u32 \<Rightarrow> nat) \<Rightarrow> HASH_LINK list \<Rightarrow> nat \<Rightarrow> nat" where
  "home m d p = m (hash_nr (d ! p))"

text \<open>\<^verbatim>\<open>bucket m d S h ps\<close>: the occupied slots \<^verbatim>\<open>S\<close> whose records belong to \<^verbatim>\<open>h\<close> form the chain \<^verbatim>\<open>ps\<close>, from slot \<^verbatim>\<open>h\<close>.\<close>

definition bucket :: "(u32 \<Rightarrow> nat) \<Rightarrow> HASH_LINK list \<Rightarrow> nat set \<Rightarrow> nat \<Rightarrow> nat list \<Rightarrow> bool" where
  "bucket m d S h ps \<longleftrightarrow> distinct ps \<and> set ps = {p \<in> S. home m d p = h} \<and> chain_linked d ps \<and> (ps \<noteq> [] \<longrightarrow> hd ps = h)"

definition hash_chains :: "(u32 \<Rightarrow> nat) \<Rightarrow> HASH_LINK list \<Rightarrow> nat set \<Rightarrow> bool" where
  "hash_chains m d S \<longleftrightarrow> S \<subseteq> {..<length d} \<and> length d \<le> NO_RECORD \<and> (\<forall>h. \<exists>ps. bucket m d S h ps)"

definition bag :: "HASH_LINK list \<Rightarrow> nat set \<Rightarrow> (rec_id \<times> u32) multiset" where
  "bag d S = image_mset (\<lambda>p. cont (d ! p)) (mset_set S)"

lemma chain_linked_cong: "(\<And>p. p \<in> set ps \<Longrightarrow> link_next (d' ! p) = link_next (d ! p)) \<Longrightarrow> chain_linked d' ps = chain_linked d ps"
  by (induction d ps rule: chain_linked.induct) simp_all

text \<open>Cutting a chain: the links inside the first part, the link to the second, and the second part.\<close>

fun inner_links :: "HASH_LINK list \<Rightarrow> nat list \<Rightarrow> bool" where
  "inner_links d (p # q # ps) \<longleftrightarrow> link_next (d ! p) = q \<and> inner_links d (q # ps)"
| "inner_links d _ \<longleftrightarrow> True"

lemma chain_cut:
  "ps \<noteq> [] \<Longrightarrow> qs \<noteq> [] \<Longrightarrow> chain_linked d (ps @ qs) \<longleftrightarrow> inner_links d ps \<and> link_next (d ! last ps) = hd qs \<and> chain_linked d qs"
  by (induction ps rule: induct_list012) (auto simp: neq_Nil_conv)

lemma chain_end: "ps \<noteq> [] \<Longrightarrow> chain_linked d ps \<longleftrightarrow> inner_links d ps \<and> link_next (d ! last ps) = NO_RECORD"
  by (induction ps rule: induct_list012) auto

lemma inner_links_append:
  "ps \<noteq> [] \<Longrightarrow> qs \<noteq> [] \<Longrightarrow> inner_links d (ps @ qs) \<longleftrightarrow> inner_links d ps \<and> link_next (d ! last ps) = hd qs \<and> inner_links d qs"
  by (induction ps rule: induct_list012) (auto simp: neq_Nil_conv)

lemma inner_links_cong:
  "(\<And>p. p \<in> set (butlast ps) \<Longrightarrow> link_next (d' ! p) = link_next (d ! p)) \<Longrightarrow> inner_links d' ps = inner_links d ps"
  by (induction ps rule: induct_list012) auto

subsection \<open>Facts on occupied and free slots\<close>

lemma chainsD:
  assumes "hash_chains m d S"
  shows "S \<subseteq> {..<length d}" "length d \<le> NO_RECORD" "\<exists>ps. bucket m d S h ps"
  using assms by (auto simp: hash_chains_def)

lemma bucketD:
  assumes "bucket m d S h ps"
  shows "distinct ps" "set ps = {p \<in> S. home m d p = h}" "chain_linked d ps" "ps \<noteq> [] \<Longrightarrow> hd ps = h"
  using assms by (auto simp: bucket_def)

lemma chains_finite: "hash_chains m d S \<Longrightarrow> finite S"
  by (rule finite_subset [OF chainsD(1)]) simp_all

text \<open>The first slot of a bucket with records is occupied by one of them.\<close>

lemma bucket_mem: "bucket m d S h ps \<Longrightarrow> p \<in> set ps \<longleftrightarrow> p \<in> S \<and> home m d p = h"
  by (simp add: bucket_def)

lemma bucket_hd: "bucket m d S h ps \<Longrightarrow> p \<in> set ps \<Longrightarrow> h \<in> set ps"
  by (cases ps) (auto simp: bucket_def)

lemma chain_head:
  assumes ch: "hash_chains m d S" and p: "p \<in> S" "home m d p = h"
  shows "h \<in> S \<and> home m d h = h"
proof -
  obtain ps where b: "bucket m d S h ps" using chainsD(3) [OF ch] by blast
  have "p \<in> set ps" using p bucket_mem [OF b] by simp
  then show ?thesis using bucket_hd [OF b] bucket_mem [OF b, of h] by simp
qed

lemma free_slot_bucket: "hash_chains m d S \<Longrightarrow> p \<in> S \<Longrightarrow> x \<notin> S \<or> home m d x \<noteq> x \<Longrightarrow> home m d p \<noteq> x"
  using chain_head [of m d S p x] by blast

lemma bucket_empty: "hash_chains m d S \<Longrightarrow> x \<notin> S \<or> home m d x \<noteq> x \<Longrightarrow> bucket m d S x ps \<Longrightarrow> ps = []"
proof (rule ccontr)
  assume a: "hash_chains m d S" "x \<notin> S \<or> home m d x \<noteq> x" "bucket m d S x ps" "ps \<noteq> []"
  then have "hd ps \<in> {p \<in> S. home m d p = x}" using bucketD(2) [OF a(3)] hd_in_set by blast
  then show False using free_slot_bucket [OF a(1) _ a(2)] by blast
qed

text \<open>Only the links and the buckets of the occupied slots matter.\<close>

lemma chains_same:
  assumes ch: "hash_chains m d S" and same: "\<And>p. p \<in> S \<Longrightarrow> link_next (d' ! p) = link_next (d ! p) \<and> home m d' p = home m d p"
    and len: "S \<subseteq> {..<length d'}" "length d' \<le> NO_RECORD"
  shows "hash_chains m d' S"
proof -
  have "bucket m d' S h ps" if b: "bucket m d S h ps" for h ps
  proof -
    have "p \<in> S" if "p \<in> set ps" for p using bucket_mem [OF b] that by simp
    then have "chain_linked d' ps = chain_linked d ps" by (intro chain_linked_cong) (simp add: same)
    moreover have "{p \<in> S. home m d' p = h} = {p \<in> S. home m d p = h}" using same by auto
    ultimately show ?thesis using b by (simp add: bucket_def)
  qed
  then show ?thesis using chainsD(3) [OF ch] len unfolding hash_chains_def by (auto, metis)
qed

text \<open>
  Changing some buckets: for all others the slots and their contents stay.
\<close>

lemma chains_change:
  assumes ch: "hash_chains m d S" and S': "S' \<subseteq> {..<length d'}" and len: "length d' = length d"
    and touched: "\<And>h. h \<in> B \<Longrightarrow> \<exists>ps. bucket m' d' S' h ps"
    and keep: "\<And>p. p \<in> S \<Longrightarrow> home m d p \<notin> B \<Longrightarrow> p \<in> S' \<and> d' ! p = d ! p \<and> home m' d' p = home m d p"
    and old: "\<And>p. p \<in> S' \<Longrightarrow> home m' d' p \<notin> B \<Longrightarrow> p \<in> S \<and> home m d p = home m' d' p"
  shows "hash_chains m' d' S'"
  unfolding hash_chains_def
proof (intro conjI allI)
  show "S' \<subseteq> {..<length d'}" by (rule S')
  show "length d' \<le> NO_RECORD" using chainsD(2) [OF ch] len by simp
  fix h show "\<exists>ps. bucket m' d' S' h ps"
  proof (cases "h \<in> B")
    case False
    obtain ps where b: "bucket m d S h ps" using chainsD(3) [OF ch] by blast
    have same: "d' ! p = d ! p" if "p \<in> set ps" for p using keep that False bucketD(2) [OF b] by auto
    have "p \<in> set ps \<longleftrightarrow> p \<in> S' \<and> home m' d' p = h" for p
      unfolding bucketD(2) [OF b] using keep [of p] old [of p] False by auto
    then have "set ps = {p \<in> S'. home m' d' p = h}" by auto
    moreover have "chain_linked d' ps" using bucketD(3) [OF b] same chain_linked_cong [of ps d' d] by simp
    ultimately have "bucket m' d' S' h ps" using bucketD(1,4) [OF b] by (simp add: bucket_def)
    then show ?thesis by blast
  qed (rule touched)
qed


subsection \<open>Moving a record that is not the first of its chain\<close>

declare movelink.simps [code]

lemma movelink_eq:
  "qs \<noteq> [] \<Longrightarrow> inner_links d qs \<Longrightarrow> seek \<notin> set qs \<Longrightarrow> link_next (d ! last qs) = seek \<Longrightarrow>
   movelink d seek (hd qs) new = Some (d[last qs := (d ! last qs)\<lparr> link_next := new \<rparr>])"
  by (induction qs rule: induct_list012) (auto simp: movelink.simps)

lemma home_cont: "cont (d' ! p) = cont (d ! q) \<Longrightarrow> home m d' p = home m d q"
  by (simp add: cont_def home_def)

lemma bag_moved:
  assumes "finite S" "x \<in> S" "e \<notin> S" "\<And>p. p \<in> S - {x} \<Longrightarrow> cont (d' ! p) = cont (d ! p)" "cont (d' ! e) = cont (d ! x)"
  shows "bag d' (insert e (S - {x})) = bag d S"
proof -
  have "bag d S = add_mset (cont (d ! x)) (bag d (S - {x}))"
    using assms(1,2) by (simp add: bag_def mset_set.remove)
  moreover have "bag d' (S - {x}) = bag d (S - {x})"
    unfolding bag_def by (rule image_mset_cong) (use assms(1,4) in auto)
  moreover have "bag d' (insert e (S - {x})) = add_mset (cont (d' ! e)) (bag d' (S - {x}))"
    using assms(1,3) by (simp add: bag_def)
  ultimately show ?thesis using assms(5) by simp
qed

lemma relocate:
  assumes ch: "hash_chains m d S" and x: "x \<in> S" "home m d x = g" "g \<noteq> x" and e: "e \<notin> S" "e < length d"
  obtains d' where "movelink (d[e := d ! x, x := y]) x g e = Some d'" "hash_chains m d' (insert e (S - {x}))"
    "length d' = length d" "d' ! e = d ! x" "d' ! x = y" "\<And>p. p \<in> S - {x} \<Longrightarrow> cont (d' ! p) = cont (d ! p)"
    "\<And>p. p \<in> S - {x} \<Longrightarrow> home m d p \<noteq> g \<Longrightarrow> d' ! p = d ! p" "bag d' (insert e (S - {x})) = bag d S"
proof -
  obtain ps where b: "bucket m d S g ps" using chainsD(3) [OF ch] by blast
  have len: "S \<subseteq> {..<length d}" using chainsD(1) [OF ch] .
  have "x \<in> set ps" using bucket_mem [OF b] x by simp
  then obtain qs rs where ps: "ps = qs @ x # rs" by (meson split_list)
  have qs: "qs \<noteq> []" using bucketD(4) [OF b] x(3) ps by (cases qs) auto
  have hd: "hd qs = g" using bucketD(4) [OF b] ps qs by simp
  have cut: "inner_links d qs" "link_next (d ! last qs) = x" "chain_linked d (x # rs)"
    using bucketD(3) [OF b] chain_cut [OF qs, of "x # rs" d] by (simp_all add: ps)
  have dist: "distinct qs" "distinct rs" "x \<notin> set qs" "x \<notin> set rs" "set qs \<inter> set rs = {}"
    using bucketD(1) [OF b] by (auto simp: ps)
  have mem: "set qs \<union> set rs \<subseteq> S - {x}" using bucket_mem [OF b] dist by (auto simp: ps)
  have ne: "e \<notin> set qs" "e \<notin> set rs" "e \<noteq> x" "last qs \<noteq> e" "last qs \<noteq> x" "last qs \<in> set qs" "last qs < length d"
    using mem e(1) x(1) qs dist(3) len by (auto simp: subset_iff)
  define d1 where "d1 = d[e := d ! x, x := y]"
  define d' where "d' = d1[last qs := (d ! last qs)\<lparr> link_next := e \<rparr>]"
  have len': "length d' = length d" by (simp add: d'_def d1_def)
  have x': "x < length d" using x(1) len by auto
  have slot: "d' ! p = d ! p" if "p \<noteq> e" "p \<noteq> x" "p \<noteq> last qs" for p using that by (simp add: d'_def d1_def)
  have de: "d' ! e = d ! x" using ne e(2) by (simp add: d'_def d1_def)
  have dx: "d' ! x = y" using ne x' by (simp add: d'_def d1_def)
  have dl: "d' ! last qs = (d ! last qs)\<lparr> link_next := e \<rparr>" using ne by (simp add: d'_def d1_def)
  have mv: "movelink d1 x g e = Some d'"
  proof -
    have "link_next (d1 ! p) = link_next (d ! p)" if "p \<in> set (butlast qs)" for p
    proof -
      have "p \<noteq> e" "p \<noteq> x" using in_set_butlastD [OF that] ne(1) dist(3) by auto
      then show ?thesis by (simp add: d1_def)
    qed
    then have "inner_links d1 qs = inner_links d qs" by (rule inner_links_cong)
    then show ?thesis
      using movelink_eq [OF qs, of d1 x e] cut(1,2) dist(3) ne hd by (simp add: d'_def d1_def)
  qed
  have cont: "cont (d' ! p) = cont (d ! p)" if "p \<in> S - {x}" for p
  proof -
    have "p \<noteq> e" "p \<noteq> x" using that e(1) by auto
    then show ?thesis using slot [of p] dl by (cases "p = last qs") (simp_all add: cont_def)
  qed
  have home: "home m d' p = home m d p" if "p \<in> S - {x}" for p using home_cont [OF cont [OF that]] .
  have he: "home m d' e = g" using x(2) de by (simp add: home_def)
  have new: "bucket m d' (insert e (S - {x})) g (qs @ e # rs)"
    unfolding bucket_def
  proof (intro conjI)
    show "distinct (qs @ e # rs)" using dist ne by auto
    have "p \<in> set (qs @ e # rs) \<longleftrightarrow> p \<in> insert e (S - {x}) \<and> home m d' p = g" for p
    proof (cases "p \<in> S - {x}")
      case True
      then have "p \<noteq> e" "p \<noteq> x" using e(1) by auto
      then show ?thesis using bucket_mem [OF b, of p] home [OF True] True by (simp add: ps)
    next
      case False
      then have "p \<notin> set qs \<union> set rs" using mem by blast
      then show ?thesis using False he by auto
    qed
    then show "set (qs @ e # rs) = {p \<in> insert e (S - {x}). home m d' p = g}" by auto
    have "inner_links d' qs"
    proof -
      have "link_next (d' ! p) = link_next (d ! p)" if "p \<in> set (butlast qs)" for p
      proof -
        have "p \<in> set qs" "p \<noteq> last qs"
          using that dist(1) qs by (auto dest: in_set_butlastD) (metis append_butlast_last_id distinct_append distinct_singleton
              disjoint_iff list.set_intros(1))
        then show ?thesis using slot [of p] ne(1) dist(3) by metis
      qed
      then show ?thesis using inner_links_cong cut(1) by blast
    qed
    moreover have "chain_linked d' (e # rs)"
    proof -
      have "link_next (d' ! p) = link_next (d ! p)" if "p \<in> set rs" for p
        using that slot [of p] ne dist by (metis disjoint_iff)
      then have "chain_linked d' rs = chain_linked d rs" by (rule chain_linked_cong)
      then show ?thesis using cut(3) de by (cases rs) simp_all
    qed
    ultimately show "chain_linked d' (qs @ e # rs)" using chain_cut [OF qs, of "e # rs" d'] dl by simp
    show "qs @ e # rs \<noteq> [] \<longrightarrow> hd (qs @ e # rs) = g" using hd qs by simp
  qed
  have "hash_chains m d' (insert e (S - {x}))"
  proof (rule chains_change [OF ch _ len', where B = "{g}"])
    show "insert e (S - {x}) \<subseteq> {..<length d'}" using len e(2) len' by auto
    show "\<exists>ps. bucket m d' (insert e (S - {x})) h ps" if "h \<in> {g}" for h using new that by blast
    show "p \<in> insert e (S - {x}) \<and> d' ! p = d ! p \<and> home m d' p = home m d p" if "p \<in> S" "home m d p \<notin> {g}" for p
    proof -
      have "p \<noteq> x" "p \<noteq> e" "p \<noteq> last qs" using that x(2) e(1) bucket_mem [OF b, of p] ne(6) by (auto simp: ps)
      then show ?thesis using slot [of p] that(1) by (simp add: home_def)
    qed
    show "p \<in> S \<and> home m d p = home m d' p" if "p \<in> insert e (S - {x})" "home m d' p \<notin> {g}" for p
      using that he home [of p] by (metis DiffD1 insertE singletonI)
  qed
  moreover have "d' ! p = d ! p" if "p \<in> S - {x}" "home m d p \<noteq> g" for p
  proof -
    have "p \<noteq> x" "p \<noteq> e" "p \<noteq> last qs" using that e(1) bucket_mem [OF b, of p] ne(6) by (auto simp: ps)
    then show ?thesis using slot [of p] by blast
  qed
  moreover have "bag d' (insert e (S - {x})) = bag d S"
    by (rule bag_moved [OF chains_finite [OF ch] x(1) e(1) cont]) (simp_all add: de)
  ultimately show ?thesis using that [OF mv [unfolded d1_def] _ len' de dx cont] by blast
qed


subsection \<open>Adding a record\<close>

lemma bag_added:
  assumes "finite S" "x \<notin> S" "\<And>p. p \<in> S \<Longrightarrow> cont (d' ! p) = cont (d ! p)"
  shows "bag d' (insert x S) = add_mset (cont (d' ! x)) (bag d S)"
proof -
  have "bag d' S = bag d S" unfolding bag_def by (rule image_mset_cong) (use assms(1,3) in auto)
  then show ?thesis using assms(1,2) by (simp add: bag_def)
qed

text \<open>A record in the free slot of its own bucket.\<close>

lemma add_single:
  assumes ch: "hash_chains m d S" and x: "x \<notin> S" "x < length d" and l: "m (hash_nr l) = x" "link_next l = NO_RECORD"
  shows "hash_chains m (d[x := l]) (insert x S)" "bag (d[x := l]) (insert x S) = add_mset (cont l) (bag d S)"
proof -
  let ?d = "d[x := l]"
  have slot: "?d ! p = d ! p" if "p \<in> S" for p using that x(1) by (metis nth_list_update_neq)
  have hx: "home m ?d x = x" using x(2) l(1) by (simp add: home_def)
  have home: "home m ?d p = home m d p" if "p \<in> S" for p using slot [OF that] by (simp add: home_def)
  have none: "home m d p \<noteq> x" if "p \<in> S" for p using free_slot_bucket [OF ch that] x(1) by blast
  show "hash_chains m ?d (insert x S)"
  proof (rule chains_change [OF ch, where B = "{x}"])
    show "insert x S \<subseteq> {..<length ?d}" using chainsD(1) [OF ch] x(2) by auto
    have "set [x] = {p \<in> insert x S. home m ?d p = x}" using hx home none by auto
    then have "bucket m ?d (insert x S) x [x]" using x(2) l(2) by (simp add: bucket_def)
    then show "\<exists>ps. bucket m ?d (insert x S) h ps" if "h \<in> {x}" for h using that by blast
    show "p \<in> S \<and> home m d p = home m ?d p" if "p \<in> insert x S" "home m ?d p \<notin> {x}" for p
      using that hx home by auto
  qed (use slot home in auto)
  show "bag ?d (insert x S) = add_mset (cont l) (bag d S)"
    using bag_added [OF chains_finite [OF ch] x(1), of ?d d] slot x(2) by simp
qed

text \<open>Two records in place of the first of a chain: \<^verbatim>\<open>a\<close> in its slot, \<^verbatim>\<open>b\<close> in a free slot.\<close>

lemma push:
  assumes ch: "hash_chains m d S" and x: "x \<in> S" "home m d x = x" and e: "e \<notin> S" "e < length d"
    and a: "m (hash_nr a) = x" "link_next a = e" and b: "m (hash_nr b) = x" "link_next b = link_next (d ! x)"
  shows "hash_chains m (d[e := b, x := a]) (insert e S)"
    "bag (d[e := b, x := a]) (insert e S) + {#cont (d ! x)#} = bag d S + {#cont a, cont b#}"
proof -
  let ?d = "d[e := b, x := a]"
  have xe: "x \<noteq> e" "x < length d" using x(1) e(1) chainsD(1) [OF ch] by auto
  have slot: "?d ! p = d ! p" if "p \<in> S - {x}" for p using that e(1) by (metis DiffD1 DiffD2 nth_list_update_neq singletonI)
  have dx: "?d ! x = a" and de: "?d ! e = b" using xe e(2) by simp_all
  have home: "home m ?d p = home m d p" if "p \<in> S" for p
    using slot [of p] that dx x(2) a(1) by (cases "p = x") (simp_all add: home_def)
  have he: "home m ?d e = x" using de b(1) by (simp add: home_def)
  obtain ps where bk: "bucket m d S x ps" using chainsD(3) [OF ch] by blast
  have "x \<in> set ps" using bucket_mem [OF bk] x by simp
  then obtain rs where ps: "ps = x # rs" using bucketD(4) [OF bk] by (cases ps) auto
  have rs: "x \<notin> set rs" "distinct rs" "set rs \<subseteq> S - {x}" "e \<notin> set rs"
    using bucketD(1) [OF bk] bucket_mem [OF bk] e(1) by (auto simp: ps)
  show "hash_chains m ?d (insert e S)"
  proof (rule chains_change [OF ch, where B = "{x}"])
    show "insert e S \<subseteq> {..<length ?d}" using chainsD(1) [OF ch] e(2) by auto
    have "p \<in> set (x # e # rs) \<longleftrightarrow> p \<in> insert e S \<and> home m ?d p = x" for p
      using bucket_mem [OF bk, of p] home [of p] he by (cases "p = e") (auto simp: ps)
    then have set: "set (x # e # rs) = {p \<in> insert e S. home m ?d p = x}" by blast
    have "chain_linked ?d rs = chain_linked d rs"
      by (rule chain_linked_cong) (use rs(3) slot in \<open>metis subsetD\<close>)
    then have "chain_linked ?d (x # e # rs)" using bucketD(3) [OF bk] dx de a(2) b(2) by (cases rs) (simp_all add: ps)
    then have "bucket m ?d (insert e S) x (x # e # rs)" using set rs xe by (simp add: bucket_def)
    then show "\<exists>ps. bucket m ?d (insert e S) h ps" if "h \<in> {x}" for h using that by blast
    show "p \<in> insert e S \<and> ?d ! p = d ! p \<and> home m ?d p = home m d p" if "p \<in> S" "home m d p \<notin> {x}" for p
      using slot [of p] home [of p] that x(2) by blast
    show "p \<in> S \<and> home m d p = home m ?d p" if "p \<in> insert e S" "home m ?d p \<notin> {x}" for p
      using that he home [of p] by auto
  qed simp
  have fin: "finite S" by (rule chains_finite [OF ch])
  have "bag ?d (S - {x}) = bag d (S - {x})" unfolding bag_def by (rule image_mset_cong) (use fin slot in auto)
  moreover have "bag d S = add_mset (cont (d ! x)) (bag d (S - {x}))" "bag ?d S = add_mset (cont (?d ! x)) (bag ?d (S - {x}))"
    using fin x(1) by (simp_all add: bag_def mset_set.remove)
  moreover have "bag ?d (insert e S) = add_mset (cont (?d ! e)) (bag ?d S)" using fin e(1) by (simp add: bag_def)
  ultimately show "bag ?d (insert e S) + {#cont (d ! x)#} = bag d S + {#cont a, cont b#}" using dx de by simp
qed


subsection \<open>Finding and unlinking a record\<close>

lemma chain_rest:
  assumes ch: "hash_chains m d S" and b: "bucket m d S h (us @ p # vs)"
  shows "chain_linked d (p # vs)" "set (us @ p # vs) \<subseteq> S" "us \<noteq> [] \<Longrightarrow> inner_links d us \<and> link_next (d ! last us) = p"
  using bucketD(3) [OF b] bucketD(2) [OF b] chain_cut [of us "p # vs" d] by (cases "us = []"; auto)+

lemma slot_in_chain:
  assumes ch: "hash_chains m d S" and p: "p \<in> S"
  obtains us vs where "bucket m d S (home m d p) (us @ p # vs)"
proof -
  obtain ps where b: "bucket m d S (home m d p) ps" using chainsD(3) [OF ch] by blast
  then have "p \<in> set ps" using bucket_mem p by blast
  then show ?thesis using that b by (metis split_list)
qed

lemma not_NO_RECORD: "hash_chains m d S \<Longrightarrow> p \<in> S \<Longrightarrow> p \<noteq> NO_RECORD"
  using chainsD(1,2) [of m d S] by auto

lemma find_loop_chain:
  assumes "chain_linked d qs" "qs \<noteq> []" "NO_RECORD \<notin> set qs"
  shows "(\<exists>us p vs. qs = us @ p # vs \<and> link_data (d ! p) = r \<and> (\<forall>q\<in>set us. link_data (d ! q) \<noteq> r) \<and>
      find_loop d r (hd qs) prev = Some (Some (p, if us = [] then prev else Some (last us)))) \<or>
    (\<forall>q\<in>set qs. link_data (d ! q) \<noteq> r) \<and> find_loop d r (hd qs) prev = Some None"
  using assms
proof (induction qs arbitrary: prev)
  case (Cons q qs)
  show ?case
  proof (cases "link_data (d ! q) = r")
    case True
    then have "find_loop d r (hd (q # qs)) prev = Some (Some (q, prev))" by (simp add: find_loop.simps)
    then show ?thesis using True by (intro disjI1 exI [of _ "[]"] exI [of _ q] exI [of _ qs]) simp
  next
    case False
    show ?thesis
    proof (cases qs)
      case Nil
      then show ?thesis using False Cons.prems(1) by (simp add: find_loop.simps)
    next
      case (Cons x xs)
      have step: "find_loop d r q prev = find_loop d r x (Some q)"
        using False Cons.prems(1,3) by (subst find_loop.simps) (simp add: Cons)
      from Cons.IH [of "Some q"] Cons.prems(1,3) Cons
      consider us p vs where "qs = us @ p # vs" "link_data (d ! p) = r" "\<forall>q\<in>set us. link_data (d ! q) \<noteq> r"
          "find_loop d r x (Some q) = Some (Some (p, if us = [] then Some q else Some (last us)))"
        | "\<forall>q\<in>set qs. link_data (d ! q) \<noteq> r" "find_loop d r x (Some q) = Some None"
        by auto
      then show ?thesis
      proof cases
        case 1
        then show ?thesis using step False
          by (intro disjI1 exI [of _ "q # us"] exI [of _ p] exI [of _ vs]) auto
      next
        case 2
        then show ?thesis using step False by simp
      qed
    qed
  qed
qed simp

lemma unlink_record_ok:
  assumes ch: "hash_chains m d S" and b: "bucket m d S h (us @ p # vs)"
    and u: "unlink_record d p (if us = [] then None else Some (last us)) = (d', emp)"
  shows "emp \<in> S" "hash_chains m d' (S - {emp})" "length d' = length d" "add_mset (cont (d ! p)) (bag d' (S - {emp})) = bag d S"
    "emp \<noteq> p \<Longrightarrow> p = h"
proof -
  note rest = chain_rest [OF ch b]
  have dist: "distinct us" "distinct vs" "p \<notin> set us" "p \<notin> set vs" "set us \<inter> set vs = {}"
    using bucketD(1) [OF b] by auto
  have len: "S \<subseteq> {..<length d}" and fin: "finite S" using chainsD(1) [OF ch] chains_finite [OF ch] by simp_all
  have p: "p \<in> S" "home m d p = h" using bucket_mem [OF b, of p] by simp_all
  have mem: "x \<in> set us \<union> set vs \<longleftrightarrow> x \<in> S - {p} \<and> home m d x = h" for x using bucket_mem [OF b, of x] dist by auto
  have "emp \<in> S \<and> hash_chains m d' (S - {emp}) \<and> length d' = length d \<and>
    add_mset (cont (d ! p)) (bag d' (S - {emp})) = bag d S \<and> (emp \<noteq> p \<longrightarrow> p = h)"
  proof (cases "us = []")
    case False
    let ?l = "last us"
    have l: "?l \<in> set us" "?l \<in> S" "?l \<noteq> p" "?l < length d"
      using last_in_set [OF False] rest(2) dist(3) len by auto
    have e: "d' = d[?l := (d ! ?l)\<lparr> link_next := link_next (d ! p) \<rparr>]" "emp = p"
      using u False by (auto simp: unlink_record_def)
    have slot: "d' ! x = d ! x" if "x \<noteq> ?l" for x using that by (simp add: e)
    have dl: "d' ! ?l = (d ! ?l)\<lparr> link_next := link_next (d ! p) \<rparr>" using l by (simp add: e)
    have cont: "cont (d' ! x) = cont (d ! x)" for x using slot [of x] dl by (cases "x = ?l") (simp_all add: cont_def)
    have home: "home m d' x = home m d x" for x using home_cont [OF cont] .
    have "hash_chains m d' (S - {p})"
    proof (rule chains_change [OF ch, where B = "{h}"])
      show "S - {p} \<subseteq> {..<length d'}" using len by (auto simp: e)
      have "x \<in> set (us @ vs) \<longleftrightarrow> x \<in> S - {p} \<and> home m d' x = h" for x using mem [of x] home by auto
      then have "set (us @ vs) = {x \<in> S - {p}. home m d' x = h}" by blast
      moreover have "chain_linked d' (us @ vs)"
      proof -
        have "link_next (d' ! x) = link_next (d ! x)" if "x \<in> set (butlast us)" for x
        proof -
          have "x \<noteq> ?l" using that dist(1) False
            by (metis append_butlast_last_id disjoint_iff distinct_append list.set_intros(1))
          then show ?thesis by (simp add: slot)
        qed
        then have i: "inner_links d' us" using inner_links_cong rest(3) [OF False] by blast
        have "link_next (d' ! x) = link_next (d ! x)" if "x \<in> set vs" for x
          using slot [of x] that l(1) dist(5) by (metis disjoint_iff)
        then have "chain_linked d' vs = chain_linked d vs" by (rule chain_linked_cong)
        then show ?thesis using i rest(1) dl False chain_cut [OF False, of vs d'] chain_end [OF False, of d']
          by (cases vs) simp_all
      qed
      moreover have "hd us = h" using bucketD(4) [OF b] False by simp
      ultimately have "bucket m d' (S - {p}) h (us @ vs)" using dist False by (simp add: bucket_def)
      then show "\<exists>ps. bucket m d' (S - {p}) k ps" if "k \<in> {h}" for k using that by blast
      show "x \<in> S - {p} \<and> d' ! x = d ! x \<and> home m d' x = home m d x" if "x \<in> S" "home m d x \<notin> {h}" for x
        using that slot [of x] home p(2) mem [of ?l] l(1) by auto
    qed (use home in \<open>auto simp: e\<close>)
    moreover have "bag d' (S - {p}) = bag d (S - {p})" unfolding bag_def by (rule image_mset_cong) (simp add: cont)
    ultimately show ?thesis using p(1) fin e by (simp add: bag_def mset_set.remove)
  next
    case True
    have ph: "p = h" using bucketD(4) [OF b] True by simp
    show ?thesis
    proof (cases vs)
      case Nil
      then have e: "d' = d" "emp = p" using u True rest(1) by (simp_all add: unlink_record_def)
      have "hash_chains m d (S - {p})"
      proof (rule chains_change [OF ch, where B = "{h}"])
        have "bucket m d (S - {p}) h []" using mem Nil True by (auto simp: bucket_def)
        then show "\<exists>ps. bucket m d (S - {p}) k ps" if "k \<in> {h}" for k using that by blast
      qed (use len p(2) in auto)
      then show ?thesis using p(1) fin e by (simp add: bag_def mset_set.remove)
    next
      case (Cons q ws)
      have q: "q \<in> S" "q \<noteq> p" "home m d q = h" "link_next (d ! p) = q" "q \<notin> set ws" "q < length d"
        using mem [of q] rest(1) dist(2) len by (auto simp: Cons)
      have qn: "q \<noteq> NO_RECORD" using not_NO_RECORD [OF ch q(1)] .
      have e: "d' = d[p := d ! q]" "emp = q" using u True q(4) qn by (auto simp: unlink_record_def)
      have pl: "p < length d" using p(1) len by auto
      have slot: "d' ! x = d ! x" if "x \<noteq> p" for x using that by (simp add: e)
      have dp: "d' ! p = d ! q" using pl by (simp add: e)
      have home: "home m d' x = home m d x" for x using slot [of x] dp q(3) p(2) by (cases "x = p") (simp_all add: home_def)
      have "hash_chains m d' (S - {q})"
      proof (rule chains_change [OF ch, where B = "{h}"])
        show "S - {q} \<subseteq> {..<length d'}" using len by (auto simp: e)
        have "x \<in> set (p # ws) \<longleftrightarrow> x \<in> S - {q} \<and> home m d' x = h" for x
          using mem [of x] home [of x] p q(2,5) by (auto simp: Cons True)
        then have "set (p # ws) = {x \<in> S - {q}. home m d' x = h}" by blast
        moreover have "chain_linked d' ws = chain_linked d ws"
          by (rule chain_linked_cong) (use slot dist(4) Cons in \<open>metis list.set_intros(2)\<close>)
        then have "chain_linked d' (p # ws)" using rest(1) dp by (cases ws) (simp_all add: Cons)
        ultimately have "bucket m d' (S - {q}) h (p # ws)" using dist ph by (simp add: bucket_def Cons)
        then show "\<exists>ps. bucket m d' (S - {q}) k ps" if "k \<in> {h}" for k using that by blast
        show "x \<in> S - {q} \<and> d' ! x = d ! x \<and> home m d' x = home m d x" if "x \<in> S" "home m d x \<notin> {h}" for x
          using that slot [of x] home p(2) q(3) by auto
      qed (use home in \<open>auto simp: e\<close>)
      moreover have "bag d' (insert p (S - {q} - {p})) = bag d (S - {p})"
      proof -
        have "bag d' (insert p ((S - {p}) - {q})) = bag d (S - {p})"
          by (rule bag_moved) (use fin q p slot dp in auto)
        moreover have "insert p ((S - {p}) - {q}) = insert p (S - {q} - {p})" by auto
        ultimately show ?thesis by simp
      qed
      moreover have "insert p (S - {q} - {p}) = S - {q}" using p(1) q(2) by auto
      ultimately show ?thesis using p(1) q(1) fin e ph by (simp add: bag_def mset_set.remove)
    qed
  qed
  then show "emp \<in> S" "hash_chains m d' (S - {emp})" "length d' = length d" "add_mset (cont (d ! p)) (bag d' (S - {emp})) = bag d S"
    "emp \<noteq> p \<Longrightarrow> p = h" by blast+
qed

end
