(* ===== verification/Mdb_Hash_Split.thy ===== *)
theory Mdb_Hash_Split
  imports Mdb_Hash_Chain
begin

text \<open>
  How buckets are assigned while the table grows, and the loop of \<^verbatim>\<open>my_hash_insert\<close> that splits a bucket:
  it returns and leaves the two chains it has to build.
\<close>

subsection \<open>The assignment of buckets\<close>

definition size_ok :: "nat \<Rightarrow> nat \<Rightarrow> bool" where
  "size_ok blen n \<longleftrightarrow> (\<exists>k. blen = 2 ^ k) \<and> blen div 2 \<le> n \<and> n < blen"

lemma and_size_dec: "and (unat h) (size_dec (2 ^ k)) = unat h mod 2 ^ k"
proof -
  have "size_dec (2 ^ k) = mask k" by (simp add: size_dec_def mask_eq_exp_minus_1)
  then show ?thesis by (simp add: take_bit_eq_mask [symmetric] take_bit_eq_mod)
qed

lemma mask_eq:
  "my_hash_mask h (2 * 2 ^ k) n = (if unat h mod (2 * 2 ^ k) < n then unat h mod (2 * 2 ^ k) else unat h mod 2 ^ k)"
  using and_size_dec [of h "Suc k"] and_size_dec [of h k] by (simp add: my_hash_mask_def)

lemma mask_one: "0 < n \<Longrightarrow> my_hash_mask h 1 n = 0"
  using and_size_dec [of h 0] by (simp add: my_hash_mask_def)

lemma power_cases:
  assumes "\<exists>k. blen = 2 ^ k"
  obtains "blen = (1::nat)" | k where "blen = 2 * 2 ^ k"
  using assms by (metis power_0 power_Suc not0_implies_Suc)

lemma mod_double: "(x::nat) mod (2 * 2 ^ k) = x mod 2 ^ k \<or> x mod (2 * 2 ^ k) = x mod 2 ^ k + 2 ^ k"
  using mod_mult2_eq [of x "2 ^ k" 2] by (cases "x div 2 ^ k mod 2 = 0") (auto simp: mult.commute)

text \<open>The mask in terms of the remainders of the hash number.\<close>

lemma mask_rem:
  obtains r q where "r < 2 ^ k" "q = r \<or> q = r + 2 ^ k" "and (unat h) (2 ^ k) = 0 \<longleftrightarrow> q = r"
    "\<forall>n. my_hash_mask h (2 * 2 ^ k) n = (if q < n then q else r)"
proof (rule that)
  show r: "unat h mod 2 ^ k < 2 ^ k" by simp
  show q: "unat h mod (2 * 2 ^ k) = unat h mod 2 ^ k \<or> unat h mod (2 * 2 ^ k) = unat h mod 2 ^ k + 2 ^ k"
    by (rule mod_double)
  show "\<forall>n. my_hash_mask h (2 * 2 ^ k) n = (if unat h mod (2 * 2 ^ k) < n then unat h mod (2 * 2 ^ k) else unat h mod 2 ^ k)"
    by (simp add: mask_eq)
  have "and (unat h) (2 ^ k) = 0 \<longleftrightarrow> \<not> bit (unat h) k" by (metis and_exp_eq_0_iff_not_bit)
  also have "\<dots> \<longleftrightarrow> unat h div 2 ^ k mod 2 = 0" by (simp add: bit_iff_odd even_iff_mod_2_eq_zero)
  also have "\<dots> \<longleftrightarrow> unat h mod (2 * 2 ^ k) = unat h mod 2 ^ k"
    using mod_mult2_eq [of "unat h" "2 ^ k" 2] by (simp add: mult.commute)
  finally show "and (unat h) (2 ^ k) = 0 \<longleftrightarrow> unat h mod (2 * 2 ^ k) = unat h mod 2 ^ k" .
qed

lemma mask_less:
  assumes "\<exists>k. blen = 2 ^ k" "blen div 2 \<le> n" "0 < n"
  shows "my_hash_mask h blen n < n"
  using assms(1)
proof (cases rule: power_cases)
  case (2 k)
  obtain r q where "r < 2 ^ k" "q = r \<or> q = r + 2 ^ k" "and (unat h) (2 ^ k) = 0 \<longleftrightarrow> q = r"
      "\<forall>n. my_hash_mask h (2 * 2 ^ k) n = (if q < n then q else r)" by (rule mask_rem [of k h])
  then show ?thesis using assms(2) by (simp add: 2)
qed (use assms(3) mask_one [of n h] in simp)

text \<open>With one slot more, exactly the last bucket is new; its records come from one other bucket.\<close>

lemma mask_merge:
  assumes "\<exists>k. blen = 2 ^ k" "blen div 2 \<le> n" "n < blen" "0 < n"
  shows "my_hash_mask h blen n = (if my_hash_mask h blen (n + 1) = n then n - blen div 2 else my_hash_mask h blen (n + 1))"
  using assms(1)
proof (cases rule: power_cases)
  case 1
  then show ?thesis using assms(3,4) by simp
next
  case (2 k)
  obtain r q where "r < 2 ^ k" "q = r \<or> q = r + 2 ^ k" "and (unat h) (2 ^ k) = 0 \<longleftrightarrow> q = r"
      "\<forall>n. my_hash_mask h (2 * 2 ^ k) n = (if q < n then q else r)" by (rule mask_rem [of k h])
  then show ?thesis using assms(2,3) by (auto simp: 2)
qed

lemma mask_double:
  assumes "\<exists>k. blen = 2 ^ k"
  shows "my_hash_mask h (blen + blen) blen = my_hash_mask h blen blen"
proof -
  obtain k where k: "blen = 2 ^ k" using assms by blast
  have "unat h mod 2 ^ k < 2 ^ k" by simp
  then have "my_hash_mask h blen blen = unat h mod 2 ^ k" by (simp only: k my_hash_mask_def and_size_dec if_True)
  moreover obtain r q where "r < 2 ^ k" "q = r \<or> q = r + 2 ^ k" "and (unat h) (2 ^ k) = 0 \<longleftrightarrow> q = r"
      "\<forall>n. my_hash_mask h (2 * 2 ^ k) n = (if q < n then q else r)" by (rule mask_rem [of k h])
  moreover have "my_hash_mask h (2 * 2 ^ k) 0 = unat h mod 2 ^ k" by (simp add: mask_eq)
  ultimately show ?thesis by (auto simp: k mult_2)
qed

text \<open>The test of the loop: whether a record of the bucket to be split stays.\<close>

lemma stays_iff:
  assumes "\<exists>k. blen = 2 ^ k" "blen div 2 \<le> n" "n < blen" "0 < n" "my_hash_mask h blen n = n - blen div 2"
  shows "and (unat h) (blen div 2) = 0 \<longleftrightarrow> my_hash_mask h blen (n + 1) \<noteq> n"
  using assms(1)
proof (cases rule: power_cases)
  case 1
  then show ?thesis using assms(3,4) by simp
next
  case (2 k)
  obtain r q where "r < 2 ^ k" "q = r \<or> q = r + 2 ^ k" "and (unat h) (2 ^ k) = 0 \<longleftrightarrow> q = r"
      "\<forall>n. my_hash_mask h (2 * 2 ^ k) n = (if q < n then q else r)" by (rule mask_rem [of k h])
  then show ?thesis using assms(2,3,5) by (auto simp: 2 split: if_splits)
qed


subsection \<open>Splitting a bucket\<close>

text \<open>
  The loop walks over the chain \<^verbatim>\<open>cs\<close> of the bucket \<^verbatim>\<open>f\<close> and builds two chains in place. The records that
  stay keep their slots, except that the first of them has to be in slot \<^verbatim>\<open>f\<close>; the others keep theirs,
  except that the first has to be in the new slot \<^verbatim>\<open>n\<close>.
\<close>

primrec start_at :: "nat \<Rightarrow> nat list \<Rightarrow> nat list" where
  "start_at x [] = []"
| "start_at x (p # ps) = x # ps"

text \<open>All links of the new chain but the last are in place.\<close>

fun written :: "HASH_LINK list \<Rightarrow> HASH_LINK list \<Rightarrow> nat list \<Rightarrow> nat list \<Rightarrow> bool" where
  "written d d' (l # l' # ls) (p # p' # ps) \<longleftrightarrow> d' ! p = (d ! l)\<lparr> link_next := p' \<rparr> \<and> written d d' (l' # ls) (p' # ps)"
| "written d d' _ _ \<longleftrightarrow> True"

definition free_after_split :: "nat \<Rightarrow> nat \<Rightarrow> nat list \<Rightarrow> nat list \<Rightarrow> nat" where
  "free_after_split f n ls hs = (if hs = [] then n else if ls = [] then hd hs else if hd ls = f then hd hs else hd ls)"

text \<open>
  One of the two chains while the loop runs: \<^verbatim>\<open>ls\<close> are the slots its records had, \<^verbatim>\<open>x\<close> the slot it has to
  start in, \<^verbatim>\<open>cur\<close> says that the last record looked at belongs to it. The link of its last record is
  not yet written, except that it is in place (\<^verbatim>\<open>used\<close>) when that record was just looked at and keeps its slot.
\<close>

definition side :: "HASH_LINK list \<Rightarrow> HASH_LINK list \<Rightarrow> nat \<Rightarrow> nat list \<Rightarrow> bool \<Rightarrow> bool \<Rightarrow> nat \<Rightarrow> rec_id \<times> u32 \<Rightarrow> bool \<Rightarrow> bool" where
  "side d d' x ls fnd used g sv cur \<longleftrightarrow>
     fnd = (ls \<noteq> []) \<and> (ls \<noteq> [] \<longrightarrow> g = last (start_at x ls) \<and> sv = cont (d ! last ls)) \<and>
     written d d' ls (start_at x ls) \<and> used = (cur \<and> ls \<noteq> [] \<and> last (start_at x ls) = last ls) \<and>
     (used \<longrightarrow> d' ! last ls = d ! last ls)"

definition split_inv :: "HASH_LINK list \<Rightarrow> nat \<Rightarrow> nat \<Rightarrow> (nat \<Rightarrow> bool) \<Rightarrow> nat list \<Rightarrow> split \<Rightarrow> bool" where
  "split_inv d f n P xs s \<longleftrightarrow>
     length (s_links s) = length d \<and>
     (\<forall>p. p \<notin> set (start_at f (filter P xs)) \<union> set (start_at n (filter (\<lambda>p. \<not> P p) xs)) \<longrightarrow> s_links s ! p = d ! p) \<and>
     side d (s_links s) f (filter P xs) (lowfind s) (lowused s) (gpos s) (saved s) (xs \<noteq> [] \<and> P (last xs)) \<and>
     side d (s_links s) n (filter (\<lambda>p. \<not> P p) xs) (highfind s) (highused s) (gpos2 s) (saved2 s) (xs \<noteq> [] \<and> \<not> P (last xs)) \<and>
     s_empty s = free_after_split f n (filter P xs) (filter (\<lambda>p. \<not> P p) xs)"

lemma length_start_at [simp]: "length (start_at x ps) = length ps"
  by (cases ps) simp_all

lemma start_at_Nil [simp]: "start_at x ps = [] \<longleftrightarrow> ps = []"
  by (cases ps) simp_all

lemma start_at_snoc: "start_at x (ps @ [p]) = (if ps = [] then [x] else start_at x ps @ [p])"
  by (cases ps) simp_all

lemma written_snoc:
  "length ls = length lp \<Longrightarrow> written d d' (ls @ [x]) (lp @ [y]) \<longleftrightarrow>
     written d d' ls lp \<and> (lp \<noteq> [] \<longrightarrow> d' ! last lp = (d ! last ls)\<lparr> link_next := y \<rparr>)"
proof (induction d d' ls lp rule: written.induct)
  case (1 d d' l l' ls p p' ps)
  then show ?case by auto
qed (auto simp: length_Suc_conv Suc_length_conv)

lemma written_cong:
  "(\<And>p. p \<in> set (butlast lp) \<Longrightarrow> d'' ! p = d' ! p) \<Longrightarrow> written d d'' ls lp = written d d' ls lp"
  by (induction d d' ls lp rule: written.induct) auto

lemma written_chain:
  assumes "written d d' ls lp" "length ls = length lp" "lp \<noteq> []" "d' ! last lp = (d ! last ls)\<lparr> link_next := NO_RECORD \<rparr>"
  shows "chain_linked d' lp \<and> map (\<lambda>p. cont (d' ! p)) lp = map (\<lambda>p. cont (d ! p)) ls"
  using assms
proof (induction d d' ls lp rule: written.induct)
  case (1 d d' l l' ls p p' ps)
  then show ?case by (auto simp: cont_def)
qed (auto simp: cont_def length_Suc_conv Suc_length_conv)


lemma start_at_set: "set (start_at x ps) \<subseteq> insert x (set ps)"
  by (cases ps) auto

lemma start_at_distinct: "distinct ps \<Longrightarrow> x \<notin> set ps \<Longrightarrow> distinct (start_at x ps)"
  by (cases ps) simp_all

lemma start_at_filter:
  assumes "distinct xs" "n \<notin> set xs" "xs \<noteq> [] \<longrightarrow> hd xs = f"
  shows "distinct (start_at f (filter P xs) @ start_at n (filter (\<lambda>p. \<not> P p) xs))"
    "set (start_at f (filter P xs)) \<union> set (start_at n (filter (\<lambda>p. \<not> P p) xs)) \<subseteq> insert n (set xs)"
proof -
  show "distinct (start_at f (filter P xs) @ start_at n (filter (\<lambda>p. \<not> P p) xs))"
  proof (cases xs)
    case (Cons a ys)
    then have a: "a = f" "f \<notin> set ys" "distinct ys" "n \<noteq> f" "n \<notin> set ys" using assms by auto
    show ?thesis
    proof (cases "P f")
      case True
      have "distinct (start_at n (filter (\<lambda>p. \<not> P p) ys))" using a by (intro start_at_distinct) simp_all
      then show ?thesis using True a start_at_set [of n "filter (\<lambda>p. \<not> P p) ys"] by (auto simp: Cons)
    next
      case False
      have "distinct (start_at f (filter P ys))" using a by (intro start_at_distinct) simp_all
      then show ?thesis using False a start_at_set [of f "filter P ys"] by (auto simp: Cons)
    qed
  qed simp
  have "xs \<noteq> [] \<Longrightarrow> f \<in> set xs" using assms(3) by (metis hd_in_set)
  then show "set (start_at f (filter P xs)) \<union> set (start_at n (filter (\<lambda>p. \<not> P p) xs)) \<subseteq> insert n (set xs)"
    using start_at_set [of f "filter P xs"] start_at_set [of n "filter (\<lambda>p. \<not> P p) xs"] by (cases "xs = []") auto
qed

lemma write_link_cont: "write_link d g (cont l) nx = d[g := l\<lparr> link_next := nx \<rparr>]"
  by (cases l) (simp add: write_link_def cont_def)

lemma last_not_butlast: "distinct ps \<Longrightarrow> p \<in> set (butlast ps) \<Longrightarrow> p \<noteq> last ps"
  by (induction ps) (auto split: if_splits dest: in_set_butlastD)

lemma side_extend:
  assumes sd: "side d d' x ls fnd used g sv cur" and ls: "ls \<noteq> []" and dist: "distinct (start_at x ls)"
    and len: "last (start_at x ls) < length d'" and nx: "used \<Longrightarrow> link_next (d ! last ls) = p"
    and p: "d' ! p = d ! p" "p \<notin> set (start_at x ls)"
  shows "side d (if used then d' else write_link d' g sv p) x (ls @ [p]) fnd True p (cont (d ! p)) True"
proof -
  let ?lp = "start_at x ls" and ?d = "if used then d' else write_link d' g sv p"
  have lp: "?lp \<noteq> []" "length ls = length ?lp" "last ?lp \<in> set ?lp" using ls by simp_all
  have g: "g = last ?lp" "sv = cont (d ! last ls)" "written d d' ls ?lp" using sd ls by (simp_all add: side_def)
  have dl: "?d ! last ?lp = (d ! last ls)\<lparr> link_next := p \<rparr>"
  proof (cases used)
    case True
    then have "last ?lp = last ls" "d' ! last ls = d ! last ls" using sd by (simp_all add: side_def)
    then show ?thesis using True nx by simp
  next
    case False
    then show ?thesis using g len by (simp add: write_link_cont)
  qed
  have other: "?d ! q = d' ! q" if "q \<noteq> last ?lp" for q using that g by (simp add: write_link_cont)
  have "written d ?d ls ?lp = written d d' ls ?lp"
    by (rule written_cong) (use other last_not_butlast [OF dist] in blast)
  then have "written d ?d (ls @ [p]) (?lp @ [p])" using written_snoc [OF lp(2)] g(3) dl by simp
  moreover have "?d ! p = d ! p" using other [of p] p lp(3) by metis
  ultimately show "side d ?d x (ls @ [p]) fnd True p (cont (d ! p)) True"
    using sd ls by (simp add: side_def start_at_snoc)
qed

lemma side_other:
  assumes sd: "side d d' x ls fnd used g sv cur" and same: "\<And>q. q \<in> set (start_at x ls) \<Longrightarrow> d'' ! q = d' ! q"
  shows "side d d'' x ls fnd False g sv False"
proof -
  have "written d d'' ls (start_at x ls) = written d d' ls (start_at x ls)"
    by (rule written_cong) (use same in_set_butlastD in fast)
  then show ?thesis using sd by (simp add: side_def)
qed

lemma chain_next:
  "chain_linked d (xs @ p # ys) \<Longrightarrow> xs \<noteq> [] \<Longrightarrow> link_next (d ! last xs) = p"
  using chain_cut [of xs "p # ys" d] by simp

lemma split_invD:
  assumes "split_inv d f n P xs s"
  shows "length (s_links s) = length d"
    "\<And>p. p \<notin> set (start_at f (filter P xs)) \<Longrightarrow> p \<notin> set (start_at n (filter (\<lambda>p. \<not> P p) xs)) \<Longrightarrow> s_links s ! p = d ! p"
    "side d (s_links s) f (filter P xs) (lowfind s) (lowused s) (gpos s) (saved s) (xs \<noteq> [] \<and> P (last xs))"
    "side d (s_links s) n (filter (\<lambda>p. \<not> P p) xs) (highfind s) (highused s) (gpos2 s) (saved2 s) (xs \<noteq> [] \<and> \<not> P (last xs))"
    "s_empty s = free_after_split f n (filter P xs) (filter (\<lambda>p. \<not> P p) xs)"
  using assms by (simp_all add: split_inv_def)

lemma sideD: "side d d' x ls fnd used g sv cur \<Longrightarrow> fnd \<longleftrightarrow> ls \<noteq> []" "side d d' x ls fnd used g sv False \<Longrightarrow> \<not> used"
    "side d d' x ls fnd used g sv cur \<Longrightarrow> used \<Longrightarrow> cur"
    "side d d' x ls fnd used g sv cur \<Longrightarrow> ls \<noteq> [] \<Longrightarrow> g = last (start_at x ls)"
  by (auto simp: side_def)

lemma side_first: "d' ! p = d ! p \<Longrightarrow> side d d' x [p] True (x = p) x (cont (d ! p)) True"
  by (simp add: side_def)

text \<open>The situation in which the loop looks at the record in slot \<^verbatim>\<open>p\<close>.\<close>

definition split_at :: "HASH_LINK list \<Rightarrow> nat \<Rightarrow> nat \<Rightarrow> nat list \<Rightarrow> nat \<Rightarrow> nat list \<Rightarrow> bool" where
  "split_at d f n xs p ys \<longleftrightarrow> distinct (xs @ p # ys) \<and> hd (xs @ p # ys) = f \<and> n \<notin> set (xs @ p # ys) \<and> n < length d \<and>
     set (xs @ p # ys) \<subseteq> {..<length d} \<and> chain_linked d (xs @ p # ys)"

lemma split_at_facts:
  assumes "split_at d f n xs p ys"
  shows "distinct (start_at f (filter P xs) @ start_at n (filter (\<lambda>p. \<not> P p) xs))"
    "p \<notin> set (start_at f (filter P xs))" "p \<notin> set (start_at n (filter (\<lambda>p. \<not> P p) xs))"
    "set (start_at f (filter P xs)) \<union> set (start_at n (filter (\<lambda>p. \<not> P p) xs)) \<subseteq> {..<length d}"
    "xs \<noteq> [] \<Longrightarrow> link_next (d ! last xs) = p" "xs = [] \<Longrightarrow> p = f" "xs \<noteq> [] \<Longrightarrow> hd xs = f" "p < length d"
proof -
  have a: "distinct xs" "n \<notin> set xs" "p \<notin> set xs" "p \<noteq> n" "n < length d" "set xs \<subseteq> {..<length d}"
    using assms by (auto simp: split_at_def)
  show hd: "xs \<noteq> [] \<Longrightarrow> hd xs = f" using assms by (simp add: split_at_def)
  show "xs = [] \<Longrightarrow> p = f" "p < length d" using assms by (simp_all add: split_at_def)
  show "xs \<noteq> [] \<Longrightarrow> link_next (d ! last xs) = p" using assms chain_next [of d xs p ys] by (simp add: split_at_def)
  have "xs \<noteq> [] \<longrightarrow> hd xs = f" using hd by blast
  note s = start_at_filter [OF a(1,2) this, of P]
  show "distinct (start_at f (filter P xs) @ start_at n (filter (\<lambda>p. \<not> P p) xs))" using s(1) by blast
  have "p \<notin> insert n (set xs)" "insert n (set xs) \<subseteq> {..<length d}" using a by auto
  then show "p \<notin> set (start_at f (filter P xs))" "p \<notin> set (start_at n (filter (\<lambda>p. \<not> P p) xs))"
    "set (start_at f (filter P xs)) \<union> set (start_at n (filter (\<lambda>p. \<not> P p) xs)) \<subseteq> {..<length d}" using s(2) by blast+
qed

lemma split_step_low:
  assumes inv: "split_inv d f n P xs s" and at: "split_at d f n xs p ys" and P: "P p" "and (unat (hash_nr (d ! p))) half = 0"
  shows "split_inv d f n P (xs @ [p]) (split_step half p s) \<and> s_links (split_step half p s) ! p = d ! p"
proof -
  note I = split_invD [OF inv] and A = split_at_facts(1-4) [OF at, of P] split_at_facts(5-8) [OF at]
  let ?ls = "filter P xs" and ?hs = "filter (\<lambda>p. \<not> P p) xs"
  have dp: "s_links s ! p = d ! p" using I(2) A(2,3) by blast
  show ?thesis
  proof (cases "?ls = []")
    case True
    then have low: "\<not> lowfind s" using sideD(1) [OF I(3)] by simp
    have hi: "highfind s \<longleftrightarrow> xs \<noteq> []" using sideD(1) [OF I(4)] True by (auto simp: filter_empty_conv)
    have hs: "?hs = xs" using True by (simp add: filter_empty_conv)
    have "side d (s_links s) n ?hs (highfind s) False (gpos2 s) (saved2 s) False" by (rule side_other [OF I(4)]) simp
    moreover have "side d (s_links s) f [p] True (f = p) f (cont (d ! p)) True" using side_first dp by blast
    moreover have "s_links s ! q = d ! q" if "q \<noteq> f" "q \<notin> set (start_at n ?hs)" for q using I(2) [of q] that True by simp
    moreover have "f = p \<longleftrightarrow> xs = []" using at by (cases xs) (auto simp: split_at_def)
    ultimately show ?thesis using I(1,5) dp low hi P A(6,7) hs
      by (cases "xs = []") (auto simp: split_inv_def split_step_def True free_after_split_def cont_def Let_def)
  next
    case False
    then have low: "lowfind s" using sideD(1) [OF I(3)] by simp
    let ?d = "if lowused s then s_links s else write_link (s_links s) (gpos s) (saved s) p"
    have ll: "last (start_at f ?ls) \<in> set (start_at f ?ls)" using False by simp
    have E: "side d ?d f (?ls @ [p]) (lowfind s) True p (cont (d ! p)) True"
    proof (rule side_extend [OF I(3) False])
      show "distinct (start_at f ?ls)" using A(1) by simp
      show "last (start_at f ?ls) < length (s_links s)" using A(4) ll I(1) by auto
      show "link_next (d ! last ?ls) = p" if "lowused s"
      proof -
        have "xs \<noteq> []" "P (last xs)" using sideD(3) [OF I(3) that] by simp_all
        then have "last ?ls = last xs" by (metis append_butlast_last_id filter.simps filter_append last_snoc)
        then show ?thesis using A(5) \<open>xs \<noteq> []\<close> by simp
      qed
    qed (use dp A(2) in auto)
    have other: "?d ! q = s_links s ! q" if "q \<notin> set (start_at f ?ls)" for q
    proof -
      have "q \<noteq> gpos s" using that sideD(4) [OF I(3) False] ll by auto
      then show ?thesis by (simp add: write_link_def)
    qed
    have "side d ?d n ?hs (highfind s) False (gpos2 s) (saved2 s) False"
      by (rule side_other [OF I(4)], rule other) (use A(1) in auto)
    moreover have "\<not> highused s" if "lowused s" using sideD(3) [OF I(3) that] sideD(3) [OF I(4)] by blast
    moreover have "split_step half p s = s\<lparr> s_links := ?d, lowused := True, highused := (highused s \<and> lowused s),
        gpos := p, saved := cont (d ! p) \<rparr>"
      using low dp P by (cases s) (auto simp: split_step_def cont_def Let_def)
    moreover have "length ?d = length d" using I(1) by (simp add: write_link_def)
    moreover have "?d ! p = d ! p" using other [of p] dp A(2) by metis
    moreover have "?d ! q = d ! q" if "q \<notin> set (start_at f ?ls)" "q \<notin> set (start_at n ?hs)" for q
      using other [of q] I(2) [of q] that by metis
    moreover have "free_after_split f n (?ls @ [p]) ?hs = free_after_split f n ?ls ?hs" using False by (simp add: free_after_split_def)
    ultimately show ?thesis using I(5) E low False P(1) by (auto simp: split_inv_def start_at_snoc)
  qed
qed

lemma split_step_high:
  assumes inv: "split_inv d f n P xs s" and at: "split_at d f n xs p ys" and P: "\<not> P p" "and (unat (hash_nr (d ! p))) half \<noteq> 0"
  shows "split_inv d f n P (xs @ [p]) (split_step half p s) \<and> s_links (split_step half p s) ! p = d ! p"
proof -
  note I = split_invD [OF inv] and A = split_at_facts(1-4) [OF at, of P] split_at_facts(5-8) [OF at]
  let ?ls = "filter P xs" and ?hs = "filter (\<lambda>p. \<not> P p) xs"
  have dp: "s_links s ! p = d ! p" using I(2) A(2,3) by blast
  show ?thesis
  proof (cases "?hs = []")
    case True
    then have hi: "\<not> highfind s" using sideD(1) [OF I(4)] by simp
    have ls: "?ls = xs" using True by (simp add: filter_empty_conv)
    have "side d (s_links s) f ?ls (lowfind s) False (gpos s) (saved s) False" by (rule side_other [OF I(3)]) simp
    moreover have "side d (s_links s) n [p] True (n = p) n (cont (d ! p)) True" using side_first dp by blast
    moreover have "s_links s ! q = d ! q" if "q \<noteq> n" "q \<notin> set (start_at f ?ls)" for q using I(2) [of q] that True by simp
    moreover have "n \<noteq> p" using at by (auto simp: split_at_def)
    ultimately show ?thesis using I(1,5) dp hi P A(7) ls
      by (cases "xs = []") (auto simp: split_inv_def split_step_def True free_after_split_def cont_def Let_def)
  next
    case False
    then have hi: "highfind s" using sideD(1) [OF I(4)] by simp
    let ?d = "if highused s then s_links s else write_link (s_links s) (gpos2 s) (saved2 s) p"
    have ll: "last (start_at n ?hs) \<in> set (start_at n ?hs)" using False by simp
    have E: "side d ?d n (?hs @ [p]) (highfind s) True p (cont (d ! p)) True"
    proof (rule side_extend [OF I(4) False])
      show "distinct (start_at n ?hs)" using A(1) by simp
      show "last (start_at n ?hs) < length (s_links s)" using A(4) ll I(1) by auto
      show "link_next (d ! last ?hs) = p" if "highused s"
      proof -
        have "xs \<noteq> []" "\<not> P (last xs)" using sideD(3) [OF I(4) that] by simp_all
        then have "last ?hs = last xs" by (metis append_butlast_last_id filter.simps filter_append last_snoc)
        then show ?thesis using A(5) \<open>xs \<noteq> []\<close> by simp
      qed
    qed (use dp A(3) in auto)
    have other: "?d ! q = s_links s ! q" if "q \<notin> set (start_at n ?hs)" for q
    proof -
      have "q \<noteq> gpos2 s" using that sideD(4) [OF I(4) False] ll by auto
      then show ?thesis by (simp add: write_link_def)
    qed
    have "side d ?d f ?ls (lowfind s) False (gpos s) (saved s) False"
      by (rule side_other [OF I(3)], rule other) (use A(1) in auto)
    moreover have "\<not> lowused s" if "highused s" using sideD(3) [OF I(4) that] sideD(3) [OF I(3)] by blast
    moreover have "split_step half p s = s\<lparr> s_links := ?d, highused := True, lowused := (lowused s \<and> highused s),
        gpos2 := p, saved2 := cont (d ! p) \<rparr>"
      using hi dp P by (cases s) (auto simp: split_step_def cont_def Let_def)
    moreover have "length ?d = length d" using I(1) by (simp add: write_link_def)
    moreover have "?d ! p = d ! p" using other [of p] dp A(3) by metis
    moreover have "?d ! q = d ! q" if "q \<notin> set (start_at f ?ls)" "q \<notin> set (start_at n ?hs)" for q
      using other [of q] I(2) [of q] that by metis
    moreover have "free_after_split f n ?ls (?hs @ [p]) = free_after_split f n ?ls ?hs" using False by (simp add: free_after_split_def)
    ultimately show ?thesis using I(5) E hi False P(1) by (auto simp: split_inv_def start_at_snoc)
  qed
qed

lemma split_step_inv:
  assumes "split_inv d f n P xs s" "split_at d f n xs p ys" "P p \<longleftrightarrow> and (unat (hash_nr (d ! p))) half = 0"
  shows "split_inv d f n P (xs @ [p]) (split_step half p s) \<and> s_links (split_step half p s) ! p = d ! p"
  using split_step_low [OF assms(1,2)] split_step_high [OF assms(1,2)] assms(3) by blast

lemma split_inv_flags: "split_inv d f n P xs s \<Longrightarrow> no_flags s \<longleftrightarrow> xs = []"
  by (cases xs rule: rev_cases) (auto simp: split_inv_def side_def no_flags_def)

lemma split_loop_inv:
  assumes "split_inv d f n P xs s" "split_at d f n xs p ys" "\<And>q. q \<in> set (p # ys) \<Longrightarrow> P q \<longleftrightarrow> and (unat (hash_nr (d ! q))) half = 0"
    "NO_RECORD \<notin> set ys" "xs = [] \<Longrightarrow> my_hash_mask (hash_nr (s_links s ! p)) blen nrec = f"
  shows "\<exists>s'. split_loop blen nrec f half p s = Some s' \<and> split_inv d f n P (xs @ p # ys) s'"
  using assms
proof (induction ys arbitrary: xs p s)
  case Nil
  have "link_next (d ! p) = NO_RECORD"
    using Nil.prems(2) chain_cut [of xs "[p]" d] by (cases "xs = []") (auto simp: split_at_def)
  then show ?case
    using split_step_inv [OF Nil.prems(1,2), of half] Nil.prems(3,5) split_inv_flags [OF Nil.prems(1)]
    by (subst split_loop.simps) (auto simp: Let_def)
next
  case (Cons q ys)
  have st: "split_inv d f n P (xs @ [p]) (split_step half p s)" "s_links (split_step half p s) ! p = d ! p"
    using split_step_inv [OF Cons.prems(1,2), of half] Cons.prems(3) by auto
  have at: "split_at d f n (xs @ [p]) q ys" using Cons.prems(2) by (simp add: split_at_def)
  have nx: "link_next (d ! p) = q" using split_at_facts(5) [OF at] by simp
  have "\<exists>s'. split_loop blen nrec f half q (split_step half p s) = Some s' \<and> split_inv d f n P ((xs @ [p]) @ q # ys) s'"
    by (rule Cons.IH [OF st(1) at]) (use Cons.prems in auto)
  moreover have "split_loop blen nrec f half p s = split_loop blen nrec f half q (split_step half p s)"
    using nx st(2) Cons.prems(4,5) split_inv_flags [OF Cons.prems(1)] by (subst split_loop.simps) (auto simp: Let_def)
  ultimately show ?case by simp
qed

lemma side_finish:
  assumes sd: "side d d' x ls fnd used g sv cur" and dist: "distinct (start_at x ls)" and len: "set (start_at x ls) \<subseteq> {..<length d'}"
    and nx: "used \<Longrightarrow> link_next (d ! last ls) = NO_RECORD"
    and d'': "d'' = (if fnd \<and> \<not> used then write_link d' g sv NO_RECORD else d')"
  shows "length d'' = length d'" "\<And>q. q \<notin> set (start_at x ls) \<Longrightarrow> d'' ! q = d' ! q"
    "chain_linked d'' (start_at x ls) \<and> map (\<lambda>p. cont (d'' ! p)) (start_at x ls) = map (\<lambda>p. cont (d ! p)) ls"
proof -
  let ?lp = "start_at x ls"
  show "length d'' = length d'" by (simp add: d'' write_link_def)
  show "chain_linked d'' ?lp \<and> map (\<lambda>p. cont (d'' ! p)) ?lp = map (\<lambda>p. cont (d ! p)) ls"
  proof (cases "ls = []")
    case False
    then have ll: "last ?lp \<in> set ?lp" by simp
    have g: "g = last ?lp" "sv = cont (d ! last ls)" "written d d' ls ?lp" fnd using sd False by (simp_all add: side_def)
    have dl: "d'' ! last ?lp = (d ! last ls)\<lparr> link_next := NO_RECORD \<rparr>"
    proof (cases used)
      case True
      then have "last ?lp = last ls" "d' ! last ls = d ! last ls" using sd by (simp_all add: side_def)
      then show ?thesis using True nx d'' by simp
    next
      case u: False
      have "last ?lp < length d'" using ll len by blast
      then show ?thesis using g u by (simp add: write_link_cont d'')
    qed
    have "d'' ! q = d' ! q" if "q \<in> set (butlast ?lp)" for q
      using last_not_butlast [OF dist that] g(1) by (simp add: d'' write_link_def)
    then have "written d d'' ls ?lp" using g(3) written_cong by blast
    then show ?thesis using written_chain [OF _ _ _ dl] False by simp
  qed simp
  show "d'' ! q = d' ! q" if "q \<notin> set ?lp" for q
  proof (cases "ls = []")
    case False
    then have "q \<noteq> g" using sideD(4) [OF sd False] that last_in_set [of ?lp] by auto
    then show ?thesis by (simp add: d'' write_link_def)
  qed (use sd in \<open>simp add: side_def d''\<close>)
qed

lemma split_slots:
  fixes P :: "nat \<Rightarrow> bool"
  assumes "distinct cs" "n \<notin> set cs" "cs \<noteq> [] \<longrightarrow> hd cs = f"
  defines "ls \<equiv> filter P cs" and "hs \<equiv> filter (\<lambda>p. \<not> P p) cs"
  shows "set (start_at f ls) \<union> set (start_at n hs) = insert n (set cs) - {free_after_split f n ls hs}"
    "free_after_split f n ls hs \<in> insert n (set cs)"
proof -
  have sets: "set cs = set ls \<union> set hs" "set ls \<inter> set hs = {}" "distinct ls" "distinct hs"
    using assms(1) by (auto simp: ls_def hs_def)
  have "set (start_at f ls) \<union> set (start_at n hs) = insert n (set cs) - {free_after_split f n ls hs} \<and>
    free_after_split f n ls hs \<in> insert n (set cs)"
  proof (cases cs)
    case (Cons a ys)
    then have a: "a = f" using assms(3) by simp
    show ?thesis
    proof (cases "P f")
      case True
      then have "ls = f # filter P ys" by (simp add: ls_def Cons a)
      then show ?thesis using sets assms(2) by (cases hs) (auto simp: free_after_split_def)
    next
      case False
      then have hs: "hs = f # filter (\<lambda>p. \<not> P p) ys" by (simp add: hs_def Cons a)
      then have "f \<notin> set ls" using sets(2) by auto
      then show ?thesis using sets assms(2) hs by (cases ls) (auto simp: free_after_split_def)
    qed
  qed (simp add: ls_def hs_def free_after_split_def)
  then show "set (start_at f ls) \<union> set (start_at n hs) = insert n (set cs) - {free_after_split f n ls hs}"
    "free_after_split f n ls hs \<in> insert n (set cs)" by blast+
qed

lemma split_finish_ok:
  assumes inv: "split_inv d f n P cs s" and cs: "distinct cs" "n \<notin> set cs" "n < length d" "set cs \<subseteq> {..<length d}"
      "chain_linked d cs" "cs \<noteq> [] \<longrightarrow> hd cs = f"
  defines "ls \<equiv> filter P cs" and "hs \<equiv> filter (\<lambda>p. \<not> P p) cs" and "d' \<equiv> s_links (split_finish s)"
  shows "length d' = length d" "\<And>q. q \<notin> insert n (set cs) \<Longrightarrow> d' ! q = d ! q"
    "chain_linked d' (start_at f ls) \<and> map (\<lambda>p. cont (d' ! p)) (start_at f ls) = map (\<lambda>p. cont (d ! p)) ls"
    "chain_linked d' (start_at n hs) \<and> map (\<lambda>p. cont (d' ! p)) (start_at n hs) = map (\<lambda>p. cont (d ! p)) hs"
    "s_empty (split_finish s) = free_after_split f n ls hs"
proof -
  note I = split_invD [OF inv, folded ls_def hs_def]
  note F = start_at_filter [OF cs(1,2,6), of P, folded ls_def hs_def]
  have sub: "set (start_at f ls) \<union> set (start_at n hs) \<subseteq> {..<length d}" using F(2) cs(3,4) by auto
  have disj: "distinct (start_at f ls)" "distinct (start_at n hs)" "set (start_at f ls) \<inter> set (start_at n hs) = {}"
    using F(1) by simp_all
  have endl: "link_next (d ! last ls) = NO_RECORD" if "lowused s"
  proof -
    have c: "cs \<noteq> []" "P (last cs)" using sideD(3) [OF I(3) that] by simp_all
    then have "last ls = last cs" unfolding ls_def by (metis append_butlast_last_id filter.simps filter_append last_snoc)
    then show ?thesis using chain_end [OF c(1)] cs(5) by simp
  qed
  have endh: "link_next (d ! last hs) = NO_RECORD" if "highused s"
  proof -
    have c: "cs \<noteq> []" "\<not> P (last cs)" using sideD(3) [OF I(4) that] by simp_all
    then have "last hs = last cs" unfolding hs_def by (metis append_butlast_last_id filter.simps filter_append last_snoc)
    then show ?thesis using chain_end [OF c(1)] cs(5) by simp
  qed
  define d1 where "d1 = (if lowfind s \<and> \<not> lowused s then write_link (s_links s) (gpos s) (saved s) NO_RECORD else s_links s)"
  have L: "length d1 = length (s_links s)" "\<And>q. q \<notin> set (start_at f ls) \<Longrightarrow> d1 ! q = s_links s ! q"
      "chain_linked d1 (start_at f ls) \<and> map (\<lambda>p. cont (d1 ! p)) (start_at f ls) = map (\<lambda>p. cont (d ! p)) ls"
    using side_finish [OF I(3) disj(1) _ endl d1_def] sub I(1) by auto
  have H0: "side d d1 n hs (highfind s) (highused s) (gpos2 s) (saved2 s) (cs \<noteq> [] \<and> \<not> P (last cs))"
  proof -
    have same: "d1 ! q = s_links s ! q" if "q \<in> set (start_at n hs)" for q using that L(2) disj(3) by blast
    have "written d d1 hs (start_at n hs) = written d (s_links s) hs (start_at n hs)"
      by (rule written_cong) (rule same, erule in_set_butlastD)
    moreover have "d1 ! last hs = d ! last hs" if u: "highused s"
    proof -
      have "hs \<noteq> []" "last (start_at n hs) = last hs" "s_links s ! last hs = d ! last hs" using I(4) u by (auto simp: side_def)
      then show ?thesis using same [of "last hs"] last_in_set [of "start_at n hs"] by simp
    qed
    ultimately show ?thesis using I(4) by (simp add: side_def)
  qed
  have d': "d' = (if highfind s \<and> \<not> highused s then write_link d1 (gpos2 s) (saved2 s) NO_RECORD else d1)"
    unfolding d'_def d1_def by (auto simp: split_finish_def Let_def)
  have H: "length d' = length d1" "\<And>q. q \<notin> set (start_at n hs) \<Longrightarrow> d' ! q = d1 ! q"
      "chain_linked d' (start_at n hs) \<and> map (\<lambda>p. cont (d' ! p)) (start_at n hs) = map (\<lambda>p. cont (d ! p)) hs"
    using side_finish [OF H0 disj(2) _ endh d'] sub I(1) L(1) by auto
  show "length d' = length d" using H(1) L(1) I(1) by simp
  show "d' ! q = d ! q" if "q \<notin> insert n (set cs)" for q
  proof -
    have "q \<notin> set (start_at f ls)" "q \<notin> set (start_at n hs)" using that F(2) by auto
    then show ?thesis using H(2) L(2) I(2) by simp
  qed
  show "chain_linked d' (start_at n hs) \<and> map (\<lambda>p. cont (d' ! p)) (start_at n hs) = map (\<lambda>p. cont (d ! p)) hs" by (rule H(3))
  have same: "d' ! q = d1 ! q" if "q \<in> set (start_at f ls)" for q using that H(2) disj(3) by blast
  then have "chain_linked d' (start_at f ls) = chain_linked d1 (start_at f ls)"
    "map (\<lambda>p. cont (d' ! p)) (start_at f ls) = map (\<lambda>p. cont (d1 ! p)) (start_at f ls)"
    by (auto intro!: chain_linked_cong)
  then show "chain_linked d' (start_at f ls) \<and> map (\<lambda>p. cont (d' ! p)) (start_at f ls) = map (\<lambda>p. cont (d ! p)) ls" using L(3) by simp
  show "s_empty (split_finish s) = free_after_split f n ls hs" using I(5) by (simp add: split_finish_def Let_def)
qed

end
