(* ===== verification/Mdb_Hash_Search.thy ===== *)
theory Mdb_Hash_Search
  imports Mdb_Hash_Split
begin

text \<open>
  The invariant of the hash table, and what the search functions return: every record with the given key,
  one after the other.
\<close>

subsection \<open>The invariant\<close>

text \<open>
  The slots \<^verbatim>\<open>0\<close> to \<^verbatim>\<open>records - 1\<close> are linked into the chains of the buckets that \<^const>\<open>my_hash_mask\<close> assigns, and every slot
  holds the hash number of its record. A table whose keys come from a callback has \<^verbatim>\<open>key_length\<close> 0.
\<close>

abbreviation table_mask :: "HASH \<Rightarrow> u32 \<Rightarrow> nat" where
  "table_mask H \<equiv> (\<lambda>h. my_hash_mask h (blength H) (records H))"

definition hash_inv :: "HASH \<Rightarrow> memory \<Rightarrow> bool" where
  "hash_inv H mem \<longleftrightarrow>
     length (links H) = records H \<and> size_ok (blength H) (records H) \<and> (get_key H \<noteq> None \<longrightarrow> key_length H = 0) \<and>
     hash_chains (table_mask H) (links H) {..<records H} \<and>
     (\<forall>p<records H. hash_nr (links H ! p) = rec_hashnr H mem (link_data (links H ! p)))"

text \<open>The records of the table.\<close>

definition contents :: "HASH \<Rightarrow> rec_id multiset" where
  "contents H = mset (map link_data (links H))"

text \<open>What the table relies on: keys that compare equal have the same hash number.\<close>

definition hash_respects :: "HASH \<Rightarrow> bool" where
  "hash_respects H \<longleftrightarrow> (\<forall>k k'. strnncoll H k k' = 0 \<longrightarrow> hash_function H k = hash_function H k')"

lemma hash_invD:
  assumes "hash_inv H mem"
  shows "length (links H) = records H" "\<exists>k. blength H = 2 ^ k" "blength H div 2 \<le> records H" "records H < blength H"
    "get_key H \<noteq> None \<Longrightarrow> key_length H = 0" "hash_chains (table_mask H) (links H) {..<records H}"
    "p < records H \<Longrightarrow> hash_nr (links H ! p) = rec_hashnr H mem (link_data (links H ! p))"
  using assms by (auto simp: hash_inv_def size_ok_def)

lemma hash_chains_empty: "length d \<le> NO_RECORD \<Longrightarrow> hash_chains m d {}"
  by (auto simp: hash_chains_def bucket_def intro: exI [of _ "[]"])

lemma bag_contents: "length d = n \<Longrightarrow> bag d {..<n} = mset (map cont d)"
proof -
  assume "length d = n"
  then have "map cont d = map (\<lambda>p. cont (d ! p)) [0..<n]" by (intro nth_equalityI) simp_all
  moreover have "bag d (set [0..<n]) = mset (map (\<lambda>p. cont (d ! p)) [0..<n])" by (simp add: bag_def mset_set_set)
  ultimately show ?thesis by (simp add: atLeast0LessThan)
qed

text \<open>The stored pairs are those of the records when every slot has the hash number of its record.\<close>

lemma contents_bag:
  "hash_inv H mem \<Longrightarrow> bag (links H) {..<records H} = image_mset (\<lambda>r. (r, rec_hashnr H mem r)) (contents H)"
proof -
  assume i: "hash_inv H mem"
  have "map cont (links H) = map (\<lambda>r. (r, rec_hashnr H mem r)) (map link_data (links H))"
    using hash_invD(1,7) [OF i] by (auto simp: cont_def in_set_conv_nth)
  then show ?thesis using bag_contents [OF hash_invD(1) [OF i]] by (simp only: contents_def mset_map)
qed

lemma inv_from_bag:
  assumes "length (links H) = records H" "size_ok (blength H) (records H)" "get_key H \<noteq> None \<Longrightarrow> key_length H = 0"
    "hash_chains (table_mask H) (links H) {..<records H}"
    "bag (links H) {..<records H} = image_mset (\<lambda>r. (r, rec_hashnr H mem r)) C"
  shows "hash_inv H mem \<and> contents H = C"
proof -
  have b: "mset (map cont (links H)) = image_mset (\<lambda>r. (r, rec_hashnr H mem r)) C"
    using assms(5) bag_contents [OF assms(1)] by simp
  have "hash_nr (links H ! p) = rec_hashnr H mem (link_data (links H ! p))" if "p < records H" for p
  proof -
    have "cont (links H ! p) \<in># mset (map cont (links H))" using that assms(1) by simp
    then show ?thesis unfolding b by (auto simp: cont_def)
  qed
  moreover have "contents H = image_mset fst (mset (map cont (links H)))"
    by (simp add: contents_def cont_def image_mset.compositionality comp_def)
  then have "contents H = C" unfolding b by (simp add: image_mset.compositionality comp_def)
  ultimately show ?thesis using assms by (simp add: hash_inv_def)
qed

lemma init_inv:
  "(get \<noteq> None \<longrightarrow> len = 0) \<Longrightarrow> hash_inv (my_hash_init2 offset len get hf hash_sort coll free uniq) mem \<and>
     contents (my_hash_init2 offset len get hf hash_sort coll free uniq) = {#}"
  by (auto simp: hash_inv_def my_hash_init2_def size_ok_def contents_def intro!: hash_chains_empty exI [of _ 0])


subsection \<open>Searching\<close>

definition hits :: "HASH \<Rightarrow> memory \<Rightarrow> bytes \<Rightarrow> nat list \<Rightarrow> nat list" where
  "hits H mem key ps = filter (\<lambda>p. hashcmp H mem (links H ! p) key = 0) ps"

definition first_hit :: "HASH \<Rightarrow> nat list \<Rightarrow> (rec_id \<times> nat) option" where
  "first_hit H qs = (case qs of [] \<Rightarrow> None | q # _ \<Rightarrow> Some (link_data (links H ! q), q))"

lemma next_loop_chain:
  "chain_linked (links H) ps \<Longrightarrow> NO_RECORD \<notin> set ps \<Longrightarrow>
   next_loop H mem key (if ps = [] then NO_RECORD else hd ps) = Some (first_hit H (hits H mem key ps))"
proof (induction ps)
  case (Cons p ps)
  have "link_next (links H ! p) = (if ps = [] then NO_RECORD else hd ps)" "chain_linked (links H) ps"
    using Cons.prems by (cases ps; simp)+
  then show ?case using Cons by (subst next_loop.simps) (simp add: hits_def first_hit_def)
qed (simp add: next_loop.simps hits_def first_hit_def)

lemma search_loop_next:
  assumes "chain_linked (links H) ps" "NO_RECORD \<notin> set ps" "ps \<noteq> []"
    "flag \<Longrightarrow> my_hash_rec_mask (links H ! hd ps) (blength H) (records H) = hd ps"
  shows "search_loop H mem key (hd ps) flag = Some (first_hit H (hits H mem key ps))"
  using assms
proof (induction ps arbitrary: flag)
  case (Cons p ps)
  show ?case
  proof (cases "ps = []")
    case True
    then show ?thesis using Cons.prems by (subst search_loop.simps) (simp add: hits_def first_hit_def Let_def)
  next
    case False
    then have "link_next (links H ! p) = hd ps" "chain_linked (links H) ps" using Cons.prems(1) by (cases ps; simp)+
    moreover have "hd ps \<noteq> NO_RECORD" using Cons.prems(2) False by (metis hd_in_set list.set_intros(2))
    ultimately show ?thesis using Cons.IH [of False] Cons.prems(2,4) False
      by (subst search_loop.simps) (auto simp: hits_def first_hit_def Let_def)
  qed
qed simp

text \<open>The hits of a key are in the bucket of its hash number.\<close>

lemma hit_home:
  assumes i: "hash_inv H mem" and hr: "hash_respects H" and p: "p < records H" "hashcmp H mem (links H ! p) key = 0"
  shows "home (table_mask H) (links H) p = table_mask H (hash_function H key)"
  using hash_invD(7) [OF i p(1)] hr p(2) by (simp add: home_def hash_respects_def hashcmp_def rec_hashnr_def)

lemma first_ok:
  assumes i: "hash_inv H mem" and hr: "hash_respects H" and key: "key_arg H k len = key"
    and b: "bucket (table_mask H) (links H) {..<records H} (table_mask H (hash_function H key)) ps"
  shows "my_hash_first_from_hash_value H mem (hash_function H key) k len = Some (first_hit H (hits H mem key ps))"
proof (cases "records H = 0")
  case True
  then have "ps = []" using bucketD(2) [OF b] by simp
  then show ?thesis using True by (simp add: my_hash_first_from_hash_value_def hits_def first_hit_def)
next
  case False
  let ?h = "table_mask H (hash_function H key)"
  have lt: "?h < records H" using mask_less [OF hash_invD(2,3) [OF i]] False by blast
  have nr: "NO_RECORD \<notin> set ps" using not_NO_RECORD [OF hash_invD(6) [OF i]] bucket_mem [OF b] by auto
  show ?thesis
  proof (cases "ps = []")
    case True
    then have e: "home (table_mask H) (links H) ?h \<noteq> ?h" using bucket_mem [OF b, of ?h] lt by simp
    then have "hashcmp H mem (links H ! ?h) key \<noteq> 0" using hit_home [OF i hr lt] by blast
    then have "search_loop H mem key ?h True = Some None"
      using e by (subst search_loop.simps) (simp add: home_def my_hash_rec_mask_def)
    then show ?thesis using True False key by (simp add: my_hash_first_from_hash_value_def hits_def first_hit_def)
  next
    case ne: False
    then have hd: "hd ps = ?h" by (rule bucketD(4) [OF b])
    have "home (table_mask H) (links H) ?h = ?h" using bucket_mem [OF b, of ?h] hd hd_in_set [OF ne] by simp
    then show ?thesis using search_loop_next [OF bucketD(3) [OF b] nr ne, of True mem key] False key hd
      by (simp add: my_hash_first_from_hash_value_def home_def my_hash_rec_mask_def)
  qed
qed

lemma hits_next:
  assumes "distinct ps" "chain_linked (links H) ps" "NO_RECORD \<notin> set ps" "i < length (hits H mem key ps)"
  shows "next_loop H mem key (link_next (links H ! (hits H mem key ps ! i))) = Some (first_hit H (drop (Suc i) (hits H mem key ps)))"
  using assms
proof (induction ps arbitrary: i)
  case (Cons p ps)
  have c: "link_next (links H ! p) = (if ps = [] then NO_RECORD else hd ps)" "chain_linked (links H) ps"
    using Cons.prems by (cases ps; simp)+
  have nx: "next_loop H mem key (link_next (links H ! p)) = Some (first_hit H (hits H mem key ps))"
    using next_loop_chain [OF c(2), of mem key] Cons.prems(3) c(1) by simp
  show ?case
  proof (cases "hashcmp H mem (links H ! p) key = 0")
    case True
    then have h: "hits H mem key (p # ps) = p # hits H mem key ps" by (simp add: hits_def)
    show ?thesis
    proof (cases i)
      case 0
      then show ?thesis using nx by (simp add: h)
    next
      case (Suc j)
      then show ?thesis using Cons.IH [of j] Cons.prems c(2) by (auto simp: h)
    qed
  next
    case False
    then show ?thesis using Cons c(2) by (simp add: hits_def)
  qed
qed (simp add: hits_def)

lemma search_ok:
  assumes i: "hash_inv H mem" and hr: "hash_respects H"
  shows "\<exists>qs. distinct qs \<and> set qs = {p. p < records H \<and> hashcmp H mem (links H ! p) (key_arg H key len) = 0} \<and>
    my_hash_first H mem key len = Some (if qs = [] then None else Some (link_data (links H ! hd qs), hd qs)) \<and>
    (\<forall>i<length qs. my_hash_next H mem key len (qs ! i) =
       Some (if Suc i < length qs then Some (link_data (links H ! (qs ! Suc i)), qs ! Suc i) else None))"
proof -
  let ?k = "key_arg H key len"
  note ch = hash_invD(6) [OF i]
  obtain ps where b: "bucket (table_mask H) (links H) {..<records H} (table_mask H (hash_function H ?k)) ps"
    using chainsD(3) [OF ch] by blast
  let ?qs = "hits H mem ?k ps"
  have nr: "NO_RECORD \<notin> {..<records H}" using not_NO_RECORD [OF ch] by blast
  then have np: "NO_RECORD \<notin> set ps" using bucket_mem [OF b, of NO_RECORD] by simp
  have "p \<in> set ?qs \<longleftrightarrow> p < records H \<and> hashcmp H mem (links H ! p) ?k = 0" for p
    using bucket_mem [OF b, of p] hit_home [OF i hr, of p ?k] by (auto simp: hits_def)
  then have "set ?qs = {p. p < records H \<and> hashcmp H mem (links H ! p) ?k = 0}" by blast
  moreover have "my_hash_first H mem key len = Some (if ?qs = [] then None else Some (link_data (links H ! hd ?qs), hd ?qs))"
    using first_ok [OF i hr refl b] by (simp add: my_hash_first_def first_hit_def split: list.splits)
  moreover have "my_hash_next H mem key len (?qs ! j) =
      Some (if Suc j < length ?qs then Some (link_data (links H ! (?qs ! Suc j)), ?qs ! Suc j) else None)" if j: "j < length ?qs" for j
  proof -
    have "?qs ! j \<in> set ps" using nth_mem [OF j] by (simp add: hits_def)
    then have "?qs ! j \<noteq> NO_RECORD" using np by auto
    then have "my_hash_next H mem key len (?qs ! j) = Some (first_hit H (drop (Suc j) ?qs))"
      using hits_next [OF bucketD(1,3) [OF b] np j] by (simp add: my_hash_next_def)
    moreover have "drop (Suc j) ?qs = (if Suc j < length ?qs then ?qs ! Suc j # drop (Suc (Suc j)) ?qs else [])"
      by (simp add: Cons_nth_drop_Suc)
    ultimately show ?thesis by (simp add: first_hit_def)
  qed
  moreover have "distinct ?qs" using bucketD(1) [OF b] by (simp add: hits_def)
  ultimately show ?thesis by (intro exI [of _ ?qs]) blast
qed

end
