(* ===== verification/Mdb_Hash_Insert.thy ===== *)
theory Mdb_Hash_Insert
  imports Mdb_Hash_Search
begin

text \<open>
  Insertion into the hash table: the chains after splitting a bucket, and that the new record ends up
  in its bucket.
\<close>

lemma bag_list: "distinct ps \<Longrightarrow> bag d (set ps) = mset (map (\<lambda>p. cont (d ! p)) ps)"
  by (simp add: bag_def mset_set_set)

lemma bag_union: "finite A \<Longrightarrow> finite B \<Longrightarrow> A \<inter> B = {} \<Longrightarrow> bag d (A \<union> B) = bag d A + bag d B"
  by (simp add: bag_def mset_set_Union)

lemma map_partition: "mset (map g (filter P xs)) + mset (map g (filter (\<lambda>p. \<not> P p) xs)) = mset (map g xs)"
  by (induction xs) auto

lemma bag_cong: "(\<And>p. p \<in> S \<Longrightarrow> cont (d' ! p) = cont (d ! p)) \<Longrightarrow> bag d' S = bag d S"
  unfolding bag_def by (cases "finite S") (auto intro: image_mset_cong)

text \<open>The chains after splitting the bucket \<^verbatim>\<open>f\<close>: the assignment of one slot more holds.\<close>

lemma split_chains:
  fixes n :: nat
  assumes ch: "hash_chains m d {..<n}" and b: "bucket m d {..<n} f cs" and len: "length d = Suc n" and f: "f < n"
    and mm: "\<And>h. m h = (if m' h = n then f else m' h)" and P: "\<And>p. p \<in> set cs \<Longrightarrow> P p \<longleftrightarrow> home m' d p \<noteq> n"
    and inv: "split_inv d f n P cs s"
  shows "s_empty (split_finish s) \<le> n" "length (s_links (split_finish s)) = Suc n"
    "hash_chains m' (s_links (split_finish s)) ({..n} - {s_empty (split_finish s)})"
    "bag (s_links (split_finish s)) ({..n} - {s_empty (split_finish s)}) = bag d {..<n}"
proof -
  define ls hs d' where "ls = filter P cs" and "hs = filter (\<lambda>p. \<not> P p) cs" and "d' = s_links (split_finish s)"
  define e where "e = s_empty (split_finish s)"
  let ?S = "{..n} - {e}"
  have cs: "distinct cs" "n \<notin> set cs" "set cs \<subseteq> {..<length d}" "chain_linked d cs" "cs \<noteq> [] \<longrightarrow> hd cs = f"
    using bucketD(1,3,4) [OF b] by (simp_all add: bucketD(2) [OF b] len subset_iff)
  have nl: "n < length d" by (simp add: len)
  note F = split_finish_ok [OF inv cs(1,2) nl cs(3,4,5), folded ls_def hs_def d'_def e_def]
  note D = start_at_filter(1) [OF cs(1,2,5), of P, folded ls_def hs_def]
  note E = split_slots [OF cs(1,2,5), of P, folded ls_def hs_def, folded F(5)]
  let ?lp = "start_at f ls" and ?hp = "start_at n hs"
  have mem: "p \<in> set cs \<longleftrightarrow> p < n \<and> home m d p = f" for p using bucket_mem [OF b] by simp
  have csn: "set cs \<subseteq> {..<n}" by (auto simp: mem)
  have en: "e \<le> n" using E(2) csn by auto
  have S: "?S = set (?lp @ ?hp) \<union> ({..<n} - set cs)" 
  proof -
    have "{..n} = insert n (set cs) \<union> ({..<n} - set cs)" using csn by auto
    then show ?thesis unfolding set_append E(1) using E(2) csn by auto
  qed
  have lo: "home m' d' p = f" if p: "p \<in> set ?lp" for p
  proof -
    obtain l where "l \<in> set ls" "cont (d' ! p) = cont (d ! l)" using conjunct2 [OF F(3)] p by (metis (mono_tags, lifting) image_iff list.set_map)
    then show ?thesis using P [of l] mem [of l] mm [of "hash_nr (d ! l)"] home_cont [of d' p d l m'] by (auto simp: ls_def home_def)
  qed
  have hi: "home m' d' p = n" if p: "p \<in> set ?hp" for p
  proof -
    obtain l where "l \<in> set hs" "cont (d' ! p) = cont (d ! l)" using conjunct2 [OF F(4)] p by (metis (mono_tags, lifting) image_iff list.set_map)
    then show ?thesis using P [of l] home_cont [of d' p d l m'] by (auto simp: hs_def)
  qed
  have rest: "d' ! p = d ! p" "home m' d' p = home m d p" "home m d p \<noteq> f" "home m' d' p \<noteq> n" if "p \<in> {..<n} - set cs" for p
  proof -
    show same: "d' ! p = d ! p" using F(2) [of p] that by simp
    show "home m d p \<noteq> f" using mem [of p] that by simp
    then show "home m' d' p = home m d p" "home m' d' p \<noteq> n" using mm [of "hash_nr (d ! p)"] same by (auto simp: home_def split: if_splits)
  qed
  have cases: "p \<in> set ?lp \<or> p \<in> set ?hp \<or> p \<in> {..<n} - set cs" if "p \<in> ?S" for p using that unfolding S by auto
  have inS: "p \<in> set ?lp \<or> p \<in> set ?hp \<Longrightarrow> p \<in> ?S" for p unfolding S by auto
  have fn: "f \<noteq> n" using f by simp
  have "hash_chains m' d' ?S"
  proof (rule chains_change [OF ch, where B = "{f, n}"])
    show "?S \<subseteq> {..<length d'}" using F(1) len by auto
    show "\<exists>ps. bucket m' d' ?S h ps" if "h \<in> {f, n}" for h
    proof -
      have lp: "p \<in> set ?lp \<longleftrightarrow> p \<in> ?S \<and> home m' d' p = f" for p
        using lo [of p] hi [of p] rest(2,3) [of p] cases [of p] inS [of p] fn by metis
      have hp: "p \<in> set ?hp \<longleftrightarrow> p \<in> ?S \<and> home m' d' p = n" for p
        using lo [of p] hi [of p] rest(4) [of p] cases [of p] inS [of p] fn by metis
      have "set ?lp = {p \<in> ?S. home m' d' p = f}" using lp by blast
      then have "bucket m' d' ?S f ?lp" using F(3) D by (cases ls) (simp_all add: bucket_def)
      moreover have "set ?hp = {p \<in> ?S. home m' d' p = n}" using hp by blast
      then have "bucket m' d' ?S n ?hp" using F(4) D by (cases hs) (simp_all add: bucket_def)
      ultimately show ?thesis using that by blast
    qed
    show "p \<in> ?S \<and> d' ! p = d ! p \<and> home m' d' p = home m d p" if "p \<in> {..<n}" "home m d p \<notin> {f, n}" for p
    proof -
      have "p \<in> {..<n} - set cs" using that mem [of p] by simp
      then show ?thesis using rest [of p] S by blast
    qed
    show "p \<in> {..<n} \<and> home m d p = home m' d' p" if "p \<in> ?S" "home m' d' p \<notin> {f, n}" for p
      using cases [OF that(1)] lo [of p] hi [of p] rest(2) [of p] that(2) by auto
  qed (rule F(1))
  moreover have "bag d' ?S = bag d {..<n}"
  proof -
    have "bag d' ?S = bag d' (set (?lp @ ?hp)) + bag d' ({..<n} - set cs)"
    proof -
      have "set (?lp @ ?hp) \<inter> ({..<n} - set cs) = {}" unfolding set_append E(1) by auto
      then show ?thesis unfolding S by (intro bag_union) simp_all
    qed
    also have "bag d' (set (?lp @ ?hp)) = mset (map (\<lambda>p. cont (d ! p)) ls) + mset (map (\<lambda>p. cont (d ! p)) hs)"
      using bag_list [OF D, of d'] F(3,4) by simp
    also have "\<dots> = mset (map (\<lambda>p. cont (d ! p)) cs)"
      unfolding ls_def hs_def by (rule map_partition)
    also have "\<dots> = bag d (set cs)" using bag_list [OF cs(1)] by simp
    also have "bag d' ({..<n} - set cs) = bag d ({..<n} - set cs)" by (rule bag_cong) (simp add: rest)
    also have "bag d (set cs) + bag d ({..<n} - set cs) = bag d {..<n}"
    proof -
      have "set cs \<union> ({..<n} - set cs) = {..<n}" using csn by auto
      then show ?thesis using bag_union [of "set cs" "{..<n} - set cs" d] by simp
    qed
    finally show ?thesis .
  qed
  ultimately show "s_empty (split_finish s) \<le> n" "length (s_links (split_finish s)) = Suc n"
    "hash_chains m' (s_links (split_finish s)) ({..n} - {s_empty (split_finish s)})"
    "bag (s_links (split_finish s)) ({..n} - {s_empty (split_finish s)}) = bag d {..<n}"
    using en F(1) len by (simp_all add: d'_def e_def)
qed

subsection \<open>The new record\<close>

lemma link_eq: "l\<lparr> link_next := a, link_data := r, hash_nr := h \<rparr> = \<lparr> link_next = a, hash_nr = h, link_data = r \<rparr>"
  for l :: HASH_LINK
  by (cases l) simp

lemma put_record_ok:
  assumes ch: "hash_chains m d ({..n} - {e})" and e: "e \<le> n" and len: "length d = Suc n"
    and m: "m = (\<lambda>h. my_hash_mask h blen nrec)" and idx: "m h \<le> n"
  obtains d' where "put_record d e blen nrec r h = Some d'" "hash_chains m d' {..n}" "length d' = Suc n"
    "bag d' {..n} = add_mset (r, h) (bag d ({..n} - {e}))"
proof -
  let ?S = "{..n} - {e}" and ?x = "m h"
  have mx: "my_hash_mask k blen nrec = m k" for k by (simp add: m)
  have Se: "insert e {..n} = {..n}" using e by auto
  consider "?x = e" | "?x \<noteq> e" "home m d ?x = ?x" | "?x \<noteq> e" "home m d ?x \<noteq> ?x" by blast
  then show ?thesis
  proof cases
    case 1
    let ?l = "\<lparr> link_next = NO_RECORD, hash_nr = h, link_data = r \<rparr>"
    have "put_record d e blen nrec r h = Some (d[e := ?l])" using 1 e len by (simp add: put_record_def mx link_eq)
    moreover have "hash_chains m (d[e := ?l]) (insert e ?S)" "bag (d[e := ?l]) (insert e ?S) = add_mset (cont ?l) (bag d ?S)"
      by (rule add_single [OF ch]; use 1 e len in simp)+
    ultimately show ?thesis using that [of "d[e := ?l]"] len by (simp add: Se cont_def)
  next
    case 2
    let ?a = "\<lparr> link_next = e, hash_nr = h, link_data = r \<rparr>" and ?b = "d ! ?x"
    let ?d = "d[e := ?b, ?x := ?a]"
    have "put_record d e blen nrec r h = Some ?d"
      using 2 idx len by (simp add: put_record_def mx my_hash_rec_mask_def home_def link_eq Let_def)
    moreover have "hash_chains m ?d (insert e ?S)"
      "bag ?d (insert e ?S) + {#cont (d ! ?x)#} = bag d ?S + {#cont ?a, cont ?b#}"
      by (rule push [OF ch]; use 2 e len idx in \<open>simp add: home_def\<close>)+
    ultimately show ?thesis using that [of ?d] len by (simp add: Se cont_def)
  next
    case 3
    let ?g = "home m d ?x" and ?y = "(d ! ?x)\<lparr> link_next := NO_RECORD \<rparr>"
    have x: "?x \<in> ?S" "e \<notin> ?S" "e < length d" using 3 idx e len by auto
    obtain d1 where d1: "movelink (d[e := d ! ?x, ?x := ?y]) ?x ?g e = Some d1" "hash_chains m d1 (insert e (?S - {?x}))"
        "length d1 = length d" "d1 ! ?x = ?y" "bag d1 (insert e (?S - {?x})) = bag d ?S"
      by (rule relocate [OF ch x(1) refl _ x(2,3), of ?y]) (use 3 in auto)
    let ?l = "\<lparr> link_next = NO_RECORD, hash_nr = h, link_data = r \<rparr>"
    have "put_record d e blen nrec r h = Some (d1[?x := ?l])"
      using 3 d1(1,4) by (simp add: put_record_def mx my_hash_rec_mask_def home_def link_eq Let_def)
    moreover have "hash_chains m (d1[?x := ?l]) (insert ?x (insert e (?S - {?x})))"
      "bag (d1[?x := ?l]) (insert ?x (insert e (?S - {?x}))) = add_mset (cont ?l) (bag d1 (insert e (?S - {?x})))"
      by (rule add_single [OF d1(2)]; use 3 d1(3) idx len in simp)+
    moreover have "insert ?x (insert e (?S - {?x})) = {..n}" using e idx by auto
    ultimately show ?thesis using that [of "d1[?x := ?l]"] len d1(3,5) by (simp add: cont_def)
  qed
qed

text \<open>Splitting the bucket for the new slot, as \<^verbatim>\<open>my_hash_insert\<close> does it.\<close>

lemma split_ok:
  assumes ch: "hash_chains (\<lambda>h. my_hash_mask h blen n) d {..<n}" and len: "length d = Suc n" and n: "0 < n"
    and sz: "\<exists>k. blen = 2 ^ k" "blen div 2 \<le> n" "n < blen"
  defines "f \<equiv> n - blen div 2"
  obtains s where "map_option split_finish (split_loop blen n f (blen div 2) f (split_init d n)) = Some s"
    "s_empty s \<le> n" "length (s_links s) = Suc n"
    "hash_chains (\<lambda>h. my_hash_mask h blen (n + 1)) (s_links s) ({..n} - {s_empty s})"
    "bag (s_links s) ({..n} - {s_empty s}) = bag d {..<n}"
proof -
  let ?m = "\<lambda>h. my_hash_mask h blen n" and ?m' = "\<lambda>h. my_hash_mask h blen (n + 1)"
  define P where "P p \<longleftrightarrow> and (unat (hash_nr (d ! p))) (blen div 2) = 0" for p
  have f: "f < n" using sz(3) n by (simp add: f_def)
  have mm: "?m h = (if ?m' h = n then f else ?m' h)" for h using mask_merge [OF sz n, of h] by (simp add: f_def)
  obtain cs where b: "bucket ?m d {..<n} f cs" using chainsD(3) [OF ch] by blast
  have P: "P p \<longleftrightarrow> home ?m' d p \<noteq> n" if "p \<in> set cs" for p
    using stays_iff [OF sz n, of "hash_nr (d ! p)"] bucket_mem [OF b, of p] that by (simp add: P_def home_def f_def)
  have init: "split_inv d f n P [] (split_init d n)"
    by (simp add: split_inv_def side_def split_init_def free_after_split_def)
  have "\<exists>s. split_loop blen n f (blen div 2) f (split_init d n) = Some s \<and> split_inv d f n P cs s"
  proof (cases cs)
    case Nil
    have "?m (hash_nr (d ! f)) \<noteq> f" using bucket_mem [OF b, of f] f Nil by (simp add: home_def)
    then have "split_loop blen n f (blen div 2) f (split_init d n) = Some (split_init d n)"
      by (subst split_loop.simps) (simp add: split_init_def no_flags_def)
    then show ?thesis using init Nil by simp
  next
    case (Cons a ys)
    then have a: "a = f" using bucketD(4) [OF b] by simp
    have "?m (hash_nr (d ! f)) = f" using bucket_mem [OF b, of f] by (simp add: Cons a home_def)
    moreover have "split_at d f n [] f ys"
    proof -
      have "set cs \<subseteq> {..<n}" unfolding bucketD(2) [OF b] by auto
      then show ?thesis using bucketD(1,3) [OF b] len by (auto simp: split_at_def Cons a)
    qed
    moreover have "NO_RECORD \<notin> set ys" using not_NO_RECORD [OF ch] bucket_mem [OF b, of NO_RECORD] by (auto simp: Cons)
    ultimately show ?thesis
      using split_loop_inv [OF init, of f ys "blen div 2" blen n] by (simp add: Cons a P_def split_init_def)
  qed
  then obtain s where "split_loop blen n f (blen div 2) f (split_init d n) = Some s" "split_inv d f n P cs s" by blast
  moreover note split_chains [OF ch b len f mm P this(2)]
  ultimately show ?thesis using that [of "split_finish s"] by simp
qed

subsection \<open>The whole operation\<close>

definition same_table :: "HASH \<Rightarrow> HASH \<Rightarrow> bool" where
  "same_table H H' \<longleftrightarrow> (\<exists>b n l. H' = H\<lparr> blength := b, records := n, links := l \<rparr>)"

lemma same_tableI: "same_table H (H\<lparr> links := l, records := n, blength := b \<rparr>)"
  unfolding same_table_def by (intro exI [of _ b] exI [of _ n] exI [of _ l]) simp

lemma same_table_fields:
  assumes "same_table H H'"
  shows "key_length H' = key_length H" "get_key H' = get_key H" "hash_function H' = hash_function H" "strnncoll H' = strnncoll H"
    "unique_keys H' = unique_keys H" "rec_hashnr H' mem r = rec_hashnr H mem r" "my_hash_key H' mem r = my_hash_key H mem r"
  using assms by (auto simp: same_table_def rec_hashnr_def my_hash_key_def split: option.splits)

text \<open>Some record of the table has the key of \<^verbatim>\<open>r\<close>.\<close>

definition key_in :: "HASH \<Rightarrow> memory \<Rightarrow> rec_id \<Rightarrow> rec_id \<Rightarrow> bool" where
  "key_in H mem r r' \<longleftrightarrow> strnncoll H (my_hash_key H mem r') (my_hash_key H mem r) = 0"

lemma key_arg_self: "get_key H \<noteq> None \<longrightarrow> key_length H = 0 \<Longrightarrow> key_arg H (my_hash_key H mem r) (length (my_hash_key H mem r)) = my_hash_key H mem r"
  by (auto simp: key_arg_def my_hash_key_def)

lemma search_key:
  assumes i: "hash_inv H mem" and hr: "hash_respects H"
  shows "\<exists>f. my_hash_first_from_hash_value H mem (rec_hashnr H mem r) (my_hash_key H mem r) (length (my_hash_key H mem r)) = Some f \<and>
    (f = None \<longleftrightarrow> (\<forall>r'\<in>#contents H. \<not> key_in H mem r r'))"
proof -
  let ?k = "my_hash_key H mem r"
  have k: "key_arg H ?k (length ?k) = ?k" using key_arg_self hash_invD(5) [OF i] by blast
  obtain ps where b: "bucket (table_mask H) (links H) {..<records H} (table_mask H (hash_function H ?k)) ps"
    using chainsD(3) [OF hash_invD(6) [OF i]] by blast
  have "hits H mem ?k ps = [] \<longleftrightarrow> (\<forall>p<records H. hashcmp H mem (links H ! p) ?k \<noteq> 0)"
    using bucket_mem [OF b] hit_home [OF i hr] by (auto simp: hits_def filter_empty_conv)
  also have "\<dots> \<longleftrightarrow> (\<forall>r'\<in>#contents H. \<not> key_in H mem r r')"
    using hash_invD(1) [OF i] by (auto simp: contents_def key_in_def hashcmp_def in_set_conv_nth) (metis nth_mem)
  finally show ?thesis using first_ok [OF i hr k b]
    by (simp add: rec_hashnr_def first_hit_def split: list.splits)
qed

lemma size_ok_grow:
  "size_ok blen n \<Longrightarrow> size_ok (if n + 1 = blen then blen + blen else blen) (n + 1)"
  by (auto simp: size_ok_def mult_2 [symmetric] power_Suc [symmetric] simp del: power_Suc)

lemma insert_links:
  assumes i: "hash_inv H mem" and big: "records H + 1 < NO_RECORD"
  defines "n \<equiv> records H" and "f \<equiv> records H - blength H div 2"
  shows "\<exists>s d. (if f \<noteq> n then map_option split_finish (split_loop (blength H) n f (blength H div 2) f (split_init (links H @ [slot]) n))
      else Some (split_init (links H @ [slot]) n)) = Some s \<and> put_record (s_links s) (s_empty s) (blength H) (n + 1) r h = Some d \<and>
      hash_chains (\<lambda>h. my_hash_mask h (blength H) (n + 1)) d {..<n + 1} \<and> length d = n + 1 \<and>
      bag d {..<n + 1} = add_mset (r, h) (bag (links H) {..<n})"
proof -
  let ?d = "links H @ [slot]" and ?m = "\<lambda>h. my_hash_mask h (blength H) (n + 1)"
  note I = hash_invD [OF i, folded n_def]
  have len: "length ?d = Suc n" using I(1) by simp
  have low: "?d ! p = links H ! p" if "p < n" for p using that I(1) by (simp add: nth_append)
  have bag: "bag ?d {..<n} = bag (links H) {..<n}" by (rule bag_cong) (simp add: low)
  have "\<exists>s. (if f \<noteq> n then map_option split_finish (split_loop (blength H) n f (blength H div 2) f (split_init ?d n))
      else Some (split_init ?d n)) = Some s \<and> s_empty s \<le> n \<and> length (s_links s) = Suc n \<and>
      hash_chains ?m (s_links s) ({..n} - {s_empty s}) \<and> bag (s_links s) ({..n} - {s_empty s}) = bag ?d {..<n}"
  proof (cases "n = 0")
    case True
    then have "f = n" by (simp add: f_def n_def)
    moreover have "hash_chains ?m ?d {}" using len big True by (intro hash_chains_empty) simp
    ultimately show ?thesis using True len by (simp add: split_init_def bag_def)
  next
    case False
    have ch: "hash_chains (table_mask H) ?d {..<n}"
      unfolding n_def by (rule chains_same [OF hash_invD(6) [OF i]]) (use len big low in \<open>auto simp: home_def n_def\<close>)
    obtain s where s: "map_option split_finish (split_loop (blength H) n f (blength H div 2) f (split_init ?d n)) = Some s"
        "s_empty s \<le> n" "length (s_links s) = Suc n" "hash_chains ?m (s_links s) ({..n} - {s_empty s})"
        "bag (s_links s) ({..n} - {s_empty s}) = bag ?d {..<n}"
      using split_ok [OF ch [folded n_def] len _ I(2,3,4)] False unfolding f_def n_def by blast
    moreover have "blength H div 2 \<noteq> 0" using I(4) False by simp
    ultimately show ?thesis using False by (auto simp: f_def n_def)
  qed
  then obtain s where s: "(if f \<noteq> n then map_option split_finish (split_loop (blength H) n f (blength H div 2) f (split_init ?d n))
      else Some (split_init ?d n)) = Some s" "s_empty s \<le> n" "length (s_links s) = Suc n"
      "hash_chains ?m (s_links s) ({..n} - {s_empty s})" "bag (s_links s) ({..n} - {s_empty s}) = bag ?d {..<n}" by blast
  have "?m h < n + 1" by (rule mask_less) (use I in auto)
  then have "?m h \<le> n" by simp
  then obtain d where "put_record (s_links s) (s_empty s) (blength H) (n + 1) r h = Some d" "hash_chains ?m d {..n}" "length d = Suc n"
      "bag d {..n} = add_mset (r, h) (bag (s_links s) ({..n} - {s_empty s}))"
    using put_record_ok [OF s(4,2,3) refl, of h r] by blast
  moreover have "{..<n + 1} = {..n}" by auto
  ultimately show ?thesis using s(1,5) bag by (intro exI [of _ s] exI [of _ d]) (simp del: if_split_asm)
qed

lemma insert_ok:
  assumes i: "hash_inv H mem" and hr: "hash_respects H" and big: "records H + 1 < NO_RECORD"
  shows "\<exists>err H'. my_hash_insert H mem r new_slot = Some (err, H') \<and> hash_inv H' mem \<and> same_table H H' \<and>
    (err \<longleftrightarrow> new_slot = None \<or> unique_keys H \<and> (\<exists>r'\<in>#contents H. key_in H mem r r')) \<and>
    contents H' = (if err then contents H else add_mset r (contents H)) \<and> (err \<longrightarrow> H' = H)"
proof -
  let ?h = "rec_hashnr H mem r" and ?n = "records H"
  let ?search = "if unique_keys H then my_hash_first_from_hash_value H mem ?h (my_hash_key H mem r) (length (my_hash_key H mem r)) else Some None"
  obtain f where f: "?search = Some f" "f \<noteq> None \<longleftrightarrow> unique_keys H \<and> (\<exists>r'\<in>#contents H. key_in H mem r r')"
    using search_key [OF i hr, of r] by (cases "unique_keys H") auto
  have same: "same_table H H" unfolding same_table_def by (intro exI [of _ "blength H"] exI [of _ "records H"] exI [of _ "links H"]) simp
  show ?thesis
  proof (cases "f \<noteq> None \<or> new_slot = None")
    case True
    then have "my_hash_insert H mem r new_slot = Some (True, H)"
      unfolding my_hash_insert_def Let_def rec_hashnr_def [symmetric] f(1) by auto
    then show ?thesis using i f(2) True same by auto
  next
    case False
    then obtain slot where slot: "new_slot = Some slot" "f = None" by (cases new_slot; cases f) auto
    obtain s d where sd: "(if ?n - blength H div 2 \<noteq> ?n then map_option split_finish (split_loop (blength H) ?n (?n - blength H div 2) (blength H div 2)
          (?n - blength H div 2) (split_init (links H @ [slot]) ?n)) else Some (split_init (links H @ [slot]) ?n)) = Some s"
        "put_record (s_links s) (s_empty s) (blength H) (?n + 1) r ?h = Some d"
        "hash_chains (\<lambda>h. my_hash_mask h (blength H) (?n + 1)) d {..<?n + 1}" "length d = ?n + 1"
        "bag d {..<?n + 1} = add_mset (r, ?h) (bag (links H) {..<?n})"
      using insert_links [OF i big, of slot r ?h] by blast
    define H' where "H' = H\<lparr> links := d, records := ?n + 1, blength := (if ?n + 1 = blength H then blength H + blength H else blength H) \<rparr>"
    have st: "same_table H H'" unfolding H'_def by (rule same_tableI)
    have ins: "my_hash_insert H mem r new_slot = Some (False, H')"
      by (simp only: my_hash_insert_def Let_def rec_hashnr_def [symmetric] f(1) slot bind.simps option.case simp_thms if_False
          sd(1,2) H'_def)
    have "table_mask H' = (\<lambda>h. my_hash_mask h (blength H) (?n + 1))"
      using mask_double [OF hash_invD(2) [OF i]] by (auto simp: H'_def)
    then have "hash_inv H' mem \<and> contents H' = add_mset r (contents H)"
      using sd(3,4,5) contents_bag [OF i] hash_invD(5) [OF i] size_ok_grow [of "blength H" ?n] i same_table_fields(6) [OF st]
      by (intro inv_from_bag) (simp_all add: H'_def hash_inv_def)
    then show ?thesis using ins st slot f(2) by auto
  qed
qed

end
