(* ===== verification/Mdb_Hash_Delete.thy ===== *)
theory Mdb_Hash_Delete
  imports Mdb_Hash_Insert
begin

text \<open>
  Deletion from the hash table: the record is unlinked, the record of the last slot moves into the
  free slot, and the bucket of the last slot is merged with the one it was split from.
\<close>

subsection \<open>Merging the last bucket\<close>

text \<open>The assignment with one slot less: the bucket \<^verbatim>\<open>n\<close> becomes part of the bucket \<^verbatim>\<open>f\<close>.\<close>

definition merges :: "(u32 \<Rightarrow> nat) \<Rightarrow> (u32 \<Rightarrow> nat) \<Rightarrow> nat \<Rightarrow> nat \<Rightarrow> bool" where
  "merges m' m n f \<longleftrightarrow> f \<noteq> n \<and> (\<forall>h. m h = (if m' h = n then f else m' h))"

lemma merges_home:
  assumes "merges m' m n f"
  shows "home m d p = (if home m' d p = n then f else home m' d p)" "f \<noteq> n" "home m d p \<noteq> n"
  using assms by (auto simp: merges_def home_def)

lemma chains_free: "hash_chains m d S \<Longrightarrow> e \<notin> S \<Longrightarrow> hash_chains m (d[e := y]) S"
proof -
  assume a: "hash_chains m d S" "e \<notin> S"
  have "d[e := y] ! p = d ! p" if "p \<in> S" for p using that a(2) by (metis nth_list_update_neq)
  then show ?thesis using chains_same [OF a(1), of "d[e := y]"] chainsD(1,2) [OF a(1)] by (simp add: home_def)
qed

text \<open>Nothing is in the last bucket.\<close>

lemma merge_empty:
  assumes ch: "hash_chains m' d S" and mg: "merges m' m n f" and n: "n \<notin> S"
  shows "hash_chains m d S"
proof (rule chains_change [OF ch, where B = "{}"])
  have "home m' d p \<noteq> n" if "p \<in> S" for p using free_slot_bucket [OF ch that] n by blast
  then show "p \<in> S \<and> d ! p = d ! p \<and> home m d p = home m' d p" if "p \<in> S" "home m' d p \<notin> {}" for p
    using merges_home(1) [OF mg, of d p] that by simp
  then show "p \<in> S \<and> home m' d p = home m d p" if "p \<in> S" "home m d p \<notin> {}" for p using that by simp
qed (use chainsD(1) [OF ch] in auto)

text \<open>
  Two buckets made one. \<^verbatim>\<open>U\<close> are the occupied slots of the two buckets, \<^verbatim>\<open>n\<close> moves to the free slot \<^verbatim>\<open>e\<close>.
\<close>

lemma merge_two:
  assumes ch: "hash_chains m' d S" and mg: "merges m' m n f" and n: "n \<in> S" "home m' d n = n" and e: "e \<notin> S" "e < length d"
    and len: "length d' = length d" and de: "cont (d' ! e) = cont (d ! n)" and ps: "distinct ps" "hd ps = f" "ps \<noteq> []" "chain_linked d' ps"
    and set: "set ps = insert e ({p \<in> S. home m' d p \<in> {f, n}} - {n})"
    and cont: "\<And>p. p \<in> S - {n} \<Longrightarrow> cont (d' ! p) = cont (d ! p)"
    and keep: "\<And>p. p \<in> S \<Longrightarrow> home m' d p \<notin> {f, n} \<Longrightarrow> d' ! p = d ! p"
  shows "hash_chains m d' (insert e (S - {n}))" "bag d' (insert e (S - {n})) = bag d S"
proof -
  let ?S = "insert e (S - {n})"
  have en: "e \<noteq> n" using e(1) n(1) by auto
  have fn: "f \<noteq> n" by (rule merges_home(2) [OF mg])
  have he: "home m d' e = f" using home_cont [OF de, of m] merges_home(1) [OF mg, of d n] n(2) by simp
  have hp: "home m d' p = (if home m' d p = n then f else home m' d p)" if "p \<in> S - {n}" for p
    using home_cont [OF cont [OF that], of m] merges_home(1) [OF mg, of d p] by simp
  show "hash_chains m d' ?S"
  proof (rule chains_change [OF ch _ len, where B = "{f, n}"])
    show "?S \<subseteq> {..<length d'}" using chainsD(1) [OF ch] e(2) len by auto
    show "\<exists>ps. bucket m d' ?S h ps" if "h \<in> {f, n}" for h
    proof (cases "h = f")
      case True
      have "p \<in> set ps \<longleftrightarrow> p \<in> ?S \<and> home m d' p = f" for p
        using hp [of p] he fn e(1) unfolding set by (cases "p = e") auto
      then have "bucket m d' ?S f ps" using ps by (auto simp: bucket_def)
      then show ?thesis using True by blast
    next
      case False
      then have "bucket m d' ?S h []" using that merges_home(3) [OF mg, of d'] by (simp add: bucket_def)
      then show ?thesis by blast
    qed
    show "p \<in> ?S \<and> d' ! p = d ! p \<and> home m d' p = home m' d p" if "p \<in> S" "home m' d p \<notin> {f, n}" for p
      using keep [OF that] hp [of p] that n(2) by auto
    show "p \<in> S \<and> home m' d p = home m d' p" if "p \<in> ?S" "home m d' p \<notin> {f, n}" for p
      using hp [of p] he that by (cases "p = e") (auto split: if_splits)
  qed
  show "bag d' ?S = bag d S" by (rule bag_moved [OF chains_finite [OF ch] n(1) e(1) cont de])
qed

text \<open>The chain of the last bucket starts in another slot.\<close>

lemma rename_head:
  assumes ch: "hash_chains m' d S" and mg: "merges m' m n f" and n: "n \<in> S" "home m' d n = n"
    and f: "f \<notin> S" "f < length d" "d ! f = d ! n"
  shows "hash_chains m d (insert f (S - {n}))" "bag d (insert f (S - {n})) = bag d S"
proof -
  obtain ps where b: "bucket m' d S n ps" using chainsD(3) [OF ch] by blast
  have "n \<in> set ps" using bucket_mem [OF b] n by simp
  then obtain us where ps: "ps = n # us" using bucketD(4) [OF b] by (cases ps) auto
  have us: "distinct us" "f \<notin> set us" "chain_linked d (f # us)"
    using bucketD(1,3) [OF b] bucket_mem [OF b, of f] f by (auto simp: ps) (cases us; simp)
  have "home m' d p \<noteq> f" if "p \<in> S" for p using free_slot_bucket [OF ch that] f(1) by blast
  then have "insert f ({p \<in> S. home m' d p \<in> {f, n}} - {n}) = insert f ({p \<in> S. home m' d p = n} - {n})" by blast
  also have "\<dots> = set (f # us)" using bucketD(1,2) [OF b] by (auto simp: ps)
  finally have set: "set (f # us) = insert f ({p \<in> S. home m' d p \<in> {f, n}} - {n})" ..
  show "hash_chains m d (insert f (S - {n}))" "bag d (insert f (S - {n})) = bag d S"
    by (rule merge_two [OF ch mg n f(1,2) refl _ _ _ _ us(3) set]; use us f in simp)+
qed

text \<open>
  The chain \<^verbatim>\<open>n # us\<close>, moved to the free slot \<^verbatim>\<open>e\<close>, is put between \<^verbatim>\<open>f\<close> and the rest \<^verbatim>\<open>ws\<close> of the chain of \<^verbatim>\<open>f\<close>; so far
  it ends with the link \<^verbatim>\<open>seek\<close>.
\<close>

lemma splice:
  assumes dist: "distinct (n # us @ f # ws)" "e \<notin> set (n # us @ f # ws)" and len: "set (e # us @ [f]) \<subseteq> {..<length d}"
    and il: "inner_links d (n # us)" "link_next (d ! last (n # us)) = seek" "seek \<notin> set (e # us)" and fw: "chain_linked d (f # ws)"
  shows "\<exists>d'. Option.bind (movelink (d[e := d ! n]) seek e (link_next (d ! f))) (\<lambda>d2. Some (d2[f := (d2 ! f)\<lparr> link_next := e \<rparr>])) = Some d' \<and>
    length d' = length d \<and> chain_linked d' (f # e # us @ ws) \<and> cont (d' ! e) = cont (d ! n) \<and>
    (\<forall>p. p \<noteq> e \<longrightarrow> cont (d' ! p) = cont (d ! p)) \<and> (\<forall>p. p \<notin> set (e # f # us) \<longrightarrow> d' ! p = d ! p)"
proof -
  let ?l = "last (e # us)"
  define d1 where "d1 = d[e := d ! n]"
  define d2 where "d2 = d1[?l := (d1 ! ?l)\<lparr> link_next := link_next (d ! f) \<rparr>]"
  define d' where "d' = d2[f := (d2 ! f)\<lparr> link_next := e \<rparr>]"
  have ne: "e \<noteq> n" "e \<notin> set us" "e \<noteq> f" "e \<notin> set ws" "f \<notin> set us" "f \<notin> set ws" "distinct us" "distinct ws" "set us \<inter> set ws = {}"
    "?l \<in> set (e # us)" "f \<noteq> ?l" "e < length d" "f < length d" "?l < length d"
    using dist len last_in_set [of "e # us"] by auto
  have d1: "d1 ! e = d ! n" "\<And>p. p \<noteq> e \<Longrightarrow> d1 ! p = d ! p" "length d1 = length d" using ne by (simp_all add: d1_def)
  have u1: "link_next (d1 ! p) = link_next (d ! p)" if "p \<in> set us" for p using that ne(2) d1(2) by metis
  have il1: "inner_links d1 (e # us)" "link_next (d1 ! ?l) = seek"
  proof -
    have "inner_links d1 us = inner_links d us" by (rule inner_links_cong) (use u1 in_set_butlastD in fast)
    then show "inner_links d1 (e # us)" using il(1) d1(1) by (cases us) simp_all
    show "link_next (d1 ! ?l) = seek" using il(2) d1(1) u1 by (cases "us = []") simp_all
  qed
  have mv: "movelink d1 seek e (link_next (d ! f)) = Some d2"
    using movelink_eq [of "e # us" d1 seek "link_next (d ! f)"] il1 il(3) by (simp add: d2_def)
  have d2: "d2 ! ?l = (d1 ! ?l)\<lparr> link_next := link_next (d ! f) \<rparr>" "\<And>p. p \<noteq> ?l \<Longrightarrow> d2 ! p = d1 ! p"
    using ne d1(3) by (simp_all add: d2_def)
  have d': "d' ! f = (d2 ! f)\<lparr> link_next := e \<rparr>" "\<And>p. p \<noteq> f \<Longrightarrow> d' ! p = d2 ! p"
    using ne d1(3) by (simp_all add: d'_def d2_def)
  have cont: "cont (d' ! p) = cont (d1 ! p)" for p
  proof -
    have "cont (d' ! p) = cont (d2 ! p)" using d' by (cases "p = f") (simp_all add: cont_def)
    also have "\<dots> = cont (d1 ! p)" using d2 by (cases "p = ?l") (simp_all add: cont_def del: last.simps)
    finally show ?thesis .
  qed
  have "inner_links d' (e # us)"
  proof -
    have "link_next (d' ! p) = link_next (d1 ! p)" if "p \<in> set (butlast (e # us))" for p
    proof -
      have "p \<noteq> ?l" by (rule last_not_butlast [OF _ that]) (use ne in simp)
      moreover have "p \<noteq> f" using in_set_butlastD [OF that] ne by auto
      ultimately show ?thesis using d2(2) d'(2) by simp
    qed
    then show ?thesis using inner_links_cong il1(1) by blast
  qed
  moreover have "link_next (d' ! ?l) = link_next (d ! f)" using d2(1) d'(2) ne(11) by (metis HASH_LINK.select_convs(1) HASH_LINK.surjective HASH_LINK.update_convs(1))
  moreover have "chain_linked d' ws = chain_linked d ws"
  proof (rule chain_linked_cong)
    fix p assume p: "p \<in> set ws"
    then have "p \<noteq> f" "p \<noteq> e" "p \<noteq> ?l" using ne by auto
    then show "link_next (d' ! p) = link_next (d ! p)" using d' d2 d1 by simp
  qed
  ultimately have "chain_linked d' ((e # us) @ ws)"
    using fw chain_cut [of "e # us" ws d'] chain_end [of "e # us" d'] by (cases ws) simp_all
  then have "chain_linked d' (f # e # us @ ws)" using d'(1) by simp
  moreover have "d' ! p = d ! p" if "p \<notin> set (e # f # us)" for p
  proof -
    have "p \<noteq> f" "p \<noteq> e" "p \<noteq> ?l" using that ne(10) by auto
    then show ?thesis using d' d2 d1 by simp
  qed
  moreover have "cont (d' ! p) = cont (d ! p)" if "p \<noteq> e" for p using cont [of p] d1(2) [OF that] by simp
  ultimately show ?thesis using mv cont [of e] d1 by (intro exI [of _ d']) (simp add: d1_def [symmetric] d'_def d2_def)
qed

lemma merge_splice:
  assumes ch: "hash_chains m' d S" and mg: "merges m' m n f" and n: "n \<in> S" "home m' d n = n" and e: "e \<notin> S" "e < length d"
    and dist: "distinct (n # us @ f # ws)" and U: "set (n # us @ f # ws) = {p \<in> S. home m' d p \<in> {f, n}}"
    and il: "inner_links d (n # us)" "link_next (d ! last (n # us)) = seek" "seek \<notin> set (e # us)" and fw: "chain_linked d (f # ws)"
  shows "\<exists>d'. Option.bind (movelink (d[e := d ! n]) seek e (link_next (d ! f))) (\<lambda>d2. Some (d2[f := (d2 ! f)\<lparr> link_next := e \<rparr>])) = Some d' \<and>
    hash_chains m d' (insert e (S - {n})) \<and> length d' = length d \<and> bag d' (insert e (S - {n})) = bag d S"
proof -
  have sub: "set (n # us @ f # ws) \<subseteq> S" unfolding U by blast
  then have 1: "e \<notin> set (n # us @ f # ws)" "set (e # us @ [f]) \<subseteq> {..<length d}"
    using e chainsD(1) [OF ch] by (blast, auto)
  obtain d' where d': "Option.bind (movelink (d[e := d ! n]) seek e (link_next (d ! f))) (\<lambda>d2. Some (d2[f := (d2 ! f)\<lparr> link_next := e \<rparr>])) = Some d'"
      "length d' = length d" "chain_linked d' (f # e # us @ ws)" "cont (d' ! e) = cont (d ! n)"
      "\<forall>p. p \<noteq> e \<longrightarrow> cont (d' ! p) = cont (d ! p)" "\<forall>p. p \<notin> set (e # f # us) \<longrightarrow> d' ! p = d ! p"
    using splice [OF dist 1 il fw] by blast
  have "distinct (f # e # us @ ws)" using dist 1(1) by auto
  moreover have "set (f # e # us @ ws) = insert e ({p \<in> S. home m' d p \<in> {f, n}} - {n})"
    unfolding U [symmetric] using dist by auto
  moreover have "cont (d' ! p) = cont (d ! p)" if "p \<in> S - {n}" for p using d'(5) that e(1) by (metis DiffD1)
  moreover have "d' ! p = d ! p" if "p \<in> S" "home m' d p \<notin> {f, n}" for p
  proof -
    have "p \<notin> set (n # us @ f # ws)" unfolding U using that by blast
    then have "p \<notin> set (e # f # us)" using that(1) e(1) by auto
    then show ?thesis using d'(6) by blast
  qed
  ultimately have "hash_chains m d' (insert e (S - {n})) \<and> bag d' (insert e (S - {n})) = bag d S"
    using merge_two [OF ch mg n e d'(2,4) _ _ _ d'(3)] by simp
  then show ?thesis using d'(1,2) by blast
qed

subsection \<open>Moving the record of the last slot\<close>

definition move_last_by :: "(u32 \<Rightarrow> nat) \<Rightarrow> (u32 \<Rightarrow> nat) \<Rightarrow> HASH_LINK list \<Rightarrow> nat \<Rightarrow> nat \<Rightarrow> HASH_LINK list option" where
  "move_last_by m' m d e n =
     (if e = n then Some d
      else if home m d n = e then Some (d[e := d ! n])
      else
        (let x = home m d n in
         if x \<noteq> home m d x then movelink (d[e := d ! x, x := d ! n]) x (home m d x) e
         else if home m' d n = home m' d x \<and> home m' d n \<noteq> n then movelink (d[e := d ! n]) n x e
         else Option.bind (movelink (d[e := d ! n]) (if home m' d n = home m' d x then x else NO_RECORD) e (link_next (d ! x)))
                (\<lambda>d2. Some (d2[x := (d2 ! x)\<lparr> link_next := e \<rparr>]))))"

lemma move_last_eq:
  "move_last d e old_blen blen n = move_last_by (\<lambda>h. my_hash_mask h old_blen (n + 1)) (\<lambda>h. my_hash_mask h blen n) d e n"
  by (simp add: move_last_def move_last_by_def home_def Let_def)

lemma move_last_ok:
  assumes ch: "hash_chains m' d ({..n} - {e})" and e: "e \<le> n" and len: "length d = Suc n"
    and mg: "merges m' m n f" and f: "f < n"
  shows "\<exists>d'. move_last_by m' m d e n = Some d' \<and> hash_chains m d' {..<n} \<and> length d' = Suc n \<and> bag d' {..<n} = bag d ({..n} - {e})"
proof (cases "e = n")
  case True
  moreover have "{..n} - {n} = {..<n}" by auto
  ultimately show ?thesis using merge_empty [OF ch mg] len by (simp add: move_last_by_def)
next
  case False
  let ?S = "{..n} - {e}" and ?x = "home m d n"
  have S: "n \<in> ?S" "e \<notin> ?S" "e < length d" "insert e (?S - {n}) = {..<n}" using False e len by auto
  have hm: "home m d p = (if home m' d p = n then f else home m' d p)" for p by (rule merges_home(1) [OF mg])
  show ?thesis
  proof (cases "home m' d n = n")
    case ne: False
    let ?g = "home m' d n"
    have x: "?x = ?g" using hm [of n] ne by simp
    have g: "?g \<in> ?S" "home m' d ?g = ?g" using chain_head [OF ch S(1)] by blast+
    have gx: "home m d ?g = ?g" using hm [of ?g] g(2) ne by simp
    obtain d' where d': "movelink (d[e := d ! n, n := d ! n]) n ?g e = Some d'" "hash_chains m' d' (insert e (?S - {n}))"
        "length d' = length d" "bag d' (insert e (?S - {n})) = bag d ?S"
      by (rule relocate [OF ch S(1) refl ne S(2,3), of "d ! n"]) auto
    have upd: "d[e := d ! n, n := d ! n] = d[e := d ! n]" using list_update_id [of "d[e := d ! n]" n] False by simp
    have "move_last_by m' m d e n = Some d'"
      using d'(1) False g gx ne by (simp add: move_last_by_def x upd Let_def)
    moreover have "hash_chains m d' {..<n}" using merge_empty [OF d'(2) mg] False S(4) by simp
    ultimately show ?thesis using d'(3,4) len S(4) by simp
  next
    case hn: True
    have x: "?x = f" using hm [of n] hn by simp
    have fn: "f \<noteq> n" using f by simp
    consider (a) "f = e" | (b) "f \<noteq> e" "home m d f \<noteq> f" | (c) "f \<noteq> e" "home m d f = f" "home m' d f = n"
      | (d) "f \<noteq> e" "home m d f = f" "home m' d f = f" using hm [of f] by (auto split: if_splits)
    then show ?thesis
    proof cases
      case a
      let ?d = "d[e := d ! n]"
      have c1: "hash_chains m' ?d ?S" by (rule chains_free [OF ch S(2)])
      have hd: "home m' ?d n = n" "?d ! f = ?d ! n" "f \<notin> ?S" "f < length ?d" using hn False S(3) a by (simp_all add: home_def)
      have "bag ?d ?S = bag d ?S" by (rule bag_cong) simp
      then show ?thesis using rename_head [OF c1 mg S(1) hd(1,3,4,2)] False x S(4) len a by (simp add: move_last_by_def)
    next
      case b
      let ?g = "home m d f"
      have fS: "f \<in> ?S" using b f by simp
      have hf: "home m' d f = ?g" "?g \<noteq> n" using hm [of f] b by (auto split: if_splits)
      obtain d' where d': "movelink (d[e := d ! f, f := d ! n]) f ?g e = Some d'" "hash_chains m' d' (insert e (?S - {f}))"
          "length d' = length d" "d' ! f = d ! n" "d' ! n = d ! n" "bag d' (insert e (?S - {f})) = bag d ?S"
        by (rule relocate [OF ch fS hf(1) b(2) S(2,3), of "d ! n"]) (use S(1) hn hf fn in auto)
      let ?T = "insert e (?S - {f})"
      have T: "n \<in> ?T" "f \<notin> ?T" "f < length d'" "insert f (?T - {n}) = {..<n}" using b f fn S e d'(3) len False by auto
      have "home m' d' n = n" using hn d'(5) by (simp add: home_def)
      then have "hash_chains m d' {..<n}" "bag d' {..<n} = bag d ?S"
        using rename_head [OF d'(2) mg T(1) _ T(2,3)] d' T(4) by simp_all
      moreover have "move_last_by m' m d e n = Some d'" using d'(1) False b by (simp add: move_last_by_def x Let_def)
      ultimately show ?thesis using d'(3) len by simp
    next
      case c
      obtain ps where b: "bucket m' d ?S n ps" using chainsD(3) [OF ch] by blast
      have "n \<in> set ps" "f \<in> set ps" using bucket_mem [OF b] S(1) hn c f by simp_all
      then obtain us vs where ps: "ps = n # us @ f # vs" using bucketD(4) [OF b] fn by (cases ps) (auto dest: split_list)
      have cut: "inner_links d (n # us)" "link_next (d ! last (n # us)) = f" "chain_linked d (f # vs)"
        using bucketD(3) [OF b] chain_cut [of "n # us" "f # vs" d] by (simp_all add: ps)
      have "home m' d p \<noteq> f" if "p \<in> ?S" for p using free_slot_bucket [OF ch that] c(3) fn by simp
      then have "{p \<in> ?S. home m' d p \<in> {f, n}} = {p \<in> ?S. home m' d p = n}" by blast
      then have U: "set (n # us @ f # vs) = {p \<in> ?S. home m' d p \<in> {f, n}}" using bucketD(2) [OF b] by (simp add: ps)
      have dist: "distinct (n # us @ f # vs)" "f \<notin> set (e # us)" using bucketD(1) [OF b] c(1) by (auto simp: ps)
      show ?thesis
        using merge_splice [OF ch mg S(1) hn S(2,3) dist(1) U cut(1,2) dist(2) cut(3)] False c hn fn S(4) len
        by (simp add: move_last_by_def x Let_def)
    next
      case d
      obtain ps qs where b: "bucket m' d ?S n ps" "bucket m' d ?S f qs" using chainsD(3) [OF ch] by blast
      have "n \<in> set ps" "f \<in> set qs" using bucket_mem [OF b(1)] bucket_mem [OF b(2)] S(1) hn d f by simp_all
      then obtain us ws where ps: "ps = n # us" "qs = f # ws"
        using bucketD(4) [OF b(1)] bucketD(4) [OF b(2)] by (cases ps; cases qs) auto
      have cut: "inner_links d (n # us)" "link_next (d ! last (n # us)) = NO_RECORD" "chain_linked d (f # ws)"
        using bucketD(3) [OF b(1)] bucketD(3) [OF b(2)] chain_end [of "n # us" d] by (simp_all add: ps)
      have U: "set (n # us @ f # ws) = {p \<in> ?S. home m' d p \<in> {f, n}}"
        using bucketD(2) [OF b(1)] bucketD(2) [OF b(2)] by (auto simp: ps)
      have disj: "set ps \<inter> set qs = {}" unfolding bucketD(2) [OF b(1)] bucketD(2) [OF b(2)] using fn by auto
      then have dist: "distinct (n # us @ f # ws)" using bucketD(1) [OF b(1)] bucketD(1) [OF b(2)] by (auto simp: ps)
      have nr: "NO_RECORD \<notin> set (e # us)"
      proof -
        have "NO_RECORD \<notin> ?S" using not_NO_RECORD [OF ch] by blast
        then show ?thesis using bucket_mem [OF b(1), of NO_RECORD] chainsD(2) [OF ch] S(3) by (auto simp: ps)
      qed
      show ?thesis
        using merge_splice [OF ch mg S(1) hn S(2,3) dist U cut(1,2) nr cut(3)] False d hn fn S(4) len
        by (simp add: move_last_by_def x Let_def)
    qed
  qed
qed

subsection \<open>Finding the record\<close>

lemma contents_slot:
  "hash_inv H mem \<Longrightarrow> r \<in># contents H \<longleftrightarrow> (\<exists>p<records H. link_data (links H ! p) = r)"
  using hash_invD(1) [of H mem] by (auto simp: contents_def in_set_conv_nth image_iff) (metis nth_mem)

text \<open>The search starts in the slot for the hash number \<^verbatim>\<open>h\<close> that the record is stored with.\<close>

lemma find_ok:
  assumes i: "hash_inv H mem" and h: "\<And>p. p < records H \<Longrightarrow> link_data (links H ! p) = r \<Longrightarrow> hash_nr (links H ! p) = h" and n: "0 < records H"
  shows "(\<exists>us p vs. bucket (table_mask H) (links H) {..<records H} (table_mask H h) (us @ p # vs) \<and> link_data (links H ! p) = r \<and>
      find_loop (links H) r (table_mask H h) None = Some (Some (p, if us = [] then None else Some (last us)))) \<or>
    r \<notin># contents H \<and> find_loop (links H) r (table_mask H h) None = Some None"
proof -
  let ?m = "table_mask H" and ?d = "links H" and ?S = "{..<records H}" and ?x = "table_mask H h"
  note ch = hash_invD(6) [OF i]
  have x: "?x \<in> ?S" using mask_less [OF hash_invD(2,3) [OF i] n] by simp
  have nr: "NO_RECORD \<notin> ?S" using not_NO_RECORD [OF ch] by blast
  obtain us vs where b: "bucket ?m ?d ?S (home ?m ?d ?x) (us @ ?x # vs)" by (rule slot_in_chain [OF ch x])
  have sub: "set (us @ ?x # vs) \<subseteq> ?S" by (rule chain_rest(2) [OF ch b])
  have at: "home ?m ?d p = ?x" if "p < records H" "link_data (?d ! p) = r" for p using h [OF that] by (simp add: home_def)
  have hd: "us = []" if "home ?m ?d ?x = ?x"
    using bucketD(4) [OF b] bucketD(1) [OF b] that by (cases us) auto
  have lp: "(\<exists>ws p zs. ?x # vs = ws @ p # zs \<and> link_data (?d ! p) = r \<and> (\<forall>q\<in>set ws. link_data (?d ! q) \<noteq> r) \<and>
      find_loop ?d r (hd (?x # vs)) None = Some (Some (p, if ws = [] then None else Some (last ws)))) \<or>
    (\<forall>q\<in>set (?x # vs). link_data (?d ! q) \<noteq> r) \<and> find_loop ?d r (hd (?x # vs)) None = Some None"
    by (rule find_loop_chain [OF chain_rest(1) [OF ch b]]) (use nr sub in auto)
  then consider ws p zs where "?x # vs = ws @ p # zs" "link_data (?d ! p) = r"
      "find_loop ?d r ?x None = Some (Some (p, if ws = [] then None else Some (last ws)))"
    | "\<forall>q\<in>set (?x # vs). link_data (?d ! q) \<noteq> r" "find_loop ?d r ?x None = Some None" by auto
  then show ?thesis
  proof cases
    case 1
    have "p \<in> set (us @ ?x # vs)" unfolding 1(1) by simp
    then have "home ?m ?d p = home ?m ?d ?x" "p < records H" using bucket_mem [OF b, of p] by simp_all
    then have "home ?m ?d ?x = ?x" using at 1(2) by simp
    then have "bucket ?m ?d ?S ?x (ws @ p # zs)" using b hd 1(1) by simp
    then show ?thesis using 1(2,3) by blast
  next
    case 2
    have "link_data (?d ! p) \<noteq> r" if p: "p < records H" for p
    proof
      assume r: "link_data (?d ! p) = r"
      then have "home ?m ?d ?x = ?x" using chain_head [OF ch _ at [OF p r]] p by simp
      then have "p \<in> set (?x # vs)" using bucket_mem [OF b, of p] at [OF p r] hd p by simp
      then show False using 2(1) r by blast
    qed
    then show ?thesis using 2(2) contents_slot [OF i, of r] by blast
  qed
qed


subsection \<open>The whole operation\<close>

lemma shrink:
  assumes "size_ok blen (n + 1)"
  defines "b \<equiv> if n < blen div 2 then blen div 2 else blen"
  shows "size_ok b n" "my_hash_mask h blen (n + 1) = my_hash_mask h b (n + 1)"
proof -
  obtain k where k: "blen = 2 ^ k" "blen div 2 \<le> n + 1" "n + 1 < blen" using assms(1) by (auto simp: size_ok_def)
  then obtain j where j: "blen = 2 * 2 ^ j" by (cases k) auto
  show "size_ok b n"
  proof (cases "n < blen div 2")
    case True
    then have "2 ^ j = n + 1" using k(2) j by simp
    then show ?thesis using True j by (auto simp: size_ok_def b_def intro: sym)
  qed (use k in \<open>auto simp: size_ok_def b_def\<close>)
  show "my_hash_mask h blen (n + 1) = my_hash_mask h b (n + 1)"
  proof (cases "n < blen div 2")
    case True
    then have "n + 1 = 2 ^ j" "b = 2 ^ j" "blen = 2 ^ j + 2 ^ j" using k(2) j by (auto simp: b_def)
    then show ?thesis using mask_double [of "2 ^ j" h] by auto
  qed (simp add: b_def)
qed

lemma mask_merges:
  assumes "size_ok blen n" "0 < n"
  shows "merges (\<lambda>h. my_hash_mask h blen (n + 1)) (\<lambda>h. my_hash_mask h blen n) n (n - blen div 2)" "n - blen div 2 < n"
proof -
  have s: "\<exists>k. blen = 2 ^ k" "blen div 2 \<le> n" "n < blen" using assms(1) by (auto simp: size_ok_def)
  then show "n - blen div 2 < n" using assms(2) by simp
  then show "merges (\<lambda>h. my_hash_mask h blen (n + 1)) (\<lambda>h. my_hash_mask h blen n) n (n - blen div 2)"
    using mask_merge [OF s assms(2)] by (auto simp: merges_def)
qed

text \<open>The array after the record at \<^verbatim>\<open>p\<close> is unlinked and the last slot is given up.\<close>

lemma delete_links:
  assumes i: "hash_inv H mem" and b: "bucket (table_mask H) (links H) {..<records H} h (us @ p # vs)"
    and n: "records H = n + 1" and blen: "blen = (if n < blength H div 2 then blength H div 2 else blength H)"
    and u: "unlink_record (links H) p (if us = [] then None else Some (last us)) = (d, e)"
  shows "\<exists>d'. move_last d e (blength H) blen n = Some d' \<and> size_ok blen n \<and> hash_chains (\<lambda>h. my_hash_mask h blen n) (butlast d') {..<n} \<and>
    length d' = n + 1 \<and> add_mset (cont (links H ! p)) (bag (butlast d') {..<n}) = bag (links H) {..<records H}"
proof -
  note ch = hash_invD(6) [OF i] and U = unlink_record_ok [OF hash_invD(6) [OF i] b u]
  have so: "size_ok (blength H) (n + 1)" using i n by (simp add: hash_inv_def)
  note sh = shrink [OF so, folded blen]
  have S: "{..<records H} - {e} = {..n} - {e}" "e \<le> n" using n U(1) by auto
  have len: "length d = Suc n" using U(3) hash_invD(1) [OF i] n by simp
  have "\<exists>d'. move_last d e (blength H) blen n = Some d' \<and> hash_chains (\<lambda>h. my_hash_mask h blen n) d' {..<n} \<and> length d' = Suc n \<and>
      bag d' {..<n} = bag d ({..n} - {e})"
  proof (cases "n = 0")
    case True
    then show ?thesis using S(2) len chainsD(2) [OF U(2)] by (auto simp: move_last_def bag_def intro!: hash_chains_empty)
  next
    case False
    have "hash_chains (\<lambda>h. my_hash_mask h (blength H) (n + 1)) d ({..n} - {e})" using U(2) unfolding S(1) unfolding n .
    moreover have "merges (\<lambda>h. my_hash_mask h (blength H) (n + 1)) (\<lambda>h. my_hash_mask h blen n) n (n - blen div 2)" "n - blen div 2 < n"
      using mask_merges [OF sh(1)] False unfolding sh(2) by simp_all
    ultimately show ?thesis unfolding move_last_eq using move_last_ok S(2) len by blast
  qed
  then obtain d' where d': "move_last d e (blength H) blen n = Some d'" "hash_chains (\<lambda>h. my_hash_mask h blen n) d' {..<n}"
      "length d' = Suc n" "bag d' {..<n} = bag d ({..n} - {e})" by blast
  have low: "butlast d' ! q = d' ! q" if "q < n" for q using that d'(3) by (simp add: nth_butlast)
  have "hash_chains (\<lambda>h. my_hash_mask h blen n) (butlast d') {..<n}"
    by (rule chains_same [OF d'(2)]) (use d'(3) chainsD(2) [OF d'(2)] low in \<open>auto simp: home_def\<close>)
  moreover have "bag (butlast d') {..<n} = bag d' {..<n}" by (rule bag_cong) (simp add: low)
  ultimately show ?thesis using d' sh(1) U(4) S(1) n by simp
qed

lemma delete_ok:
  assumes i: "hash_inv H mem"
  shows "if r \<in># contents H
    then \<exists>H'. my_hash_delete H mem r = Some (False, if has_free H then [r] else [], H') \<and> hash_inv H' mem \<and> same_table H H' \<and>
      contents H' = contents H - {#r#}
    else my_hash_delete H mem r = Some (True, [], H)"
proof (cases "records H = 0")
  case True
  then have "contents H = {#}" using hash_invD(1) [OF i] by (simp add: contents_def)
  then show ?thesis using True by (simp add: my_hash_delete_def)
next
  case False
  let ?h = "rec_hashnr H mem r"
  have h: "hash_nr (links H ! p) = ?h" if "p < records H" "link_data (links H ! p) = r" for p using hash_invD(7) [OF i that(1)] that(2) by simp
  consider us p vs where "bucket (table_mask H) (links H) {..<records H} (table_mask H ?h) (us @ p # vs)" "link_data (links H ! p) = r"
      "find_loop (links H) r (table_mask H ?h) None = Some (Some (p, if us = [] then None else Some (last us)))"
    | "r \<notin># contents H" "find_loop (links H) r (table_mask H ?h) None = Some None"
    using find_ok [OF i h] False by blast
  then show ?thesis
  proof cases
    case 1
    define n where "n = records H - 1"
    define blen where "blen = (if n < blength H div 2 then blength H div 2 else blength H)"
    have n: "records H = n + 1" using False by (simp add: n_def)
    have p: "p < records H" using bucket_mem [OF 1(1), of p] by simp
    obtain d e where u: "unlink_record (links H) p (if us = [] then None else Some (last us)) = (d, e)" by fastforce
    obtain d' where d': "move_last d e (blength H) blen n = Some d'" "size_ok blen n" "hash_chains (\<lambda>h. my_hash_mask h blen n) (butlast d') {..<n}"
        "length d' = n + 1" "add_mset (cont (links H ! p)) (bag (butlast d') {..<n}) = bag (links H) {..<records H}"
      using delete_links [OF i 1(1) n blen_def u] by blast
    define H' where "H' = H\<lparr> links := butlast d', records := n, blength := blen \<rparr>"
    have st: "same_table H H'" unfolding H'_def by (rule same_tableI)
    have c: "r \<in># contents H" using contents_slot [OF i] p 1(2) by blast
    have "cont (links H ! p) = (r, ?h)" using h [OF p 1(2)] 1(2) by (simp add: cont_def)
    then have "add_mset (r, ?h) (bag (butlast d') {..<n}) = image_mset (\<lambda>r. (r, rec_hashnr H mem r)) (add_mset r (contents H - {#r#}))"
      using d'(5) contents_bag [OF i] c by simp
    then have "bag (butlast d') {..<n} = image_mset (\<lambda>r. (r, rec_hashnr H mem r)) (contents H - {#r#})" by simp
    then have "hash_inv H' mem \<and> contents H' = contents H - {#r#}"
      using d'(2,3,4) hash_invD(5) [OF i] same_table_fields(6) [OF st] by (intro inv_from_bag) (simp_all add: H'_def)
    moreover have "my_hash_delete H mem r = Some (False, if has_free H then [r] else [], H')"
      unfolding my_hash_delete_def Let_def n_def [symmetric] blen_def [symmetric] 1(3) using False u d'(1) by (simp add: H'_def)
    ultimately show ?thesis using c st by simp
  next
    case 2
    then show ?thesis using False by (simp add: my_hash_delete_def)
  qed
qed

end
