(* ===== verification/Mdb_Hash_Update.thy ===== *)
theory Mdb_Hash_Update
  imports Mdb_Hash_Delete
begin

text \<open>
  Updating a key: the key of one record has changed in memory, and the record moves to the bucket of
  its new key.
\<close>

subsection \<open>The search for a duplicate\<close>

lemma other_loop_chain:
  assumes "chain_linked (links H) ps" "NO_RECORD \<notin> set ps" "key_arg H key (length key) = key"
  shows "other_loop H mem r key (first_hit H (hits H mem key ps)) =
    Some (\<exists>p\<in>set ps. hashcmp H mem (links H ! p) key = 0 \<and> link_data (links H ! p) \<noteq> r)"
  using assms
proof (induction ps)
  case (Cons p ps)
  have c: "link_next (links H ! p) = (if ps = [] then NO_RECORD else hd ps)" "chain_linked (links H) ps"
    using Cons.prems by (cases ps; simp)+
  have nx: "my_hash_next H mem key (length key) p = Some (first_hit H (hits H mem key ps))"
    using next_loop_chain [OF c(2), of mem key] Cons.prems(2,3) c(1) by (simp add: my_hash_next_def)
  have ih: "other_loop H mem r key (first_hit H (hits H mem key ps)) =
    Some (\<exists>p\<in>set ps. hashcmp H mem (links H ! p) key = 0 \<and> link_data (links H ! p) \<noteq> r)"
    using Cons.IH c(2) Cons.prems(2,3) by simp
  show ?case
  proof (cases "hashcmp H mem (links H ! p) key = 0")
    case True
    then have h: "first_hit H (hits H mem key (p # ps)) = Some (link_data (links H ! p), p)" by (simp add: hits_def first_hit_def)
    show ?thesis unfolding h using True nx ih by (subst other_loop.simps) simp
  next
    case False
    then show ?thesis using ih by (simp add: hits_def)
  qed
qed (simp add: hits_def first_hit_def other_loop.simps)

text \<open>
  The slots of all records but \<^verbatim>\<open>r\<close> have the hash numbers of their keys; \<^verbatim>\<open>r\<close> is still in the bucket of its old key.
\<close>

definition others_stored :: "HASH \<Rightarrow> memory \<Rightarrow> rec_id \<Rightarrow> bool" where
  "others_stored H mem r \<longleftrightarrow>
     (\<forall>p<records H. link_data (links H ! p) \<noteq> r \<longrightarrow> hash_nr (links H ! p) = rec_hashnr H mem (link_data (links H ! p)))"

lemma duplicate_search:
  assumes i: "hash_inv H mem0" and o: "others_stored H mem r" and hr: "hash_respects H"
  defines "key \<equiv> my_hash_key H mem r"
  shows "Option.bind (my_hash_first_from_hash_value H mem (hash_function H key) key (length key)) (\<lambda>found. other_loop H mem r key found) =
    Some (\<exists>r'\<in>#contents H. r' \<noteq> r \<and> key_in H mem r r')"
proof -
  let ?m = "table_mask H" and ?d = "links H" and ?S = "{..<records H}" and ?x = "table_mask H (hash_function H key)"
  note ch = hash_invD(6) [OF i]
  have k: "key_arg H key (length key) = key" unfolding key_def using key_arg_self hash_invD(5) [OF i] by blast
  have nr: "NO_RECORD \<notin> ?S" using not_NO_RECORD [OF ch] by blast
  have other: "home ?m ?d p = ?x" if "p < records H" "hashcmp H mem (?d ! p) key = 0" "link_data (?d ! p) \<noteq> r" for p
    using o that hr by (simp add: others_stored_def home_def hash_respects_def hashcmp_def rec_hashnr_def)
  have dup: "(\<exists>r'\<in>#contents H. r' \<noteq> r \<and> key_in H mem r r') \<longleftrightarrow>
      (\<exists>p<records H. hashcmp H mem (?d ! p) key = 0 \<and> link_data (?d ! p) \<noteq> r)"
  proof
    assume "\<exists>r'\<in>#contents H. r' \<noteq> r \<and> key_in H mem r r'"
    then obtain r' p where "p < records H" "link_data (?d ! p) = r'" "r' \<noteq> r" "key_in H mem r r'"
      using contents_slot [OF i] by blast
    then show "\<exists>p<records H. hashcmp H mem (?d ! p) key = 0 \<and> link_data (?d ! p) \<noteq> r"
      by (auto simp: key_in_def hashcmp_def key_def)
  next
    assume "\<exists>p<records H. hashcmp H mem (?d ! p) key = 0 \<and> link_data (?d ! p) \<noteq> r"
    then obtain p where "p < records H" "hashcmp H mem (?d ! p) key = 0" "link_data (?d ! p) \<noteq> r" by blast
    moreover from this have "link_data (?d ! p) \<in># contents H" using contents_slot [OF i] by blast
    ultimately show "\<exists>r'\<in>#contents H. r' \<noteq> r \<and> key_in H mem r r'" by (auto simp: key_in_def hashcmp_def key_def)
  qed
  show ?thesis
  proof (cases "records H = 0")
    case True
    then show ?thesis unfolding dup by (simp add: my_hash_first_from_hash_value_def other_loop.simps)
  next
    case False
    then have x: "?x \<in> ?S" using mask_less [OF hash_invD(2,3) [OF i]] by simp
    obtain us vs where b: "bucket ?m ?d ?S (home ?m ?d ?x) (us @ ?x # vs)" by (rule slot_in_chain [OF ch x])
    have c: "chain_linked ?d (?x # vs)" "set (?x # vs) \<subseteq> ?S" using chain_rest(1,2) [OF ch b] by auto
    have nv: "NO_RECORD \<notin> set (?x # vs)" using c(2) nr by blast
    have first: "my_hash_first_from_hash_value H mem (hash_function H key) key (length key) = search_loop H mem key ?x True"
      using False k by (simp add: my_hash_first_from_hash_value_def)
    show ?thesis
    proof (cases "home ?m ?d ?x = ?x")
      case True
      then have us: "us = []" using bucketD(4) [OF b] bucketD(1) [OF b] by (cases us) auto
      have "search_loop H mem key (hd (?x # vs)) True = Some (first_hit H (hits H mem key (?x # vs)))"
        by (rule search_loop_next [OF c(1) nv]) (use True in \<open>simp_all add: home_def my_hash_rec_mask_def\<close>)
      moreover have "(\<exists>p\<in>set (?x # vs). hashcmp H mem (?d ! p) key = 0 \<and> link_data (?d ! p) \<noteq> r) \<longleftrightarrow>
          (\<exists>p<records H. hashcmp H mem (?d ! p) key = 0 \<and> link_data (?d ! p) \<noteq> r)"
      proof -
        have "p \<in> set (?x # vs) \<longleftrightarrow> p < records H \<and> home ?m ?d p = ?x" for p using bucket_mem [OF b, of p] True us by simp
        then show ?thesis using other by blast
      qed
      ultimately show ?thesis unfolding dup first using other_loop_chain [OF c(1) nv k, of mem r] by simp
    next
      case e: False
      have none: "\<not> (\<exists>p<records H. hashcmp H mem (?d ! p) key = 0 \<and> link_data (?d ! p) \<noteq> r)"
        using other free_slot_bucket [OF ch] e by blast
      show ?thesis
      proof (cases "hashcmp H mem (?d ! ?x) key = 0")
        case True
        then have "search_loop H mem key ?x True = Some (first_hit H (hits H mem key (?x # vs)))"
          by (subst search_loop.simps) (simp add: hits_def first_hit_def)
        moreover have "\<not> (\<exists>p\<in>set (?x # vs). hashcmp H mem (?d ! p) key = 0 \<and> link_data (?d ! p) \<noteq> r)"
          using none c(2) by blast
        ultimately show ?thesis unfolding dup first using none other_loop_chain [OF c(1) nv k, of mem r] by auto
      next
        case False
        then have "search_loop H mem key ?x True = Some None"
          using e by (subst search_loop.simps) (simp add: home_def my_hash_rec_mask_def)
        then show ?thesis unfolding dup first using none by (simp add: other_loop.simps)
      qed
    qed
  qed
qed

subsection \<open>Linking the record into its new bucket\<close>

lemma unlink_slot:
  assumes ch: "hash_chains m d S" and b: "bucket m d S h (us @ p # vs)"
    and u: "unlink_record d p (if us = [] then None else Some (last us)) = (d', p)"
  shows "d' ! p = d ! p"
proof (cases "us = []")
  case True
  then show ?thesis using u not_NO_RECORD [OF ch] by (auto simp: unlink_record_def split: if_splits)
next
  case False
  have "last us \<noteq> p" using last_in_set [OF False] bucketD(1) [OF b] by auto
  then show ?thesis using u False by (auto simp: unlink_record_def)
qed

lemma link_update:
  "l\<lparr> link_next := a, hash_nr := h \<rparr> = \<lparr> link_next = a, hash_nr = h, link_data = link_data l \<rparr>" for l :: HASH_LINK
  by (cases l) simp

lemma relink_ok:
  assumes ch: "hash_chains m d ({..<n} - {e})" and e: "e < n" and len: "length d = n" and m: "m = (\<lambda>h. my_hash_mask h blen n)"
    and x: "m h < n" and org: "e = idx \<Longrightarrow> d ! idx = org"
  shows "\<exists>d'. relink d org idx e (m h) h blen n = Some d' \<and> hash_chains m d' {..<n} \<and> length d' = n \<and>
    bag d' {..<n} = add_mset (link_data org, h) (bag d ({..<n} - {e}))"
proof -
  let ?S = "{..<n} - {e}" and ?x = "m h"
  let ?l = "\<lparr> link_next = NO_RECORD, hash_nr = h, link_data = link_data org \<rparr>"
  have mx: "my_hash_rec_mask l blen n = m (hash_nr l)" for l by (simp add: m my_hash_rec_mask_def)
  have Se: "insert e {..<n} = {..<n}" using e by auto
  consider "?x = e" | "?x \<noteq> e" "home m d ?x \<noteq> ?x" | "?x \<noteq> e" "home m d ?x = ?x" by blast
  then show ?thesis
  proof cases
    case 1
    have "relink d org idx e ?x h blen n = Some (d[e := ?l])"
      using 1 org e len by (cases "e = idx") (simp_all add: relink_def Let_def link_update)
    moreover have "hash_chains m (d[e := ?l]) (insert e ?S)" "bag (d[e := ?l]) (insert e ?S) = add_mset (cont ?l) (bag d ?S)"
      by (rule add_single [OF ch]; use 1 e len in simp)+
    ultimately show ?thesis using len by (simp add: Se cont_def)
  next
    case 2
    let ?g = "home m d ?x"
    have xs: "?x \<in> ?S" "e \<notin> ?S" "e < length d" using 2 x e len by auto
    obtain d1 where d1: "movelink (d[e := d ! ?x, ?x := d ! ?x]) ?x ?g e = Some d1" "hash_chains m d1 (insert e (?S - {?x}))"
        "length d1 = length d" "bag d1 (insert e (?S - {?x})) = bag d ?S"
      by (rule relocate [OF ch xs(1) refl _ xs(2,3), of "d ! ?x"]) (use 2 in auto)
    have upd: "d[e := d ! ?x, ?x := d ! ?x] = d[e := d ! ?x]" using list_update_id [of "d[e := d ! ?x]" ?x] 2 by simp
    have "relink d org idx e ?x h blen n = Some (d1[?x := ?l])"
      using 2 d1(1) by (simp add: relink_def Let_def mx home_def upd link_update)
    moreover have "hash_chains m (d1[?x := ?l]) (insert ?x (insert e (?S - {?x})))"
      "bag (d1[?x := ?l]) (insert ?x (insert e (?S - {?x}))) = add_mset (cont ?l) (bag d1 (insert e (?S - {?x})))"
      by (rule add_single [OF d1(2)]; use 2 d1(3) x len in simp)+
    moreover have "insert ?x (insert e (?S - {?x})) = {..<n}" using e x by auto
    ultimately show ?thesis using len d1(3,4) by (simp add: cont_def)
  next
    case 3
    let ?a = "(d ! ?x)\<lparr> link_next := e \<rparr>" and ?b = "org\<lparr> link_next := link_next (d ! ?x), hash_nr := h \<rparr>"
    let ?d = "d[e := ?b, ?x := ?a]"
    have "relink d org idx e ?x h blen n = Some ?d" using 3 by (simp add: relink_def Let_def mx home_def)
    moreover have "hash_chains m ?d (insert e ?S)" "bag ?d (insert e ?S) + {#cont (d ! ?x)#} = bag d ?S + {#cont ?a, cont ?b#}"
      by (rule push [OF ch]; use 3 e len x in \<open>simp add: home_def\<close>)+
    ultimately show ?thesis using len by (simp add: Se cont_def)
  qed
qed


subsection \<open>The whole operation\<close>

lemma mem_hash: "mem r' = mem0 r' \<Longrightarrow> rec_hashnr H mem r' = rec_hashnr H mem0 r'"
  by (auto simp: rec_hashnr_def my_hash_key_def split: option.splits)

text \<open>The stored pair of \<^verbatim>\<open>r\<close> is exchanged.\<close>

lemma update_inv:
  assumes i: "hash_inv H mem0" and other: "\<And>r'. r' \<noteq> r \<Longrightarrow> mem r' = mem0 r'" and one: "count (contents H) r = 1"
    and d: "hash_chains (table_mask H) d {..<records H}" "length d = records H"
    and b: "add_mset (r, rec_hashnr H mem0 r) (bag d {..<records H}) = add_mset (r, rec_hashnr H mem r) (bag (links H) {..<records H})"
  shows "hash_inv (H\<lparr> links := d \<rparr>) mem \<and> contents (H\<lparr> links := d \<rparr>) = contents H"
proof (rule inv_from_bag)
  let ?C = "contents H"
  obtain D where D: "?C = add_mset r D" "r \<notin># D" using one by (metis One_nat_def count_add_mset count_greater_zero_iff less_one
        multi_member_split not_in_iff old.nat.inject zero_less_Suc)
  have hn: "rec_hashnr (H\<lparr> links := d \<rparr>) mem r' = rec_hashnr H mem r'" for r' by (simp add: rec_hashnr_def my_hash_key_def cong: option.case_cong)
  have "image_mset (\<lambda>r. (r, rec_hashnr H mem0 r)) D = image_mset (\<lambda>r. (r, rec_hashnr H mem r)) D"
  proof (rule image_mset_cong)
    fix r' assume "r' \<in># D"
    then have "r' \<noteq> r" using D(2) by auto
    then show "(r', rec_hashnr H mem0 r') = (r', rec_hashnr H mem r')" using mem_hash [of mem r' mem0 H] other [of r'] by simp
  qed
  then show "bag (links (H\<lparr> links := d \<rparr>)) {..<records (H\<lparr> links := d \<rparr>)} =
      image_mset (\<lambda>r. (r, rec_hashnr (H\<lparr> links := d \<rparr>) mem r)) ?C"
    using b contents_bag [OF i] by (simp add: hn D(1))
qed (use d hash_invD(5) [OF i] i in \<open>simp_all add: hash_inv_def\<close>)

lemma update_ok:
  assumes i: "hash_inv H mem0" and hr: "hash_respects H" and other: "\<And>r'. r' \<noteq> r \<Longrightarrow> mem r' = mem0 r'"
    and one: "count (contents H) r = 1" and old: "hash_function H (key_arg H old_key len) = rec_hashnr H mem0 r"
  shows "if unique_keys H \<and> (\<exists>r'\<in>#contents H. r' \<noteq> r \<and> key_in H mem r r') then my_hash_update H mem r old_key len = Some (True, H)
    else \<exists>H'. my_hash_update H mem r old_key len = Some (False, H') \<and> hash_inv H' mem \<and> contents H' = contents H \<and> same_table H H'"
proof -
  let ?h = "rec_hashnr H mem r" and ?ho = "rec_hashnr H mem0 r" and ?n = "records H" and ?k = "my_hash_key H mem r" and ?m = "table_mask H"
  define dup where "dup \<longleftrightarrow> unique_keys H \<and> (\<exists>r'\<in>#contents H. r' \<noteq> r \<and> key_in H mem r r')"
  note ch = hash_invD(6) [OF i]
  have "others_stored H mem r"
    unfolding others_stored_def using hash_invD(7) [OF i] mem_hash [of mem _ mem0 H] other by simp
  then have search: "(if unique_keys H then Option.bind (my_hash_first_from_hash_value H mem ?h ?k (length ?k))
      (\<lambda>found. other_loop H mem r ?k found) else Some False) = Some dup"
    using duplicate_search [OF i _ hr, of mem r] by (simp add: dup_def rec_hashnr_def)
  have r: "r \<in># contents H" using one by (metis count_eq_zero_iff zero_neq_one)
  then have n: "0 < ?n" using contents_slot [OF i] by auto
  have h: "hash_nr (links H ! p) = ?ho" if "p < ?n" "link_data (links H ! p) = r" for p using hash_invD(7) [OF i that(1)] that(2) by simp
  obtain us p vs where f: "bucket ?m (links H) {..<?n} (?m ?ho) (us @ p # vs)" "link_data (links H ! p) = r"
      "find_loop (links H) r (?m ?ho) None = Some (Some (p, if us = [] then None else Some (last us)))"
    using find_ok [OF i h n] r by blast
  have p: "p < ?n" "home ?m (links H) p = ?m ?ho" using bucket_mem [OF f(1), of p] by simp_all
  have cp: "cont (links H ! p) = (r, ?ho)" using h [OF p(1) f(2)] f(2) by (simp add: cont_def)
  have step: "my_hash_update H mem r old_key len = (if dup then Some (True, H)
      else if ?m ?ho = ?m ?h then Some (False, H\<lparr> links := (links H)[p := (links H ! p)\<lparr> hash_nr := ?h \<rparr>] \<rparr>)
      else (case unlink_record (links H) p (if us = [] then None else Some (last us)) of
              (d, emp) \<Rightarrow> Option.bind (relink d (links H ! p) p emp (?m ?h) ?h (blength H) ?n) (\<lambda>d2. Some (False, H\<lparr> links := d2 \<rparr>))))"
    unfolding my_hash_update_def Let_def rec_hashnr_def [symmetric] search old f(3) bind.simps option.case prod.case ..
  have st: "same_table H (H\<lparr> links := d \<rparr>)" for d using same_tableI [where H = H and l = d and n = "records H" and b = "blength H"] by simp
  show ?thesis
  proof (cases dup)
    case True
    then show ?thesis using step unfolding dup_def by simp
  next
    case nd: False
    have "\<exists>d. my_hash_update H mem r old_key len = Some (False, H\<lparr> links := d \<rparr>) \<and> hash_chains ?m d {..<?n} \<and> length d = ?n \<and>
        add_mset (r, ?ho) (bag d {..<?n}) = add_mset (r, ?h) (bag (links H) {..<?n})"
    proof (cases "?m ?ho = ?m ?h")
      case True
      let ?d = "(links H)[p := (links H ! p)\<lparr> hash_nr := ?h \<rparr>]"
      have len: "length (links H) = ?n" by (rule hash_invD(1) [OF i])
      have "link_next (?d ! q) = link_next (links H ! q) \<and> home ?m ?d q = home ?m (links H) q" if "q \<in> {..<?n}" for q
        using True p len by (cases "q = p") (simp_all add: home_def)
      then have "hash_chains ?m ?d {..<?n}" using chains_same [OF ch, of ?d] chainsD(2) [OF ch] len by simp
      moreover have "add_mset (r, ?ho) (bag ?d {..<?n}) = add_mset (r, ?h) (bag (links H) {..<?n})"
      proof -
        have "bag ?d ({..<?n} - {p}) = bag (links H) ({..<?n} - {p})" by (rule bag_cong) simp
        moreover have "cont (?d ! p) = (r, ?h)" using p len f(2) by (simp add: cont_def)
        ultimately show ?thesis using p(1) cp by (simp add: bag_def mset_set.remove)
      qed
      ultimately show ?thesis using step nd True len by (intro exI [of _ ?d]) simp
    next
      case False
      obtain d e where u: "unlink_record (links H) p (if us = [] then None else Some (last us)) = (d, e)" by fastforce
      note U = unlink_record_ok [OF ch f(1) u]
      have "d ! p = links H ! p" if "e = p" using unlink_slot [OF ch f(1)] u that by simp
      moreover have "?m ?h < ?n" using mask_less [OF hash_invD(2,3) [OF i] n] .
      ultimately obtain d' where "relink d (links H ! p) p e (?m ?h) ?h (blength H) ?n = Some d'" "hash_chains ?m d' {..<?n}" "length d' = ?n"
          "bag d' {..<?n} = add_mset (r, ?h) (bag d ({..<?n} - {e}))"
        using relink_ok [OF U(2) _ _ refl, of ?h p "links H ! p"] U(1,3) hash_invD(1) [OF i] f(2) by auto
      then show ?thesis using step nd False u U(4) cp by (intro exI [of _ d']) simp
    qed
    then obtain d where d: "my_hash_update H mem r old_key len = Some (False, H\<lparr> links := d \<rparr>)" "hash_chains ?m d {..<?n}" "length d = ?n"
        "add_mset (r, ?ho) (bag d {..<?n}) = add_mset (r, ?h) (bag (links H) {..<?n})" by blast
    have "hash_inv (H\<lparr> links := d \<rparr>) mem \<and> contents (H\<lparr> links := d \<rparr>) = contents H"
      by (rule update_inv [OF i other one d(2,3,4)])
    then show ?thesis using d(1) st [of d] nd unfolding dup_def by auto
  qed
qed

end
