(* ===== verification/Mdb_Hash_Check.thy ===== *)
theory Mdb_Hash_Check
  imports Mdb_Hash_Update
begin

text \<open>
  The consistency check that debug builds run on a table, and the operations that do not change its
  structure: reading by slot, iterating, replacing a row, emptying the table.
\<close>

subsection \<open>The consistency check\<close>

lemma check_chain_ok:
  assumes "chain_linked (links H) ps" "\<And>p. p \<in> set ps \<Longrightarrow> p < records H \<and> home (table_mask H) (links H) p = i"
    "NO_RECORD \<notin> set ps" "fnd + length ps \<le> records H"
  shows "check_chain H i (if ps = [] then NO_RECORD else hd ps) fnd err = Some (fnd + length ps, err)"
  using assms
proof (induction ps arbitrary: fnd)
  case (Cons p ps)
  have c: "link_next (links H ! p) = (if ps = [] then NO_RECORD else hd ps)" "chain_linked (links H) ps"
    using Cons.prems(1) by (cases ps; simp)+
  have p: "p < records H" "my_hash_rec_mask (links H ! p) (blength H) (records H) = i" "p \<noteq> NO_RECORD"
    using Cons.prems(2) [of p] Cons.prems(3) by (auto simp: home_def my_hash_rec_mask_def)
  have "check_chain H i p fnd err = check_chain H i (link_next (links H ! p)) (fnd + 1) err"
    using p Cons.prems(4) by (subst check_chain.simps) simp
  also have "\<dots> = Some (fnd + 1 + length ps, err)" unfolding c(1) by (rule Cons.IH) (use Cons.prems c in auto)
  finally show ?case by simp
qed (simp add: check_chain.simps)

lemma check_slots_append:
  "check_slots H mem (is @ js) fe = Option.bind (check_slots H mem is fe) (check_slots H mem js)"
  by (induction "is" arbitrary: fe) (simp_all add: Let_def bind_assoc)

text \<open>After the first \<^verbatim>\<open>j\<close> slots the records of the first \<^verbatim>\<open>j\<close> buckets have been counted.\<close>

lemma check_slots_ok:
  assumes i: "hash_inv H mem" and j: "j \<le> records H"
  shows "check_slots H mem [0..<j] (0, False) = Some (card {p. p < records H \<and> home (table_mask H) (links H) p < j}, False)"
  using j
proof (induction j)
  case (Suc j)
  let ?h = "home (table_mask H) (links H)" and ?n = "records H"
  let ?A = "{p. p < ?n \<and> ?h p < j}" and ?B = "{p. p < ?n \<and> ?h p < Suc j}"
  note ch = hash_invD(6) [OF i]
  have j: "j < ?n" using Suc.prems by simp
  have nr: "hash_nr (links H ! j) = rec_hashnr H mem (link_data (links H ! j))" by (rule hash_invD(7) [OF i j])
  obtain ps where b: "bucket (table_mask H) (links H) {..<?n} j ps" using chainsD(3) [OF ch] by blast
  have B: "?B = ?A \<union> set ps" "?A \<inter> set ps = {}" unfolding bucketD(2) [OF b] by auto
  have card: "card ?B = card ?A + length ps"
    unfolding B(1) using B(2) distinct_card [OF bucketD(1) [OF b]] by (subst card_Un_disjoint) auto
  have le: "card ?B \<le> ?n" using card_mono [of "{..<?n}" ?B] by auto
  have "check_slots H mem [j] (card ?A, False) = Some (card ?B, False)"
  proof (cases "?h j = j")
    case True
    then have "j \<in> set ps" using bucket_mem [OF b] j by simp
    then obtain vs where ps: "ps = j # vs" using bucketD(4) [OF b] by (cases ps) auto
    have next_link: "link_next (links H ! j) = (if vs = [] then NO_RECORD else hd vs)" "chain_linked (links H) vs"
      using bucketD(3) [OF b] unfolding ps by (cases vs; simp)+
    have "NO_RECORD \<notin> {..<?n}" using not_NO_RECORD [OF ch] by blast
    then have mem: "q < ?n \<and> ?h q = j \<and> q \<noteq> NO_RECORD" if "q \<in> set vs" for q using that bucket_mem [OF b, of q] by (auto simp: ps)
    have "check_chain H j (link_next (links H ! j)) (card ?A + 1) False = Some (card ?A + 1 + length vs, False)"
      unfolding next_link(1) by (rule check_chain_ok [OF next_link(2)]) (use mem card le in \<open>auto simp: ps\<close>)
    then show ?thesis using nr True card by (simp add: home_def my_hash_rec_mask_def ps)
  next
    case False
    then have "ps = []" using bucket_empty [OF ch _ b] by simp
    then show ?thesis using nr False card by (simp add: home_def my_hash_rec_mask_def)
  qed
  then show ?case using Suc.IH j by (simp add: check_slots_append)
qed simp

lemma check_ok: "hash_inv H mem \<Longrightarrow> my_hash_check H mem = Some False"
proof -
  assume i: "hash_inv H mem"
  have "{p. p < records H \<and> home (table_mask H) (links H) p < records H} = {..<records H}"
    using mask_less [OF hash_invD(2,3) [OF i]] by (auto simp: home_def)
  then show ?thesis using check_slots_ok [OF i order_refl] by (simp add: my_hash_check_def)
qed


subsection \<open>Operations on the records\<close>

lemma free_elements_records:
  "hash_inv H mem \<Longrightarrow> fst (my_hash_free_elements H) = (if has_free H then map link_data (links H) else [])"
  using hash_invD(1) [of H mem] by (auto simp: my_hash_free_elements_def)

lemma reset_ok:
  assumes i: "hash_inv H mem"
  shows "hash_inv (snd (my_hash_reset H)) mem \<and> contents (snd (my_hash_reset H)) = {#} \<and> same_table H (snd (my_hash_reset H)) \<and>
    mset (fst (my_hash_reset H)) = (if has_free H then contents H else {#})"
proof -
  let ?H = "H\<lparr> links := [], records := 0, blength := 1 \<rparr>"
  have H: "snd (my_hash_reset H) = ?H" by (auto simp: my_hash_reset_def my_hash_free_elements_def)
  have "fst (my_hash_reset H) = fst (my_hash_free_elements H)" by (simp add: my_hash_reset_def split: prod.splits)
  then have "mset (fst (my_hash_reset H)) = (if has_free H then contents H else {#})"
    using free_elements_records [OF i] by (simp add: contents_def)
  moreover have "hash_inv ?H mem \<and> contents ?H = {#}"
    using hash_invD(5) [OF i] by (auto simp: hash_inv_def size_ok_def contents_def intro!: hash_chains_empty exI [of _ 0])
  ultimately show ?thesis using same_tableI [where H = H and l = "[]" and n = 0 and b = 1] unfolding H by blast
qed

text \<open>Replacing a row by one with the same hash number keeps the structure.\<close>

lemma replace_ok:
  assumes i: "hash_inv H mem" and p: "p < records H" and same: "rec_hashnr H mem new = rec_hashnr H mem (link_data (links H ! p))"
  shows "hash_inv (my_hash_replace H p new) mem \<and>
    contents (my_hash_replace H p new) = add_mset new (contents H - {#link_data (links H ! p)#})"
proof -
  let ?d = "(links H)[p := (links H ! p)\<lparr> link_data := new \<rparr>]"
  note ch = hash_invD(6) [OF i]
  have len: "length (links H) = records H" by (rule hash_invD(1) [OF i])
  have H: "my_hash_replace H p new = H\<lparr> links := ?d \<rparr>" using not_NO_RECORD [OF ch] p by (simp add: my_hash_replace_def)
  have hn: "rec_hashnr (H\<lparr> links := l \<rparr>) mem r = rec_hashnr H mem r" for l r
    by (simp add: rec_hashnr_def my_hash_key_def cong: option.case_cong)
  have "link_next (?d ! q) = link_next (links H ! q) \<and> home m ?d q = home m (links H) q" for m q
    using p len by (cases "q = p") (simp_all add: home_def)
  then have "hash_chains (table_mask H) ?d {..<records H}" using chains_same [OF ch, of ?d] chainsD(2) [OF ch] len by simp
  moreover have "hash_nr (?d ! q) = rec_hashnr H mem (link_data (?d ! q))" if "q < records H" for q
    using hash_invD(7) [OF i that] hash_invD(7) [OF i p] same p len by (cases "q = p") simp_all
  ultimately have "hash_inv (H\<lparr> links := ?d \<rparr>) mem" using i len by (simp add: hash_inv_def hn)
  moreover have "contents (H\<lparr> links := ?d \<rparr>) = add_mset new (contents H - {#link_data (links H ! p)#})"
    using p len by (simp add: contents_def map_update mset_update)
  ultimately show ?thesis unfolding H by blast
qed

lemma iterate_loop_eq:
  "iterate_loop action rs = (\<exists>r\<in>set rs. action r, takeWhile (\<lambda>r. \<not> action r) rs @ take 1 (dropWhile (\<lambda>r. \<not> action r) rs))"
  by (induction rs) auto

lemma element_records:
  "hash_inv H mem \<Longrightarrow> r \<in># contents H \<longleftrightarrow> (\<exists>idx. my_hash_element H idx = Some r)"
  using contents_slot [of H mem r] by (auto simp: my_hash_element_def)

end
