(* ===== verification/Mdb_Hash_Table.thy ===== *)
theory Mdb_Hash_Table
  imports Mdb_Hash_Check
begin

text \<open>
  What a client of the table relies on, as a locale: a table of records into which a record is put unless
  it clashes with one that is there, and from which it is deleted. The hash table is an instance.
\<close>

datatype 'a table_op = Put rec_id "'a option" | Del rec_id

primrec run_ops :: "('t \<Rightarrow> rec_id \<Rightarrow> 'a option \<Rightarrow> (bool \<times> 't) option) \<Rightarrow> ('t \<Rightarrow> rec_id \<Rightarrow> (bool \<times> 't) option) \<Rightarrow>
    'a table_op list \<Rightarrow> 't \<Rightarrow> 't option" where
  "run_ops ins del [] t = Some t"
| "run_ops ins del (x # xs) t =
     Option.bind (case x of Put r a \<Rightarrow> ins t r a | Del r \<Rightarrow> del t r) (\<lambda>(err, t'). run_ops ins del xs t')"

text \<open>The same operations on the multiset of the records.\<close>

fun spec_op :: "(rec_id \<Rightarrow> rec_id \<Rightarrow> bool) \<Rightarrow> 'a table_op \<Rightarrow> rec_id multiset \<Rightarrow> rec_id multiset" where
  "spec_op clash (Put r None) C = C"
| "spec_op clash (Put r (Some a)) C = (if \<exists>r'\<in>#C. clash r r' then C else add_mset r C)"
| "spec_op clash (Del r) C = C - {#r#}"

definition clash_free :: "(rec_id \<Rightarrow> rec_id \<Rightarrow> bool) \<Rightarrow> rec_id multiset \<Rightarrow> bool" where
  "clash_free clash C \<longleftrightarrow> (\<forall>r\<in>#C. \<forall>r'\<in>#C - {#r#}. \<not> clash r r')"

lemma clash_free_mono: "clash_free clash C \<Longrightarrow> D \<subseteq># C \<Longrightarrow> clash_free clash D"
proof -
  assume a: "clash_free clash C" "D \<subseteq># C"
  have "r \<in># C \<and> r' \<in># C - {#r#}" if "r \<in># D" "r' \<in># D - {#r#}" for r r'
  proof -
    have "D - {#r#} \<subseteq># C - {#r#}" using a(2) by (simp add: subseteq_mset_def diff_le_mono)
    then show ?thesis using that a(2) by (auto dest: mset_subset_eqD)
  qed
  then show ?thesis using a(1) unfolding clash_free_def by blast
qed

lemma clash_free_op:
  assumes "clash_free clash C" "symp clash"
  shows "clash_free clash (spec_op clash x C)"
proof (cases "(clash, x, C)" rule: spec_op.cases)
  case (2 clash' r a C')
  show ?thesis
  proof (cases "\<exists>r'\<in>#C. clash r r'")
    case False
    have "\<not> clash r1 r2" if m: "r1 \<in># add_mset r C" "r2 \<in># add_mset r C - {#r1#}" for r1 r2
    proof (cases "r1 = r")
      case True
      then show ?thesis using m False by auto
    next
      case ne: False
      then have r1: "r1 \<in># C" using m(1) by simp
      then have "r2 = r \<or> r2 \<in># C - {#r1#}" using m(2) ne by (simp add: add_mset_remove_trivial_If split: if_splits)
      then show ?thesis using r1 False assms by (auto simp: clash_free_def dest: sympD)
    qed
    then show ?thesis using False 2 by (simp add: clash_free_def)
  qed (use assms(1) 2 in auto)
next
  case (3 clash' r C')
  then show ?thesis using clash_free_mono [OF assms(1)] by simp
qed (use assms(1) in auto)

locale record_table =
  fixes ok :: "'t \<Rightarrow> bool" and recs :: "'t \<Rightarrow> rec_id multiset" and clash :: "rec_id \<Rightarrow> rec_id \<Rightarrow> bool"
    and ins :: "'t \<Rightarrow> rec_id \<Rightarrow> 'a option \<Rightarrow> (bool \<times> 't) option" and del :: "'t \<Rightarrow> rec_id \<Rightarrow> (bool \<times> 't) option" and room :: nat
  assumes ins_law: "ok t \<Longrightarrow> size (recs t) < room \<Longrightarrow> \<exists>err t'. ins t r a = Some (err, t') \<and> ok t' \<and> recs t' = spec_op clash (Put r a) (recs t)"
    and del_law: "ok t \<Longrightarrow> \<exists>err t'. del t r = Some (err, t') \<and> ok t' \<and> recs t' = recs t - {#r#}"
begin

lemma run_refines:
  "ok t \<Longrightarrow> size (recs t) + length xs \<le> room \<Longrightarrow>
   \<exists>t'. run_ops ins del xs t = Some t' \<and> ok t' \<and> recs t' = fold (spec_op clash) xs (recs t)"
proof (induction xs arbitrary: t)
  case (Cons x xs)
  have "\<exists>err t'. (case x of Put r a \<Rightarrow> ins t r a | Del r \<Rightarrow> del t r) = Some (err, t') \<and> ok t' \<and> recs t' = spec_op clash x (recs t)"
    using ins_law [OF Cons.prems(1)] del_law [OF Cons.prems(1)] Cons.prems(2) by (cases x) auto
  then obtain err t' where t': "(case x of Put r a \<Rightarrow> ins t r a | Del r \<Rightarrow> del t r) = Some (err, t')" "ok t'"
      "recs t' = spec_op clash x (recs t)" by blast
  have "size (spec_op clash x (recs t)) \<le> size (recs t) + 1"
    by (cases "(clash, x, recs t)" rule: spec_op.cases) (auto simp: size_Diff_singleton_if)
  then have "size (recs t') + length xs \<le> room" using Cons.prems(2) t'(3) by simp
  from Cons.IH [OF t'(2) this] show ?case using t'(1,3) by simp
qed simp

lemma run_clash_free:
  assumes "symp clash" "ok t" "size (recs t) + length xs \<le> room" "clash_free clash (recs t)"
  shows "\<exists>t'. run_ops ins del xs t = Some t' \<and> ok t' \<and> recs t' = fold (spec_op clash) xs (recs t) \<and> clash_free clash (recs t')"
proof -
  have "clash_free clash C \<Longrightarrow> clash_free clash (fold (spec_op clash) xs C)" for C
    by (induction xs arbitrary: C) (simp_all add: clash_free_op [OF _ assms(1)])
  then show ?thesis using run_refines [OF assms(2,3)] assms(4) by auto
qed

end

subsection \<open>The hash table as an instance\<close>

lemma same_table_trans: "same_table H H1 \<Longrightarrow> same_table H1 H2 \<Longrightarrow> same_table H H2"
proof -
  assume "same_table H H1" "same_table H1 H2"
  then obtain b n l b' n' l' where "H1 = H\<lparr> blength := b, records := n, links := l \<rparr>"
      "H2 = H1\<lparr> blength := b', records := n', links := l' \<rparr>" unfolding same_table_def by blast
  then show ?thesis unfolding same_table_def by (intro exI [of _ b'] exI [of _ n'] exI [of _ l']) simp
qed

definition delete_result :: "HASH \<Rightarrow> memory \<Rightarrow> rec_id \<Rightarrow> (bool \<times> HASH) option" where
  "delete_result H mem r = map_option (\<lambda>(err, freed, H'). (err, H')) (my_hash_delete H mem r)"

lemma size_contents: "hash_inv H mem \<Longrightarrow> size (contents H) = records H"
  using hash_invD(1) [of H mem] by (simp add: contents_def)

definition table_of :: "HASH \<Rightarrow> memory \<Rightarrow> HASH \<Rightarrow> bool" where
  "table_of H0 mem H \<longleftrightarrow> hash_inv H mem \<and> same_table H0 H \<and> hash_respects H0"

definition refuses :: "HASH \<Rightarrow> memory \<Rightarrow> rec_id \<Rightarrow> rec_id \<Rightarrow> bool" where
  "refuses H0 mem r r' \<longleftrightarrow> unique_keys H0 \<and> key_in H0 mem r r'"

interpretation ht: record_table "table_of H0 mem" contents "refuses H0 mem" "\<lambda>H r slot. my_hash_insert H mem r slot"
    "\<lambda>H r. delete_result H mem r" "NO_RECORD - 1" for H0 mem
proof unfold_locales
  fix H r slot
  assume t: "table_of H0 mem H" and s: "size (contents H) < NO_RECORD - 1"
  have i: "hash_inv H mem" and st: "same_table H0 H" using t by (simp_all add: table_of_def)
  have hr: "hash_respects H" using t same_table_fields [OF st] by (simp add: table_of_def hash_respects_def)
  have big: "records H + 1 < NO_RECORD" using size_contents [OF i] s by simp
  have k: "unique_keys H \<and> (\<exists>r'\<in>#contents H. key_in H mem r r') \<longleftrightarrow> (\<exists>r'\<in>#contents H. refuses H0 mem r r')"
    using same_table_fields [OF st] by (auto simp: refuses_def key_in_def)
  obtain err H' where H': "my_hash_insert H mem r slot = Some (err, H')" "hash_inv H' mem" "same_table H H'"
      "err \<longleftrightarrow> slot = None \<or> unique_keys H \<and> (\<exists>r'\<in>#contents H. key_in H mem r r')"
      "contents H' = (if err then contents H else add_mset r (contents H))"
    using insert_ok [OF i hr big, of r slot] by blast
  have "table_of H0 mem H'" using H'(2) same_table_trans [OF st H'(3)] t by (simp add: table_of_def)
  moreover have "contents H' = spec_op (refuses H0 mem) (Put r slot) (contents H)"
    using H'(4,5) k by (cases slot) simp_all
  ultimately show "\<exists>err t'. my_hash_insert H mem r slot = Some (err, t') \<and> table_of H0 mem t' \<and>
      contents t' = spec_op (refuses H0 mem) (Put r slot) (contents H)" using H'(1) by blast
next
  fix H r
  assume t: "table_of H0 mem H"
  have i: "hash_inv H mem" and st: "same_table H0 H" using t by (simp_all add: table_of_def)
  show "\<exists>err t'. delete_result H mem r = Some (err, t') \<and> table_of H0 mem t' \<and> contents t' = contents H - {#r#}"
  proof (cases "r \<in># contents H")
    case True
    then obtain H' where H': "my_hash_delete H mem r = Some (False, if has_free H then [r] else [], H')" "hash_inv H' mem"
        "same_table H H'" "contents H' = contents H - {#r#}" using delete_ok [OF i, of r] by auto
    have "table_of H0 mem H'" using H'(2) same_table_trans [OF st H'(3)] t by (simp add: table_of_def)
    then show ?thesis using H'(1,4) by (auto simp: delete_result_def)
  next
    case False
    then show ?thesis using delete_ok [OF i, of r] t by (auto simp: delete_result_def)
  qed
qed

end
