(* ===== verification/Mdb_Hash_Theorems.thy ===== *)
theory Mdb_Hash_Theorems
  imports Mdb_Hash_Table
begin

text \<open>The properties of the hash table, each with an instance on a small table.\<close>

subsection \<open>A table of three records\<close>

text \<open>One-byte keys whose hash number is the byte. Records 8 and 4 share bucket 0; record 4 is in the last slot.\<close>

definition ex_mem :: memory where
  "ex_mem r = [of_nat r]"

definition ex_hash :: "bytes \<Rightarrow> u32" where
  "ex_hash k = (case k of [] \<Rightarrow> 0 | b # _ \<Rightarrow> ucast b)"

definition ex_coll :: "bytes \<Rightarrow> bytes \<Rightarrow> int" where
  "ex_coll a b = (if a = b then 0 else 1)"

definition ex_empty :: HASH where
  "ex_empty = my_hash_init2 0 1 None None ex_hash ex_coll True True"

definition ex_slot :: HASH_LINK where
  "ex_slot = \<lparr> link_next = 0, hash_nr = 0, link_data = 0 \<rparr>"

definition ex_table :: HASH where
  "ex_table = ex_empty\<lparr> blength := 4, records := 3, links :=
     [\<lparr> link_next = 2, hash_nr = 8, link_data = 8 \<rparr>, \<lparr> link_next = NO_RECORD, hash_nr = 1, link_data = 1 \<rparr>,
      \<lparr> link_next = NO_RECORD, hash_nr = 4, link_data = 4 \<rparr>] \<rparr>"

lemma ex_links:
  "links ex_table = [\<lparr> link_next = 2, hash_nr = 8, link_data = 8 \<rparr>, \<lparr> link_next = NO_RECORD, hash_nr = 1, link_data = 1 \<rparr>,
     \<lparr> link_next = NO_RECORD, hash_nr = 4, link_data = 4 \<rparr>]"
  "records ex_table = 3" "blength ex_table = 4" "get_key ex_table = None" "key_length ex_table = 1" "unique_keys ex_table" "has_free ex_table"
  "key_offset ex_table = 0" "hash_function ex_table = ex_hash" "strnncoll ex_table = ex_coll"
  by (simp_all add: ex_table_def ex_empty_def my_hash_init2_def)

lemma less3: "p < (3::nat) \<longleftrightarrow> p = 0 \<or> p = 1 \<or> p = 2"
  by auto

lemma ex_rec_hashnr: "rec_hashnr ex_table ex_mem r = ucast (of_nat r :: 8 word)"
  by (simp add: rec_hashnr_def my_hash_key_def ex_links ex_mem_def ex_hash_def)

lemma ex_home: "home (table_mask ex_table) (links ex_table) 0 = 0" "home (table_mask ex_table) (links ex_table) 1 = 1"
    "home (table_mask ex_table) (links ex_table) (Suc 0) = 1" "home (table_mask ex_table) (links ex_table) 2 = 0"
  by (simp_all add: home_def ex_links my_hash_mask_def size_dec_def)

lemma ex_inv: "hash_inv ex_table ex_mem"
proof -
  have "hash_chains (table_mask ex_table) (links ex_table) {..<3}"
    unfolding hash_chains_def
  proof (intro conjI allI)
    fix h :: nat
    let ?ps = "if h = 0 then [0, 2] else if h = 1 then [1] else []"
    have "p \<in> set ?ps \<longleftrightarrow> p < 3 \<and> home (table_mask ex_table) (links ex_table) p = h" for p
      using ex_home by (auto simp: less3)
    then have "set ?ps = {p \<in> {..<3}. home (table_mask ex_table) (links ex_table) p = h}"
      unfolding set_eq_iff mem_Collect_eq lessThan_iff by blast
    then have "bucket (table_mask ex_table) (links ex_table) {..<3} h ?ps"
      unfolding bucket_def by (auto simp: ex_links)
    then show "\<exists>ps. bucket (table_mask ex_table) (links ex_table) {..<3} h ps" by blast
  qed (auto simp: ex_links NO_RECORD_def)
  moreover have "size_ok 4 3" by (auto simp: size_ok_def intro: exI [of _ 2])
  ultimately show ?thesis by (simp add: hash_inv_def ex_links(1-5) less3 ex_rec_hashnr all_conj_distrib imp_conjR)
qed

lemma ex_respects: "hash_respects ex_table"
  by (simp add: hash_respects_def ex_links ex_coll_def)

lemma ex_contents: "contents ex_table = {#8, 1, 4#}"
  by (simp add: contents_def ex_links)

lemma ex_key_in: "r < 256 \<Longrightarrow> r' < 256 \<Longrightarrow> key_in ex_table ex_mem r r' \<longleftrightarrow> r' = r"
  using take_bit_nat_eq_self [of r 8] take_bit_nat_eq_self [of r' 8]
  by (simp add: key_in_def my_hash_key_def ex_links ex_mem_def ex_coll_def word_of_nat_eq_iff)

subsection \<open>The properties\<close>

text \<open>
  C21: \<^verbatim>\<open>my_hash_insert\<close> on a well-formed table always returns. It fails exactly when no slot could be
  allocated or when the table has unique keys and a record with the same key is there, and then it leaves
  the table as it was. Otherwise the record is added to the records of the table. The table is well-formed again:
  the bucket of the new slot is split off, every chain starts in the slot of its bucket, links exactly the records
  of that bucket and ends. Hypotheses: keys that compare equal have equal hash numbers, and the
  number of slots stays below \<^verbatim>\<open>NO_RECORD\<close>.
\<close>

theorem my_hash_insert_correct:
  assumes "hash_inv H mem" and "hash_respects H" and "records H + 1 < NO_RECORD"
  shows "\<exists>err H'. my_hash_insert H mem r new_slot = Some (err, H') \<and> hash_inv H' mem \<and> same_table H H' \<and>
    (err \<longleftrightarrow> new_slot = None \<or> unique_keys H \<and> (\<exists>r'\<in>#contents H. key_in H mem r r')) \<and>
    contents H' = (if err then contents H else add_mset r (contents H)) \<and> (err \<longrightarrow> H' = H)"
  using assms by (rule insert_ok)

theorem my_hash_insert_witness:
  "\<exists>H'. my_hash_insert ex_table ex_mem 2 (Some ex_slot) = Some (False, H') \<and>
     hash_inv H' ex_mem \<and> contents H' = {#2, 8, 1, 4#}"
  using my_hash_insert_correct [OF ex_inv ex_respects, of 2 "Some ex_slot"]
  by (auto simp: ex_contents ex_key_in ex_links NO_RECORD_def)

text \<open>
  C22: \<^verbatim>\<open>my_hash_delete\<close> on a well-formed table always returns. It reports an error exactly when the record is not
  in the table, and then changes nothing; otherwise one occurrence of the record is gone, the free function is
  called with it if there is one, and the table with one slot less is well-formed: the record of the last slot has
  moved into the free one and the last bucket is merged with the bucket it was split from.
\<close>

theorem my_hash_delete_correct:
  assumes "hash_inv H mem"
  shows "if r \<in># contents H
    then \<exists>H'. my_hash_delete H mem r = Some (False, if has_free H then [r] else [], H') \<and> hash_inv H' mem \<and> same_table H H' \<and>
      contents H' = contents H - {#r#}
    else my_hash_delete H mem r = Some (True, [], H)"
  using assms by (rule delete_ok)

theorem my_hash_delete_witness:
  "(\<exists>H'. my_hash_delete ex_table ex_mem 8 = Some (False, [8], H') \<and> hash_inv H' ex_mem \<and> contents H' = {#1, 4#}) \<and>
   my_hash_delete ex_table ex_mem 5 = Some (True, [], ex_table)"
  using my_hash_delete_correct [OF ex_inv, of 8] my_hash_delete_correct [OF ex_inv, of 5] by (auto simp: ex_contents ex_links)

text \<open>
  C23: \<^verbatim>\<open>my_hash_update\<close>, called after the key of a record of the table has changed in memory and with its old key, always
  returns. It reports an error exactly when the table has unique keys and another record has the new key, and
  then leaves the table as it was. Otherwise the table is well-formed for the new contents of memory and holds the same
  records: the record has moved to the bucket of its new key.
\<close>

theorem my_hash_update_correct:
  assumes "hash_inv H mem0" and "hash_respects H" and "\<And>r'. r' \<noteq> r \<Longrightarrow> mem r' = mem0 r'" and "count (contents H) r = 1"
    and "hash_function H (key_arg H old_key len) = rec_hashnr H mem0 r"
  shows "if unique_keys H \<and> (\<exists>r'\<in>#contents H. r' \<noteq> r \<and> key_in H mem r r') then my_hash_update H mem r old_key len = Some (True, H)
    else \<exists>H'. my_hash_update H mem r old_key len = Some (False, H') \<and> hash_inv H' mem \<and> contents H' = contents H \<and> same_table H H'"
  using assms by (rule update_ok)

theorem my_hash_update_witness:
  "(\<exists>H'. my_hash_update ex_table (ex_mem(4 := [5])) 4 [4] 1 = Some (False, H') \<and> hash_inv H' (ex_mem(4 := [5])) \<and>
      contents H' = {#8, 1, 4#}) \<and>
   my_hash_update ex_table (ex_mem(4 := [1])) 4 [4] 1 = Some (True, ex_table)"
proof -
  have old: "hash_function ex_table (key_arg ex_table [4] 1) = rec_hashnr ex_table ex_mem 4"
    by (simp add: ex_rec_hashnr ex_links key_arg_def ex_hash_def)
  have k: "key_in ex_table (ex_mem(4 := [b])) 4 r' \<longleftrightarrow> ex_mem r' = [b]" if "r' \<noteq> 4" for r' b
    using that by (simp add: key_in_def my_hash_key_def ex_links ex_coll_def ex_mem_def)
  have one: "count (contents ex_table) 4 = 1" by (simp add: ex_contents)
  show ?thesis
    using my_hash_update_correct [OF ex_inv ex_respects _ one old, of "ex_mem(4 := [5])"]
      my_hash_update_correct [OF ex_inv ex_respects _ one old, of "ex_mem(4 := [1])"] k [of 8] k [of 1]
    by (auto simp: ex_contents ex_links ex_mem_def)
qed

text \<open>
  C25: \<^verbatim>\<open>my_hash_first\<close> and \<^verbatim>\<open>my_hash_next\<close> enumerate exactly the records whose key compares equal to the given one: there
  is a list of distinct slots, all slots with a matching record and no other, such that \<^verbatim>\<open>my_hash_first\<close>
  returns the first of them, \<^verbatim>\<open>my_hash_next\<close> from each of them returns the following one, and the search ends
  after the last. Both functions return. Hypothesis: keys that compare equal have equal hash numbers.
\<close>

theorem my_hash_search_enumerates:
  assumes "hash_inv H mem" and "hash_respects H"
  shows "\<exists>qs. distinct qs \<and> set qs = {p. p < records H \<and> hashcmp H mem (links H ! p) (key_arg H key len) = 0} \<and>
    my_hash_first H mem key len = Some (if qs = [] then None else Some (link_data (links H ! hd qs), hd qs)) \<and>
    (\<forall>i<length qs. my_hash_next H mem key len (qs ! i) =
       Some (if Suc i < length qs then Some (link_data (links H ! (qs ! Suc i)), qs ! Suc i) else None))"
  using assms by (rule search_ok)

theorem my_hash_search_witness:
  "\<exists>q. my_hash_first ex_table ex_mem [4] 1 = Some (Some (4, q)) \<and> my_hash_next ex_table ex_mem [4] 1 q = Some None"
proof -
  have s: "{p. p < records ex_table \<and> hashcmp ex_table ex_mem (links ex_table ! p) (key_arg ex_table [4] 1) = 0} = {2}"
    by (auto simp: ex_links less3 hashcmp_def my_hash_key_def key_arg_def ex_coll_def ex_mem_def)
  obtain qs where qs: "distinct qs" "set qs = {2}"
      "my_hash_first ex_table ex_mem [4] 1 = Some (if qs = [] then None else Some (link_data (links ex_table ! hd qs), hd qs))"
      "\<forall>i<length qs. my_hash_next ex_table ex_mem [4] 1 (qs ! i) =
         Some (if Suc i < length qs then Some (link_data (links ex_table ! (qs ! Suc i)), qs ! Suc i) else None)"
    using my_hash_search_enumerates [OF ex_inv ex_respects, of "[4]" 1] unfolding s by blast
  have "qs = [2]" using qs(1,2) by (cases qs; cases "tl qs") auto
  then show ?thesis using qs(3,4) by (auto simp: ex_links)
qed

text \<open>
  C24: A table made by \<^verbatim>\<open>my_hash_init2\<close> implements a collection of records: any sequence of insertions and deletions
  returns, and the records of the table are those of the same sequence on multisets, where an
  insertion without memory or of a key that is there (in a table with unique keys) does nothing. The table passes
  the consistency check, and in a table with unique keys no two records have the same key. Hypotheses on the character
  set: comparing equal is symmetric, and keys that compare equal have equal hash numbers.
\<close>

theorem my_hash_run_refines:
  assumes "H0 = my_hash_init2 offset len get hf hash_sort coll free uniq" and "get \<noteq> None \<longrightarrow> len = 0" and "hash_respects H0"
    and "\<And>k k'. coll k k' = 0 \<Longrightarrow> coll k' k = 0" and "length xs < NO_RECORD"
  shows "\<exists>H. run_ops (\<lambda>H r slot. my_hash_insert H mem r slot) (\<lambda>H r. delete_result H mem r) xs H0 = Some H \<and> hash_inv H mem \<and>
    contents H = fold (spec_op (refuses H0 mem)) xs {#} \<and> clash_free (refuses H0 mem) (contents H) \<and> my_hash_check H mem = Some False"
proof -
  have i: "hash_inv H0 mem \<and> contents H0 = {#}" unfolding assms(1) using assms(2) by (rule init_inv)
  have "same_table H0 H0" using same_tableI [where H = H0 and l = "links H0" and n = "records H0" and b = "blength H0"] by simp
  then have t: "table_of H0 mem H0" using i assms(3) by (simp add: table_of_def)
  have "symp (refuses H0 mem)" 
  proof -
    have "strnncoll H0 = coll" by (simp add: assms(1) my_hash_init2_def)
    then show ?thesis using assms(4) by (auto simp: symp_def refuses_def key_in_def)
  qed
  moreover have "size (contents H0) + length xs \<le> NO_RECORD - 1" using i assms(5) by simp
  moreover have "clash_free (refuses H0 mem) (contents H0)" using i by (simp add: clash_free_def)
  ultimately obtain H where "run_ops (\<lambda>H r slot. my_hash_insert H mem r slot) (\<lambda>H r. delete_result H mem r) xs H0 = Some H"
      "table_of H0 mem H" "contents H = fold (spec_op (refuses H0 mem)) xs (contents H0)" "clash_free (refuses H0 mem) (contents H)"
    using ht.run_clash_free [OF _ t] by blast
  then show ?thesis using i check_ok by (auto simp: table_of_def)
qed

theorem my_hash_run_witness:
  "\<exists>H. run_ops (\<lambda>H r slot. my_hash_insert H ex_mem r slot) (\<lambda>H r. delete_result H ex_mem r)
        [Put 8 (Some ex_slot), Put 4 (Some ex_slot), Put 8 (Some ex_slot), Put 1 None, Put 1 (Some ex_slot), Del 8] ex_empty = Some H \<and>
      contents H = {#1, 4#}"
proof -
  have k: "refuses ex_empty ex_mem r r' \<longleftrightarrow> r' = r" if "r < 256" "r' < 256" for r r'
    using ex_key_in [OF that] by (simp add: refuses_def ex_table_def ex_empty_def key_in_def my_hash_key_def my_hash_init2_def)
  have resp: "hash_respects ex_empty" by (simp add: ex_empty_def my_hash_init2_def hash_respects_def ex_coll_def)
  have sym: "ex_coll b a = 0" if "ex_coll a b = 0" for a b using that by (auto simp: ex_coll_def split: if_splits)
  let ?xs = "[Put 8 (Some ex_slot), Put 4 (Some ex_slot), Put 8 (Some ex_slot), Put 1 None, Put 1 (Some ex_slot), Del 8]"
  have "fold (spec_op (refuses ex_empty ex_mem)) ?xs {#} = {#1, 4#}" by (simp add: k)
  then show ?thesis using my_hash_run_refines [OF ex_empty_def _ resp sym, where xs = ?xs and mem = ex_mem] by (auto simp: NO_RECORD_def)
qed

end
