(* ===== verification/Mdl_Types.thy ===== *)
theory Mdl_Types
  imports Mdb_Prelude
begin

text \<open>
  Metadata lock types, keys and compatibility matrices of \<^verbatim>\<open>sql/mdl.h\<close> and
  \<^verbatim>\<open>sql/mdl.cc\<close>. A lock type is its enum value: the object and scoped types and the
  backup types share the numbers 0 to 13, and the strategy of a lock says which meaning applies.
  A bitmap of types is a 16-bit word, as \<^verbatim>\<open>mdl_bitmap_t\<close> is. A key is the byte string
  the code builds from namespace, database and name.
\<close>

unbundle bit_operations_syntax

type_synonym mdl_bitmap_t = u16
type_synonym enum_mdl_type = nat

abbreviation (input) MDL_INTENTION_EXCLUSIVE :: enum_mdl_type where "MDL_INTENTION_EXCLUSIVE \<equiv> 0"
abbreviation (input) MDL_SHARED :: enum_mdl_type where "MDL_SHARED \<equiv> 1"
abbreviation (input) MDL_SHARED_HIGH_PRIO :: enum_mdl_type where "MDL_SHARED_HIGH_PRIO \<equiv> 2"
abbreviation (input) MDL_SHARED_READ :: enum_mdl_type where "MDL_SHARED_READ \<equiv> 3"
abbreviation (input) MDL_SHARED_WRITE :: enum_mdl_type where "MDL_SHARED_WRITE \<equiv> 4"
abbreviation (input) MDL_SHARED_UPGRADABLE :: enum_mdl_type where "MDL_SHARED_UPGRADABLE \<equiv> 5"
abbreviation (input) MDL_SHARED_READ_ONLY :: enum_mdl_type where "MDL_SHARED_READ_ONLY \<equiv> 6"
abbreviation (input) MDL_SHARED_NO_WRITE :: enum_mdl_type where "MDL_SHARED_NO_WRITE \<equiv> 7"
abbreviation (input) MDL_SHARED_NO_READ_WRITE :: enum_mdl_type where "MDL_SHARED_NO_READ_WRITE \<equiv> 8"
abbreviation (input) MDL_EXCLUSIVE :: enum_mdl_type where "MDL_EXCLUSIVE \<equiv> 9"
abbreviation (input) MDL_TYPE_END :: enum_mdl_type where "MDL_TYPE_END \<equiv> 10"

abbreviation (input) MDL_BACKUP_START :: enum_mdl_type where "MDL_BACKUP_START \<equiv> 0"
abbreviation (input) MDL_BACKUP_FLUSH :: enum_mdl_type where "MDL_BACKUP_FLUSH \<equiv> 1"
abbreviation (input) MDL_BACKUP_WAIT_FLUSH :: enum_mdl_type where "MDL_BACKUP_WAIT_FLUSH \<equiv> 2"
abbreviation (input) MDL_BACKUP_WAIT_DDL :: enum_mdl_type where "MDL_BACKUP_WAIT_DDL \<equiv> 3"
abbreviation (input) MDL_BACKUP_WAIT_COMMIT :: enum_mdl_type where "MDL_BACKUP_WAIT_COMMIT \<equiv> 4"
abbreviation (input) MDL_BACKUP_FTWRL1 :: enum_mdl_type where "MDL_BACKUP_FTWRL1 \<equiv> 5"
abbreviation (input) MDL_BACKUP_FTWRL2 :: enum_mdl_type where "MDL_BACKUP_FTWRL2 \<equiv> 6"
abbreviation (input) MDL_BACKUP_DML :: enum_mdl_type where "MDL_BACKUP_DML \<equiv> 7"
abbreviation (input) MDL_BACKUP_TRANS_DML :: enum_mdl_type where "MDL_BACKUP_TRANS_DML \<equiv> 8"
abbreviation (input) MDL_BACKUP_SYS_DML :: enum_mdl_type where "MDL_BACKUP_SYS_DML \<equiv> 9"
abbreviation (input) MDL_BACKUP_DDL :: enum_mdl_type where "MDL_BACKUP_DDL \<equiv> 10"
abbreviation (input) MDL_BACKUP_BLOCK_DDL :: enum_mdl_type where "MDL_BACKUP_BLOCK_DDL \<equiv> 11"
abbreviation (input) MDL_BACKUP_ALTER_COPY :: enum_mdl_type where "MDL_BACKUP_ALTER_COPY \<equiv> 12"
abbreviation (input) MDL_BACKUP_COMMIT :: enum_mdl_type where "MDL_BACKUP_COMMIT \<equiv> 13"
abbreviation (input) MDL_BACKUP_END :: enum_mdl_type where "MDL_BACKUP_END \<equiv> 14"

definition MDL_BIT :: "enum_mdl_type \<Rightarrow> mdl_bitmap_t" where
  "MDL_BIT a = push_bit a 1"

datatype enum_mdl_duration = MDL_STATEMENT | MDL_TRANSACTION | MDL_EXPLICIT

datatype enum_mdl_namespace =
  BACKUP | SCHEMA | TABLE | FUNCTION | PROCEDURE | PACKAGE_BODY | TRIGGER | EVENT | USER_LOCK

datatype MDL_lock_strategy = MDL_scoped_lock | MDL_object_lock | MDL_backup_lock

subsection \<open>Compatibility matrices\<close>

definition scoped_granted_incompatible :: "mdl_bitmap_t list" where
  "scoped_granted_incompatible =
     [MDL_BIT MDL_EXCLUSIVE OR MDL_BIT MDL_SHARED,
      MDL_BIT MDL_EXCLUSIVE OR MDL_BIT MDL_INTENTION_EXCLUSIVE,
      0, 0, 0, 0, 0, 0, 0,
      MDL_BIT MDL_EXCLUSIVE OR MDL_BIT MDL_SHARED OR MDL_BIT MDL_INTENTION_EXCLUSIVE]"

definition scoped_waiting_incompatible :: "mdl_bitmap_t list" where
  "scoped_waiting_incompatible =
     [MDL_BIT MDL_EXCLUSIVE OR MDL_BIT MDL_SHARED,
      MDL_BIT MDL_EXCLUSIVE, 0, 0, 0, 0, 0, 0, 0, 0]"

definition object_granted_incompatible :: "mdl_bitmap_t list" where
  "object_granted_incompatible =
     [0,
      MDL_BIT MDL_EXCLUSIVE,
      MDL_BIT MDL_EXCLUSIVE,
      MDL_BIT MDL_EXCLUSIVE OR MDL_BIT MDL_SHARED_NO_READ_WRITE,
      MDL_BIT MDL_EXCLUSIVE OR MDL_BIT MDL_SHARED_NO_READ_WRITE OR
        MDL_BIT MDL_SHARED_NO_WRITE OR MDL_BIT MDL_SHARED_READ_ONLY,
      MDL_BIT MDL_EXCLUSIVE OR MDL_BIT MDL_SHARED_NO_READ_WRITE OR
        MDL_BIT MDL_SHARED_NO_WRITE OR MDL_BIT MDL_SHARED_UPGRADABLE,
      MDL_BIT MDL_EXCLUSIVE OR MDL_BIT MDL_SHARED_NO_READ_WRITE OR
        MDL_BIT MDL_SHARED_WRITE,
      MDL_BIT MDL_EXCLUSIVE OR MDL_BIT MDL_SHARED_NO_READ_WRITE OR
        MDL_BIT MDL_SHARED_NO_WRITE OR MDL_BIT MDL_SHARED_UPGRADABLE OR
        MDL_BIT MDL_SHARED_WRITE,
      MDL_BIT MDL_EXCLUSIVE OR MDL_BIT MDL_SHARED_NO_READ_WRITE OR
        MDL_BIT MDL_SHARED_NO_WRITE OR MDL_BIT MDL_SHARED_READ_ONLY OR
        MDL_BIT MDL_SHARED_UPGRADABLE OR MDL_BIT MDL_SHARED_WRITE OR
        MDL_BIT MDL_SHARED_READ,
      MDL_BIT MDL_EXCLUSIVE OR MDL_BIT MDL_SHARED_NO_READ_WRITE OR
        MDL_BIT MDL_SHARED_NO_WRITE OR MDL_BIT MDL_SHARED_READ_ONLY OR
        MDL_BIT MDL_SHARED_UPGRADABLE OR MDL_BIT MDL_SHARED_WRITE OR
        MDL_BIT MDL_SHARED_READ OR MDL_BIT MDL_SHARED_HIGH_PRIO OR
        MDL_BIT MDL_SHARED]"

definition object_waiting_incompatible :: "mdl_bitmap_t list" where
  "object_waiting_incompatible =
     [0,
      MDL_BIT MDL_EXCLUSIVE,
      0,
      MDL_BIT MDL_EXCLUSIVE OR MDL_BIT MDL_SHARED_NO_READ_WRITE,
      MDL_BIT MDL_EXCLUSIVE OR MDL_BIT MDL_SHARED_NO_READ_WRITE OR
        MDL_BIT MDL_SHARED_NO_WRITE,
      MDL_BIT MDL_EXCLUSIVE,
      MDL_BIT MDL_EXCLUSIVE OR MDL_BIT MDL_SHARED_NO_READ_WRITE OR
        MDL_BIT MDL_SHARED_WRITE,
      MDL_BIT MDL_EXCLUSIVE,
      MDL_BIT MDL_EXCLUSIVE,
      0]"

definition backup_granted_incompatible :: "mdl_bitmap_t list" where
  "backup_granted_incompatible =
     [MDL_BIT MDL_BACKUP_START OR MDL_BIT MDL_BACKUP_FLUSH OR MDL_BIT MDL_BACKUP_WAIT_FLUSH OR
        MDL_BIT MDL_BACKUP_WAIT_DDL OR MDL_BIT MDL_BACKUP_WAIT_COMMIT OR MDL_BIT MDL_BACKUP_BLOCK_DDL,
      MDL_BIT MDL_BACKUP_START,
      MDL_BIT MDL_BACKUP_START OR MDL_BIT MDL_BACKUP_DML,
      MDL_BIT MDL_BACKUP_START OR MDL_BIT MDL_BACKUP_DML OR MDL_BIT MDL_BACKUP_DDL,
      MDL_BIT MDL_BACKUP_START OR MDL_BIT MDL_BACKUP_DML OR MDL_BIT MDL_BACKUP_SYS_DML OR
        MDL_BIT MDL_BACKUP_DDL OR MDL_BIT MDL_BACKUP_COMMIT,
      MDL_BIT MDL_BACKUP_DML OR MDL_BIT MDL_BACKUP_TRANS_DML OR MDL_BIT MDL_BACKUP_SYS_DML OR
        MDL_BIT MDL_BACKUP_DDL OR MDL_BIT MDL_BACKUP_ALTER_COPY,
      MDL_BIT MDL_BACKUP_DML OR MDL_BIT MDL_BACKUP_TRANS_DML OR MDL_BIT MDL_BACKUP_SYS_DML OR
        MDL_BIT MDL_BACKUP_DDL OR MDL_BIT MDL_BACKUP_ALTER_COPY OR MDL_BIT MDL_BACKUP_COMMIT,
      MDL_BIT MDL_BACKUP_FLUSH OR MDL_BIT MDL_BACKUP_WAIT_FLUSH OR MDL_BIT MDL_BACKUP_WAIT_DDL OR
        MDL_BIT MDL_BACKUP_WAIT_COMMIT OR MDL_BIT MDL_BACKUP_FTWRL1 OR MDL_BIT MDL_BACKUP_FTWRL2,
      MDL_BIT MDL_BACKUP_FTWRL1 OR MDL_BIT MDL_BACKUP_FTWRL2,
      MDL_BIT MDL_BACKUP_WAIT_COMMIT OR MDL_BIT MDL_BACKUP_FTWRL1 OR MDL_BIT MDL_BACKUP_FTWRL2,
      MDL_BIT MDL_BACKUP_WAIT_DDL OR MDL_BIT MDL_BACKUP_WAIT_COMMIT OR MDL_BIT MDL_BACKUP_FTWRL1 OR
        MDL_BIT MDL_BACKUP_FTWRL2 OR MDL_BIT MDL_BACKUP_BLOCK_DDL,
      MDL_BIT MDL_BACKUP_START OR MDL_BIT MDL_BACKUP_FLUSH OR MDL_BIT MDL_BACKUP_WAIT_FLUSH OR
        MDL_BIT MDL_BACKUP_WAIT_DDL OR MDL_BIT MDL_BACKUP_WAIT_COMMIT OR
        MDL_BIT MDL_BACKUP_BLOCK_DDL OR MDL_BIT MDL_BACKUP_DDL,
      MDL_BIT MDL_BACKUP_FTWRL1 OR MDL_BIT MDL_BACKUP_FTWRL2,
      MDL_BIT MDL_BACKUP_WAIT_COMMIT OR MDL_BIT MDL_BACKUP_FTWRL2]"

definition backup_waiting_incompatible :: "mdl_bitmap_t list" where
  "backup_waiting_incompatible =
     [MDL_BIT MDL_BACKUP_FLUSH OR MDL_BIT MDL_BACKUP_WAIT_FLUSH OR MDL_BIT MDL_BACKUP_WAIT_DDL OR
        MDL_BIT MDL_BACKUP_WAIT_COMMIT OR MDL_BIT MDL_BACKUP_BLOCK_DDL,
      0, 0, 0, 0, 0, 0,
      MDL_BIT MDL_BACKUP_FLUSH OR MDL_BIT MDL_BACKUP_WAIT_FLUSH OR MDL_BIT MDL_BACKUP_WAIT_DDL OR
        MDL_BIT MDL_BACKUP_WAIT_COMMIT OR MDL_BIT MDL_BACKUP_FTWRL1 OR MDL_BIT MDL_BACKUP_FTWRL2,
      MDL_BIT MDL_BACKUP_FTWRL1 OR MDL_BIT MDL_BACKUP_FTWRL2,
      MDL_BIT MDL_BACKUP_WAIT_COMMIT OR MDL_BIT MDL_BACKUP_FTWRL1 OR MDL_BIT MDL_BACKUP_FTWRL2,
      MDL_BIT MDL_BACKUP_WAIT_DDL OR MDL_BIT MDL_BACKUP_WAIT_COMMIT OR MDL_BIT MDL_BACKUP_FTWRL1 OR
        MDL_BIT MDL_BACKUP_FTWRL2 OR MDL_BIT MDL_BACKUP_BLOCK_DDL,
      MDL_BIT MDL_BACKUP_START,
      MDL_BIT MDL_BACKUP_FTWRL1 OR MDL_BIT MDL_BACKUP_FTWRL2,
      MDL_BIT MDL_BACKUP_WAIT_COMMIT OR MDL_BIT MDL_BACKUP_FTWRL2]"

subsection \<open>Strategies\<close>

fun incompatible_granted_types_bitmap :: "MDL_lock_strategy \<Rightarrow> mdl_bitmap_t list" where
  "incompatible_granted_types_bitmap MDL_scoped_lock = scoped_granted_incompatible"
| "incompatible_granted_types_bitmap MDL_object_lock = object_granted_incompatible"
| "incompatible_granted_types_bitmap MDL_backup_lock = backup_granted_incompatible"

fun incompatible_waiting_types_bitmap :: "MDL_lock_strategy \<Rightarrow> mdl_bitmap_t list" where
  "incompatible_waiting_types_bitmap MDL_scoped_lock = scoped_waiting_incompatible"
| "incompatible_waiting_types_bitmap MDL_object_lock = object_waiting_incompatible"
| "incompatible_waiting_types_bitmap MDL_backup_lock = backup_waiting_incompatible"

fun needs_notification :: "MDL_lock_strategy \<Rightarrow> enum_mdl_type \<Rightarrow> bool" where
  "needs_notification MDL_scoped_lock t \<longleftrightarrow> t = MDL_SHARED"
| "needs_notification MDL_object_lock t \<longleftrightarrow>
     MDL_BIT t AND (MDL_BIT MDL_SHARED_NO_WRITE OR MDL_BIT MDL_SHARED_NO_READ_WRITE OR
                    MDL_BIT MDL_EXCLUSIVE) \<noteq> 0"
| "needs_notification MDL_backup_lock t \<longleftrightarrow> MDL_BIT t AND MDL_BIT MDL_BACKUP_FTWRL1 \<noteq> 0"

fun conflicting_locks :: "MDL_lock_strategy \<Rightarrow> enum_mdl_type \<Rightarrow> bool" where
  "conflicting_locks MDL_scoped_lock t \<longleftrightarrow> t = MDL_INTENTION_EXCLUSIVE"
| "conflicting_locks MDL_object_lock t \<longleftrightarrow> t < MDL_SHARED_UPGRADABLE"
| "conflicting_locks MDL_backup_lock t \<longleftrightarrow>
     MDL_BIT t AND (MDL_BIT MDL_BACKUP_DML OR MDL_BIT MDL_BACKUP_TRANS_DML) \<noteq> 0"

fun hog_lock_types_bitmap :: "MDL_lock_strategy \<Rightarrow> mdl_bitmap_t" where
  "hog_lock_types_bitmap MDL_scoped_lock = 0"
| "hog_lock_types_bitmap MDL_object_lock =
     MDL_BIT MDL_SHARED_NO_WRITE OR MDL_BIT MDL_SHARED_NO_READ_WRITE OR MDL_BIT MDL_EXCLUSIVE"
| "hog_lock_types_bitmap MDL_backup_lock = 0"

text \<open>The number of lock types a strategy has, the length of its arrays.\<close>

fun type_end :: "MDL_lock_strategy \<Rightarrow> nat" where
  "type_end MDL_scoped_lock = MDL_TYPE_END"
| "type_end MDL_object_lock = MDL_TYPE_END"
| "type_end MDL_backup_lock = MDL_BACKUP_END"

text \<open>
  The tests of \<^verbatim>\<open>MDL_ticket\<close> on its type and the strategy of its lock: the ticket's type
  is \<open>held\<close>, the other type is \<open>t\<close>.
\<close>

definition is_incompatible_when_granted :: "MDL_lock_strategy \<Rightarrow> enum_mdl_type \<Rightarrow> enum_mdl_type \<Rightarrow> bool" where
  "is_incompatible_when_granted s held t \<longleftrightarrow>
     MDL_BIT held AND (incompatible_granted_types_bitmap s ! t) \<noteq> 0"

definition is_incompatible_when_waiting :: "MDL_lock_strategy \<Rightarrow> enum_mdl_type \<Rightarrow> enum_mdl_type \<Rightarrow> bool" where
  "is_incompatible_when_waiting s held t \<longleftrightarrow>
     MDL_BIT held AND (incompatible_waiting_types_bitmap s ! t) \<noteq> 0"

definition has_stronger_or_equal_type :: "MDL_lock_strategy \<Rightarrow> enum_mdl_type \<Rightarrow> enum_mdl_type \<Rightarrow> bool" where
  "has_stronger_or_equal_type s held t \<longleftrightarrow>
     \<not> (incompatible_granted_types_bitmap s ! t AND NOT (incompatible_granted_types_bitmap s ! held) \<noteq> 0)"

definition is_upgradable_or_exclusive :: "enum_mdl_type \<Rightarrow> bool" where
  "is_upgradable_or_exclusive t \<longleftrightarrow>
     t = MDL_SHARED_UPGRADABLE \<or> t = MDL_SHARED_NO_WRITE \<or>
     t = MDL_SHARED_NO_READ_WRITE \<or> t = MDL_EXCLUSIVE"

subsection \<open>Bits\<close>

lemma bit_MDL_BIT [simp]: "bit (MDL_BIT a) n \<longleftrightarrow> n = a \<and> a < 16"
  by (auto simp: MDL_BIT_def bit_simps)

lemma bit_u16: "bit w n \<Longrightarrow> n < 16" for w :: u16
  using bit_imp_le_length [of w n] by simp

lemma and_eq_0_iff: "v AND w \<noteq> 0 \<longleftrightarrow> (\<exists>n. bit v n \<and> bit w n)"
  for v w :: u16
  using bit_u16 by (auto simp: bit_eq_iff bit_simps)

lemma MDL_BIT_and [simp]: "MDL_BIT a AND w = 0 \<longleftrightarrow> \<not> bit w a"
  for w :: u16
  using and_eq_0_iff [of "MDL_BIT a" w] bit_u16 [of w a] by auto

lemma MDL_BIT_and' [simp]: "w AND MDL_BIT a = 0 \<longleftrightarrow> \<not> bit w a"
  for w :: u16
  by (subst and.commute) simp

lemma is_incompatible_when_granted_bit:
  "is_incompatible_when_granted s held t \<longleftrightarrow> bit (incompatible_granted_types_bitmap s ! t) held"
  unfolding is_incompatible_when_granted_def by simp

lemma is_incompatible_when_waiting_bit:
  "is_incompatible_when_waiting s held t \<longleftrightarrow> bit (incompatible_waiting_types_bitmap s ! t) held"
  unfolding is_incompatible_when_waiting_def by simp

lemma has_stronger_or_equal_type_iff:
  "has_stronger_or_equal_type s held t \<longleftrightarrow>
     (\<forall>u. is_incompatible_when_granted s u t \<longrightarrow> is_incompatible_when_granted s u held)"
  unfolding has_stronger_or_equal_type_def and_eq_0_iff is_incompatible_when_granted_bit
  using bit_u16 [of "incompatible_granted_types_bitmap s ! t"] by (auto simp: bit_simps)

subsection \<open>The matrices as numbers, for evaluation\<close>

lemma scoped_granted_eval [code]:
  "scoped_granted_incompatible = [514, 513, 0, 0, 0, 0, 0, 0, 0, 515]"
  by (simp add: scoped_granted_incompatible_def MDL_BIT_def)

lemma scoped_waiting_eval [code]:
  "scoped_waiting_incompatible = [514, 512, 0, 0, 0, 0, 0, 0, 0, 0]"
  by (simp add: scoped_waiting_incompatible_def MDL_BIT_def)

lemma object_granted_eval [code]:
  "object_granted_incompatible = [0, 512, 512, 768, 960, 928, 784, 944, 1016, 1022]"
  by (simp add: object_granted_incompatible_def MDL_BIT_def)

lemma object_waiting_eval [code]:
  "object_waiting_incompatible = [0, 512, 0, 768, 896, 512, 784, 512, 512, 0]"
  by (simp add: object_waiting_incompatible_def MDL_BIT_def)

lemma backup_granted_eval [code]:
  "backup_granted_incompatible = [2079, 1, 129, 1153, 9857, 6016, 14208, 126, 96, 112, 2168, 3103, 96, 80]"
  by (simp add: backup_granted_incompatible_def MDL_BIT_def)

lemma backup_waiting_eval [code]:
  "backup_waiting_incompatible = [2078, 0, 0, 0, 0, 0, 0, 126, 96, 112, 2168, 1, 96, 80]"
  by (simp add: backup_waiting_incompatible_def MDL_BIT_def)

subsection \<open>Facts read off the matrices\<close>

text \<open>
  Two types conflict when neither may be granted beside the other. For the scoped and object
  strategies this is plain incompatibility, since their matrices are symmetric; the backup matrix
  is not, so there the two directions differ.
\<close>

definition conflicting :: "MDL_lock_strategy \<Rightarrow> enum_mdl_type \<Rightarrow> enum_mdl_type \<Rightarrow> bool" where
  "conflicting s a b \<longleftrightarrow> is_incompatible_when_granted s a b \<and> is_incompatible_when_granted s b a"

lemma conflicting_sym: "conflicting s a b \<longleftrightarrow> conflicting s b a"
  by (auto simp: conflicting_def)

lemma all_strategies:
  assumes "P MDL_scoped_lock" "P MDL_object_lock" "P MDL_backup_lock"
  shows "P s"
  using assms by (cases s) auto

lemma type_end_le: "type_end s \<le> 14"
  by (cases s) auto

lemma ball_upt: "(\<forall>a\<in>set [0..<n]. P a) \<longleftrightarrow> (\<forall>a<n. P a)"
  by auto

lemma granted_row_bits:
  assumes "t < type_end s" "is_incompatible_when_granted s u t"
  shows "u < type_end s"
proof -
  have "\<forall>t\<in>set [0..<type_end s]. \<forall>u\<in>set [0..<16].
      is_incompatible_when_granted s u t \<longrightarrow> u < type_end s"
    by (rule all_strategies [of _ s]) code_simp+
  then show ?thesis
    using assms bit_u16 [of _ u] by (auto simp: is_incompatible_when_granted_bit)
qed

lemma granted_symmetric:
  assumes "s \<noteq> MDL_backup_lock" "a < type_end s" "b < type_end s"
  shows "is_incompatible_when_granted s a b \<longleftrightarrow> is_incompatible_when_granted s b a"
proof -
  have "\<forall>a\<in>set [0..<type_end s]. \<forall>b\<in>set [0..<type_end s].
      s \<noteq> MDL_backup_lock \<longrightarrow> (is_incompatible_when_granted s a b \<longleftrightarrow> is_incompatible_when_granted s b a)"
    by (rule all_strategies [of _ s]) code_simp+
  then show ?thesis using assms unfolding ball_upt by blast
qed

lemma conflicting_symmetric:
  assumes "s \<noteq> MDL_backup_lock" "a < type_end s" "b < type_end s"
  shows "conflicting s a b \<longleftrightarrow> is_incompatible_when_granted s a b"
  using granted_symmetric [OF assms] by (auto simp: conflicting_def)

lemma waiting_imp_granted:
  assumes "is_incompatible_when_waiting s u t" "t < type_end s"
  shows "is_incompatible_when_granted s u t"
proof -
  have "\<forall>t\<in>set [0..<type_end s]. \<forall>u\<in>set [0..<16].
      is_incompatible_when_waiting s u t \<longrightarrow> is_incompatible_when_granted s u t"
    by (rule all_strategies [of _ s]) code_simp+
  moreover have "u < 16" using assms(1) bit_u16 by (auto simp: is_incompatible_when_waiting_bit)
  ultimately show ?thesis using assms unfolding ball_upt by blast
qed

lemma waiting_irrefl:
  assumes "t < type_end s"
  shows "\<not> is_incompatible_when_waiting s t t"
proof -
  have "\<forall>t\<in>set [0..<type_end s]. \<not> is_incompatible_when_waiting s t t"
    by (rule all_strategies [of _ s]) code_simp+
  then show ?thesis using assms unfolding ball_upt by blast
qed

text \<open>
  A stronger type excludes whatever a weaker one excludes, in both directions, but for
  \<^verbatim>\<open>MDL_BACKUP_BLOCK_DDL\<close>: it counts as stronger than \<^verbatim>\<open>MDL_BACKUP_START\<close>, and yet
  \<^verbatim>\<open>MDL_BACKUP_FLUSH\<close> and the later stages are granted beside it.
\<close>

definition weaker_ok :: "MDL_lock_strategy \<Rightarrow> enum_mdl_type \<Rightarrow> enum_mdl_type \<Rightarrow> bool" where
  "weaker_ok s held t \<longleftrightarrow>
     \<not> (s = MDL_backup_lock \<and> held = MDL_BACKUP_BLOCK_DDL \<and> t = MDL_BACKUP_START)"

lemma stronger_conflicting_backup:
  "\<forall>held\<in>set [0..<14]. \<forall>t\<in>set [0..<14].
     if has_stronger_or_equal_type MDL_backup_lock held t
     then if weaker_ok MDL_backup_lock held t
          then \<forall>u\<in>set [0..<14]. if conflicting MDL_backup_lock t u
                 then conflicting MDL_backup_lock held u else True
          else True
     else True"
  by code_simp

lemma stronger_conflicting:
  assumes "has_stronger_or_equal_type s held t" "weaker_ok s held t" "conflicting s t u"
    "held < type_end s" "t < type_end s" "u < type_end s"
  shows "conflicting s held u"
proof (cases "s = MDL_backup_lock")
  case True
  then show ?thesis
    using assms stronger_conflicting_backup [unfolded ball_upt, rule_format, of held t]
    by (auto split: if_splits)
next
  case False
  then have "is_incompatible_when_granted s u t" using assms(3) by (auto simp: conflicting_def)
  then have "is_incompatible_when_granted s u held"
    using assms(1) by (auto simp: has_stronger_or_equal_type_iff)
  then show ?thesis using False assms granted_symmetric by (auto simp: conflicting_def)
qed

lemma upgradable_exclusive:
  assumes "is_upgradable_or_exclusive a" "is_upgradable_or_exclusive b"
  shows "is_incompatible_when_granted MDL_object_lock a b"
proof -
  have "\<forall>a\<in>set [0..<10]. \<forall>b\<in>set [0..<10]. is_upgradable_or_exclusive a \<longrightarrow>
      is_upgradable_or_exclusive b \<longrightarrow> is_incompatible_when_granted MDL_object_lock a b"
    by code_simp
  moreover have "a < 10" "b < 10" using assms by (auto simp: is_upgradable_or_exclusive_def)
  ultimately show ?thesis using assms unfolding ball_upt by blast
qed

end
