(* ===== verification/Mdl_Key.thy ===== *)
theory Mdl_Key
  imports Mdl_Types
begin

text \<open>
  \<^verbatim>\<open>MDL_key\<close> of \<^verbatim>\<open>sql/mdl.h\<close>: the byte string by which metadata locks are
  found and ordered. The buffer is modelled up to \<open>m_length\<close>, the bytes behind it are never read.
  The hash value, computed by the character set library, is left out.
\<close>

record MDL_key =
  m_length :: u16
  m_db_name_length :: u16
  m_ptr :: string

abbreviation NUL :: char where "NUL \<equiv> CHR 0x00"

definition NAME_LEN :: nat where
  "NAME_LEN = 64 * 3"

fun namespace_value :: "enum_mdl_namespace \<Rightarrow> nat" where
  "namespace_value BACKUP = 0"
| "namespace_value SCHEMA = 1"
| "namespace_value TABLE = 2"
| "namespace_value FUNCTION = 3"
| "namespace_value PROCEDURE = 4"
| "namespace_value PACKAGE_BODY = 5"
| "namespace_value TRIGGER = 6"
| "namespace_value EVENT = 7"
| "namespace_value USER_LOCK = 8"

definition namespaces :: "enum_mdl_namespace list" where
  "namespaces = [BACKUP, SCHEMA, TABLE, FUNCTION, PROCEDURE, PACKAGE_BODY, TRIGGER, EVENT, USER_LOCK]"

text \<open>
  \<^verbatim>\<open>strmake()\<close> copies up to the terminating zero or \<open>length\<close> characters and appends a
  zero; its result points to that zero. A C string is a list of non-zero characters.
\<close>

definition strmake :: "string \<Rightarrow> nat \<Rightarrow> string" where
  "strmake src len = take len src"

definition mdl_key_init :: "enum_mdl_namespace \<Rightarrow> string \<Rightarrow> string \<Rightarrow> MDL_key" where
  "mdl_key_init ns db nm =
     (let d = strmake db NAME_LEN; n = strmake nm NAME_LEN in
      \<lparr>m_length = of_nat (length d + 2 + length n + 1),
       m_db_name_length = of_nat (length d),
       m_ptr = char_of (namespace_value ns) # d @ [NUL] @ n @ [NUL]\<rparr>)"

definition mdl_namespace :: "MDL_key \<Rightarrow> enum_mdl_namespace" where
  "mdl_namespace k = namespaces ! of_char (hd (m_ptr k))"

definition db_name :: "MDL_key \<Rightarrow> string" where
  "db_name k = take (unat (m_db_name_length k)) (drop 1 (m_ptr k))"

definition name_length :: "MDL_key \<Rightarrow> nat" where
  "name_length k = unat (m_length k) - unat (m_db_name_length k) - 3"

definition key_name :: "MDL_key \<Rightarrow> string" where
  "key_name k = take (name_length k) (drop (unat (m_db_name_length k) + 2) (m_ptr k))"

fun memcmp :: "string \<Rightarrow> string \<Rightarrow> nat \<Rightarrow> int" where
  "memcmp (x # xs) (y # ys) (Suc n) =
     (if x = y then memcmp xs ys n else int (of_char x) - int (of_char y))"
| "memcmp _ _ _ = 0"

definition is_equal :: "MDL_key \<Rightarrow> MDL_key \<Rightarrow> bool" where
  "is_equal k rhs \<longleftrightarrow>
     m_length k = m_length rhs \<and> memcmp (m_ptr k) (m_ptr rhs) (unat (m_length k)) = 0"

definition key_cmp :: "MDL_key \<Rightarrow> MDL_key \<Rightarrow> int" where
  "key_cmp k rhs =
     memcmp (m_ptr k) (m_ptr rhs) (min (unat (m_length k)) (unat (m_length rhs)))"

subsection \<open>Well-formed names\<close>

definition ident_ok :: "string \<Rightarrow> bool" where
  "ident_ok s \<longleftrightarrow> NUL \<notin> set s \<and> length s \<le> NAME_LEN"

lemma mdl_key_init_ok:
  assumes "ident_ok db" "ident_ok nm"
  shows "m_ptr (mdl_key_init ns db nm) = char_of (namespace_value ns) # db @ [NUL] @ nm @ [NUL]"
    and "unat (m_db_name_length (mdl_key_init ns db nm)) = length db"
    and "unat (m_length (mdl_key_init ns db nm)) = length db + length nm + 3"
proof -
  have "length db + length nm + 3 < 2 ^ 16" "length db < 2 ^ 16"
    using assms by (auto simp: ident_ok_def NAME_LEN_def)
  then show "m_ptr (mdl_key_init ns db nm) = char_of (namespace_value ns) # db @ [NUL] @ nm @ [NUL]"
    "unat (m_db_name_length (mdl_key_init ns db nm)) = length db"
    "unat (m_length (mdl_key_init ns db nm)) = length db + length nm + 3"
    using assms
    by (simp_all add: mdl_key_init_def strmake_def ident_ok_def unsigned_of_nat take_bit_nat_eq_self
        Let_def del: of_nat_add of_nat_Suc)
qed

lemma namespace_value_inj: "namespace_value a = namespace_value b \<longleftrightarrow> a = b"
  by (cases a; cases b) auto

lemma namespace_value_lt: "namespace_value a < 9"
  by (cases a) auto

lemma namespace_char: "of_char (char_of (namespace_value a) :: char) = namespace_value a"
  using namespace_value_lt [of a] by (simp add: of_char_of)

lemma namespaces_nth: "namespaces ! namespace_value a = a"
  by (cases a) (auto simp: namespaces_def)

lemma memcmp_refl [simp]: "memcmp xs xs n = 0"
proof (induction xs arbitrary: n)
  case (Cons x xs)
  then show ?case by (cases n) auto
qed simp

lemma memcmp_eq_0: "memcmp xs ys n = 0 \<longleftrightarrow> n \<le> length xs \<and> n \<le> length ys \<longrightarrow> take n xs = take n ys"
  if "n \<le> length xs" "n \<le> length ys"
  using that by (induction xs ys n rule: memcmp.induct) auto

lemma memcmp_lt:
  assumes "n \<le> length xs" "n \<le> length ys"
  shows "memcmp xs ys n < 0 \<longleftrightarrow>
    (\<exists>i<n. take i xs = take i ys \<and> (of_char (xs ! i) :: nat) < of_char (ys ! i))"
  using assms
proof (induction xs ys n rule: memcmp.induct)
  case (1 x xs y ys n)
  then show ?case by (auto simp: Ex_less_Suc2)
qed auto

lemma split_at_NUL:
  "NUL \<notin> set xs \<Longrightarrow> NUL \<notin> set ys \<Longrightarrow> xs @ NUL # zs = ys @ NUL # ws \<longleftrightarrow> xs = ys \<and> zs = ws"
  by (induction xs arbitrary: ys) (case_tac ys; auto)+

text \<open>No key is a proper prefix of another one, because each ends in its second zero byte.\<close>

lemma key_prefix_free:
  assumes "ident_ok db" "ident_ok nm" "ident_ok db'" "ident_ok nm'"
    and "take (length q) p = q"
    and p: "p = m_ptr (mdl_key_init ns db nm)" and q: "q = m_ptr (mdl_key_init ns' db' nm')"
  shows "ns = ns' \<and> db = db' \<and> nm = nm'"
proof -
  obtain r where "p = q @ r" using assms(5) by (metis append_take_drop_id)
  then have "char_of (namespace_value ns) # db @ NUL # nm @ [NUL] =
      (char_of (namespace_value ns') :: char) # db' @ NUL # (nm' @ NUL # r)"
    using mdl_key_init_ok(1) assms(1-4) p q by simp
  then have "char_of (namespace_value ns) = (char_of (namespace_value ns') :: char)"
    and *: "db @ NUL # nm @ [NUL] = db' @ NUL # (nm' @ NUL # r)"
    by (simp_all only: list.inject)
  moreover have "db = db'" "nm @ NUL # [] = nm' @ NUL # r"
    using * split_at_NUL assms(1-4) by (auto simp: ident_ok_def)
  moreover from this have "nm = nm'"
    using split_at_NUL assms(1-4) by (auto simp: ident_ok_def)
  ultimately show ?thesis
    using namespace_char namespace_value_inj by metis
qed

lemma length_m_ptr:
  "ident_ok db \<Longrightarrow> ident_ok nm \<Longrightarrow>
   length (m_ptr (mdl_key_init ns db nm)) = unat (m_length (mdl_key_init ns db nm))"
  by (simp add: mdl_key_init_ok)

lemma memcmp_antisym:
  "n \<le> length xs \<Longrightarrow> n \<le> length ys \<Longrightarrow> memcmp ys xs n = - memcmp xs ys n"
  by (induction xs ys n rule: memcmp.induct) auto

lemma take_eq_nth: "take n xs = take n ys \<Longrightarrow> i < n \<Longrightarrow> xs ! i = ys ! i"
  by (metis nth_take)

lemma take_eq_mono: "take n xs = take n ys \<Longrightarrow> i \<le> n \<Longrightarrow> take i xs = take i ys"
  by (metis min_absorb1 take_take)

lemma memcmp_trans:
  assumes "memcmp xs ys (min (length xs) (length ys)) < 0"
    and "memcmp ys zs (min (length ys) (length zs)) < 0"
  shows "memcmp xs zs (min (length xs) (length zs)) < 0"
proof -
  obtain i where i: "i < length xs" "i < length ys" "take i xs = take i ys"
    "(of_char (xs ! i) :: nat) < of_char (ys ! i)"
    using assms(1) by (auto simp: memcmp_lt)
  obtain j where j: "j < length ys" "j < length zs" "take j ys = take j zs"
    "(of_char (ys ! j) :: nat) < of_char (zs ! j)"
    using assms(2) by (auto simp: memcmp_lt)
  have "take (min i j) xs = take (min i j) zs"
    using take_eq_mono [OF i(3), of "min i j"] take_eq_mono [OF j(3), of "min i j"] by simp
  moreover have "(of_char (xs ! min i j) :: nat) < of_char (zs ! min i j)"
    using i j take_eq_nth [OF i(3)] take_eq_nth [OF j(3)] by (cases i j rule: linorder_cases) auto
  moreover have "min i j < length xs" "min i j < length zs"
    using i j by auto
  ultimately show ?thesis by (auto simp: memcmp_lt intro!: exI [of _ "min i j"])
qed

lemma key_cmp_eq_0:
  assumes "ident_ok db" "ident_ok nm" "ident_ok db'" "ident_ok nm'"
  shows "key_cmp (mdl_key_init ns db nm) (mdl_key_init ns' db' nm') = 0 \<longleftrightarrow>
    ns = ns' \<and> db = db' \<and> nm = nm'"
proof -
  let ?k = "mdl_key_init ns db nm" and ?l = "mdl_key_init ns' db' nm'"
  have eq: "key_cmp ?k ?l = 0 \<longleftrightarrow>
      take (min (length (m_ptr ?k)) (length (m_ptr ?l))) (m_ptr ?k) =
      take (min (length (m_ptr ?k)) (length (m_ptr ?l))) (m_ptr ?l)"
    unfolding key_cmp_def length_m_ptr [OF assms(1,2), symmetric] length_m_ptr [OF assms(3,4), symmetric]
    by (simp add: memcmp_eq_0)
  show ?thesis
  proof
    assume "key_cmp ?k ?l = 0"
    then consider "take (length (m_ptr ?l)) (m_ptr ?k) = m_ptr ?l" | "take (length (m_ptr ?k)) (m_ptr ?l) = m_ptr ?k"
      unfolding eq by (auto simp: min_def split: if_splits)
    then show "ns = ns' \<and> db = db' \<and> nm = nm'"
      using key_prefix_free [OF assms _ refl refl] key_prefix_free [OF assms(3,4,1,2) _ refl refl] by metis
  qed (simp add: key_cmp_def)
qed

text \<open>
  C36: a key determines the namespace, database and object it was built from, the 16-bit lengths
  do not wrap, and equality of keys, a zero comparison and equality of the three parts are the
  same thing, although \<^verbatim>\<open>cmp()\<close> looks at the common length only.
\<close>

theorem mdl_key_identity:
  fixes ns ns' :: enum_mdl_namespace and db nm db' nm' :: string
  assumes "ident_ok db" "ident_ok nm" "ident_ok db'" "ident_ok nm'"
  defines "k \<equiv> mdl_key_init ns db nm" and "l \<equiv> mdl_key_init ns' db' nm'"
  shows "mdl_namespace k = ns \<and> db_name k = db \<and> key_name k = nm \<and>
    unat (m_length k) = length (m_ptr k) \<and>
    (is_equal k l \<longleftrightarrow> (ns, db, nm) = (ns', db', nm')) \<and>
    (key_cmp k l = 0 \<longleftrightarrow> (ns, db, nm) = (ns', db', nm'))"
proof (intro conjI)
  show "mdl_namespace k = ns" "db_name k = db" "key_name k = nm" "unat (m_length k) = length (m_ptr k)"
    using mdl_key_init_ok [OF assms(1,2)]
    by (simp_all add: k_def mdl_namespace_def db_name_def key_name_def name_length_def
        namespace_char namespaces_nth del: of_char_of)
  show z: "key_cmp k l = 0 \<longleftrightarrow> (ns, db, nm) = (ns', db', nm')"
    using key_cmp_eq_0 [OF assms(1-4)] by (simp add: k_def l_def)
  have "is_equal k l \<Longrightarrow> key_cmp k l = 0"
    by (auto simp: is_equal_def key_cmp_def)
  then show "is_equal k l \<longleftrightarrow> (ns, db, nm) = (ns', db', nm')"
    using z by (auto simp: is_equal_def k_def l_def memcmp_eq_0 length_m_ptr [OF assms(1,2)])
qed

theorem mdl_key_identity_witness:
  "mdl_namespace (mdl_key_init TABLE ''test'' ''t1'') = TABLE \<and>
   \<not> is_equal (mdl_key_init TABLE ''test'' ''t1'') (mdl_key_init TABLE ''test'' ''t12'')"
  using mdl_key_identity [of "''test''" "''t1''" "''test''" "''t12''" TABLE TABLE]
  by (simp add: ident_ok_def NAME_LEN_def)

text \<open>
  \<^verbatim>\<open>MDL_key::cmp()\<close>, by which \<^verbatim>\<open>acquire_locks()\<close> sorts its requests, is
  a strict total order on keys.
\<close>

lemma key_cmp_order:
  fixes s1 s2 s3 :: enum_mdl_namespace and d1 n1 d2 n2 d3 n3 :: string
  assumes "ident_ok d1" "ident_ok n1" "ident_ok d2" "ident_ok n2" "ident_ok d3" "ident_ok n3"
  defines "a \<equiv> mdl_key_init s1 d1 n1" and "b \<equiv> mdl_key_init s2 d2 n2" and "c \<equiv> mdl_key_init s3 d3 n3"
  shows "key_cmp b a = - key_cmp a b \<and>
    (key_cmp a b < 0 \<longrightarrow> key_cmp b c < 0 \<longrightarrow> key_cmp a c < 0) \<and>
    (a \<noteq> b \<longrightarrow> key_cmp a b < 0 \<or> key_cmp b a < 0)"
proof (intro conjI impI)
  have len: "unat (m_length a) = length (m_ptr a)" "unat (m_length b) = length (m_ptr b)"
    "unat (m_length c) = length (m_ptr c)"
    using length_m_ptr assms(1-6) by (simp_all add: a_def b_def c_def)
  show anti: "key_cmp b a = - key_cmp a b"
    using memcmp_antisym [of "min (length (m_ptr a)) (length (m_ptr b))" "m_ptr a" "m_ptr b"]
    by (simp add: key_cmp_def len min.commute)
  show "key_cmp a c < 0" if "key_cmp a b < 0" "key_cmp b c < 0"
    using that memcmp_trans [of "m_ptr a" "m_ptr b" "m_ptr c"] by (simp add: key_cmp_def len)
  show "key_cmp a b < 0 \<or> key_cmp b a < 0" if "a \<noteq> b"
  proof -
    have "key_cmp a b \<noteq> 0"
      using that key_cmp_eq_0 [OF assms(1-4)] by (auto simp: a_def b_def)
    with anti show ?thesis by linarith
  qed
qed

end
