(* ===== verification/Mdl_Ticket_List.thy ===== *)
theory Mdl_Ticket_List
  imports Mdl_Types
begin

text \<open>
  Tickets and the class \<^verbatim>\<open>MDL_lock::Ticket_list\<close> of \<^verbatim>\<open>sql/mdl.cc\<close>: a list of
  tickets with a bitmap of the types in it, kept up to date by a counter per type. Tickets are
  addresses; their contents are in a store \<open>tk\<close>. The counters are 32-bit words, as in the code.
\<close>

type_synonym ticket = nat
type_synonym context_id = nat

record MDL_ticket =
  m_type :: enum_mdl_type
  m_ctx :: context_id
  m_lock :: string
  m_fast_lane :: "nat option"

type_synonym ticket_store = "ticket \<Rightarrow> MDL_ticket"

record Ticket_list =
  m_list :: "ticket list"
  m_bitmap :: mdl_bitmap_t
  m_type_counters :: "enum_mdl_type \<Rightarrow> u32"

definition Ticket_list_init :: Ticket_list where
  "Ticket_list_init = \<lparr>m_list = [], m_bitmap = 0, m_type_counters = (\<lambda>_. 0)\<rparr>"

definition add_ticket :: "ticket_store \<Rightarrow> Ticket_list \<Rightarrow> ticket \<Rightarrow> Ticket_list" where
  "add_ticket tk l t =
     (let ty = m_type (tk t) in
      l\<lparr>m_list := m_list l @ [t],
        m_bitmap := m_bitmap l OR MDL_BIT ty,
        m_type_counters := (m_type_counters l)(ty := m_type_counters l ty + 1)\<rparr>)"

definition remove_ticket :: "ticket_store \<Rightarrow> Ticket_list \<Rightarrow> ticket \<Rightarrow> Ticket_list" where
  "remove_ticket tk l t =
     (let ty = m_type (tk t); c = m_type_counters l ty - 1 in
      l\<lparr>m_list := remove1 t (m_list l),
        m_bitmap := (if c = 0 then m_bitmap l AND NOT (MDL_BIT ty) else m_bitmap l),
        m_type_counters := (m_type_counters l)(ty := c)\<rparr>)"

definition tl_is_empty :: "Ticket_list \<Rightarrow> bool" where
  "tl_is_empty l \<longleftrightarrow> m_list l = []"

lemmas ticket_list_defs = add_ticket_def remove_ticket_def Ticket_list_init_def tl_is_empty_def

subsection \<open>Invariant\<close>

definition count_type :: "ticket_store \<Rightarrow> ticket list \<Rightarrow> enum_mdl_type \<Rightarrow> nat" where
  "count_type tk ts k = length (filter (\<lambda>t. m_type (tk t) = k) ts)"

definition tl_inv :: "ticket_store \<Rightarrow> Ticket_list \<Rightarrow> bool" where
  "tl_inv tk l \<longleftrightarrow>
     distinct (m_list l) \<and> length (m_list l) < 2 ^ 32 \<and>
     (\<forall>t\<in>set (m_list l). m_type (tk t) < 16) \<and>
     (\<forall>k. m_type_counters l k = of_nat (count_type tk (m_list l) k)) \<and>
     (\<forall>k. bit (m_bitmap l) k \<longleftrightarrow> (\<exists>t\<in>set (m_list l). m_type (tk t) = k))"

lemma tl_inv_bitmap:
  "tl_inv tk l \<Longrightarrow> bit (m_bitmap l) k \<longleftrightarrow> (\<exists>t\<in>set (m_list l). m_type (tk t) = k)"
  by (simp add: tl_inv_def)

lemma tl_inv_distinct: "tl_inv tk l \<Longrightarrow> distinct (m_list l)"
  by (simp add: tl_inv_def)

lemma tl_inv_init [simp]: "tl_inv tk Ticket_list_init"
  by (simp add: tl_inv_def Ticket_list_init_def count_type_def)

lemma m_list_add [simp]: "m_list (add_ticket tk l t) = m_list l @ [t]"
  by (simp add: add_ticket_def Let_def)

lemma m_list_remove [simp]: "m_list (remove_ticket tk l t) = remove1 t (m_list l)"
  by (simp add: remove_ticket_def Let_def)

lemma count_type_0: "count_type tk ts k = 0 \<longleftrightarrow> (\<forall>t\<in>set ts. m_type (tk t) \<noteq> k)"
  by (simp add: count_type_def filter_empty_conv)

lemma count_type_le: "count_type tk ts k \<le> length ts"
  by (simp add: count_type_def)

lemma add_ticket_inv:
  assumes "tl_inv tk l" "t \<notin> set (m_list l)" "m_type (tk t) < 16" "length (m_list l) + 1 < 2 ^ 32"
  shows "tl_inv tk (add_ticket tk l t)"
  using assms unfolding tl_inv_def add_ticket_def Let_def
  by (auto simp: bit_simps count_type_def)

lemma of_nat_u32_eq_0: "n < 2 ^ 32 \<Longrightarrow> (of_nat n :: u32) = 0 \<longleftrightarrow> n = 0"
  using nat_dvd_not_less [of n "2 ^ 32"] by (auto simp: word_of_nat_eq_0_iff)

lemma remove_ticket_inv:
  assumes "tl_inv tk l" "t \<in> set (m_list l)"
  shows "tl_inv tk (remove_ticket tk l t)"
proof -
  let ?ty = "m_type (tk t)" and ?ls = "remove1 t (m_list l)"
  have d: "distinct (m_list l)" and len: "length (m_list l) < 2 ^ 32"
    and cnt: "m_type_counters l k = of_nat (count_type tk (m_list l) k)" for k
    using assms(1) by (auto simp: tl_inv_def)
  have c: "count_type tk ?ls k = count_type tk (m_list l) k - (if k = ?ty then 1 else 0)" for k
    using d assms(2) by (simp add: count_type_def filter_remove1_len)
  have pos: "0 < count_type tk (m_list l) ?ty"
    using assms(2) count_type_0 [of tk "m_list l" ?ty] by auto
  have new: "m_type_counters l ?ty - 1 = of_nat (count_type tk ?ls ?ty)"
    using pos by (simp add: cnt c of_nat_diff)
  have "count_type tk ?ls ?ty < 2 ^ 32"
    using count_type_le [of tk ?ls ?ty] len length_remove1 [of t "m_list l"] by (auto split: if_splits)
  then have z: "m_type_counters l ?ty - 1 = 0 \<longleftrightarrow> (\<forall>u\<in>set ?ls. m_type (tk u) \<noteq> ?ty)"
    unfolding new by (simp add: of_nat_u32_eq_0 count_type_0)
  have bits: "bit (m_bitmap (remove_ticket tk l t)) k \<longleftrightarrow> (\<exists>u\<in>set ?ls. m_type (tk u) = k)" for k
  proof (cases "k = ?ty")
    case True
    then show ?thesis
      using z assms d by (auto simp: remove_ticket_def Let_def bit_simps tl_inv_def split: if_splits)
  next
    case False
    then show ?thesis
      using assms d bit_u16 by (auto simp: remove_ticket_def Let_def bit_simps tl_inv_def)
  qed
  have "m_type_counters (remove_ticket tk l t) k = of_nat (count_type tk ?ls k)" for k
    using new c by (simp add: remove_ticket_def Let_def cnt)
  with bits show ?thesis
    using assms(1) length_remove1 [of t "m_list l"] set_remove1_subset [of t "m_list l"]
    by (auto simp: tl_inv_def)
qed

text \<open>Only the tickets in the list matter for its invariant.\<close>

lemma tl_inv_cong:
  assumes "\<And>t. t \<in> set (m_list l) \<Longrightarrow> m_type (tk t) = m_type (tk' t)"
  shows "tl_inv tk l \<longleftrightarrow> tl_inv tk' l"
proof -
  have "count_type tk (m_list l) k = count_type tk' (m_list l) k" for k
    unfolding count_type_def using assms by (metis (no_types, lifting) filter_cong)
  then show ?thesis using assms by (auto simp: tl_inv_def)
qed

text \<open>A type no ticket of the list has is in the bitmap for no row of a matrix.\<close>

lemma bitmap_and_row:
  assumes "tl_inv tk l"
  shows "m_bitmap l AND row \<noteq> 0 \<longleftrightarrow> (\<exists>t\<in>set (m_list l). bit row (m_type (tk t)))"
  using assms unfolding and_eq_0_iff by (auto simp: tl_inv_bitmap)

end
