(* ===== verification/Mdl_Fast_Road.thy ===== *)
theory Mdl_Fast_Road
  imports Mdl_Ticket_List
begin

text \<open>
  The class \<^verbatim>\<open>MDL_lock::Fast_road\<close>: a ticket of a lightweight type is registered in a lane
  chosen by its thread, unless the lanes are closed by a heavyweight ticket. The lanes are a list
  of length \<^verbatim>\<open>mdl_instances\<close>, empty when the fast road is not enabled. Closing moves the
  tickets of all lanes to the conventional list of granted tickets; each lane operation is one
  critical section of the lane's mutex.
\<close>

record Lane =
  lane_list :: "ticket list"
  m_close_count :: u32

record Fast_road =
  lanes :: "Lane list"
  m_supported_types :: mdl_bitmap_t

definition is_open :: "Lane \<Rightarrow> bool" where
  "is_open l \<longleftrightarrow> m_close_count l = 0"

definition supported_type :: "Fast_road \<Rightarrow> enum_mdl_type \<Rightarrow> bool" where
  "supported_type fr ty \<longleftrightarrow> MDL_BIT ty AND m_supported_types fr \<noteq> 0"

definition is_enabled :: "Fast_road \<Rightarrow> bool" where
  "is_enabled fr \<longleftrightarrow> lanes fr \<noteq> []"

definition Fast_road_init :: Fast_road where
  "Fast_road_init = \<lparr>lanes = [], m_supported_types = 0\<rparr>"

text \<open>The allocation of the lanes may fail; the fast road then stays disabled.\<close>

definition fr_enable :: "nat \<Rightarrow> bool \<Rightarrow> mdl_bitmap_t \<Rightarrow> Fast_road \<Rightarrow> Fast_road" where
  "fr_enable mdl_instances alloc_ok types fr =
     (if mdl_instances > 1 \<and> alloc_ok
      then \<lparr>lanes = replicate mdl_instances \<lparr>lane_list = [], m_close_count = 0\<rparr>,
            m_supported_types = types\<rparr>
      else fr\<lparr>lanes := []\<rparr>)"

definition lane_try_acquire_lock :: "Lane \<Rightarrow> ticket \<Rightarrow> Lane option" where
  "lane_try_acquire_lock l t =
     (if is_open l then Some (l\<lparr>lane_list := lane_list l @ [t]\<rparr>) else None)"

definition fr_try_acquire_lock ::
  "(context_id \<Rightarrow> nat) \<Rightarrow> ticket_store \<Rightarrow> Fast_road \<Rightarrow> ticket \<Rightarrow> (ticket_store \<times> Fast_road) option" where
  "fr_try_acquire_lock thread_id tk fr t =
     (if is_enabled fr \<and> supported_type fr (m_type (tk t)) then
        let i = thread_id (m_ctx (tk t)) mod length (lanes fr) in
        case lane_try_acquire_lock (lanes fr ! i) t of
          Some l \<Rightarrow> Some (tk(t := (tk t)\<lparr>m_fast_lane := Some i\<rparr>), fr\<lparr>lanes := (lanes fr)[i := l]\<rparr>)
        | None \<Rightarrow> None
      else None)"

text \<open>
  Release and type change act on the lane the ticket is registered in; \<open>None\<close> tells the caller
  to act on the conventional list.
\<close>

definition fr_try_release :: "ticket_store \<Rightarrow> Fast_road \<Rightarrow> ticket \<Rightarrow> Fast_road option" where
  "fr_try_release tk fr t =
     (case m_fast_lane (tk t) of
        None \<Rightarrow> None
      | Some i \<Rightarrow>
          Some (fr\<lparr>lanes := (lanes fr)[i := (lanes fr ! i)
                 \<lparr>lane_list := remove1 t (lane_list (lanes fr ! i))\<rparr>]\<rparr>))"

definition fr_try_change_ticket_type ::
  "ticket_store \<Rightarrow> ticket \<Rightarrow> enum_mdl_type \<Rightarrow> ticket_store option" where
  "fr_try_change_ticket_type tk t ty =
     (case m_fast_lane (tk t) of
        None \<Rightarrow> None
      | Some i \<Rightarrow> Some (tk(t := (tk t)\<lparr>m_type := ty\<rparr>)))"

fun lane_drain :: "ticket_store \<Rightarrow> Ticket_list \<Rightarrow> ticket list \<Rightarrow> ticket_store \<times> Ticket_list" where
  "lane_drain tk granted [] = (tk, granted)"
| "lane_drain tk granted (t # ts) =
     lane_drain (tk(t := (tk t)\<lparr>m_fast_lane := None\<rparr>)) (add_ticket tk granted t) ts"

definition lane_close :: "ticket_store \<Rightarrow> Ticket_list \<Rightarrow> Lane \<Rightarrow> ticket_store \<times> Ticket_list \<times> Lane" where
  "lane_close tk granted l =
     (case lane_drain tk granted (lane_list l) of
        (tk', granted') \<Rightarrow> (tk', granted', \<lparr>lane_list = [], m_close_count = m_close_count l + 1\<rparr>))"

fun close_lanes :: "ticket_store \<Rightarrow> Ticket_list \<Rightarrow> Lane list \<Rightarrow> ticket_store \<times> Ticket_list \<times> Lane list" where
  "close_lanes tk granted [] = (tk, granted, [])"
| "close_lanes tk granted (l # ls) =
     (case lane_close tk granted l of
        (tk1, granted1, l') \<Rightarrow>
          (case close_lanes tk1 granted1 ls of (tk2, granted2, ls') \<Rightarrow> (tk2, granted2, l' # ls')))"

definition fr_close ::
  "ticket_store \<Rightarrow> Ticket_list \<Rightarrow> Fast_road \<Rightarrow> enum_mdl_type \<Rightarrow> ticket_store \<times> Ticket_list \<times> Fast_road" where
  "fr_close tk granted fr ty =
     (if supported_type fr ty then (tk, granted, fr)
      else case close_lanes tk granted (lanes fr) of
        (tk', granted', ls) \<Rightarrow> (tk', granted', fr\<lparr>lanes := ls\<rparr>))"

definition lane_reopen :: "Lane \<Rightarrow> Lane" where
  "lane_reopen l = l\<lparr>m_close_count := m_close_count l - 1\<rparr>"

definition fr_reopen :: "Fast_road \<Rightarrow> enum_mdl_type \<Rightarrow> Fast_road" where
  "fr_reopen fr ty =
     (if supported_type fr ty then fr else fr\<lparr>lanes := map lane_reopen (lanes fr)\<rparr>)"

definition fr_iterate :: "Fast_road \<Rightarrow> ticket list" where
  "fr_iterate fr = concat (map lane_list (lanes fr))"

definition fr_is_closed :: "Fast_road \<Rightarrow> bool" where
  "fr_is_closed fr \<longleftrightarrow> list_all (\<lambda>l. \<not> is_open l) (lanes fr)"

definition fr_is_empty :: "Fast_road \<Rightarrow> bool" where
  "fr_is_empty fr \<longleftrightarrow> list_all (\<lambda>l. lane_list l = []) (lanes fr)"

subsection \<open>Invariant\<close>

text \<open>
  With \<open>n\<close> heavyweight tickets on the lock every lane is closed \<open>n\<close> times, and a closed lane is
  empty.
\<close>

definition fr_inv :: "ticket_store \<Rightarrow> nat \<Rightarrow> Fast_road \<Rightarrow> bool" where
  "fr_inv tk n fr \<longleftrightarrow>
     n < 2 ^ 32 \<and> distinct (fr_iterate fr) \<and>
     (\<forall>i<length (lanes fr). m_close_count (lanes fr ! i) = of_nat n \<and>
        (0 < n \<longrightarrow> lane_list (lanes fr ! i) = []) \<and>
        (\<forall>t\<in>set (lane_list (lanes fr ! i)).
           m_fast_lane (tk t) = Some i \<and> supported_type fr (m_type (tk t))))"

lemma supported_type_bit: "supported_type fr ty \<longleftrightarrow> bit (m_supported_types fr) ty"
  by (simp add: supported_type_def)

lemma supported_type_lanes [simp]: "supported_type (fr\<lparr>lanes := ls\<rparr>) = supported_type fr"
  by (auto simp: supported_type_def)

lemma set_fr_iterate: "set (fr_iterate fr) = (\<Union>i<length (lanes fr). set (lane_list (lanes fr ! i)))"
proof -
  have "set (lanes fr) = (\<lambda>i. lanes fr ! i) ` {..<length (lanes fr)}"
    by (auto simp: set_conv_nth)
  then show ?thesis by (simp add: fr_iterate_def)
qed

lemma fr_inv_member:
  assumes "fr_inv tk n fr" "t \<in> set (fr_iterate fr)"
  obtains i where "i < length (lanes fr)" "t \<in> set (lane_list (lanes fr ! i))" "m_fast_lane (tk t) = Some i"
    "supported_type fr (m_type (tk t))"
  using assms unfolding set_fr_iterate fr_inv_def by auto

lemma concat_map_update_append:
  assumes "i < length ls"
  shows "mset (concat (map f (ls[i := l]))) + mset (f (ls ! i)) = mset (concat (map f ls)) + mset (f l)"
proof -
  have ls: "ls = take i ls @ ls ! i # drop (Suc i) ls" using assms by (rule id_take_nth_drop)
  have "ls[i := l] = take i ls @ l # drop (Suc i) ls" using assms by (rule upd_conv_take_nth_drop)
  then have "concat (map f (ls[i := l])) = concat (map f (take i ls)) @ f l @ concat (map f (drop (Suc i) ls))"
    by simp
  moreover have "concat (map f ls) = concat (map f (take i ls)) @ f (ls ! i) @ concat (map f (drop (Suc i) ls))"
    by (subst ls) simp
  ultimately show ?thesis by simp
qed

lemma fr_try_acquire_lockE:
  assumes "fr_try_acquire_lock thread_id tk fr t = Some (tk', fr')"
  obtains i where "i < length (lanes fr)" "is_open (lanes fr ! i)" "supported_type fr (m_type (tk t))"
    "tk' = tk(t := (tk t)\<lparr>m_fast_lane := Some i\<rparr>)"
    "fr' = fr\<lparr>lanes := (lanes fr)[i := (lanes fr ! i)\<lparr>lane_list := lane_list (lanes fr ! i) @ [t]\<rparr>]\<rparr>"
proof (rule that [of "thread_id (m_ctx (tk t)) mod length (lanes fr)"])
  show "thread_id (m_ctx (tk t)) mod length (lanes fr) < length (lanes fr)"
    using assms by (auto simp: fr_try_acquire_lock_def is_enabled_def split: if_splits)
qed (use assms in \<open>auto simp: fr_try_acquire_lock_def lane_try_acquire_lock_def Let_def split: if_splits\<close>)

lemma fr_try_acquire_lock_mset:
  assumes "fr_try_acquire_lock thread_id tk fr t = Some (tk', fr')"
  shows "mset (fr_iterate fr') = add_mset t (mset (fr_iterate fr))"
  using assms
proof (rule fr_try_acquire_lockE)
  fix i
  assume "i < length (lanes fr)"
    "fr' = fr\<lparr>lanes := (lanes fr)[i := (lanes fr ! i)\<lparr>lane_list := lane_list (lanes fr ! i) @ [t]\<rparr>]\<rparr>"
  then show ?thesis
    using concat_map_update_append [of i "lanes fr" lane_list
        "(lanes fr ! i)\<lparr>lane_list := lane_list (lanes fr ! i) @ [t]\<rparr>"]
    by (simp add: fr_iterate_def)
qed

lemma fr_try_acquire_lock_inv:
  assumes "fr_try_acquire_lock thread_id tk fr t = Some (tk', fr')" "fr_inv tk n fr" "t \<notin> set (fr_iterate fr)"
  shows "fr_inv tk' n fr' \<and> n = 0"
  using assms(1)
proof (rule fr_try_acquire_lockE)
  fix i
  assume i: "i < length (lanes fr)" "is_open (lanes fr ! i)" "supported_type fr (m_type (tk t))"
    "tk' = tk(t := (tk t)\<lparr>m_fast_lane := Some i\<rparr>)"
    and fr': "fr' = fr\<lparr>lanes := (lanes fr)[i := (lanes fr ! i)\<lparr>lane_list := lane_list (lanes fr ! i) @ [t]\<rparr>]\<rparr>"
  have n: "n = 0"
    using i(1,2) assms(2) of_nat_u32_eq_0 [of n] by (auto simp: fr_inv_def is_open_def)
  have "distinct (fr_iterate fr')"
    using fr_try_acquire_lock_mset [OF assms(1)] assms(2,3)
    by (metis distinct.simps(2) fr_inv_def mset.simps(2) mset_eq_imp_distinct_iff)
  moreover have "j < length (lanes fr) \<Longrightarrow> t \<notin> set (lane_list (lanes fr ! j))" for j
    using assms(3) by (auto simp: set_fr_iterate)
  ultimately show ?thesis
    using assms(2) i n by (auto simp: fr_inv_def fr' nth_list_update)
qed

lemma fr_try_release_mset:
  assumes "fr_try_release tk fr t = Some fr'" "fr_inv tk n fr" "t \<in> set (fr_iterate fr)"
  shows "mset (fr_iterate fr') = mset (fr_iterate fr) - {#t#}"
proof -
  obtain i where i: "i < length (lanes fr)" "t \<in> set (lane_list (lanes fr ! i))" "m_fast_lane (tk t) = Some i"
    using fr_inv_member [OF assms(2,3)] by metis
  let ?l = "(lanes fr ! i)\<lparr>lane_list := remove1 t (lane_list (lanes fr ! i))\<rparr>"
  have "fr' = fr\<lparr>lanes := (lanes fr)[i := ?l]\<rparr>"
    using assms(1) i by (simp add: fr_try_release_def)
  then have "mset (fr_iterate fr') + mset (lane_list (lanes fr ! i)) =
      mset (fr_iterate fr) + (mset (lane_list (lanes fr ! i)) - {#t#})"
    using concat_map_update_append [of i "lanes fr" lane_list ?l] i by (simp add: fr_iterate_def)
  moreover have "t \<in># mset (lane_list (lanes fr ! i))" using i by simp
  ultimately have "add_mset t (mset (fr_iterate fr') + (mset (lane_list (lanes fr ! i)) - {#t#})) =
      mset (fr_iterate fr) + (mset (lane_list (lanes fr ! i)) - {#t#})"
    by (metis add_mset_remove_trivial insert_DiffM union_mset_add_mset_right)
  then have "add_mset t (mset (fr_iterate fr')) = mset (fr_iterate fr)"
    by (metis union_mset_add_mset_left add_right_cancel)
  then show ?thesis by (metis add_mset_remove_trivial)
qed

lemma fr_try_release_inv:
  assumes "fr_try_release tk fr t = Some fr'" "fr_inv tk n fr" "t \<in> set (fr_iterate fr)"
  shows "fr_inv tk n fr'"
proof -
  obtain i where i: "i < length (lanes fr)" "m_fast_lane (tk t) = Some i"
    using fr_inv_member [OF assms(2,3)] by metis
  have fr': "fr' = fr\<lparr>lanes := (lanes fr)[i := (lanes fr ! i)
      \<lparr>lane_list := remove1 t (lane_list (lanes fr ! i))\<rparr>]\<rparr>"
    using assms(1) i by (simp add: fr_try_release_def)
  have "mset (fr_iterate fr') \<subseteq># mset (fr_iterate fr)"
    using fr_try_release_mset [OF assms] by simp
  then have "distinct (fr_iterate fr')" using assms(2) distinct_mset_sub by (auto simp: fr_inv_def)
  then show ?thesis
    using assms(2) i set_remove1_subset [of t "lane_list (lanes fr ! i)"]
    by (auto simp: fr_inv_def fr' nth_list_update)
qed

subsection \<open>Closing\<close>

definition off_lane :: "ticket_store \<Rightarrow> ticket list \<Rightarrow> ticket_store" where
  "off_lane tk ts = (\<lambda>t. if t \<in> set ts then (tk t)\<lparr>m_fast_lane := None\<rparr> else tk t)"

lemma off_lane_fields [simp]:
  "m_type (off_lane tk ts t) = m_type (tk t)" "m_ctx (off_lane tk ts t) = m_ctx (tk t)"
  "m_lock (off_lane tk ts t) = m_lock (tk t)"
  "m_fast_lane (off_lane tk ts t) = (if t \<in> set ts then None else m_fast_lane (tk t))"
  by (auto simp: off_lane_def)

lemma lane_drain_eq:
  "lane_drain tk granted ts = (tk', granted') \<Longrightarrow> tk' = off_lane tk ts \<and> m_list granted' = m_list granted @ ts"
proof (induction ts arbitrary: tk granted)
  case (Cons t ts)
  then show ?case by (fastforce simp: off_lane_def)
qed (auto simp: off_lane_def)

lemma lane_drain_tl_inv:
  assumes "lane_drain tk granted ts = (tk', granted')" "tl_inv tk granted"
    "distinct (m_list granted @ ts)" "\<forall>t\<in>set ts. m_type (tk t) < 16"
    "length (m_list granted) + length ts < 2 ^ 32"
  shows "tl_inv tk granted'"
  using assms
proof (induction ts arbitrary: tk granted)
  case (Cons t ts)
  let ?tk = "tk(t := (tk t)\<lparr>m_fast_lane := None\<rparr>)"
  have "tl_inv tk (add_ticket tk granted t)" using Cons.prems by (intro add_ticket_inv) auto
  then have "tl_inv ?tk (add_ticket tk granted t)"
    by (subst tl_inv_cong [where tk' = tk]) auto
  moreover have "lane_drain ?tk (add_ticket tk granted t) ts = (tk', granted')"
    using Cons.prems(1) by simp
  ultimately have "tl_inv ?tk granted'"
    using Cons.IH [of ?tk "add_ticket tk granted t"] Cons.prems by (simp del: fun_upd_apply) simp
  then show ?case by (subst tl_inv_cong [where tk' = ?tk]) auto
qed auto

lemma close_lanes_eq:
  assumes "close_lanes tk granted ls = (tk', granted', ls')"
  shows "tk' = off_lane tk (concat (map lane_list ls)) \<and>
    m_list granted' = m_list granted @ concat (map lane_list ls) \<and>
    ls' = map (\<lambda>l. \<lparr>lane_list = [], m_close_count = m_close_count l + 1\<rparr>) ls"
  using assms
proof (induction ls arbitrary: tk granted tk' granted' ls')
  case (Cons l ls)
  obtain tk1 g1 where d: "lane_drain tk granted (lane_list l) = (tk1, g1)" by fastforce
  obtain tk2 g2 ls2 where c: "close_lanes tk1 g1 ls = (tk2, g2, ls2)" using prod_cases3 by blast
  have "off_lane (off_lane tk xs) ys = off_lane tk (xs @ ys)" for xs ys
    by (auto simp: off_lane_def)
  with lane_drain_eq [OF d] Cons.IH [OF c] Cons.prems d c
  show ?case
    by (auto simp: lane_close_def)
qed (auto simp: off_lane_def)

lemma close_lanes_tl_inv:
  assumes "close_lanes tk granted ls = (tk', granted', ls')" "tl_inv tk granted"
    "distinct (m_list granted @ concat (map lane_list ls))"
    "\<forall>t\<in>set (concat (map lane_list ls)). m_type (tk t) < 16"
    "length (m_list granted) + length (concat (map lane_list ls)) < 2 ^ 32"
  shows "tl_inv tk granted'"
  using assms
proof (induction ls arbitrary: tk granted tk' granted' ls')
  case (Cons l ls)
  obtain tk1 g1 where d: "lane_drain tk granted (lane_list l) = (tk1, g1)" by fastforce
  obtain tk2 g2 ls2 where c: "close_lanes tk1 g1 ls = (tk2, g2, ls2)" using prod_cases3 by blast
  have g: "granted' = g2" using Cons.prems(1) d c by (auto simp: lane_close_def)
  note e = lane_drain_eq [OF d]
  have "tl_inv tk g1" using lane_drain_tl_inv [OF d] Cons.prems by auto
  then have "tl_inv tk1 g1" using e by (subst tl_inv_cong [where tk' = tk]) auto
  then have "tl_inv tk1 g2" using Cons.IH [OF c] Cons.prems e by auto
  then show ?case using e g by (subst tl_inv_cong [where tk' = tk1]) auto
qed auto

lemma fr_iterate_closed [simp]:
  "fr_iterate (fr\<lparr>lanes := map (\<lambda>l. \<lparr>lane_list = [], m_close_count = f l\<rparr>) ls\<rparr>) = []"
  by (simp add: fr_iterate_def)

lemma fr_close_eq:
  assumes "fr_close tk granted fr ty = (tk', granted', fr')" "\<not> supported_type fr ty"
  shows "tk' = off_lane tk (fr_iterate fr)" "m_list granted' = m_list granted @ fr_iterate fr"
    "fr_iterate fr' = []" "m_supported_types fr' = m_supported_types fr"
    "length (lanes fr') = length (lanes fr)"
proof -
  obtain ls where ls: "close_lanes tk granted (lanes fr) = (tk', granted', ls)" "fr' = fr\<lparr>lanes := ls\<rparr>"
    using assms by (auto simp: fr_close_def split: prod.splits)
  note close_lanes_eq [OF ls(1)]
  with ls(2) show "tk' = off_lane tk (fr_iterate fr)" "m_list granted' = m_list granted @ fr_iterate fr"
    "fr_iterate fr' = []" "m_supported_types fr' = m_supported_types fr"
    "length (lanes fr') = length (lanes fr)"
    by (auto simp: fr_iterate_def)
qed

lemma fr_close_inv:
  assumes "fr_close tk granted fr ty = (tk', granted', fr')" "\<not> supported_type fr ty"
    "fr_inv tk n fr" "n + 1 < 2 ^ 32"
  shows "fr_inv tk' (n + 1) fr'"
proof -
  obtain ls where "close_lanes tk granted (lanes fr) = (tk', granted', ls)" "fr' = fr\<lparr>lanes := ls\<rparr>"
    using assms(1,2) by (auto simp: fr_close_def split: prod.splits)
  with close_lanes_eq [OF this(1)] assms(3,4) show ?thesis by (auto simp: fr_inv_def)
qed

lemma fr_close_tl_inv:
  assumes "fr_close tk granted fr ty = (tk', granted', fr')" "tl_inv tk granted"
    "distinct (m_list granted @ fr_iterate fr)" "\<forall>t\<in>set (fr_iterate fr). m_type (tk t) < 16"
    "length (m_list granted) + length (fr_iterate fr) < 2 ^ 32"
  shows "tl_inv tk granted'"
  using assms close_lanes_tl_inv [of tk granted "lanes fr" tk' granted']
  by (auto simp: fr_close_def fr_iterate_def split: prod.splits if_splits)

lemma fr_reopen_inv:
  assumes "fr_inv tk n fr" "\<not> supported_type fr ty" "0 < n"
  shows "fr_inv tk (n - 1) (fr_reopen fr ty)"
  using assms by (auto simp: fr_inv_def fr_reopen_def lane_reopen_def fr_iterate_def comp_def of_nat_diff)

lemma fr_reopen_iterate [simp]: "fr_iterate (fr_reopen fr ty) = fr_iterate fr"
  by (simp add: fr_iterate_def fr_reopen_def lane_reopen_def comp_def)

lemma fr_reopen_fields [simp]:
  "supported_type (fr_reopen fr ty) = supported_type fr"
  "m_supported_types (fr_reopen fr ty) = m_supported_types fr"
  by (auto simp: fr_reopen_def)

lemma fr_inv_cong:
  assumes "\<And>t. t \<in> set (fr_iterate fr) \<Longrightarrow>
    m_fast_lane (tk' t) = m_fast_lane (tk t) \<and> m_type (tk' t) = m_type (tk t)"
  shows "fr_inv tk n fr \<Longrightarrow> fr_inv tk' n fr"
proof -
  have "m_fast_lane (tk' t) = m_fast_lane (tk t) \<and> m_type (tk' t) = m_type (tk t)"
    if "i < length (lanes fr)" "t \<in> set (lane_list (lanes fr ! i))" for i t
    using assms [of t] that by (auto simp: set_fr_iterate)
  then show "fr_inv tk n fr \<Longrightarrow> fr_inv tk' n fr"
    unfolding fr_inv_def by metis
qed

end
