(* ===== verification/Mdl_Lock.thy ===== *)
theory Mdl_Lock
  imports Mdl_Fast_Road Mdl_Key
begin

text \<open>
  The class \<^verbatim>\<open>MDL_lock\<close>: granting, waiting and rescheduling of the tickets of one object,
  with the wait slots of \<^verbatim>\<open>MDL_wait\<close>. Each operation is one critical section of
  \<^verbatim>\<open>m_rwlock\<close> and takes the store of tickets, the wait slots of the contexts where it
  reads or sets them, and the lock.
\<close>

datatype enum_wait_status = EMPTY | GRANTED | VICTIM | TIMEOUT | KILLED

type_synonym wait_slots = "context_id \<Rightarrow> enum_wait_status"

text \<open>\<^verbatim>\<open>MDL_wait::set_status()\<close> returns whether the slot was occupied.\<close>

definition set_status :: "wait_slots \<Rightarrow> context_id \<Rightarrow> enum_wait_status \<Rightarrow> bool \<times> wait_slots" where
  "set_status ws c st = (if ws c = EMPTY then (False, ws(c := st)) else (True, ws))"

definition reset_status :: "wait_slots \<Rightarrow> context_id \<Rightarrow> wait_slots" where
  "reset_status ws c = ws(c := EMPTY)"

text \<open>
  The end of \<^verbatim>\<open>MDL_wait::timed_wait()\<close>: the loop has been left because the slot is set, the
  owner is killed or the time is over.
\<close>

definition timed_wait_end ::
  "wait_slots \<Rightarrow> context_id \<Rightarrow> bool \<Rightarrow> bool \<Rightarrow> enum_wait_status \<times> wait_slots" where
  "timed_wait_end ws c killed set_status_on_timeout =
     (let ws' = (if ws c = EMPTY
                 then if killed then ws(c := KILLED)
                      else if set_status_on_timeout then ws(c := TIMEOUT) else ws
                 else ws)
      in (ws' c, ws'))"

datatype tal_status = TAL_ERROR | TAL_ACQUIRED | TAL_WAIT | TAL_NOWAIT

record MDL_lock =
  lock_key :: string
  m_granted :: Ticket_list
  m_waiting :: Ticket_list
  m_hog_lock_count :: u64
  m_fast_road :: Fast_road
  m_strategy :: "MDL_lock_strategy option"

definition namespace_of :: "string \<Rightarrow> enum_mdl_namespace" where
  "namespace_of k = namespaces ! of_char (hd k)"

definition backup_key :: string where
  "backup_key = m_ptr (mdl_key_init BACKUP [] [])"

definition backup_fast_types :: mdl_bitmap_t where
  "backup_fast_types =
     MDL_BIT MDL_BACKUP_DML OR MDL_BIT MDL_BACKUP_TRANS_DML OR MDL_BIT MDL_BACKUP_SYS_DML OR
     MDL_BIT MDL_BACKUP_DDL OR MDL_BIT MDL_BACKUP_ALTER_COPY OR MDL_BIT MDL_BACKUP_COMMIT"

text \<open>The constructor of the backup lock, and the initialiser of a lock found by its key.\<close>

definition MDL_lock_backup :: "nat \<Rightarrow> bool \<Rightarrow> MDL_lock" where
  "MDL_lock_backup mdl_instances alloc_ok =
     \<lparr>lock_key = backup_key, m_granted = Ticket_list_init, m_waiting = Ticket_list_init,
      m_hog_lock_count = 0,
      m_fast_road = fr_enable mdl_instances alloc_ok backup_fast_types Fast_road_init,
      m_strategy = Some MDL_backup_lock\<rparr>"

definition lf_hash_initializer :: "MDL_lock \<Rightarrow> string \<Rightarrow> MDL_lock" where
  "lf_hash_initializer lk k =
     lk\<lparr>lock_key := k,
        m_strategy := Some (if namespace_of k = SCHEMA then MDL_scoped_lock else MDL_object_lock)\<rparr>"

definition lf_alloc_constructor :: MDL_lock where
  "lf_alloc_constructor =
     \<lparr>lock_key = [], m_granted = Ticket_list_init, m_waiting = Ticket_list_init,
      m_hog_lock_count = 0, m_fast_road = Fast_road_init, m_strategy = None\<rparr>"

definition lk_is_empty :: "MDL_lock \<Rightarrow> bool" where
  "lk_is_empty lk \<longleftrightarrow> tl_is_empty (m_granted lk) \<and> tl_is_empty (m_waiting lk)"

definition can_grant_lock ::
  "MDL_lock_strategy \<Rightarrow> ticket_store \<Rightarrow> MDL_lock \<Rightarrow> enum_mdl_type \<Rightarrow> context_id \<Rightarrow> bool \<Rightarrow> bool" where
  "can_grant_lock s tk lk type_arg requestor_ctx ignore_lock_priority =
     (let waiting_incompat_map = incompatible_waiting_types_bitmap s ! type_arg;
          granted_incompat_map = incompatible_granted_types_bitmap s ! type_arg in
      if \<not> ignore_lock_priority \<and> m_bitmap (m_waiting lk) AND waiting_incompat_map \<noteq> 0 then False
      else if m_bitmap (m_granted lk) AND granted_incompat_map \<noteq> 0
      then \<not> list_ex (\<lambda>t. m_ctx (tk t) \<noteq> requestor_ctx \<and>
                           is_incompatible_when_granted s (m_type (tk t)) type_arg)
              (m_list (m_granted lk))
      else True)"

definition notify_conflicting_locks :: "MDL_lock_strategy \<Rightarrow> ticket_store \<Rightarrow> MDL_lock \<Rightarrow> context_id \<Rightarrow> context_id list" where
  "notify_conflicting_locks s tk lk ctx =
     map (\<lambda>t. m_ctx (tk t))
       (filter (\<lambda>t. m_ctx (tk t) \<noteq> ctx \<and> conflicting_locks s (m_type (tk t))) (m_list (m_granted lk)))"

definition notify_conflicting_locks_if_needed ::
  "MDL_lock_strategy \<Rightarrow> ticket_store \<Rightarrow> MDL_lock \<Rightarrow> ticket \<Rightarrow> context_id list" where
  "notify_conflicting_locks_if_needed s tk lk t =
     (if needs_notification s (m_type (tk t)) then notify_conflicting_locks s tk lk (m_ctx (tk t)) else [])"

definition has_pending_conflicting_lock :: "MDL_lock_strategy \<Rightarrow> MDL_lock \<Rightarrow> enum_mdl_type \<Rightarrow> bool" where
  "has_pending_conflicting_lock s lk ty \<longleftrightarrow>
     m_bitmap (m_waiting lk) AND (incompatible_granted_types_bitmap s ! ty) \<noteq> 0"

text \<open>
  The loop of \<^verbatim>\<open>reschedule_waiters()\<close> over the waiters not yet looked at. A granted ticket is
  taken out of the list behind the iterator, so the rest of the list is not affected.
\<close>

definition grant_waiter :: "MDL_lock_strategy \<Rightarrow> ticket_store \<Rightarrow> MDL_lock \<Rightarrow> ticket \<Rightarrow> MDL_lock" where
  "grant_waiter s tk lk t =
     lk\<lparr>m_waiting := remove_ticket tk (m_waiting lk) t,
        m_granted := add_ticket tk (m_granted lk) t,
        m_hog_lock_count :=
          (if MDL_BIT (m_type (tk t)) AND hog_lock_types_bitmap s \<noteq> 0
           then m_hog_lock_count lk + 1 else m_hog_lock_count lk)\<rparr>"

fun reschedule_loop ::
  "MDL_lock_strategy \<Rightarrow> bool \<Rightarrow> ticket_store \<Rightarrow> wait_slots \<Rightarrow> MDL_lock \<Rightarrow> ticket list \<Rightarrow> wait_slots \<times> MDL_lock" where
  "reschedule_loop s skip_high_priority tk ws lk [] = (ws, lk)"
| "reschedule_loop s skip_high_priority tk ws lk (t # ts) =
     (if skip_high_priority \<and> MDL_BIT (m_type (tk t)) AND hog_lock_types_bitmap s \<noteq> 0
      then reschedule_loop s skip_high_priority tk ws lk ts
      else if can_grant_lock s tk lk (m_type (tk t)) (m_ctx (tk t)) skip_high_priority
      then case set_status ws (m_ctx (tk t)) GRANTED of
             (False, ws') \<Rightarrow> reschedule_loop s skip_high_priority tk ws' (grant_waiter s tk lk t) ts
           | (True, _) \<Rightarrow> reschedule_loop s skip_high_priority tk ws lk ts
      else reschedule_loop s skip_high_priority tk ws lk ts)"

definition skip_hogs :: "u64 \<Rightarrow> MDL_lock_strategy \<Rightarrow> MDL_lock \<Rightarrow> bool" where
  "skip_hogs max_write_lock_count s lk \<longleftrightarrow>
     max_write_lock_count \<le> m_hog_lock_count lk \<and>
     m_bitmap (m_waiting lk) AND NOT (hog_lock_types_bitmap s) \<noteq> 0"

definition reschedule_waiters ::
  "u64 \<Rightarrow> MDL_lock_strategy \<Rightarrow> ticket_store \<Rightarrow> wait_slots \<Rightarrow> MDL_lock \<Rightarrow> wait_slots \<times> MDL_lock" where
  "reschedule_waiters max_write_lock_count s tk ws lk =
     (case reschedule_loop s (skip_hogs max_write_lock_count s lk) tk ws lk (m_list (m_waiting lk)) of
        (ws', lk') \<Rightarrow>
          (ws', if m_bitmap (m_waiting lk') AND NOT (hog_lock_types_bitmap s) = 0
                then lk'\<lparr>m_hog_lock_count := 0\<rparr> else lk'))"

text \<open>
  \<^verbatim>\<open>MDL_lock::remove_ticket()\<close> on the list of granted or of waiting tickets. A ticket is an
  intrusive list node, so removing it unlinks it from whichever of the two lists it is in, while
  the bitmap and counters are those of the list that is named.
\<close>

datatype queue_name = Granted_queue | Waiting_queue

definition unlink :: "ticket \<Rightarrow> Ticket_list \<Rightarrow> Ticket_list" where
  "unlink t l = l\<lparr>m_list := remove1 t (m_list l)\<rparr>"

fun queue_remove_ticket :: "ticket_store \<Rightarrow> MDL_lock \<Rightarrow> queue_name \<Rightarrow> ticket \<Rightarrow> MDL_lock" where
  "queue_remove_ticket tk lk Granted_queue t =
     lk\<lparr>m_granted := remove_ticket tk (m_granted lk) t, m_waiting := unlink t (m_waiting lk)\<rparr>"
| "queue_remove_ticket tk lk Waiting_queue t =
     lk\<lparr>m_waiting := remove_ticket tk (m_waiting lk) t, m_granted := unlink t (m_granted lk)\<rparr>"

definition lk_remove_ticket ::
  "u64 \<Rightarrow> ticket_store \<Rightarrow> wait_slots \<Rightarrow> MDL_lock \<Rightarrow> queue_name \<Rightarrow> ticket \<Rightarrow> wait_slots \<times> MDL_lock" where
  "lk_remove_ticket max_write_lock_count tk ws lk q t =
     (let lk1 = queue_remove_ticket tk lk q t in
      if lk_is_empty lk1 then
        if namespace_of (lock_key lk) \<noteq> BACKUP then (ws, lk1\<lparr>m_strategy := None\<rparr>)
        else (ws, lk1\<lparr>m_fast_road := fr_reopen (m_fast_road lk1) (m_type (tk t))\<rparr>)
      else case m_strategy lk1 of
        None \<Rightarrow> (ws, lk1)
      | Some s \<Rightarrow>
          (case reschedule_waiters max_write_lock_count s tk ws lk1 of
             (ws', lk2) \<Rightarrow> (ws', lk2\<lparr>m_fast_road := fr_reopen (m_fast_road lk2) (m_type (tk t))\<rparr>)))"

definition lk_release ::
  "u64 \<Rightarrow> ticket_store \<Rightarrow> wait_slots \<Rightarrow> MDL_lock \<Rightarrow> ticket \<Rightarrow> wait_slots \<times> MDL_lock" where
  "lk_release max_write_lock_count tk ws lk t =
     (case fr_try_release tk (m_fast_road lk) t of
        Some fr \<Rightarrow> (ws, lk\<lparr>m_fast_road := fr\<rparr>)
      | None \<Rightarrow> lk_remove_ticket max_write_lock_count tk ws lk Granted_queue t)"

definition lk_abort_wait ::
  "u64 \<Rightarrow> ticket_store \<Rightarrow> wait_slots \<Rightarrow> MDL_lock \<Rightarrow> ticket \<Rightarrow> wait_slots \<times> MDL_lock" where
  "lk_abort_wait max_write_lock_count tk ws lk t =
     lk_remove_ticket max_write_lock_count tk ws lk Waiting_queue t"

definition lk_close :: "ticket_store \<Rightarrow> MDL_lock \<Rightarrow> enum_mdl_type \<Rightarrow> ticket_store \<times> MDL_lock" where
  "lk_close tk lk ty =
     (case fr_close tk (m_granted lk) (m_fast_road lk) ty of
        (tk', granted, fr) \<Rightarrow> (tk', lk\<lparr>m_granted := granted, m_fast_road := fr\<rparr>))"

text \<open>\<^verbatim>\<open>MDL_lock::try_acquire_lock()\<close>; the second component lists the contexts notified.\<close>

definition lk_try_acquire_lock ::
  "(context_id \<Rightarrow> nat) \<Rightarrow> ticket_store \<Rightarrow> MDL_lock \<Rightarrow> ticket \<Rightarrow> bool \<Rightarrow>
   tal_status \<times> context_id list \<times> ticket_store \<times> MDL_lock" where
  "lk_try_acquire_lock thread_id tk0 lk t wait =
     (let tk = tk0(t := (tk0 t)\<lparr>m_lock := lock_key lk\<rparr>); ty = m_type (tk t) in
      case fr_try_acquire_lock thread_id tk (m_fast_road lk) t of
        Some (tk1, fr) \<Rightarrow> (TAL_ACQUIRED, [], tk1, lk\<lparr>m_fast_road := fr\<rparr>)
      | None \<Rightarrow>
          (case m_strategy lk of
             None \<Rightarrow> (TAL_ERROR, [], tk, lk)
           | Some s \<Rightarrow>
               (case lk_close tk lk ty of
                  (tk1, lk1) \<Rightarrow>
                    if can_grant_lock s tk1 lk1 ty (m_ctx (tk1 t)) False
                    then (TAL_ACQUIRED, [], tk1, lk1\<lparr>m_granted := add_ticket tk1 (m_granted lk1) t\<rparr>)
                    else if wait
                    then (TAL_WAIT, notify_conflicting_locks_if_needed s tk1 lk1 t, tk1,
                          lk1\<lparr>m_waiting := add_ticket tk1 (m_waiting lk1) t\<rparr>)
                    else (TAL_NOWAIT, [], tk1,
                          lk1\<lparr>m_fast_road := fr_reopen (m_fast_road lk1) ty\<rparr>))))"

definition lk_add_cloned_ticket :: "ticket_store \<Rightarrow> MDL_lock \<Rightarrow> ticket \<Rightarrow> ticket_store \<times> MDL_lock" where
  "lk_add_cloned_ticket tk lk t =
     (case lk_close tk lk (m_type (tk t)) of
        (tk1, lk1) \<Rightarrow> (tk1, lk1\<lparr>m_granted := add_ticket tk1 (m_granted lk1) t\<rparr>))"

definition retype :: "ticket_store \<Rightarrow> ticket \<Rightarrow> enum_mdl_type \<Rightarrow> ticket_store" where
  "retype tk t ty = tk(t := (tk t)\<lparr>m_type := ty\<rparr>)"

definition lk_downgrade ::
  "u64 \<Rightarrow> MDL_lock_strategy \<Rightarrow> ticket_store \<Rightarrow> wait_slots \<Rightarrow> MDL_lock \<Rightarrow> ticket \<Rightarrow> enum_mdl_type \<Rightarrow>
   ticket_store \<times> wait_slots \<times> MDL_lock" where
  "lk_downgrade max_write_lock_count s tk ws lk t ty =
     (case fr_try_change_ticket_type tk t ty of
        Some tk1 \<Rightarrow> (tk1, ws, lk)
      | None \<Rightarrow>
          (let g = remove_ticket tk (m_granted lk) t; tk1 = retype tk t ty in
           (tk1, reschedule_waiters max_write_lock_count s tk1 ws (lk\<lparr>m_granted := add_ticket tk1 g t\<rparr>))))"

definition lk_upgrade ::
  "ticket_store \<Rightarrow> MDL_lock \<Rightarrow> ticket \<Rightarrow> enum_mdl_type \<Rightarrow> ticket option \<Rightarrow> ticket_store \<times> MDL_lock" where
  "lk_upgrade tk lk t ty remove =
     (let lk1 = (case remove of
                   None \<Rightarrow> lk
                 | Some r \<Rightarrow>
                     (case fr_try_release tk (m_fast_road lk) r of
                        Some fr \<Rightarrow> lk\<lparr>m_fast_road := fr\<rparr>
                      | None \<Rightarrow> lk\<lparr>m_fast_road := fr_reopen (m_fast_road lk) (m_type (tk r)),
                                   m_granted := remove_ticket tk (m_granted lk) r\<rparr>));
          g = remove_ticket tk (m_granted lk1) t; tk1 = retype tk t ty in
      (tk1, lk1\<lparr>m_granted := add_ticket tk1 g t\<rparr>))"

definition lk_try_fast_upgrade :: "ticket_store \<Rightarrow> ticket \<Rightarrow> enum_mdl_type \<Rightarrow> ticket_store option" where
  "lk_try_fast_upgrade tk t ty = fr_try_change_ticket_type tk t ty"

definition lk_iterate :: "MDL_lock \<Rightarrow> (ticket \<times> bool) list" where
  "lk_iterate lk =
     map (\<lambda>t. (t, True)) (fr_iterate (m_fast_road lk)) @
     map (\<lambda>t. (t, True)) (m_list (m_granted lk)) @
     map (\<lambda>t. (t, False)) (m_list (m_waiting lk))"

definition lk_get_lock_owner :: "(context_id \<Rightarrow> nat) \<Rightarrow> ticket_store \<Rightarrow> MDL_lock \<Rightarrow> nat" where
  "lk_get_lock_owner thread_id tk lk =
     (case m_list (m_granted lk) of [] \<Rightarrow> 0 | t # _ \<Rightarrow> thread_id (m_ctx (tk t)))"

end
