(* ===== verification/Mdl_Context.thy ===== *)
theory Mdl_Context
  imports Mdl_Lock
begin

text \<open>
  The classes \<^verbatim>\<open>MDL_map\<close> and \<^verbatim>\<open>MDL_context\<close>: sessions that acquire, clone,
  upgrade, downgrade and release metadata locks. The state holds the tickets, the wait slots, the
  map of locks (the preallocated backup lock included) and the contexts. What a session keeps in
  local variables of \<^verbatim>\<open>acquire_lock()\<close> while it waits are the fields \<open>acquiring\<close> and
  \<^verbatim>\<open>wait_status\<close>. A new
  ticket gets an address never used before. Allocation may fail; the raw lock object the hash
  allocator hands out is an argument. \<^verbatim>\<open>max_write_lock_count\<close> is the argument \<open>mx\<close>.
\<close>

record MDL_request =
  req_key :: string
  req_type :: enum_mdl_type
  req_duration :: enum_mdl_duration

record MDL_context =
  m_tickets :: "enum_mdl_duration \<Rightarrow> ticket list"
  m_waiting_for :: "ticket option"
  m_deadlock_overweight :: u32
  m_thread_id :: nat
  acquiring :: "(MDL_request \<times> ticket) option"
  wait_status :: enum_wait_status

record mdl_state =
  tickets :: ticket_store
  next_ticket :: ticket
  waits :: wait_slots
  mdl_locks :: "string \<Rightarrow> MDL_lock option"
  contexts :: "context_id \<Rightarrow> MDL_context"

definition upd_ctx :: "mdl_state \<Rightarrow> context_id \<Rightarrow> (MDL_context \<Rightarrow> MDL_context) \<Rightarrow> mdl_state" where
  "upd_ctx st c f = st\<lparr>contexts := (contexts st)(c := f (contexts st c))\<rparr>"

definition set_tickets :: "enum_mdl_duration \<Rightarrow> (ticket list \<Rightarrow> ticket list) \<Rightarrow> MDL_context \<Rightarrow> MDL_context" where
  "set_tickets d f x = x\<lparr>m_tickets := (m_tickets x)(d := f (m_tickets x d))\<rparr>"

definition thread_ids :: "mdl_state \<Rightarrow> context_id \<Rightarrow> nat" where
  "thread_ids st c = m_thread_id (contexts st c)"

text \<open>Storing a lock; a lock without strategy has been deleted from the hash.\<close>

definition store_lock :: "mdl_state \<Rightarrow> string \<Rightarrow> MDL_lock \<Rightarrow> mdl_state" where
  "store_lock st k lk =
     st\<lparr>mdl_locks := (mdl_locks st)(k := (if m_strategy lk = None then None else Some lk))\<rparr>"

definition ticket_strategy :: "mdl_state \<Rightarrow> ticket \<Rightarrow> MDL_lock_strategy" where
  "ticket_strategy st t =
     (case mdl_locks st (m_lock (tickets st t)) of
        Some lk \<Rightarrow> (case m_strategy lk of Some s \<Rightarrow> s | None \<Rightarrow> MDL_object_lock)
      | None \<Rightarrow> MDL_object_lock)"

definition ticket_has_stronger_or_equal_type :: "mdl_state \<Rightarrow> ticket \<Rightarrow> enum_mdl_type \<Rightarrow> bool" where
  "ticket_has_stronger_or_equal_type st t ty =
     has_stronger_or_equal_type (ticket_strategy st t) (m_type (tickets st t)) ty"

subsection \<open>Finding and making tickets\<close>

fun durations_from :: "enum_mdl_duration \<Rightarrow> enum_mdl_duration list" where
  "durations_from MDL_STATEMENT = [MDL_STATEMENT, MDL_TRANSACTION, MDL_EXPLICIT]"
| "durations_from MDL_TRANSACTION = [MDL_TRANSACTION, MDL_EXPLICIT, MDL_STATEMENT]"
| "durations_from MDL_EXPLICIT = [MDL_EXPLICIT, MDL_STATEMENT, MDL_TRANSACTION]"

definition find_ticket :: "mdl_state \<Rightarrow> context_id \<Rightarrow> MDL_request \<Rightarrow> (ticket \<times> enum_mdl_duration) option" where
  "find_ticket st c req =
     List.find (\<lambda>(t, d). m_lock (tickets st t) = req_key req \<and>
                         ticket_has_stronger_or_equal_type st t (req_type req))
       (concat (map (\<lambda>d. map (\<lambda>t. (t, d)) (m_tickets (contexts st c) d)) (durations_from (req_duration req))))"

definition new_ticket :: "mdl_state \<Rightarrow> context_id \<Rightarrow> MDL_request \<Rightarrow> ticket \<times> mdl_state" where
  "new_ticket st c req =
     (next_ticket st,
      st\<lparr>tickets := (tickets st)(next_ticket st :=
            \<lparr>m_type = req_type req, m_ctx = c, m_lock = [], m_fast_lane = None\<rparr>),
         next_ticket := Suc (next_ticket st)\<rparr>)"

text \<open>
  \<^verbatim>\<open>MDL_context::clone_ticket()\<close>: \<open>None\<close> when the allocation of the ticket fails. The
  source checks that the original is at least as strong as the request by an assertion only.
\<close>

definition clone_ticket :: "mdl_state \<Rightarrow> context_id \<Rightarrow> MDL_request \<Rightarrow> ticket \<Rightarrow> bool \<Rightarrow> (ticket \<times> mdl_state) option" where
  "clone_ticket st c req orig alloc_ok =
     (if alloc_ok then
        let k = m_lock (tickets st orig) in
        case mdl_locks st k of
          None \<Rightarrow> None
        | Some lk \<Rightarrow>
            (case new_ticket st c req of
               (t, st1) \<Rightarrow>
                 let tk1 = (tickets st1)(t := (tickets st1 t)\<lparr>m_lock := k\<rparr>) in
                 case lk_add_cloned_ticket tk1 lk t of
                   (tk2, lk') \<Rightarrow>
                     Some (t, upd_ctx (store_lock (st1\<lparr>tickets := tk2\<rparr>) k lk') c
                                (set_tickets (req_duration req) ((#) t))))
      else None)"

text \<open>
  \<^verbatim>\<open>MDL_map::try_acquire_lock()\<close>. The argument \<open>raw\<close> is the object
  \<^verbatim>\<open>lf_hash_insert()\<close> allocates when the key is not in the hash, \<open>None\<close> for out of
  memory. A lock without strategy is in the hash only between two steps of another session, so the
  retry does not show.
\<close>

definition map_try_acquire_lock ::
  "mdl_state \<Rightarrow> string \<Rightarrow> ticket \<Rightarrow> bool \<Rightarrow> MDL_lock option \<Rightarrow> tal_status \<times> context_id list \<times> mdl_state" where
  "map_try_acquire_lock st k t wait raw =
     (case (case mdl_locks st k of
              Some lk \<Rightarrow> Some lk
            | None \<Rightarrow> map_option (\<lambda>r. lf_hash_initializer r k) raw) of
        None \<Rightarrow> (TAL_ERROR, [], st)
      | Some lk \<Rightarrow>
          (case lk_try_acquire_lock (thread_ids st) (tickets st) lk t wait of
             (res, notified, tk, lk') \<Rightarrow> (res, notified, store_lock (st\<lparr>tickets := tk\<rparr>) k lk')))"

datatype acquire_result = Acq_error | Acq_conflict | Acq_ticket ticket | Acq_wait ticket

definition try_acquire_lock_impl ::
  "mdl_state \<Rightarrow> context_id \<Rightarrow> MDL_request \<Rightarrow> bool \<Rightarrow> bool \<Rightarrow> MDL_lock option \<Rightarrow> acquire_result \<times> mdl_state" where
  "try_acquire_lock_impl st c req wait alloc_ok raw =
     (case find_ticket st c req of
        Some (t, found_duration) \<Rightarrow>
          if found_duration \<noteq> req_duration req \<or> req_duration req = MDL_EXPLICIT
          then (case clone_ticket st c req t alloc_ok of
                  None \<Rightarrow> (Acq_error, st)
                | Some (t', st') \<Rightarrow> (Acq_ticket t', st'))
          else (Acq_ticket t, st)
      | None \<Rightarrow>
          if \<not> alloc_ok then (Acq_error, st)
          else case new_ticket st c req of
            (t, st1) \<Rightarrow>
              (case map_try_acquire_lock st1 (req_key req) t wait raw of
                 (TAL_ACQUIRED, _, st2) \<Rightarrow>
                   (Acq_ticket t, upd_ctx st2 c (set_tickets (req_duration req) ((#) t)))
               | (TAL_WAIT, _, st2) \<Rightarrow> (Acq_wait t, st2)
               | (TAL_NOWAIT, _, st2) \<Rightarrow> (Acq_conflict, st2)
               | (TAL_ERROR, _, st2) \<Rightarrow> (Acq_error, st2)))"

definition try_acquire_lock ::
  "mdl_state \<Rightarrow> context_id \<Rightarrow> MDL_request \<Rightarrow> bool \<Rightarrow> MDL_lock option \<Rightarrow> acquire_result \<times> mdl_state" where
  "try_acquire_lock st c req alloc_ok raw = try_acquire_lock_impl st c req False alloc_ok raw"

subsection \<open>Acquiring with waiting\<close>

definition will_wait_for :: "mdl_state \<Rightarrow> context_id \<Rightarrow> ticket \<Rightarrow> mdl_state" where
  "will_wait_for st c t = upd_ctx st c (\<lambda>x. x\<lparr>m_waiting_for := Some t\<rparr>)"

definition done_waiting_for :: "mdl_state \<Rightarrow> context_id \<Rightarrow> mdl_state" where
  "done_waiting_for st c = upd_ctx st c (\<lambda>x. x\<lparr>m_waiting_for := None\<rparr>)"

text \<open>
  \<^verbatim>\<open>acquire_lock()\<close> up to the wait: the request is satisfied, fails, or leaves a pending
  ticket. The search for deadlocks that follows is in \<^verbatim>\<open>Mdl_Deadlock\<close>.
\<close>

definition acquire_lock_begin ::
  "mdl_state \<Rightarrow> context_id \<Rightarrow> MDL_request \<Rightarrow> bool \<Rightarrow> bool \<Rightarrow> MDL_lock option \<Rightarrow> acquire_result \<times> mdl_state" where
  "acquire_lock_begin st c req timeout_nonzero alloc_ok raw =
     (case try_acquire_lock_impl st c req timeout_nonzero alloc_ok raw of
        (Acq_wait t, st1) \<Rightarrow>
          (Acq_wait t, will_wait_for (upd_ctx st1 c (\<lambda>x. x\<lparr>acquiring := Some (req, t), wait_status := EMPTY\<rparr>)) c t)
      | r \<Rightarrow> r)"

text \<open>
  One wait of the loop, or the last one behind it, which closes the slot on a timeout. When a wait
  of the loop ends with the slot still open and the client is gone, \<^verbatim>\<open>wait_status\<close> becomes
  \<^verbatim>\<open>TIMEOUT\<close> while the slot stays open.
\<close>

definition acquire_wait :: "mdl_state \<Rightarrow> context_id \<Rightarrow> bool \<Rightarrow> bool \<Rightarrow> bool \<Rightarrow> mdl_state" where
  "acquire_wait st c killed last_wait connected =
     (case timed_wait_end (waits st) c killed last_wait of (res, ws) \<Rightarrow>
        upd_ctx (st\<lparr>waits := ws\<rparr>) c
          (\<lambda>x. x\<lparr>wait_status := (if res = EMPTY \<and> \<not> last_wait \<and> \<not> connected then TIMEOUT else res)\<rparr>))"

definition acquire_lock_end :: "u64 \<Rightarrow> mdl_state \<Rightarrow> context_id \<Rightarrow> ticket option \<times> mdl_state" where
  "acquire_lock_end mx st0 c =
     (let st = done_waiting_for st0 c in
      case acquiring (contexts st c) of
        None \<Rightarrow> (None, st)
      | Some (req, t) \<Rightarrow>
          if wait_status (contexts st c) \<noteq> GRANTED then
            let k = m_lock (tickets st t) in
            case mdl_locks st k of
              None \<Rightarrow> (None, st)
            | Some lk \<Rightarrow>
                (case lk_abort_wait mx (tickets st) (waits st) lk t of
                   (ws, lk') \<Rightarrow>
                     (None, upd_ctx (store_lock (st\<lparr>waits := reset_status ws c\<rparr>) k lk') c
                              (\<lambda>x. x\<lparr>acquiring := None\<rparr>)))
          else
            (Some t, upd_ctx (st\<lparr>waits := reset_status (waits st) c\<rparr>) c
               (\<lambda>x. (set_tickets (req_duration req) ((#) t) x)\<lparr>acquiring := None\<rparr>)))"

text \<open>\<^verbatim>\<open>reset()\<close>, called when a connection is reused.\<close>

definition mdl_context_reset :: "mdl_state \<Rightarrow> context_id \<Rightarrow> mdl_state" where
  "mdl_context_reset st c = upd_ctx st c (\<lambda>x. x\<lparr>m_deadlock_overweight := 0\<rparr>)"

subsection \<open>Releasing\<close>

definition release_lock :: "u64 \<Rightarrow> mdl_state \<Rightarrow> context_id \<Rightarrow> enum_mdl_duration \<Rightarrow> ticket \<Rightarrow> mdl_state" where
  "release_lock mx st c d t =
     (let k = m_lock (tickets st t) in
      case mdl_locks st k of
        None \<Rightarrow> st
      | Some lk \<Rightarrow>
          (case lk_release mx (tickets st) (waits st) lk t of
             (ws, lk') \<Rightarrow>
               upd_ctx (store_lock (st\<lparr>waits := ws\<rparr>) k lk') c (set_tickets d (remove1 t))))"

fun release_until :: "u64 \<Rightarrow> mdl_state \<Rightarrow> context_id \<Rightarrow> enum_mdl_duration \<Rightarrow> ticket option \<Rightarrow> ticket list \<Rightarrow> mdl_state" where
  "release_until mx st c d sentinel [] = st"
| "release_until mx st c d sentinel (t # ts) =
     (if Some t = sentinel then st else release_until mx (release_lock mx st c d t) c d sentinel ts)"

definition release_locks_stored_before ::
  "u64 \<Rightarrow> mdl_state \<Rightarrow> context_id \<Rightarrow> enum_mdl_duration \<Rightarrow> ticket option \<Rightarrow> mdl_state" where
  "release_locks_stored_before mx st c d sentinel =
     release_until mx st c d sentinel (m_tickets (contexts st c) d)"

definition release_all_locks_for_name :: "u64 \<Rightarrow> mdl_state \<Rightarrow> context_id \<Rightarrow> ticket \<Rightarrow> mdl_state" where
  "release_all_locks_for_name mx st c name =
     fold (\<lambda>t s. release_lock mx s c MDL_EXPLICIT t)
       (filter (\<lambda>t. m_lock (tickets st t) = m_lock (tickets st name)) (m_tickets (contexts st c) MDL_EXPLICIT)) st"

record MDL_savepoint =
  m_stmt_ticket :: "ticket option"
  m_trans_ticket :: "ticket option"

definition front :: "'a list \<Rightarrow> 'a option" where
  "front xs = (case xs of [] \<Rightarrow> None | x # _ \<Rightarrow> Some x)"

definition mdl_savepoint :: "mdl_state \<Rightarrow> context_id \<Rightarrow> MDL_savepoint" where
  "mdl_savepoint st c =
     \<lparr>m_stmt_ticket = front (m_tickets (contexts st c) MDL_STATEMENT),
      m_trans_ticket = front (m_tickets (contexts st c) MDL_TRANSACTION)\<rparr>"

definition rollback_to_savepoint :: "u64 \<Rightarrow> mdl_state \<Rightarrow> context_id \<Rightarrow> MDL_savepoint \<Rightarrow> mdl_state" where
  "rollback_to_savepoint mx st c sv =
     release_locks_stored_before mx (release_locks_stored_before mx st c MDL_STATEMENT (m_stmt_ticket sv))
       c MDL_TRANSACTION (m_trans_ticket sv)"

definition release_transactional_locks :: "u64 \<Rightarrow> mdl_state \<Rightarrow> context_id \<Rightarrow> mdl_state" where
  "release_transactional_locks mx st c =
     release_locks_stored_before mx (release_locks_stored_before mx st c MDL_STATEMENT None)
       c MDL_TRANSACTION None"

definition release_statement_locks :: "u64 \<Rightarrow> mdl_state \<Rightarrow> context_id \<Rightarrow> mdl_state" where
  "release_statement_locks mx st c = release_locks_stored_before mx st c MDL_STATEMENT None"

definition release_explicit_locks :: "u64 \<Rightarrow> mdl_state \<Rightarrow> context_id \<Rightarrow> mdl_state" where
  "release_explicit_locks mx st c = release_locks_stored_before mx st c MDL_EXPLICIT None"

fun before_sentinel :: "ticket option \<Rightarrow> ticket list \<Rightarrow> ticket list" where
  "before_sentinel s [] = []"
| "before_sentinel s (t # ts) = (if Some t = s then [] else t # before_sentinel s ts)"

definition has_lock :: "mdl_state \<Rightarrow> context_id \<Rightarrow> MDL_savepoint \<Rightarrow> ticket \<Rightarrow> bool" where
  "has_lock st c sv t \<longleftrightarrow>
     t \<notin> set (before_sentinel (m_stmt_ticket sv) (m_tickets (contexts st c) MDL_STATEMENT)) \<and>
     t \<notin> set (before_sentinel (m_trans_ticket sv) (m_tickets (contexts st c) MDL_TRANSACTION))"

definition has_locks :: "mdl_state \<Rightarrow> context_id \<Rightarrow> bool" where
  "has_locks st c \<longleftrightarrow>
     \<not> (m_tickets (contexts st c) MDL_STATEMENT = [] \<and> m_tickets (contexts st c) MDL_TRANSACTION = [] \<and>
        m_tickets (contexts st c) MDL_EXPLICIT = [])"

definition is_lock_owner :: "mdl_state \<Rightarrow> context_id \<Rightarrow> string \<Rightarrow> enum_mdl_type \<Rightarrow> bool" where
  "is_lock_owner st c k ty \<longleftrightarrow>
     find_ticket st c \<lparr>req_key = k, req_type = ty, req_duration = MDL_TRANSACTION\<rparr> \<noteq> None"

definition get_lock_owner :: "mdl_state \<Rightarrow> string \<Rightarrow> nat" where
  "get_lock_owner st k =
     (case mdl_locks st k of None \<Rightarrow> 0 | Some lk \<Rightarrow> lk_get_lock_owner (thread_ids st) (tickets st) lk)"

subsection \<open>Durations\<close>

definition set_lock_duration :: "mdl_state \<Rightarrow> context_id \<Rightarrow> ticket \<Rightarrow> enum_mdl_duration \<Rightarrow> mdl_state" where
  "set_lock_duration st c t d =
     upd_ctx st c (\<lambda>x. set_tickets d ((#) t) (set_tickets MDL_TRANSACTION (remove1 t) x))"

text \<open>Moving the tickets of a list one by one to the front of another one.\<close>

definition move_tickets :: "enum_mdl_duration \<Rightarrow> enum_mdl_duration \<Rightarrow> MDL_context \<Rightarrow> MDL_context" where
  "move_tickets from to x =
     fold (\<lambda>t y. set_tickets to ((#) t) (set_tickets from (remove1 t) y)) (m_tickets x from) x"

definition swap_tickets :: "enum_mdl_duration \<Rightarrow> enum_mdl_duration \<Rightarrow> MDL_context \<Rightarrow> MDL_context" where
  "swap_tickets a b x =
     x\<lparr>m_tickets := (m_tickets x)(a := m_tickets x b, b := m_tickets x a)\<rparr>"

definition set_explicit_duration_for_all_locks :: "mdl_state \<Rightarrow> context_id \<Rightarrow> mdl_state" where
  "set_explicit_duration_for_all_locks st c =
     upd_ctx st c (\<lambda>x. move_tickets MDL_TRANSACTION MDL_EXPLICIT
                         (move_tickets MDL_STATEMENT MDL_EXPLICIT
                           (swap_tickets MDL_EXPLICIT MDL_TRANSACTION x)))"

definition set_transaction_duration_for_all_locks :: "mdl_state \<Rightarrow> context_id \<Rightarrow> mdl_state" where
  "set_transaction_duration_for_all_locks st c =
     upd_ctx st c (\<lambda>x. move_tickets MDL_EXPLICIT MDL_TRANSACTION
                         (swap_tickets MDL_TRANSACTION MDL_EXPLICIT x))"

subsection \<open>Changing the type\<close>

definition downgrade_lock :: "u64 \<Rightarrow> mdl_state \<Rightarrow> ticket \<Rightarrow> enum_mdl_type \<Rightarrow> mdl_state" where
  "downgrade_lock mx st t ty =
     (if m_type (tickets st t) = ty \<or> \<not> ticket_has_stronger_or_equal_type st t ty then st
      else let k = m_lock (tickets st t) in
        case mdl_locks st k of
          None \<Rightarrow> st
        | Some lk \<Rightarrow>
            (case lk_downgrade mx (ticket_strategy st t) (tickets st) (waits st) lk t ty of
               (tk, ws, lk') \<Rightarrow> store_lock (st\<lparr>tickets := tk, waits := ws\<rparr>) k lk'))"

text \<open>
  \<^verbatim>\<open>upgrade_shared_lock()\<close> before and after the acquisition of the stronger lock: it may be
  done at once, or a request is to be acquired first; then the two tickets are merged.
\<close>

definition upgrade_begin :: "mdl_state \<Rightarrow> ticket \<Rightarrow> enum_mdl_type \<Rightarrow> MDL_request option \<times> mdl_state" where
  "upgrade_begin st t new_type =
     (if ticket_has_stronger_or_equal_type st t new_type \<and>
         namespace_of (m_lock (tickets st t)) \<noteq> BACKUP then (None, st)
      else case lk_try_fast_upgrade (tickets st) t new_type of
        Some tk \<Rightarrow> (None, st\<lparr>tickets := tk\<rparr>)
      | None \<Rightarrow> (Some \<lparr>req_key = m_lock (tickets st t), req_type = new_type, req_duration = MDL_TRANSACTION\<rparr>, st))"

definition upgrade_end :: "mdl_state \<Rightarrow> context_id \<Rightarrow> MDL_savepoint \<Rightarrow> ticket \<Rightarrow> enum_mdl_type \<Rightarrow> ticket \<Rightarrow> mdl_state" where
  "upgrade_end st c sv t new_type xticket =
     (let k = m_lock (tickets st t); is_new_ticket = (\<not> has_lock st c sv xticket) in
      case mdl_locks st k of
        None \<Rightarrow> st
      | Some lk \<Rightarrow>
          (case lk_upgrade (tickets st) lk t new_type (if is_new_ticket then Some xticket else None) of
             (tk, lk') \<Rightarrow>
               let st1 = store_lock (st\<lparr>tickets := tk\<rparr>) k lk' in
               if is_new_ticket then upd_ctx st1 c (set_tickets MDL_TRANSACTION (remove1 xticket)) else st1))"

definition mdl_init :: "nat \<Rightarrow> bool \<Rightarrow> (context_id \<Rightarrow> nat) \<Rightarrow> mdl_state" where
  "mdl_init mdl_instances alloc_ok thr =
     \<lparr>tickets = (\<lambda>_. \<lparr>m_type = 0, m_ctx = 0, m_lock = [], m_fast_lane = None\<rparr>), next_ticket = 0,
      waits = (\<lambda>_. EMPTY), mdl_locks = [backup_key \<mapsto> MDL_lock_backup mdl_instances alloc_ok],
      contexts = (\<lambda>c. \<lparr>m_tickets = (\<lambda>_. []), m_waiting_for = None, m_deadlock_overweight = 0,
                       m_thread_id = thr c, acquiring = None, wait_status = EMPTY\<rparr>)\<rparr>"

end
