(* ===== verification/Mdl_Lock_Inv.thy ===== *)
theory Mdl_Lock_Inv
  imports Mdl_Lock
begin

text \<open>
  The invariant of one metadata lock, and that every operation of \<^verbatim>\<open>MDL_lock\<close> keeps it: the
  lists and their bitmaps agree, lanes are closed once for every heavyweight ticket, and no two
  contexts hold conflicting types.
\<close>

definition holders :: "MDL_lock \<Rightarrow> ticket list" where
  "holders lk = m_list (m_granted lk) @ fr_iterate (m_fast_road lk)"

definition all_tickets :: "MDL_lock \<Rightarrow> ticket list" where
  "all_tickets lk = m_list (m_granted lk) @ m_list (m_waiting lk) @ fr_iterate (m_fast_road lk)"

definition heavy :: "ticket_store \<Rightarrow> MDL_lock \<Rightarrow> nat" where
  "heavy tk lk =
     length (filter (\<lambda>t. \<not> supported_type (m_fast_road lk) (m_type (tk t)))
       (m_list (m_granted lk) @ m_list (m_waiting lk)))"

definition mdl_compat :: "MDL_lock_strategy \<Rightarrow> ticket_store \<Rightarrow> ticket set \<Rightarrow> bool" where
  "mdl_compat s tk H \<longleftrightarrow> holders_ok (conflicting s) (\<lambda>t. m_type (tk t)) (\<lambda>t. m_ctx (tk t)) H"

definition lk_core :: "ticket_store \<Rightarrow> MDL_lock_strategy \<Rightarrow> MDL_lock \<Rightarrow> bool" where
  "lk_core tk s lk \<longleftrightarrow>
     m_strategy lk = Some s \<and> tl_inv tk (m_granted lk) \<and> tl_inv tk (m_waiting lk) \<and>
     distinct (all_tickets lk) \<and> length (all_tickets lk) < 2 ^ 32 \<and>
     (\<forall>t\<in>set (all_tickets lk). m_lock (tk t) = lock_key lk \<and> m_type (tk t) < type_end s) \<and>
     (\<forall>t\<in>set (m_list (m_granted lk)) \<union> set (m_list (m_waiting lk)). m_fast_lane (tk t) = None) \<and>
     (lanes (m_fast_road lk) = [] \<or>
        s = MDL_backup_lock \<and> m_supported_types (m_fast_road lk) = backup_fast_types) \<and>
     (\<forall>t\<in>set (fr_iterate (m_fast_road lk)). supported_type (m_fast_road lk) (m_type (tk t))) \<and>
     mdl_compat s tk (set (holders lk))"

definition lock_inv :: "ticket_store \<Rightarrow> MDL_lock_strategy \<Rightarrow> MDL_lock \<Rightarrow> bool" where
  "lock_inv tk s lk \<longleftrightarrow> lk_core tk s lk \<and> fr_inv tk (heavy tk lk) (m_fast_road lk)"

interpretation mdl_conflict: lock_compatibility "conflicting s" for s
  by unfold_locales (simp add: conflicting_sym)

lemmas lk_sets = holders_def all_tickets_def

lemma lk_coreD:
  assumes "lk_core tk s lk"
  shows "m_strategy lk = Some s" "tl_inv tk (m_granted lk)" "tl_inv tk (m_waiting lk)"
    "distinct (all_tickets lk)" "length (all_tickets lk) < 2 ^ 32" "mdl_compat s tk (set (holders lk))"
    "t \<in> set (all_tickets lk) \<Longrightarrow> m_type (tk t) < type_end s"
    "t \<in> set (all_tickets lk) \<Longrightarrow> m_lock (tk t) = lock_key lk"
    "t \<in> set (m_list (m_granted lk)) \<Longrightarrow> m_fast_lane (tk t) = None"
    "t \<in> set (m_list (m_waiting lk)) \<Longrightarrow> m_fast_lane (tk t) = None"
    "t \<in> set (fr_iterate (m_fast_road lk)) \<Longrightarrow> supported_type (m_fast_road lk) (m_type (tk t))"
  using assms by (auto simp: lk_core_def)

subsection \<open>Granting\<close>

definition can_grant :: "MDL_lock_strategy \<Rightarrow> ticket_store \<Rightarrow> MDL_lock \<Rightarrow> enum_mdl_type \<Rightarrow> context_id \<Rightarrow> bool \<Rightarrow> bool" where
  "can_grant s tk lk ty c ignore \<longleftrightarrow>
     (ignore \<or> (\<forall>w\<in>set (m_list (m_waiting lk)). \<not> is_incompatible_when_waiting s (m_type (tk w)) ty)) \<and>
     (\<forall>g\<in>set (m_list (m_granted lk)). m_ctx (tk g) \<noteq> c \<longrightarrow> \<not> is_incompatible_when_granted s (m_type (tk g)) ty)"

lemma can_grant_lock_iff:
  assumes "tl_inv tk (m_granted lk)" "tl_inv tk (m_waiting lk)"
  shows "can_grant_lock s tk lk ty c ignore \<longleftrightarrow> can_grant s tk lk ty c ignore"
  unfolding can_grant_lock_def Let_def bitmap_and_row [OF assms(1)] bitmap_and_row [OF assms(2)]
    can_grant_def is_incompatible_when_waiting_bit is_incompatible_when_granted_bit
  by (auto simp: list_ex_iff)

lemma fast_types_compatible:
  assumes "bit backup_fast_types a" "bit backup_fast_types b"
  shows "\<not> conflicting MDL_backup_lock a b"
proof -
  have "\<forall>a\<in>set [0..<16]. \<forall>b\<in>set [0..<16]. bit backup_fast_types a \<longrightarrow> bit backup_fast_types b \<longrightarrow>
      \<not> conflicting MDL_backup_lock a b"
    by code_simp
  then show ?thesis using assms bit_u16 [of backup_fast_types] unfolding ball_upt by blast
qed

lemma fr_iterate_no_lanes: "lanes fr = [] \<Longrightarrow> fr_iterate fr = []"
  by (simp add: fr_iterate_def)

lemma lane_strategy:
  assumes "lk_core tk s lk" "t \<in> set (fr_iterate (m_fast_road lk))"
  shows "s = MDL_backup_lock" "m_supported_types (m_fast_road lk) = backup_fast_types"
  using assms fr_iterate_no_lanes by (auto simp: lk_core_def)

lemma lane_compatible:
  assumes "lk_core tk s lk" "t \<in> set (fr_iterate (m_fast_road lk))" "supported_type (m_fast_road lk) ty"
  shows "\<not> conflicting s (m_type (tk t)) ty"
proof -
  have "supported_type (m_fast_road lk) (m_type (tk t))" by (rule lk_coreD(11) [OF assms(1,2)])
  then show ?thesis
    using fast_types_compatible [of "m_type (tk t)" ty] assms(3) lane_strategy [OF assms(1,2)]
    by (simp add: supported_type_bit)
qed

text \<open>A grantable type conflicts with no holder of another context.\<close>

lemma can_grant_compatible:
  assumes "lk_core tk s lk" "can_grant s tk lk ty c ignore"
    "supported_type (m_fast_road lk) ty \<or> fr_iterate (m_fast_road lk) = []"
    "u \<in> set (holders lk)" "m_ctx (tk u) \<noteq> c"
  shows "\<not> conflicting s (m_type (tk u)) ty"
proof (cases "u \<in> set (m_list (m_granted lk))")
  case True
  then show ?thesis using assms(2,5) by (auto simp: can_grant_def conflicting_def)
next
  case False
  then show ?thesis using assms lane_compatible by (auto simp: holders_def)
qed

subsection \<open>Adding and moving tickets\<close>

lemma mdl_compat_cong:
  assumes "\<And>t. t \<in> H \<Longrightarrow> m_type (tk t) = m_type (tk' t) \<and> m_ctx (tk t) = m_ctx (tk' t)"
  shows "mdl_compat s tk H \<longleftrightarrow> mdl_compat s tk' H"
  using assms by (auto simp: mdl_compat_def holders_ok_def)

lemma lk_core_add_granted:
  assumes "lk_core tk s lk" "t \<notin> set (all_tickets lk)" "length (all_tickets lk) + 1 < 2 ^ 32"
    "m_lock (tk t) = lock_key lk" "m_type (tk t) < type_end s" "m_fast_lane (tk t) = None"
    "\<And>u. u \<in> set (holders lk) \<Longrightarrow> m_ctx (tk u) \<noteq> m_ctx (tk t) \<Longrightarrow> \<not> conflicting s (m_type (tk u)) (m_type (tk t))"
  shows "lk_core tk s (lk\<lparr>m_granted := add_ticket tk (m_granted lk) t\<rparr>)"
proof -
  have "tl_inv tk (add_ticket tk (m_granted lk) t)"
    using assms type_end_le [of s] lk_coreD(2) [OF assms(1)] by (intro add_ticket_inv) (auto simp: all_tickets_def)
  moreover have "mdl_compat s tk (insert t (set (holders lk)))"
    unfolding mdl_compat_def
    by (rule mdl_conflict.holders_ok_insert) (use assms lk_coreD(6) [OF assms(1)] in \<open>auto simp: mdl_compat_def\<close>)
  ultimately show ?thesis
    using assms(1-6) by (auto simp: lk_core_def lk_sets)
qed

lemma lk_core_add_waiting:
  assumes "lk_core tk s lk" "t \<notin> set (all_tickets lk)" "length (all_tickets lk) + 1 < 2 ^ 32"
    "m_lock (tk t) = lock_key lk" "m_type (tk t) < type_end s" "m_fast_lane (tk t) = None"
  shows "lk_core tk s (lk\<lparr>m_waiting := add_ticket tk (m_waiting lk) t\<rparr>)"
proof -
  have "tl_inv tk (add_ticket tk (m_waiting lk) t)"
    using assms type_end_le [of s] lk_coreD(3) [OF assms(1)] by (intro add_ticket_inv) (auto simp: all_tickets_def)
  then show ?thesis
    using assms(1-6) by (auto simp: lk_core_def lk_sets)
qed

lemma heavy_add:
  "heavy tk (lk\<lparr>m_granted := add_ticket tk' (m_granted lk) t\<rparr>) =
     heavy tk lk + (if supported_type (m_fast_road lk) (m_type (tk t)) then 0 else 1)"
  "heavy tk (lk\<lparr>m_waiting := add_ticket tk' (m_waiting lk) t\<rparr>) =
     heavy tk lk + (if supported_type (m_fast_road lk) (m_type (tk t)) then 0 else 1)"
  by (auto simp: heavy_def)

lemma lk_core_remove_granted:
  assumes "lk_core tk s lk" "t \<in> set (m_list (m_granted lk))"
  shows "lk_core tk s (lk\<lparr>m_granted := remove_ticket tk (m_granted lk) t\<rparr>)"
proof -
  have "tl_inv tk (remove_ticket tk (m_granted lk) t)"
    using assms remove_ticket_inv lk_coreD(2) by blast
  moreover have "mdl_compat s tk (set (remove1 t (m_list (m_granted lk)) @ fr_iterate (m_fast_road lk)))"
    using lk_coreD(6) [OF assms(1)] set_remove1_subset [of t "m_list (m_granted lk)"]
    unfolding mdl_compat_def holders_def by (auto intro: mdl_conflict.holders_ok_mono)
  moreover have "set (remove1 t (m_list (m_granted lk))) \<subseteq> set (m_list (m_granted lk))"
    by (rule set_remove1_subset)
  ultimately show ?thesis
    using assms(1) length_remove1 [of t "m_list (m_granted lk)"]
    unfolding lk_core_def lk_sets by (auto simp: distinct_remove1 split: if_splits)
qed

lemma lk_core_remove_waiting:
  assumes "lk_core tk s lk" "t \<in> set (m_list (m_waiting lk))"
  shows "lk_core tk s (lk\<lparr>m_waiting := remove_ticket tk (m_waiting lk) t\<rparr>)"
proof -
  have "tl_inv tk (remove_ticket tk (m_waiting lk) t)"
    using assms remove_ticket_inv lk_coreD(3) by blast
  moreover have "set (remove1 t (m_list (m_waiting lk))) \<subseteq> set (m_list (m_waiting lk))"
    by (rule set_remove1_subset)
  ultimately show ?thesis
    using assms(1) length_remove1 [of t "m_list (m_waiting lk)"]
    unfolding lk_core_def lk_sets by (auto simp: distinct_remove1 split: if_splits)
qed

lemma heavy_remove:
  assumes "distinct (all_tickets lk)"
  shows "t \<in> set (m_list (m_granted lk)) \<Longrightarrow>
      heavy tk (lk\<lparr>m_granted := remove_ticket tk' (m_granted lk) t\<rparr>) =
      heavy tk lk - (if supported_type (m_fast_road lk) (m_type (tk t)) then 0 else 1)"
    and "t \<in> set (m_list (m_waiting lk)) \<Longrightarrow>
      heavy tk (lk\<lparr>m_waiting := remove_ticket tk' (m_waiting lk) t\<rparr>) =
      heavy tk lk - (if supported_type (m_fast_road lk) (m_type (tk t)) then 0 else 1)"
proof -
  have d: "distinct (m_list (m_granted lk))" "distinct (m_list (m_waiting lk))"
    using assms by (auto simp: all_tickets_def)
  let ?h = "\<lambda>t. \<not> supported_type (m_fast_road lk) (m_type (tk t))"
  have pos: "0 < length (filter P xs)" if "u \<in> set xs" "P u" for P and u :: ticket and xs
    using that by (induction xs) auto
  show "t \<in> set (m_list (m_granted lk)) \<Longrightarrow> heavy tk (lk\<lparr>m_granted := remove_ticket tk' (m_granted lk) t\<rparr>) =
      heavy tk lk - (if supported_type (m_fast_road lk) (m_type (tk t)) then 0 else 1)"
    using filter_remove1_len [OF d(1), of ?h t] pos [of t "m_list (m_granted lk)" ?h]
    by (auto simp: heavy_def simp del: length_greater_0_conv)
  show "t \<in> set (m_list (m_waiting lk)) \<Longrightarrow> heavy tk (lk\<lparr>m_waiting := remove_ticket tk' (m_waiting lk) t\<rparr>) =
      heavy tk lk - (if supported_type (m_fast_road lk) (m_type (tk t)) then 0 else 1)"
    using filter_remove1_len [OF d(2), of ?h t] pos [of t "m_list (m_waiting lk)" ?h]
    by (auto simp: heavy_def simp del: length_greater_0_conv)
qed

lemma heavy_pos:
  assumes "t \<in> set (m_list (m_granted lk)) \<or> t \<in> set (m_list (m_waiting lk))"
    "\<not> supported_type (m_fast_road lk) (m_type (tk t))"
  shows "0 < heavy tk lk"
  using assms by (auto simp: heavy_def length_greater_0_conv filter_empty_conv simp del: length_greater_0_conv)

subsection \<open>Closing and reopening the lanes\<close>

lemma heavy_le: "heavy tk lk \<le> length (all_tickets lk)"
  using length_filter_le [of "\<lambda>t. \<not> supported_type (m_fast_road lk) (m_type (tk t))"
      "m_list (m_granted lk) @ m_list (m_waiting lk)"]
  by (simp add: heavy_def all_tickets_def)

lemma lk_close_supported: "supported_type (m_fast_road lk) ty \<Longrightarrow> lk_close tk lk ty = (tk, lk)"
  by (simp add: lk_close_def fr_close_def)

lemma lk_close_facts:
  assumes "lk_close tk lk ty = (tk', lk')" "\<not> supported_type (m_fast_road lk) ty" "lk_core tk s lk"
    "fr_inv tk (heavy tk lk) (m_fast_road lk)" "length (all_tickets lk) + 1 < 2 ^ 32"
  shows "tk' = off_lane tk (fr_iterate (m_fast_road lk))"
    and "lk_core tk' s lk'" and "fr_inv tk' (heavy tk' lk' + 1) (m_fast_road lk')"
    and "fr_iterate (m_fast_road lk') = []" and "m_supported_types (m_fast_road lk') = m_supported_types (m_fast_road lk)"
    and "m_list (m_granted lk') = holders lk" and "m_waiting lk' = m_waiting lk" and "lock_key lk' = lock_key lk"
    and "heavy tk' lk' = heavy tk lk" and "m_strategy lk' = m_strategy lk"
proof -
  obtain g fr where c: "fr_close tk (m_granted lk) (m_fast_road lk) ty = (tk', g, fr)"
    and lk': "lk' = lk\<lparr>m_granted := g, m_fast_road := fr\<rparr>"
    using assms(1) by (auto simp: lk_close_def split: prod.splits)
  note e = fr_close_eq [OF c assms(2)]
  show "tk' = off_lane tk (fr_iterate (m_fast_road lk))" "fr_iterate (m_fast_road lk') = []"
    "m_supported_types (m_fast_road lk') = m_supported_types (m_fast_road lk)"
    "m_list (m_granted lk') = holders lk" "m_waiting lk' = m_waiting lk" "lock_key lk' = lock_key lk"
    "m_strategy lk' = m_strategy lk"
    using e by (auto simp: lk' holders_def)
  have sup: "supported_type (m_fast_road lk') = supported_type (m_fast_road lk)"
    using e by (auto simp: lk' supported_type_bit)
  have flt: "filter (\<lambda>t. \<not> supported_type (m_fast_road lk) (m_type (tk t))) (fr_iterate (m_fast_road lk)) = []"
    using lk_coreD(11) [OF assms(3)] by (auto simp: filter_empty_conv)
  show h: "heavy tk' lk' = heavy tk lk"
    unfolding heavy_def sup using e flt by (simp add: lk')
  show "fr_inv tk' (heavy tk' lk' + 1) (m_fast_road lk')"
    using fr_close_inv [OF c assms(2,4)] heavy_le [of tk lk] assms(5) h by (simp add: lk')
  have "tl_inv tk g"
    by (rule fr_close_tl_inv [OF c])
       (use lk_coreD [OF assms(3)] assms(5) type_end_le [of s] in \<open>fastforce simp: all_tickets_def\<close>)+
  then have "tl_inv tk' g" using e(1) by (subst tl_inv_cong [where tk' = tk]) auto
  moreover have "tl_inv tk' (m_waiting lk)"
    using lk_coreD(3) [OF assms(3)] e(1) by (subst tl_inv_cong [where tk' = tk]) auto
  moreover have "mdl_compat s tk' (set (holders lk))"
    using lk_coreD(6) [OF assms(3)] e(1) by (subst mdl_compat_cong [where tk' = tk]) auto
  moreover have "lanes fr = [] \<longleftrightarrow> lanes (m_fast_road lk) = []"
    using e(5) by (metis length_0_conv)
  moreover have "m_fast_lane (tk' t) = None" if "t \<in> set (m_list g) \<union> set (m_list (m_waiting lk))" for t
    using that e lk_coreD(9,10) [OF assms(3)] by auto
  ultimately show "lk_core tk' s lk'"
    using assms(3) e unfolding lk_core_def lk' by (auto simp: lk_sets)
qed

lemma lk_core_road:
  assumes "lk_core tk s lk" "fr_iterate fr = fr_iterate (m_fast_road lk)"
    "m_supported_types fr = m_supported_types (m_fast_road lk)" "length (lanes fr) = length (lanes (m_fast_road lk))"
  shows "lk_core tk s (lk\<lparr>m_fast_road := fr\<rparr>)"
proof -
  have "lanes fr = [] \<longleftrightarrow> lanes (m_fast_road lk) = []" using assms(4) by (metis length_0_conv)
  then show ?thesis
    using assms(1-3) unfolding lk_core_def lk_sets by (auto simp: supported_type_bit)
qed

lemma heavy_road:
  "m_supported_types fr = m_supported_types (m_fast_road lk) \<Longrightarrow>
   heavy tk (lk\<lparr>m_fast_road := fr\<rparr>) = heavy tk lk"
  by (simp add: heavy_def supported_type_bit)

lemma reopen_lock_inv:
  assumes "lk_core tk s lk"
    "fr_inv tk (heavy tk lk + (if supported_type (m_fast_road lk) ty then 0 else 1)) (m_fast_road lk)"
  shows "lock_inv tk s (lk\<lparr>m_fast_road := fr_reopen (m_fast_road lk) ty\<rparr>)"
proof -
  have "fr_inv tk (heavy tk lk) (fr_reopen (m_fast_road lk) ty)"
    using assms(2) fr_reopen_inv [of tk "heavy tk lk + 1" "m_fast_road lk" ty]
    by (cases "supported_type (m_fast_road lk) ty") (auto simp: fr_reopen_def)
  moreover have "length (lanes (fr_reopen (m_fast_road lk) ty)) = length (lanes (m_fast_road lk))"
    by (simp add: fr_reopen_def)
  ultimately show ?thesis
    using lk_core_road [OF assms(1), of "fr_reopen (m_fast_road lk) ty"] by (simp add: lock_inv_def heavy_road)
qed

subsection \<open>Acquiring\<close>

definition fresh_ticket :: "ticket_store \<Rightarrow> MDL_lock_strategy \<Rightarrow> MDL_lock \<Rightarrow> ticket \<Rightarrow> bool" where
  "fresh_ticket tk s lk t \<longleftrightarrow>
     t \<notin> set (all_tickets lk) \<and> length (all_tickets lk) + 1 < 2 ^ 32 \<and>
     m_type (tk t) < type_end s \<and> m_fast_lane (tk t) = None"

lemma lock_inv_add_granted:
  assumes "lk_core tk s lk" "fr_inv tk (heavy tk lk + (if supported_type (m_fast_road lk) (m_type (tk t)) then 0 else 1)) (m_fast_road lk)"
    "fresh_ticket tk s lk t" "m_lock (tk t) = lock_key lk"
    "\<And>u. u \<in> set (holders lk) \<Longrightarrow> m_ctx (tk u) \<noteq> m_ctx (tk t) \<Longrightarrow> \<not> conflicting s (m_type (tk u)) (m_type (tk t))"
  shows "lock_inv tk s (lk\<lparr>m_granted := add_ticket tk (m_granted lk) t\<rparr>)"
  using lk_core_add_granted [OF assms(1)] assms by (auto simp: lock_inv_def fresh_ticket_def heavy_add)

lemma lock_inv_add_waiting:
  assumes "lk_core tk s lk" "fr_inv tk (heavy tk lk + (if supported_type (m_fast_road lk) (m_type (tk t)) then 0 else 1)) (m_fast_road lk)"
    "fresh_ticket tk s lk t" "m_lock (tk t) = lock_key lk"
  shows "lock_inv tk s (lk\<lparr>m_waiting := add_ticket tk (m_waiting lk) t\<rparr>)"
  using lk_core_add_waiting [OF assms(1)] assms by (auto simp: lock_inv_def fresh_ticket_def heavy_add)

definition same_tickets :: "ticket_store \<Rightarrow> ticket_store \<Rightarrow> ticket set \<Rightarrow> bool" where
  "same_tickets tk tk' T \<longleftrightarrow>
     (\<forall>t\<in>T. m_type (tk' t) = m_type (tk t) \<and> m_ctx (tk' t) = m_ctx (tk t) \<and>
        m_lock (tk' t) = m_lock (tk t) \<and> m_fast_lane (tk' t) = m_fast_lane (tk t))"

lemma lk_core_cong:
  assumes "same_tickets tk tk' (set (all_tickets lk))" "lk_core tk s lk"
  shows "lk_core tk' s lk" "heavy tk' lk = heavy tk lk"
    "fr_inv tk n (m_fast_road lk) \<Longrightarrow> fr_inv tk' n (m_fast_road lk)"
proof -
  have all: "m_type (tk' t) = m_type (tk t) \<and> m_ctx (tk' t) = m_ctx (tk t) \<and>
        m_lock (tk' t) = m_lock (tk t) \<and> m_fast_lane (tk' t) = m_fast_lane (tk t)"
    if "t \<in> set (m_list (m_granted lk)) \<or> t \<in> set (m_list (m_waiting lk)) \<or>
      t \<in> set (fr_iterate (m_fast_road lk)) \<or> t \<in> set (holders lk) \<or> t \<in> set (all_tickets lk)" for t
    using that assms(1) by (auto simp: lk_sets same_tickets_def)
  show "heavy tk' lk = heavy tk lk"
    unfolding heavy_def using all by (intro arg_cong [where f = length] filter_cong) auto
  have "tl_inv tk' (m_granted lk)" "tl_inv tk' (m_waiting lk)"
    using lk_coreD(2,3) [OF assms(2)] all by (subst tl_inv_cong [where tk' = tk]; auto)+
  moreover have "mdl_compat s tk' (set (holders lk))"
    using lk_coreD(6) [OF assms(2)] all by (subst mdl_compat_cong [where tk' = tk]) auto
  ultimately show "lk_core tk' s lk"
    using assms(2) all unfolding lk_core_def by auto
  show "fr_inv tk' n (m_fast_road lk)" if "fr_inv tk n (m_fast_road lk)"
    by (rule fr_inv_cong [OF _ that]) (use all in auto)
qed

lemma lock_inv_cong:
  assumes "same_tickets tk tk' (set (all_tickets lk))" "lock_inv tk s lk"
  shows "lock_inv tk' s lk"
  using lk_core_cong [OF assms(1)] assms(2) by (auto simp: lock_inv_def)

lemma lk_close_lock_inv:
  assumes "lk_close tk lk ty = (tk', lk')" "lock_inv tk s lk" "length (all_tickets lk) + 1 < 2 ^ 32"
  shows "lk_core tk' s lk'"
    and "fr_inv tk' (heavy tk' lk' + (if supported_type (m_fast_road lk') ty then 0 else 1)) (m_fast_road lk')"
    and "supported_type (m_fast_road lk') ty \<or> fr_iterate (m_fast_road lk') = []"
    and "mset (all_tickets lk') = mset (all_tickets lk)" and "set (holders lk') = set (holders lk)"
    and "m_waiting lk' = m_waiting lk" and "lock_key lk' = lock_key lk"
    and "\<And>t. m_type (tk' t) = m_type (tk t) \<and> m_ctx (tk' t) = m_ctx (tk t) \<and> m_lock (tk' t) = m_lock (tk t)"
    and "\<And>t. t \<notin> set (all_tickets lk) \<Longrightarrow> tk' t = tk t"
    and "m_supported_types (m_fast_road lk') = m_supported_types (m_fast_road lk)"
    and "m_strategy lk' = m_strategy lk"
proof -
  have i: "lk_core tk s lk" "fr_inv tk (heavy tk lk) (m_fast_road lk)"
    using assms(2) by (auto simp: lock_inv_def)
  consider (s) "supported_type (m_fast_road lk) ty" "tk' = tk" "lk' = lk"
    | (n) "\<not> supported_type (m_fast_road lk) ty"
    using assms(1) lk_close_supported by (cases "supported_type (m_fast_road lk) ty") auto
  then show "lk_core tk' s lk'"
    "fr_inv tk' (heavy tk' lk' + (if supported_type (m_fast_road lk') ty then 0 else 1)) (m_fast_road lk')"
    "supported_type (m_fast_road lk') ty \<or> fr_iterate (m_fast_road lk') = []"
    "mset (all_tickets lk') = mset (all_tickets lk)" "set (holders lk') = set (holders lk)"
    "m_waiting lk' = m_waiting lk" "lock_key lk' = lock_key lk"
    "\<And>t. m_type (tk' t) = m_type (tk t) \<and> m_ctx (tk' t) = m_ctx (tk t) \<and> m_lock (tk' t) = m_lock (tk t)"
    "\<And>t. t \<notin> set (all_tickets lk) \<Longrightarrow> tk' t = tk t"
    "m_supported_types (m_fast_road lk') = m_supported_types (m_fast_road lk)"
    "m_strategy lk' = m_strategy lk"
    by (cases; use lk_close_facts [OF assms(1) _ i assms(3)] i in
        \<open>auto simp: lk_sets supported_type_bit off_lane_def\<close>)+
qed

lemma fresh_ticket_close:
  assumes "lk_close tk lk ty = (tk', lk')" "lock_inv tk s lk" "fresh_ticket tk s lk t"
  shows "fresh_ticket tk' s lk' t"
proof -
  have len: "length (all_tickets lk) + 1 < 2 ^ 32" using assms(3) by (simp add: fresh_ticket_def)
  note c = lk_close_lock_inv [OF assms(1,2) len]
  have "set (all_tickets lk') = set (all_tickets lk)" "length (all_tickets lk') = length (all_tickets lk)"
    using c(4) by (metis set_mset_mset, metis size_mset)
  then show ?thesis using assms(3) c(9) [of t] by (simp add: fresh_ticket_def)
qed

text \<open>Setting the lock of a ticket that is not in the lock's lists yet.\<close>

lemma lock_inv_other:
  "lock_inv tk s lk \<Longrightarrow> t \<notin> set (all_tickets lk) \<Longrightarrow> lock_inv (tk(t := x)) s lk"
  by (rule lock_inv_cong [of tk]) (auto simp: same_tickets_def)

lemma lk_fast_acquire_inv:
  assumes "fr_try_acquire_lock thread_id tk (m_fast_road lk) t = Some (tk', fr)" "lock_inv tk s lk"
    "fresh_ticket tk s lk t" "m_lock (tk t) = lock_key lk"
  shows "lock_inv tk' s (lk\<lparr>m_fast_road := fr\<rparr>)" "mset (all_tickets (lk\<lparr>m_fast_road := fr\<rparr>)) = add_mset t (mset (all_tickets lk))"
    "m_supported_types fr = m_supported_types (m_fast_road lk)"
proof -
  have i: "lk_core tk s lk" "fr_inv tk (heavy tk lk) (m_fast_road lk)"
    using assms(2) by (auto simp: lock_inv_def)
  have f: "t \<notin> set (all_tickets lk)" "length (all_tickets lk) + 1 < 2 ^ 32" "m_type (tk t) < type_end s"
    using assms(3) by (auto simp: fresh_ticket_def)
  obtain j where sup: "supported_type (m_fast_road lk) (m_type (tk t))"
    and tk': "tk' = tk(t := (tk t)\<lparr>m_fast_lane := Some j\<rparr>)"
    and fr: "m_supported_types fr = m_supported_types (m_fast_road lk)" "length (lanes fr) = length (lanes (m_fast_road lk))"
    using assms(1) by (rule fr_try_acquire_lockE) auto
  show "m_supported_types fr = m_supported_types (m_fast_road lk)" by (rule fr(1))
  have m: "mset (fr_iterate fr) = add_mset t (mset (fr_iterate (m_fast_road lk)))"
    by (rule fr_try_acquire_lock_mset [OF assms(1)])
  then have set: "set (fr_iterate fr) = insert t (set (fr_iterate (m_fast_road lk)))"
    by (metis set_mset_mset set_mset_add_mset_insert)
  show mall: "mset (all_tickets (lk\<lparr>m_fast_road := fr\<rparr>)) = add_mset t (mset (all_tickets lk))"
    using m by (simp add: all_tickets_def)
  then have "distinct (all_tickets (lk\<lparr>m_fast_road := fr\<rparr>))" "length (all_tickets (lk\<lparr>m_fast_road := fr\<rparr>)) < 2 ^ 32"
    using f lk_coreD(4) [OF i(1)]
    by (metis distinct.simps(2) mset.simps(2) mset_eq_imp_distinct_iff, metis Suc_eq_plus1 size_add_mset size_mset)
  moreover have z: "fr_inv tk' (heavy tk lk) fr \<and> heavy tk lk = 0"
    by (rule fr_try_acquire_lock_inv [OF assms(1) i(2)]) (use f in \<open>auto simp: all_tickets_def\<close>)
  moreover have tki: "lock_inv tk' s lk" unfolding tk' by (rule lock_inv_other [OF assms(2) f(1)])
  moreover have "heavy tk' lk = heavy tk lk"
    unfolding heavy_def tk' using f by (intro arg_cong [where f = length] filter_cong) auto
  moreover have "mdl_compat s tk' (insert t (set (holders lk)))"
    unfolding mdl_compat_def
  proof (rule mdl_conflict.holders_ok_insert)
    show "holders_ok (conflicting s) (\<lambda>t. m_type (tk' t)) (\<lambda>t. m_ctx (tk' t)) (set (holders lk))"
      using tki by (auto simp: lock_inv_def mdl_compat_def dest: lk_coreD(6))
    fix u
    assume u: "u \<in> set (holders lk)" "m_ctx (tk' u) \<noteq> m_ctx (tk' t)"
    show "\<not> conflicting s (m_type (tk' u)) (m_type (tk' t))"
    proof (cases "u \<in> set (m_list (m_granted lk))")
      case True
      then have "supported_type (m_fast_road lk) (m_type (tk u))"
        using z heavy_pos [of u lk tk] by auto
      moreover have "lanes (m_fast_road lk) \<noteq> []"
        using assms(1) by (auto simp: fr_try_acquire_lock_def is_enabled_def split: if_splits)
      ultimately show ?thesis
        using fast_types_compatible sup i(1) tk' by (auto simp: lk_core_def supported_type_bit)
    next
      case False
      then have "u \<in> set (fr_iterate (m_fast_road lk))" using u(1) by (simp add: holders_def)
      then show ?thesis using lane_compatible [OF i(1) _ sup] tk' by auto
    qed
  qed
  ultimately show "lock_inv tk' s (lk\<lparr>m_fast_road := fr\<rparr>)"
    using f fr sup assms(4) length_0_conv [of "lanes fr"]
    unfolding lock_inv_def heavy_road [OF fr(1)]
    by (auto simp: lk_core_def lk_sets set supported_type_bit tk' heavy_road)
qed

text \<open>
  The whole of \<^verbatim>\<open>MDL_lock::try_acquire_lock()\<close>: what each outcome does to the lists.
\<close>

lemma lk_try_acquire_lock_inv:
  assumes "lk_try_acquire_lock thread_id tk lk t wait = (st, nt, tk', lk')"
    "lock_inv tk s lk" "fresh_ticket tk s lk t"
  shows "lock_inv tk' s lk'" "st \<noteq> TAL_ERROR" "lock_key lk' = lock_key lk" "m_lock (tk' t) = lock_key lk"
    "st = TAL_ACQUIRED \<Longrightarrow> set (holders lk') = insert t (set (holders lk)) \<and> m_list (m_waiting lk') = m_list (m_waiting lk)"
    "st = TAL_WAIT \<Longrightarrow> wait \<and> set (holders lk') = set (holders lk) \<and> m_list (m_waiting lk') = m_list (m_waiting lk) @ [t]"
    "st = TAL_NOWAIT \<Longrightarrow> \<not> wait \<and> set (holders lk') = set (holders lk) \<and> m_list (m_waiting lk') = m_list (m_waiting lk)"
    "\<And>u. m_type (tk' u) = m_type (tk u) \<and> m_ctx (tk' u) = m_ctx (tk u) \<and> (u \<noteq> t \<longrightarrow> m_lock (tk' u) = m_lock (tk u))"
    "\<And>u. u \<notin> set (all_tickets lk) \<Longrightarrow> u \<noteq> t \<Longrightarrow> tk' u = tk u"
    "st = TAL_WAIT \<Longrightarrow> \<not> can_grant s tk' lk' (m_type (tk t)) (m_ctx (tk t)) False"
proof -
  let ?tk = "tk(t := (tk t)\<lparr>m_lock := lock_key lk\<rparr>)"
  have f: "t \<notin> set (all_tickets lk)" "length (all_tickets lk) + 1 < 2 ^ 32"
    using assms(3) by (auto simp: fresh_ticket_def)
  have inv: "lock_inv ?tk s lk" by (rule lock_inv_other [OF assms(2) f(1)])
  have fresh: "fresh_ticket ?tk s lk t" using assms(3) by (simp add: fresh_ticket_def)
  have strat: "m_strategy lk = Some s" using assms(2) by (auto simp: lock_inv_def dest: lk_coreD(1))
  let ?goal = "lock_inv tk' s lk' \<and> st \<noteq> TAL_ERROR \<and> lock_key lk' = lock_key lk \<and> m_lock (tk' t) = lock_key lk \<and>
    (st = TAL_ACQUIRED \<longrightarrow> set (holders lk') = insert t (set (holders lk)) \<and> m_list (m_waiting lk') = m_list (m_waiting lk)) \<and>
    (st = TAL_WAIT \<longrightarrow> wait \<and> set (holders lk') = set (holders lk) \<and> m_list (m_waiting lk') = m_list (m_waiting lk) @ [t]) \<and>
    (st = TAL_NOWAIT \<longrightarrow> \<not> wait \<and> set (holders lk') = set (holders lk) \<and> m_list (m_waiting lk') = m_list (m_waiting lk)) \<and>
    (\<forall>u. m_type (tk' u) = m_type (tk u) \<and> m_ctx (tk' u) = m_ctx (tk u) \<and> (u \<noteq> t \<longrightarrow> m_lock (tk' u) = m_lock (tk u))) \<and>
    (\<forall>u. u \<notin> set (all_tickets lk) \<longrightarrow> u \<noteq> t \<longrightarrow> tk' u = tk u) \<and>
    (st = TAL_WAIT \<longrightarrow> \<not> can_grant s tk' lk' (m_type (tk t)) (m_ctx (tk t)) False)"
  have ?goal
  proof (cases "fr_try_acquire_lock thread_id ?tk (m_fast_road lk) t")
    case (Some p)
    obtain tk1 fr where p: "p = (tk1, fr)" by fastforce
    have r: "st = TAL_ACQUIRED" "tk' = tk1" "lk' = lk\<lparr>m_fast_road := fr\<rparr>"
      using assms(1) Some p by (auto simp: lk_try_acquire_lock_def Let_def)
    have acq: "fr_try_acquire_lock thread_id ?tk (m_fast_road lk) t = Some (tk1, fr)" using Some p by simp
    note q = lk_fast_acquire_inv [OF acq inv fresh]
    have "set (fr_iterate fr) = insert t (set (fr_iterate (m_fast_road lk)))"
      by (metis fr_try_acquire_lock_mset [OF acq] set_mset_mset set_mset_add_mset_insert)
    moreover obtain i where "tk1 = ?tk(t := (?tk t)\<lparr>m_fast_lane := Some i\<rparr>)"
      using acq by (rule fr_try_acquire_lockE)
    ultimately show ?thesis using q(1) r by (auto simp: holders_def)
  next
    case None
    obtain tk1 lk1 where c: "lk_close ?tk lk (m_type (tk t)) = (tk1, lk1)" by fastforce
    note ci = lk_close_lock_inv [OF c inv f(2)]
    have fr1: "fresh_ticket tk1 s lk1 t" by (rule fresh_ticket_close [OF c inv fresh])
    have t1: "m_type (tk1 t) = m_type (tk t)" "m_ctx (tk1 t) = m_ctx (tk t)" "m_lock (tk1 t) = lock_key lk1"
      using ci(7,8) by auto
    have others: "m_type (tk1 u) = m_type (tk u) \<and> m_ctx (tk1 u) = m_ctx (tk u) \<and> (u \<noteq> t \<longrightarrow> m_lock (tk1 u) = m_lock (tk u))"
      "u \<notin> set (all_tickets lk) \<Longrightarrow> u \<noteq> t \<Longrightarrow> tk1 u = tk u" for u
      using ci(8,9) [of u] by auto
    have cg: "can_grant_lock s tk1 lk1 ty c ign \<longleftrightarrow> can_grant s tk1 lk1 ty c ign" for ty c ign
      using lk_coreD(2,3) [OF ci(1)] by (rule can_grant_lock_iff)
    have ty: "m_type (?tk t) = m_type (tk t)" by simp
    consider (acq) "can_grant s tk1 lk1 (m_type (tk t)) (m_ctx (tk t)) False" "st = TAL_ACQUIRED" "tk' = tk1"
        "lk' = lk1\<lparr>m_granted := add_ticket tk1 (m_granted lk1) t\<rparr>"
      | (wait) "\<not> can_grant s tk1 lk1 (m_type (tk t)) (m_ctx (tk t)) False" "st = TAL_WAIT" wait "tk' = tk1"
        "lk' = lk1\<lparr>m_waiting := add_ticket tk1 (m_waiting lk1) t\<rparr>"
      | (nowait) "st = TAL_NOWAIT" "\<not> wait" "tk' = tk1"
        "lk' = lk1\<lparr>m_fast_road := fr_reopen (m_fast_road lk1) (m_type (tk t))\<rparr>"
      using assms(1) None c strat t1
      by (auto simp: lk_try_acquire_lock_def Let_def cg ty simp del: fun_upd_apply split: if_splits)
    then show ?thesis
    proof cases
      case acq
      have "lock_inv tk1 s lk'"
        unfolding acq(4)
      proof (rule lock_inv_add_granted [OF ci(1) _ fr1 t1(3)])
        show "\<not> conflicting s (m_type (tk1 u)) (m_type (tk1 t))"
          if "u \<in> set (holders lk1)" "m_ctx (tk1 u) \<noteq> m_ctx (tk1 t)" for u
          using can_grant_compatible [OF ci(1) acq(1) ci(3)] that t1 by auto
      qed (use ci(2) t1 in simp)
      then show ?thesis using acq(2-4) ci(5-7) t1 others by (auto simp: holders_def)
    next
      case wait
      have "lock_inv tk1 s lk'"
        unfolding wait(5) by (rule lock_inv_add_waiting [OF ci(1) _ fr1 t1(3)]) (use ci(2) t1 in simp)
      moreover have "\<not> can_grant s tk1 lk' (m_type (tk t)) (m_ctx (tk t)) False"
        using wait(1,5) by (auto simp: can_grant_def)
      ultimately show ?thesis using wait(2-5) ci(5-7) t1 others by (auto simp: holders_def)
    next
      case nowait
      have "lock_inv tk1 s lk'" unfolding nowait(4) by (rule reopen_lock_inv [OF ci(1,2)])
      then show ?thesis using nowait ci(5-7) t1 others by (auto simp: holders_def)
    qed
  qed
  then show "lock_inv tk' s lk'" "st \<noteq> TAL_ERROR" "lock_key lk' = lock_key lk" "m_lock (tk' t) = lock_key lk"
    "st = TAL_ACQUIRED \<Longrightarrow> set (holders lk') = insert t (set (holders lk)) \<and> m_list (m_waiting lk') = m_list (m_waiting lk)"
    "st = TAL_WAIT \<Longrightarrow> wait \<and> set (holders lk') = set (holders lk) \<and> m_list (m_waiting lk') = m_list (m_waiting lk) @ [t]"
    "st = TAL_NOWAIT \<Longrightarrow> \<not> wait \<and> set (holders lk') = set (holders lk) \<and> m_list (m_waiting lk') = m_list (m_waiting lk)"
    "\<And>u. m_type (tk' u) = m_type (tk u) \<and> m_ctx (tk' u) = m_ctx (tk u) \<and> (u \<noteq> t \<longrightarrow> m_lock (tk' u) = m_lock (tk u))"
    "\<And>u. u \<notin> set (all_tickets lk) \<Longrightarrow> u \<noteq> t \<Longrightarrow> tk' u = tk u"
    "st = TAL_WAIT \<Longrightarrow> \<not> can_grant s tk' lk' (m_type (tk t)) (m_ctx (tk t)) False"
    by auto
qed

lemma lk_add_cloned_ticket_inv:
  assumes "lk_add_cloned_ticket tk lk t = (tk', lk')" "lock_inv tk s lk" "fresh_ticket tk s lk t"
    "m_lock (tk t) = lock_key lk" "orig \<in> set (holders lk)" "m_ctx (tk orig) = m_ctx (tk t)"
    "has_stronger_or_equal_type s (m_type (tk orig)) (m_type (tk t))" "weaker_ok s (m_type (tk orig)) (m_type (tk t))"
  shows "lock_inv tk' s lk'" "lock_key lk' = lock_key lk" "set (holders lk') = insert t (set (holders lk))"
    "m_list (m_waiting lk') = m_list (m_waiting lk)"
    "\<And>u. m_type (tk' u) = m_type (tk u) \<and> m_ctx (tk' u) = m_ctx (tk u) \<and> m_lock (tk' u) = m_lock (tk u)"
    "\<And>u. u \<notin> set (all_tickets lk) \<Longrightarrow> tk' u = tk u"
proof -
  have len: "length (all_tickets lk) + 1 < 2 ^ 32" using assms(3) by (simp add: fresh_ticket_def)
  obtain lk1 where c: "lk_close tk lk (m_type (tk t)) = (tk', lk1)"
    and lk': "lk' = lk1\<lparr>m_granted := add_ticket tk' (m_granted lk1) t\<rparr>"
    using assms(1) by (auto simp: lk_add_cloned_ticket_def split: prod.splits)
  note ci = lk_close_lock_inv [OF c assms(2) len]
  have core: "lk_core tk s lk" using assms(2) by (simp add: lock_inv_def)
  have "\<not> conflicting s (m_type (tk u)) (m_type (tk t))"
    if u: "u \<in> set (holders lk)" "m_ctx (tk u) \<noteq> m_ctx (tk t)" for u
  proof
    assume "conflicting s (m_type (tk u)) (m_type (tk t))"
    moreover have "m_type (tk u) < type_end s" "m_type (tk orig) < type_end s" "m_type (tk t) < type_end s"
      using lk_coreD(7) [OF core] u(1) assms(3,5) by (auto simp: lk_sets fresh_ticket_def)
    ultimately have "conflicting s (m_type (tk u)) (m_type (tk orig))"
      using stronger_conflicting [OF assms(7,8), of "m_type (tk u)"] conflicting_sym by metis
    then show False
      using lk_coreD(6) [OF core] u assms(5,6) by (auto simp: mdl_compat_def holders_ok_def)
  qed
  then have "lock_inv tk' s lk'"
    unfolding lk' using ci(2,5,7,8) assms(4)
    by (intro lock_inv_add_granted [OF ci(1) _ fresh_ticket_close [OF c assms(2,3)]]) auto
  then show "lock_inv tk' s lk'" "lock_key lk' = lock_key lk" "set (holders lk') = insert t (set (holders lk))"
    "m_list (m_waiting lk') = m_list (m_waiting lk)"
    "\<And>u. m_type (tk' u) = m_type (tk u) \<and> m_ctx (tk' u) = m_ctx (tk u) \<and> m_lock (tk' u) = m_lock (tk u)"
    "\<And>u. u \<notin> set (all_tickets lk) \<Longrightarrow> tk' u = tk u"
    using ci(5-9) by (auto simp: lk' holders_def)
qed

subsection \<open>Rescheduling\<close>

lemma grant_waiter_lists [simp]:
  "m_list (m_waiting (grant_waiter s tk lk t)) = remove1 t (m_list (m_waiting lk))"
  "m_list (m_granted (grant_waiter s tk lk t)) = m_list (m_granted lk) @ [t]"
  "m_fast_road (grant_waiter s tk lk t) = m_fast_road lk"
  "lock_key (grant_waiter s tk lk t) = lock_key lk" "m_strategy (grant_waiter s tk lk t) = m_strategy lk"
  by (auto simp: grant_waiter_def)

lemma lk_core_hog: "lk_core tk s (lk\<lparr>m_hog_lock_count := h\<rparr>) = lk_core tk s lk"
  by (simp add: lk_core_def lk_sets)

lemma heavy_hog: "heavy tk (lk\<lparr>m_hog_lock_count := h\<rparr>) = heavy tk lk"
  by (simp add: heavy_def)

lemma lock_inv_hog: "lock_inv tk s (lk\<lparr>m_hog_lock_count := h\<rparr>) = lock_inv tk s lk"
  by (simp add: lock_inv_def lk_core_hog heavy_hog)

lemma grant_waiter_inv:
  assumes "lock_inv tk s lk" "t \<in> set (m_list (m_waiting lk))"
    "can_grant s tk lk (m_type (tk t)) (m_ctx (tk t)) ignore"
  shows "lock_inv tk s (grant_waiter s tk lk t)"
proof -
  have i: "lk_core tk s lk" "fr_inv tk (heavy tk lk) (m_fast_road lk)" using assms(1) by (auto simp: lock_inv_def)
  let ?lk = "lk\<lparr>m_waiting := remove_ticket tk (m_waiting lk) t\<rparr>"
  have c1: "lk_core tk s ?lk" by (rule lk_core_remove_waiting [OF i(1) assms(2)])
  have h1: "heavy tk ?lk = heavy tk lk - (if supported_type (m_fast_road lk) (m_type (tk t)) then 0 else 1)"
    using heavy_remove(2) [OF lk_coreD(4) [OF i(1)] assms(2)] .
  have len: "length (remove1 t (m_list (m_waiting lk))) + 1 = length (m_list (m_waiting lk))"
    using length_pos_if_in_set [OF assms(2)] assms(2) by (simp add: length_remove1)
  have fresh: "fresh_ticket tk s ?lk t"
    using lk_coreD(4,5,7,10) [OF i(1)] assms(2) len
    by (auto simp: fresh_ticket_def all_tickets_def)
  have "supported_type (m_fast_road lk) (m_type (tk t)) \<or> fr_iterate (m_fast_road lk) = []"
    using i(2) heavy_pos [of t lk tk] assms(2) by (fastforce simp: fr_inv_def set_fr_iterate simp flip: set_empty)
  then have nc: "\<not> conflicting s (m_type (tk u)) (m_type (tk t))"
    if "u \<in> set (holders ?lk)" "m_ctx (tk u) \<noteq> m_ctx (tk t)" for u
    using can_grant_compatible [OF i(1) assms(3)] that by (auto simp: holders_def)
  have fr: "fr_inv tk (heavy tk ?lk + (if supported_type (m_fast_road ?lk) (m_type (tk t)) then 0 else 1)) (m_fast_road ?lk)"
    using i(2) h1 heavy_pos [of t lk tk] assms(2) by auto
  have "lock_inv tk s (?lk\<lparr>m_granted := add_ticket tk (m_granted ?lk) t\<rparr>)"
    using lk_coreD(8) [OF i(1), of t] assms(2)
    by (intro lock_inv_add_granted [OF c1 fr fresh _ nc]) (auto simp: all_tickets_def)
  moreover obtain h where "grant_waiter s tk lk t =
      (?lk\<lparr>m_granted := add_ticket tk (m_granted ?lk) t\<rparr>)\<lparr>m_hog_lock_count := h\<rparr>"
    by (simp add: grant_waiter_def)
  ultimately show ?thesis by (simp only: lock_inv_hog)
qed

text \<open>
  What the loop does: it moves some of the waiters, each with an empty wait slot that is then set
  to \<open>GRANTED\<close>, to the granted tickets, and changes nothing else.
\<close>

definition resched_frame :: "ticket_store \<Rightarrow> wait_slots \<Rightarrow> MDL_lock \<Rightarrow> wait_slots \<Rightarrow> MDL_lock \<Rightarrow> ticket list \<Rightarrow> bool" where
  "resched_frame tk ws lk ws' lk' gs \<longleftrightarrow>
     m_list (m_granted lk') = m_list (m_granted lk) @ gs \<and>
     m_list (m_waiting lk') = filter (\<lambda>t. t \<notin> set gs) (m_list (m_waiting lk)) \<and>
     set gs \<subseteq> set (m_list (m_waiting lk)) \<and> distinct (map (\<lambda>t. m_ctx (tk t)) gs) \<and>
     (\<forall>c. ws' c = (if \<exists>t\<in>set gs. m_ctx (tk t) = c then GRANTED else ws c)) \<and>
     (\<forall>t\<in>set gs. ws (m_ctx (tk t)) = EMPTY) \<and>
     fr_iterate (m_fast_road lk') = fr_iterate (m_fast_road lk) \<and>
     m_supported_types (m_fast_road lk') = m_supported_types (m_fast_road lk) \<and>
     lock_key lk' = lock_key lk \<and> m_strategy lk' = m_strategy lk"

lemma resched_frame_refl: "resched_frame tk ws lk ws lk []"
  by (simp add: resched_frame_def)

lemma resched_frame_grant:
  assumes "resched_frame tk (ws(m_ctx (tk t) := GRANTED)) (grant_waiter s tk lk t) ws' lk' gs"
    "ws (m_ctx (tk t)) = EMPTY" "t \<in> set (m_list (m_waiting lk))" "distinct (m_list (m_waiting lk))"
  shows "resched_frame tk ws lk ws' lk' (t # gs)"
proof -
  have a: "m_list (m_granted lk') = m_list (m_granted lk) @ t # gs"
    "m_list (m_waiting lk') = filter (\<lambda>u. u \<notin> set gs) (remove1 t (m_list (m_waiting lk)))"
    "set gs \<subseteq> set (remove1 t (m_list (m_waiting lk)))" "distinct (map (\<lambda>t. m_ctx (tk t)) gs)"
    "\<forall>c. ws' c = (if \<exists>t\<in>set gs. m_ctx (tk t) = c then GRANTED else (ws(m_ctx (tk t) := GRANTED)) c)"
    "\<forall>u\<in>set gs. (ws(m_ctx (tk t) := GRANTED)) (m_ctx (tk u)) = EMPTY"
    "fr_iterate (m_fast_road lk') = fr_iterate (m_fast_road lk)" "lock_key lk' = lock_key lk" "m_strategy lk' = m_strategy lk"
    "m_supported_types (m_fast_road lk') = m_supported_types (m_fast_road lk)"
    using assms(1) by (auto simp: resched_frame_def)
  have ne: "m_ctx (tk u) \<noteq> m_ctx (tk t)" "ws (m_ctx (tk u)) = EMPTY" if "u \<in> set gs" for u
    using a(6) that by (auto split: if_splits)
  have "filter (\<lambda>u. u \<notin> set gs) (remove1 t (m_list (m_waiting lk))) =
      filter (\<lambda>u. u \<notin> set (t # gs)) (m_list (m_waiting lk))"
    using assms(4) by (auto simp: distinct_remove1_removeAll removeAll_filter_not_eq intro!: filter_cong)
  moreover have "set gs \<subseteq> set (m_list (m_waiting lk))" using a(3) set_remove1_subset by fastforce
  moreover have "m_ctx (tk t) \<notin> (\<lambda>t. m_ctx (tk t)) ` set gs" by (rule notI, erule imageE) (use ne(1) in fastforce)
  moreover have "ws' c = (if \<exists>u\<in>set (t # gs). m_ctx (tk u) = c then GRANTED else ws c)" for c
    using a(5) by auto
  ultimately show ?thesis
    using a(1,2,4,7-10) ne(2) assms(2,3) unfolding resched_frame_def by simp
qed

definition is_hog :: "MDL_lock_strategy \<Rightarrow> ticket_store \<Rightarrow> ticket \<Rightarrow> bool" where
  "is_hog s tk t \<longleftrightarrow> bit (hog_lock_types_bitmap s) (m_type (tk t))"

lemma grant_waiter_hog:
  "m_hog_lock_count (grant_waiter s tk lk t) = m_hog_lock_count lk + (if is_hog s tk t then 1 else 0)"
  by (simp add: grant_waiter_def is_hog_def)

definition grants :: "MDL_lock_strategy \<Rightarrow> bool \<Rightarrow> ticket_store \<Rightarrow> wait_slots \<Rightarrow> MDL_lock \<Rightarrow> ticket \<Rightarrow> bool" where
  "grants s skip tk ws lk t \<longleftrightarrow>
     \<not> (skip \<and> is_hog s tk t) \<and>
     can_grant s tk lk (m_type (tk t)) (m_ctx (tk t)) skip \<and> ws (m_ctx (tk t)) = EMPTY"

lemma reschedule_loop_Cons:
  assumes "lock_inv tk s lk"
  shows "reschedule_loop s skip tk ws lk (t # ts) =
    (if grants s skip tk ws lk t
     then reschedule_loop s skip tk (ws(m_ctx (tk t) := GRANTED)) (grant_waiter s tk lk t) ts
     else reschedule_loop s skip tk ws lk ts)"
proof -
  have "tl_inv tk (m_granted lk)" "tl_inv tk (m_waiting lk)"
    using assms by (auto simp: lock_inv_def dest: lk_coreD(2,3))
  from can_grant_lock_iff [OF this] show ?thesis by (auto simp: grants_def set_status_def is_hog_def)
qed

lemma reschedule_loop_inv:
  assumes "reschedule_loop s skip tk ws lk ts = (ws', lk')" "lock_inv tk s lk"
    "set ts \<subseteq> set (m_list (m_waiting lk))" "distinct ts"
  shows "lock_inv tk s lk' \<and> (\<exists>gs. resched_frame tk ws lk ws' lk' gs \<and> set gs \<subseteq> set ts \<and>
    m_hog_lock_count lk' = m_hog_lock_count lk + of_nat (length (filter (\<lambda>t. is_hog s tk t) gs)) \<and>
    (skip \<longrightarrow> (\<forall>t\<in>set gs. \<not> is_hog s tk t)))"
  using assms
proof (induction ts arbitrary: ws lk)
  case Nil
  then show ?case using resched_frame_refl by fastforce
next
  case (Cons t ts)
  have d: "distinct (m_list (m_waiting lk))"
    using Cons.prems(2) by (auto simp: lock_inv_def all_tickets_def dest: lk_coreD(4))
  show ?case
  proof (cases "grants s skip tk ws lk t")
    case True
    let ?ws = "ws(m_ctx (tk t) := GRANTED)" and ?lk = "grant_waiter s tk lk t"
    have r: "reschedule_loop s skip tk ?ws ?lk ts = (ws', lk')"
      using Cons.prems(1) True reschedule_loop_Cons [OF Cons.prems(2)] by simp
    have inv: "lock_inv tk s ?lk"
      using Cons.prems(2,3) True grant_waiter_inv [of tk s lk t skip] by (auto simp: grants_def)
    have sub: "set ts \<subseteq> set (m_list (m_waiting ?lk))"
      using Cons.prems(3,4) d by auto
    obtain gs where gs: "lock_inv tk s lk'" "resched_frame tk ?ws ?lk ws' lk' gs" "set gs \<subseteq> set ts"
      "m_hog_lock_count lk' = m_hog_lock_count ?lk + of_nat (length (filter (\<lambda>t. is_hog s tk t) gs))"
      "skip \<longrightarrow> (\<forall>t\<in>set gs. \<not> is_hog s tk t)"
      using Cons.IH [of ?ws ?lk] r inv sub Cons.prems(4) by (auto simp del: fun_upd_apply)
    have "resched_frame tk ws lk ws' lk' (t # gs)"
      by (rule resched_frame_grant [OF gs(2)]) (use True Cons.prems(3) d in \<open>auto simp: grants_def\<close>)
    then show ?thesis
      using gs(1,3-5) True by (auto simp: grant_waiter_hog grants_def intro!: exI [of _ "t # gs"])
  next
    case False
    then have "reschedule_loop s skip tk ws lk ts = (ws', lk')"
      using Cons.prems(1) reschedule_loop_Cons [OF Cons.prems(2)] by simp
    from Cons.IH [OF this Cons.prems(2)] Cons.prems(3,4) show ?thesis by (auto 0 3)
  qed
qed

lemma reschedule_waiters_inv:
  assumes "reschedule_waiters mx s tk ws lk = (ws', lk')" "lock_inv tk s lk"
  shows "lock_inv tk s lk'" "\<exists>gs. resched_frame tk ws lk ws' lk' gs"
proof -
  obtain lk1 where r: "reschedule_loop s (skip_hogs mx s lk) tk ws lk (m_list (m_waiting lk)) = (ws', lk1)"
    and lk': "lk' = lk1 \<or> lk' = lk1\<lparr>m_hog_lock_count := 0\<rparr>"
    using assms(1) by (auto simp: reschedule_waiters_def split: prod.splits if_splits)
  have "distinct (m_list (m_waiting lk))"
    using assms(2) by (auto simp: lock_inv_def all_tickets_def dest: lk_coreD(4))
  with reschedule_loop_inv [OF r assms(2)] obtain gs where "lock_inv tk s lk1" "resched_frame tk ws lk ws' lk1 gs"
    by auto
  then show "lock_inv tk s lk'" "\<exists>gs. resched_frame tk ws lk ws' lk' gs"
    using lk' by (auto simp: lock_inv_def lk_core_hog heavy_hog resched_frame_def)
qed

subsection \<open>No waiter is forgotten\<close>

lemma grants_grant_waiter:
  assumes "lock_inv tk s lk" "w \<in> set (m_list (m_waiting lk))" "\<not> grants s skip tk ws lk w"
  shows "\<not> grants s skip tk (ws(m_ctx (tk t) := GRANTED)) (grant_waiter s tk lk t) w"
proof
  assume g: "grants s skip tk (ws(m_ctx (tk t) := GRANTED)) (grant_waiter s tk lk t) w"
  then have w: "m_ctx (tk t) \<noteq> m_ctx (tk w)" "ws (m_ctx (tk w)) = EMPTY" "\<not> (skip \<and> is_hog s tk w)"
    by (auto simp: grants_def split: if_splits)
  have gr: "\<not> is_incompatible_when_granted s (m_type (tk u)) (m_type (tk w))"
    if "u \<in> insert t (set (m_list (m_granted lk)))" "m_ctx (tk u) \<noteq> m_ctx (tk w)" for u
    using g that by (auto simp: grants_def can_grant_def)
  have wt: "skip \<or> \<not> is_incompatible_when_waiting s (m_type (tk u)) (m_type (tk w))"
    if "u \<in> set (remove1 t (m_list (m_waiting lk)))" for u
    using g that by (auto simp: grants_def can_grant_def)
  have ty: "m_type (tk w) < type_end s"
    using assms(1,2) by (auto simp: lock_inv_def lk_sets dest: lk_coreD(7))
  obtain u where "\<not> skip" "u \<in> set (m_list (m_waiting lk))"
    "is_incompatible_when_waiting s (m_type (tk u)) (m_type (tk w))"
    using assms(3) w gr by (auto simp: grants_def can_grant_def)
  moreover from this wt have "u = t" by (metis in_set_remove1)
  ultimately show False using waiting_imp_granted ty gr [of t] w(1) by auto
qed

lemma reschedule_loop_complete:
  assumes "reschedule_loop s skip tk ws lk ts = (ws', lk')" "lock_inv tk s lk"
    "set ts \<subseteq> set (m_list (m_waiting lk))" "distinct ts"
    "\<forall>w\<in>set (m_list (m_waiting lk)) - set ts. \<not> grants s skip tk ws lk w"
  shows "\<forall>w\<in>set (m_list (m_waiting lk')). \<not> grants s skip tk ws' lk' w"
  using assms
proof (induction ts arbitrary: ws lk)
  case (Cons t ts)
  have d: "distinct (m_list (m_waiting lk))"
    using Cons.prems(2) by (auto simp: lock_inv_def all_tickets_def dest: lk_coreD(4))
  show ?case
  proof (cases "grants s skip tk ws lk t")
    case True
    let ?ws = "ws(m_ctx (tk t) := GRANTED)" and ?lk = "grant_waiter s tk lk t"
    have r: "reschedule_loop s skip tk ?ws ?lk ts = (ws', lk')"
      using Cons.prems(1) True reschedule_loop_Cons [OF Cons.prems(2)] by simp
    have inv: "lock_inv tk s ?lk"
      using Cons.prems(2,3) True grant_waiter_inv [of tk s lk t skip] by (auto simp: grants_def)
    have sub: "set ts \<subseteq> set (m_list (m_waiting ?lk))" using Cons.prems(3,4) d by auto
    have "\<not> grants s skip tk ?ws ?lk w" if "w \<in> set (m_list (m_waiting ?lk)) - set ts" for w
      using grants_grant_waiter [OF Cons.prems(2)] Cons.prems(5) that d by auto
    then show ?thesis using Cons.IH [of ?ws ?lk] r inv sub Cons.prems(4) by (auto simp del: fun_upd_apply)
  next
    case False
    then have "reschedule_loop s skip tk ws lk ts = (ws', lk')"
      using Cons.prems(1) reschedule_loop_Cons [OF Cons.prems(2)] by simp
    from Cons.IH [OF this Cons.prems(2)] Cons.prems(3-5) False show ?thesis by auto
  qed
qed auto

lemma grants_hog: "grants s skip tk ws (lk\<lparr>m_hog_lock_count := h\<rparr>) w = grants s skip tk ws lk w"
  by (simp add: grants_def can_grant_def)

lemma reschedule_waiters_complete:
  assumes "reschedule_waiters mx s tk ws lk = (ws', lk')" "lock_inv tk s lk" "w \<in> set (m_list (m_waiting lk'))"
  shows "\<not> grants s (skip_hogs mx s lk) tk ws' lk' w"
proof -
  obtain lk1 where r: "reschedule_loop s (skip_hogs mx s lk) tk ws lk (m_list (m_waiting lk)) = (ws', lk1)"
    and lk': "lk' = lk1 \<or> lk' = lk1\<lparr>m_hog_lock_count := 0\<rparr>"
    using assms(1) by (auto simp: reschedule_waiters_def split: prod.splits if_splits)
  have "distinct (m_list (m_waiting lk))"
    using assms(2) by (auto simp: lock_inv_def all_tickets_def dest: lk_coreD(4))
  from reschedule_loop_complete [OF r assms(2) order.refl this] lk' assms(3) show ?thesis
    by (auto simp: grants_hog)
qed

subsection \<open>Bounded overtaking\<close>

lemma is_hog_type:
  "is_hog s tk t \<longleftrightarrow> s = MDL_object_lock \<and>
     (m_type (tk t) = MDL_SHARED_NO_WRITE \<or> m_type (tk t) = MDL_SHARED_NO_READ_WRITE \<or> m_type (tk t) = MDL_EXCLUSIVE)"
  by (cases s) (auto simp: is_hog_def bit_simps)

lemma hogs_conflict:
  assumes "is_hog s tk t" "is_hog s tk u"
  shows "conflicting s (m_type (tk t)) (m_type (tk u))"
  using assms upgradable_exclusive
  by (auto simp: is_hog_type conflicting_def is_upgradable_or_exclusive_def)

lemma at_most_one_hog:
  assumes "mdl_compat s tk H" "set gs \<subseteq> H" "distinct (map (\<lambda>t. m_ctx (tk t)) gs)"
  shows "length (filter (\<lambda>t. is_hog s tk t) gs) \<le> 1"
proof (rule ccontr)
  assume n: "\<not> length (filter (\<lambda>t. is_hog s tk t) gs) \<le> 1"
  obtain t xs where "filter (\<lambda>t. is_hog s tk t) gs = t # xs"
    using n by (cases "filter (\<lambda>t. is_hog s tk t) gs") auto
  moreover from this n obtain u rest where "xs = u # rest" by (cases xs) auto
  ultimately have f: "filter (\<lambda>t. is_hog s tk t) gs = t # u # rest" by simp
  have "t \<in> set (filter (\<lambda>t. is_hog s tk t) gs)" "u \<in> set (filter (\<lambda>t. is_hog s tk t) gs)"
    unfolding f by simp_all
  then have "is_hog s tk t" "is_hog s tk u" "t \<in> set gs" "u \<in> set gs" by simp_all
  moreover have "distinct (map (\<lambda>t. m_ctx (tk t)) (filter (\<lambda>t. is_hog s tk t) gs))"
    using assms(3) by (rule distinct_map_filter)
  then have "m_ctx (tk t) \<noteq> m_ctx (tk u)" using f by simp
  ultimately show False
    using assms(1,2) hogs_conflict [of s tk t u] by (auto simp: mdl_compat_def holders_ok_def)
qed

text \<open>
  While a request of another type waits, a grant to one of the types that starve others is counted;
  there is at most one in a rescheduling, and none once the count has reached the limit.
\<close>

definition hogs_counted ::
  "u64 \<Rightarrow> MDL_lock_strategy \<Rightarrow> ticket_store \<Rightarrow> MDL_lock \<Rightarrow> MDL_lock \<Rightarrow> ticket list \<Rightarrow> bool" where
  "hogs_counted mx s tk lk lk' gs \<longleftrightarrow>
     ((\<exists>w\<in>set (m_list (m_waiting lk')). \<not> is_hog s tk w) \<longrightarrow>
        m_hog_lock_count lk' = m_hog_lock_count lk + of_nat (length (filter (is_hog s tk) gs)) \<and>
        length (filter (is_hog s tk) gs) \<le> 1 \<and>
        (mx \<le> m_hog_lock_count lk \<longrightarrow> filter (is_hog s tk) gs = []))"

lemma reschedule_waiters_hogs:
  assumes "reschedule_waiters mx s tk ws lk = (ws', lk')" "lock_inv tk s lk"
  shows "\<exists>gs. resched_frame tk ws lk ws' lk' gs \<and> hogs_counted mx s tk lk lk' gs"
proof -
  let ?skip = "skip_hogs mx s lk" and ?low = "\<lambda>l. m_bitmap (m_waiting l) AND NOT (hog_lock_types_bitmap s) \<noteq> 0"
  obtain lk1 where r: "reschedule_loop s ?skip tk ws lk (m_list (m_waiting lk)) = (ws', lk1)"
    and lk': "lk' = (if \<not> ?low lk1 then lk1\<lparr>m_hog_lock_count := 0\<rparr> else lk1)"
    using assms(1) by (auto simp: reschedule_waiters_def split: prod.splits if_splits)
  have d: "distinct (m_list (m_waiting lk))"
    using assms(2) by (auto simp: lock_inv_def all_tickets_def dest: lk_coreD(4))
  obtain gs where gs: "lock_inv tk s lk1" "resched_frame tk ws lk ws' lk1 gs"
    "m_hog_lock_count lk1 = m_hog_lock_count lk + of_nat (length (filter (\<lambda>t. is_hog s tk t) gs))"
    "?skip \<longrightarrow> (\<forall>t\<in>set gs. \<not> is_hog s tk t)"
    using reschedule_loop_inv [OF r assms(2) order.refl d] by auto
  have one: "length (filter (\<lambda>t. is_hog s tk t) gs) \<le> 1"
    using gs(1,2) by (intro at_most_one_hog [of s tk "set (holders lk1)"])
      (auto simp: lock_inv_def resched_frame_def holders_def dest: lk_coreD(6))
  have low: "?low l \<longleftrightarrow> (\<exists>t\<in>set (m_list (m_waiting l)). \<not> is_hog s tk t)"
    if "lock_inv tk s l" for l
    using that bit_u16 unfolding is_hog_def by (subst bitmap_and_row [of tk])
      (auto simp: lock_inv_def bit_simps tl_inv_def dest!: lk_coreD(3))
  have frame: "resched_frame tk ws lk ws' lk' gs" using gs(2) lk' by (simp add: resched_frame_def)
  moreover have "hogs_counted mx s tk lk lk' gs"
    unfolding hogs_counted_def
  proof (intro impI)
    assume "\<exists>w\<in>set (m_list (m_waiting lk')). \<not> is_hog s tk w"
    then have w: "\<exists>w\<in>set (m_list (m_waiting lk1)). \<not> is_hog s tk w" using lk' by (simp split: if_splits)
    then have "?low lk1" "?low lk" using gs(2) unfolding low [OF gs(1)] low [OF assms(2)] by (auto simp: resched_frame_def)
    then show "m_hog_lock_count lk' = m_hog_lock_count lk + of_nat (length (filter (is_hog s tk) gs)) \<and>
        length (filter (is_hog s tk) gs) \<le> 1 \<and> (mx \<le> m_hog_lock_count lk \<longrightarrow> filter (is_hog s tk) gs = [])"
      using lk' gs(3,4) one by (auto simp: skip_hogs_def filter_empty_conv)
  qed
  ultimately show ?thesis by blast
qed

subsection \<open>Releasing\<close>

definition key_strategy :: "string \<Rightarrow> MDL_lock_strategy" where
  "key_strategy k =
     (case namespace_of k of BACKUP \<Rightarrow> MDL_backup_lock | SCHEMA \<Rightarrow> MDL_scoped_lock | _ \<Rightarrow> MDL_object_lock)"

lemma key_strategy_backup: "key_strategy k = MDL_backup_lock \<longleftrightarrow> namespace_of k = BACKUP"
  by (simp add: key_strategy_def split: enum_mdl_namespace.splits)

text \<open>A lock object that may be put back to the allocator and used for another key.\<close>

definition lk_clean :: "MDL_lock \<Rightarrow> bool" where
  "lk_clean lk \<longleftrightarrow>
     m_strategy lk = None \<and> m_granted lk = Ticket_list_init \<and> m_waiting lk = Ticket_list_init \<and>
     lanes (m_fast_road lk) = []"

lemma tl_inv_empty: "tl_inv tk l \<Longrightarrow> m_list l = [] \<Longrightarrow> l = Ticket_list_init"
  by (cases l) (auto simp: tl_inv_def Ticket_list_init_def count_type_def fun_eq_iff bit_eq_iff)

lemma m_list_init [simp]: "m_list Ticket_list_init = []"
  by (simp add: Ticket_list_init_def)

lemma lf_hash_initializer_inv:
  assumes "lk_clean lk" "namespace_of k \<noteq> BACKUP"
  shows "lock_inv tk (key_strategy k) (lf_hash_initializer lk k)"
  using assms
  by (auto simp: lk_clean_def lock_inv_def lk_core_def lf_hash_initializer_def lk_sets heavy_def fr_inv_def
      fr_iterate_def mdl_compat_def mdl_conflict.holders_ok_empty key_strategy_def
      split: enum_mdl_namespace.splits)

lemma unlink_other: "t \<notin> set (m_list l) \<Longrightarrow> unlink t l = l"
  by (simp add: unlink_def remove1_idem)

fun queue_of :: "MDL_lock \<Rightarrow> queue_name \<Rightarrow> ticket list" where
  "queue_of lk Granted_queue = m_list (m_granted lk)"
| "queue_of lk Waiting_queue = m_list (m_waiting lk)"

lemma queue_remove_ticket_core:
  assumes "lock_inv tk s lk" "t \<in> set (queue_of lk q)"
  defines "lk1 \<equiv> queue_remove_ticket tk lk q t"
  shows "lk_core tk s lk1"
    "fr_inv tk (heavy tk lk1 + (if supported_type (m_fast_road lk) (m_type (tk t)) then 0 else 1)) (m_fast_road lk)"
    "m_fast_road lk1 = m_fast_road lk" "lock_key lk1 = lock_key lk"
    "m_list (m_granted lk1) = remove1 t (m_list (m_granted lk))"
    "m_list (m_waiting lk1) = remove1 t (m_list (m_waiting lk))"
proof -
  have i: "lk_core tk s lk" "fr_inv tk (heavy tk lk) (m_fast_road lk)" using assms(1) by (auto simp: lock_inv_def)
  have d: "distinct (all_tickets lk)" by (rule lk_coreD(4) [OF i(1)])
  have "t \<notin> set (m_list (m_waiting lk))" if "q = Granted_queue"
    using that assms(2) d by (auto simp: all_tickets_def)
  moreover have "t \<notin> set (m_list (m_granted lk))" if "q = Waiting_queue"
    using that assms(2) d by (auto simp: all_tickets_def)
  moreover from calculation
  have "lk1 = (case q of Granted_queue \<Rightarrow> lk\<lparr>m_granted := remove_ticket tk (m_granted lk) t\<rparr>
      | Waiting_queue \<Rightarrow> lk\<lparr>m_waiting := remove_ticket tk (m_waiting lk) t\<rparr>)"
    by (cases q; cases lk) (auto simp: lk1_def unlink_other)
  ultimately show "lk_core tk s lk1"
    "fr_inv tk (heavy tk lk1 + (if supported_type (m_fast_road lk) (m_type (tk t)) then 0 else 1)) (m_fast_road lk)"
    "m_fast_road lk1 = m_fast_road lk" "lock_key lk1 = lock_key lk"
    "m_list (m_granted lk1) = remove1 t (m_list (m_granted lk))"
    "m_list (m_waiting lk1) = remove1 t (m_list (m_waiting lk))"
    using assms(2) i lk_core_remove_granted [OF i(1)] lk_core_remove_waiting [OF i(1)]
      heavy_remove [OF d, of t tk tk] heavy_pos [of t lk tk]
    by (cases q; auto simp: remove1_idem)+
qed

lemma can_grant_lock_road:
  "can_grant_lock s tk (lk\<lparr>m_fast_road := fr\<rparr>) = can_grant_lock s tk lk"
  by (simp add: can_grant_lock_def fun_eq_iff)

lemma reschedule_loop_road:
  "reschedule_loop s skip tk ws (lk\<lparr>m_fast_road := fr\<rparr>) ts =
     (case reschedule_loop s skip tk ws lk ts of (ws', lk') \<Rightarrow> (ws', lk'\<lparr>m_fast_road := fr\<rparr>)) \<and>
   m_fast_road (snd (reschedule_loop s skip tk ws lk ts)) = m_fast_road lk"
proof (induction ts arbitrary: ws lk)
  case (Cons t ts)
  have "grant_waiter s tk (lk\<lparr>m_fast_road := fr\<rparr>) t = (grant_waiter s tk lk t)\<lparr>m_fast_road := fr\<rparr>"
    by (simp add: grant_waiter_def)
  then show ?case
    using Cons [of ws lk] Cons [of "ws(m_ctx (tk t) := GRANTED)" "grant_waiter s tk lk t"]
    by (auto simp: can_grant_lock_road set_status_def simp del: fun_upd_apply)
qed simp

lemma reschedule_waiters_road:
  "reschedule_waiters mx s tk ws (lk\<lparr>m_fast_road := fr\<rparr>) =
     (case reschedule_waiters mx s tk ws lk of (ws', lk') \<Rightarrow> (ws', lk'\<lparr>m_fast_road := fr\<rparr>))"
  "m_fast_road (snd (reschedule_waiters mx s tk ws lk)) = m_fast_road lk"
  using reschedule_loop_road [where s = s and tk = tk and ws = ws and skip = "skip_hogs mx s lk" and ts = "m_list (m_waiting lk)" and lk = lk and fr = fr]
  by (auto simp: reschedule_waiters_def skip_hogs_def split: prod.splits)

lemma lk_remove_ticket_inv:
  assumes "lk_remove_ticket mx tk ws lk q t = (ws', lk')" "lock_inv tk s lk" "t \<in> set (queue_of lk q)"
    "s = key_strategy (lock_key lk)"
  defines "lk1 \<equiv> queue_remove_ticket tk lk q t"
  shows "(lk_clean lk' \<and> ws' = ws \<and> set (all_tickets lk) = {t} \<and> namespace_of (lock_key lk) \<noteq> BACKUP) \<or>
    (lock_inv tk s lk' \<and> (\<exists>gs. resched_frame tk ws lk1 ws' lk' gs \<and> hogs_counted mx s tk lk lk' gs) \<and>
     (\<not> lk_is_empty lk1 \<longrightarrow> (\<forall>w\<in>set (m_list (m_waiting lk')). \<not> grants s (skip_hogs mx s lk1) tk ws' lk' w)))"
proof -
  note c = queue_remove_ticket_core [OF assms(2,3), folded lk1_def]
  have hog: "m_hog_lock_count lk1 = m_hog_lock_count lk" by (cases q) (auto simp: lk1_def)
  have strat: "m_strategy lk1 = Some s" using lk_coreD(1) [OF c(1)] .
  let ?fr = "fr_reopen (m_fast_road lk) (m_type (tk t))"
  have road: "lock_inv tk s (lk1\<lparr>m_fast_road := ?fr\<rparr>)"
    using reopen_lock_inv [OF c(1), of "m_type (tk t)"] c(2,3) by simp
  consider (destroy) "lk_is_empty lk1" "namespace_of (lock_key lk) \<noteq> BACKUP"
    | (empty) "lk_is_empty lk1" "namespace_of (lock_key lk) = BACKUP" | (resched) "\<not> lk_is_empty lk1"
    by blast
  then show ?thesis
  proof cases
    case destroy
    then have r: "ws' = ws" "lk' = lk1\<lparr>m_strategy := None\<rparr>"
      using assms(1) by (auto simp: lk_remove_ticket_def Let_def lk1_def)
    have l: "lanes (m_fast_road lk) = []"
      using assms(2,4) destroy(2) key_strategy_backup by (auto simp: lock_inv_def lk_core_def)
    have e: "m_list (m_granted lk1) = []" "m_list (m_waiting lk1) = []"
      using destroy(1) by (auto simp: lk_is_empty_def tl_is_empty_def)
    then have "lk_clean lk'"
      using r(2) l c(3) tl_inv_empty lk_coreD(2,3) [OF c(1)] by (auto simp: lk_clean_def)
    moreover have "set (all_tickets lk) = {t}"
    proof -
      have "set xs \<subseteq> insert t (set (remove1 t xs))" for xs :: "ticket list"
        by (metis in_set_remove1 insertI1 insertI2 subsetI)
      then have "set (m_list (m_granted lk)) \<union> set (m_list (m_waiting lk)) \<subseteq> {t}"
        using e c(5,6) by (metis Un_subset_iff list.set(1))
      then show ?thesis using assms(3) l by (cases q) (auto simp: all_tickets_def fr_iterate_def)
    qed
    ultimately show ?thesis using r(1) destroy(2) by blast
  next
    case empty
    then have r: "ws' = ws" "lk' = lk1\<lparr>m_fast_road := ?fr\<rparr>"
      using assms(1) c(3) by (auto simp: lk_remove_ticket_def Let_def lk1_def)
    have "resched_frame tk ws lk1 ws' lk' []" using r c(3) by (simp add: resched_frame_def)
    moreover have "hogs_counted mx s tk lk lk' []" using r empty(1) by (simp add: hogs_counted_def lk_is_empty_def tl_is_empty_def)
    ultimately show ?thesis using road r empty(1) by (auto simp: lk_is_empty_def tl_is_empty_def)
  next
    case resched
    obtain lk2 where r2: "reschedule_waiters mx s tk ws lk1 = (ws', lk2)"
      and lk': "lk' = lk2\<lparr>m_fast_road := fr_reopen (m_fast_road lk2) (m_type (tk t))\<rparr>"
      using assms(1) resched strat by (auto simp: lk_remove_ticket_def Let_def lk1_def split: prod.splits)
    have "m_fast_road lk2 = m_fast_road lk" using reschedule_waiters_road(2) [of mx s tk ws lk1] r2 c(3) by simp
    then have r: "reschedule_waiters mx s tk ws (lk1\<lparr>m_fast_road := ?fr\<rparr>) = (ws', lk')"
      using r2 lk' by (simp add: reschedule_waiters_road(1))
    have "skip_hogs mx s (lk1\<lparr>m_fast_road := ?fr\<rparr>) = skip_hogs mx s lk1" by (simp add: skip_hogs_def)
    then have "\<forall>w\<in>set (m_list (m_waiting lk')). \<not> grants s (skip_hogs mx s lk1) tk ws' lk' w"
      using reschedule_waiters_complete [OF r road] by simp
    moreover have "\<exists>gs. resched_frame tk ws lk1 ws' lk' gs \<and> hogs_counted mx s tk lk lk' gs"
      using reschedule_waiters_hogs [OF r road] c(3) hog by (auto simp: resched_frame_def hogs_counted_def)
    ultimately show ?thesis using reschedule_waiters_inv(1) [OF r road] by blast
  qed
qed

lemma lane_iff:
  assumes "lock_inv tk s lk" "t \<in> set (holders lk)"
  shows "t \<in> set (fr_iterate (m_fast_road lk)) \<longleftrightarrow> m_fast_lane (tk t) \<noteq> None"
    "t \<in> set (m_list (m_granted lk)) \<longleftrightarrow> m_fast_lane (tk t) = None"
proof -
  have i: "lk_core tk s lk" "fr_inv tk (heavy tk lk) (m_fast_road lk)" using assms(1) by (auto simp: lock_inv_def)
  have "m_fast_lane (tk t) \<noteq> None" if "t \<in> set (fr_iterate (m_fast_road lk))"
    by (rule fr_inv_member [OF i(2) that]) simp
  then show "t \<in> set (fr_iterate (m_fast_road lk)) \<longleftrightarrow> m_fast_lane (tk t) \<noteq> None"
    "t \<in> set (m_list (m_granted lk)) \<longleftrightarrow> m_fast_lane (tk t) = None"
    using assms(2) lk_coreD(9) [OF i(1), of t] by (auto simp: holders_def)
qed

lemma lk_fast_release_inv:
  assumes "fr_try_release tk (m_fast_road lk) t = Some fr" "lock_inv tk s lk" "t \<in> set (fr_iterate (m_fast_road lk))"
  shows "lock_inv tk s (lk\<lparr>m_fast_road := fr\<rparr>)" "set (fr_iterate fr) = set (fr_iterate (m_fast_road lk)) - {t}"
    "m_supported_types fr = m_supported_types (m_fast_road lk)"
proof -
  have i: "lk_core tk s lk" "fr_inv tk (heavy tk lk) (m_fast_road lk)" using assms(2) by (auto simp: lock_inv_def)
  have m: "mset (fr_iterate fr) = mset (fr_iterate (m_fast_road lk)) - {#t#}"
    by (rule fr_try_release_mset [OF assms(1) i(2) assms(3)])
  have d: "distinct (fr_iterate (m_fast_road lk))" using i(2) by (simp add: fr_inv_def)
  have frd: "fr_inv tk (heavy tk lk) fr" by (rule fr_try_release_inv [OF assms(1) i(2) assms(3)])
  have "mset (fr_iterate fr) = mset (remove1 t (fr_iterate (m_fast_road lk)))" using m by simp
  then show set: "set (fr_iterate fr) = set (fr_iterate (m_fast_road lk)) - {t}"
    using d by (metis mset_eq_setD set_remove1_eq)
  have len: "length (fr_iterate fr) \<le> length (fr_iterate (m_fast_road lk))"
    using m by (metis size_mset diff_subset_eq_self size_mset_mono)
  show sup: "m_supported_types fr = m_supported_types (m_fast_road lk)"
    using assms(1) by (auto simp: fr_try_release_def split: option.splits)
  have l: "lanes fr = [] \<longleftrightarrow> lanes (m_fast_road lk) = []"
    using assms(1) by (auto simp: fr_try_release_def split: option.splits)
  have "mdl_compat s tk (set (m_list (m_granted lk)) \<union> (set (fr_iterate (m_fast_road lk)) - {t}))"
    using lk_coreD(6) [OF i(1)] unfolding mdl_compat_def holders_def by (auto intro: mdl_conflict.holders_ok_mono)
  moreover have "distinct (fr_iterate fr)" using frd by (simp add: fr_inv_def)
  ultimately show "lock_inv tk s (lk\<lparr>m_fast_road := fr\<rparr>)"
    using i(1) frd set len l sup
    unfolding lock_inv_def heavy_road [OF sup] lk_core_def lk_sets by (auto simp: supported_type_bit)
qed

text \<open>
  The effect of an operation that ends in a rescheduling: the lock is held by \<open>H\<close> and by the
  tickets \<open>gs\<close> of the waiters, whose wait slots were empty and are now \<open>GRANTED\<close>.
\<close>

definition woken :: "ticket_store \<Rightarrow> wait_slots \<Rightarrow> ticket set \<Rightarrow> ticket list \<Rightarrow> wait_slots \<Rightarrow> MDL_lock \<Rightarrow> ticket list \<Rightarrow> bool" where
  "woken tk ws H waiters ws' lk' gs \<longleftrightarrow>
     set (holders lk') = H \<union> set gs \<and> set gs \<subseteq> set waiters \<and>
     m_list (m_waiting lk') = filter (\<lambda>u. u \<notin> set gs) waiters \<and>
     (\<forall>g\<in>set gs. ws (m_ctx (tk g)) = EMPTY) \<and>
     (\<forall>c. ws' c = (if \<exists>g\<in>set gs. m_ctx (tk g) = c then GRANTED else ws c))"

lemma woken_none: "set (holders lk') = H \<Longrightarrow> woken tk ws H (m_list (m_waiting lk')) ws lk' []"
  by (simp add: woken_def)

lemma resched_frame_woken:
  "resched_frame tk ws lk1 ws' lk' gs \<Longrightarrow> woken tk ws (set (holders lk1)) (m_list (m_waiting lk1)) ws' lk' gs"
  by (auto simp: resched_frame_def woken_def holders_def)

definition lk_gone :: "MDL_lock \<Rightarrow> MDL_lock \<Rightarrow> ticket \<Rightarrow> bool" where
  "lk_gone lk lk' t \<longleftrightarrow> lk_clean lk' \<and> set (all_tickets lk) = {t} \<and> namespace_of (lock_key lk) \<noteq> BACKUP"

lemma lk_remove_ticket_woken:
  assumes "lk_remove_ticket mx tk ws lk q t = (ws', lk')" "lock_inv tk s lk" "t \<in> set (queue_of lk q)"
    "s = key_strategy (lock_key lk)"
  shows "lk_gone lk lk' t \<and> ws' = ws \<or>
    (lock_inv tk s lk' \<and> lock_key lk' = lock_key lk \<and>
     (\<exists>gs. woken tk ws (set (holders lk) - {t}) (remove1 t (m_list (m_waiting lk))) ws' lk' gs))"
proof -
  let ?lk1 = "queue_remove_ticket tk lk q t"
  note c = queue_remove_ticket_core [OF assms(2,3)]
  have d: "distinct (all_tickets lk)" using assms(2) by (auto simp: lock_inv_def dest: lk_coreD(4))
  have "t \<notin> set (fr_iterate (m_fast_road lk))" using assms(3) d by (cases q) (auto simp: all_tickets_def)
  then have h: "set (holders ?lk1) = set (holders lk) - {t}"
    using c(3,5) d by (auto simp: lk_sets)
  show ?thesis
    using lk_remove_ticket_inv [OF assms(1-4)]
  proof (elim disjE conjE exE)
    fix gs
    assume "lock_inv tk s lk'" and gs: "resched_frame tk ws ?lk1 ws' lk' gs"
    moreover have "lock_key lk' = lock_key lk" using gs c(4) by (simp add: resched_frame_def)
    moreover have "woken tk ws (set (holders lk) - {t}) (remove1 t (m_list (m_waiting lk))) ws' lk' gs"
      using resched_frame_woken [OF gs] unfolding h c(6) .
    ultimately show ?thesis by blast
  qed (simp add: lk_gone_def)
qed

lemma lk_release_inv:
  assumes "lk_release mx tk ws lk t = (ws', lk')" "lock_inv tk s lk" "t \<in> set (holders lk)"
    "s = key_strategy (lock_key lk)"
  shows "lk_gone lk lk' t \<and> ws' = ws \<or>
    (lock_inv tk s lk' \<and> lock_key lk' = lock_key lk \<and>
     (\<exists>gs. woken tk ws (set (holders lk) - {t}) (m_list (m_waiting lk)) ws' lk' gs))"
proof (cases "fr_try_release tk (m_fast_road lk) t")
  case (Some fr)
  then have r: "ws' = ws" "lk' = lk\<lparr>m_fast_road := fr\<rparr>" using assms(1) by (auto simp: lk_release_def)
  have t: "t \<in> set (fr_iterate (m_fast_road lk))"
    using Some lane_iff(1) [OF assms(2,3)] by (auto simp: fr_try_release_def split: option.splits)
  note q = lk_fast_release_inv [OF Some assms(2) t]
  have "t \<notin> set (m_list (m_granted lk))"
    using t assms(2) by (auto simp: lock_inv_def all_tickets_def dest!: lk_coreD(4))
  then have "set (holders lk') = set (holders lk) - {t}"
    using q(2) r by (auto simp: holders_def)
  from woken_none [OF this, of tk ws] show ?thesis using q(1) r by auto
next
  case None
  then have r: "lk_remove_ticket mx tk ws lk Granted_queue t = (ws', lk')"
    using assms(1) by (simp add: lk_release_def)
  have t: "t \<in> set (queue_of lk Granted_queue)"
    using None lane_iff(2) [OF assms(2,3)] by (auto simp: fr_try_release_def split: option.splits)
  have "distinct (all_tickets lk)" using assms(2) by (auto simp: lock_inv_def dest: lk_coreD(4))
  then have "remove1 t (m_list (m_waiting lk)) = m_list (m_waiting lk)"
    using t by (intro remove1_idem) (auto simp: all_tickets_def)
  then show ?thesis using lk_remove_ticket_woken [OF r assms(2) t assms(4)] by simp
qed

lemma lk_abort_wait_inv:
  assumes "lk_abort_wait mx tk ws lk t = (ws', lk')" "lock_inv tk s lk" "t \<in> set (m_list (m_waiting lk))"
    "s = key_strategy (lock_key lk)"
  shows "lk_gone lk lk' t \<and> ws' = ws \<or>
    (lock_inv tk s lk' \<and> lock_key lk' = lock_key lk \<and>
     (\<exists>gs. woken tk ws (set (holders lk)) (remove1 t (m_list (m_waiting lk))) ws' lk' gs))"
proof -
  have "t \<notin> set (holders lk)" using assms(2,3) by (auto simp: lock_inv_def lk_sets dest!: lk_coreD(4))
  then show ?thesis
    using lk_remove_ticket_woken [OF assms(1) [unfolded lk_abort_wait_def] assms(2) _ assms(4)] assms(3) by simp
qed

subsection \<open>Changing the type of a held ticket\<close>

lemma retype_fields [simp]:
  "m_type (retype tk t ty u) = (if u = t then ty else m_type (tk u))"
  "m_ctx (retype tk t ty u) = m_ctx (tk u)" "m_lock (retype tk t ty u) = m_lock (tk u)"
  "m_fast_lane (retype tk t ty u) = m_fast_lane (tk u)"
  by (auto simp: retype_def)

definition type_change_ok :: "ticket_store \<Rightarrow> MDL_lock_strategy \<Rightarrow> MDL_lock \<Rightarrow> ticket \<Rightarrow> enum_mdl_type \<Rightarrow> bool" where
  "type_change_ok tk s lk t ty \<longleftrightarrow>
     ty < type_end s \<and> (supported_type (m_fast_road lk) ty \<longleftrightarrow> supported_type (m_fast_road lk) (m_type (tk t))) \<and>
     (\<forall>u\<in>set (holders lk). m_ctx (tk u) \<noteq> m_ctx (tk t) \<longrightarrow> \<not> conflicting s (m_type (tk u)) ty)"

lemma granted_only:
  assumes "distinct (all_tickets lk)" "t \<in> set (m_list (m_granted lk))"
  shows "t \<notin> set (m_list (m_waiting lk))" "t \<notin> set (fr_iterate (m_fast_road lk))"
  using assms by (auto simp: all_tickets_def)

lemma retype_granted_inv:
  assumes "lock_inv tk s lk" "t \<in> set (m_list (m_granted lk))" "type_change_ok tk s lk t ty"
  defines "tk' \<equiv> retype tk t ty"
  shows "lock_inv tk' s (lk\<lparr>m_granted := add_ticket tk' (remove_ticket tk (m_granted lk) t) t\<rparr>)"
proof -
  let ?lk = "lk\<lparr>m_granted := remove_ticket tk (m_granted lk) t\<rparr>" and ?sup = "supported_type (m_fast_road lk) (m_type (tk t))"
  have i: "lk_core tk s lk" "fr_inv tk (heavy tk lk) (m_fast_road lk)" using assms(1) by (auto simp: lock_inv_def)
  have d: "distinct (all_tickets lk)" by (rule lk_coreD(4) [OF i(1)])
  have core: "lk_core tk s ?lk" by (rule lk_core_remove_granted [OF i(1) assms(2)])
  have h: "heavy tk ?lk = heavy tk lk - (if ?sup then 0 else 1)"
    by (rule heavy_remove(1) [OF d assms(2)])
  have nin: "t \<notin> set (all_tickets ?lk)" using d granted_only [OF d assms(2)] by (simp add: all_tickets_def)
  have "same_tickets tk tk' (set (all_tickets ?lk))"
    using nin unfolding same_tickets_def by (auto simp: tk'_def simp del: set_remove1_eq)
  note cong = lk_core_cong [OF this core]
  have len: "length (remove1 t (m_list (m_granted lk))) + 1 = length (m_list (m_granted lk))"
    using length_pos_if_in_set [OF assms(2)] assms(2) by (simp add: length_remove1)
  have fresh: "fresh_ticket tk' s ?lk t"
    using nin len lk_coreD(5) [OF i(1)] lk_coreD(9) [OF i(1) assms(2)] assms(3)
    by (simp add: fresh_ticket_def all_tickets_def tk'_def type_change_ok_def)
  have "lock_inv tk' s (?lk\<lparr>m_granted := add_ticket tk' (m_granted ?lk) t\<rparr>)"
  proof (rule lock_inv_add_granted [OF cong(1) _ fresh])
    show "fr_inv tk' (heavy tk' ?lk + (if supported_type (m_fast_road ?lk) (m_type (tk' t)) then 0 else 1)) (m_fast_road ?lk)"
      using cong(2,3) i(2) h heavy_pos [of t lk tk] assms(2,3)
      by (cases ?sup) (simp_all add: tk'_def type_change_ok_def)
    show "m_lock (tk' t) = lock_key ?lk"
      using lk_coreD(8) [OF i(1), of t] assms(2) by (simp add: tk'_def all_tickets_def)
    show "\<not> conflicting s (m_type (tk' u)) (m_type (tk' t))"
      if "u \<in> set (holders ?lk)" "m_ctx (tk' u) \<noteq> m_ctx (tk' t)" for u
      using that assms(3) set_remove1_subset [of t "m_list (m_granted lk)"]
      by (auto simp: tk'_def type_change_ok_def holders_def)
  qed
  then show ?thesis by simp
qed

lemma retype_lane_inv:
  assumes "lock_inv tk s lk" "t \<in> set (fr_iterate (m_fast_road lk))" "type_change_ok tk s lk t ty"
  shows "lock_inv (retype tk t ty) s lk"
proof -
  let ?tk = "retype tk t ty"
  have i: "lk_core tk s lk" "fr_inv tk (heavy tk lk) (m_fast_road lk)" using assms(1) by (auto simp: lock_inv_def)
  have nin: "t \<notin> set (m_list (m_granted lk))" "t \<notin> set (m_list (m_waiting lk))"
    using lk_coreD(4) [OF i(1)] assms(2) by (auto simp: all_tickets_def)
  have sup: "supported_type (m_fast_road lk) ty" using assms(3) lk_coreD(11) [OF i(1) assms(2)] by (auto simp: type_change_ok_def)
  have hv: "heavy ?tk lk = heavy tk lk"
    unfolding heavy_def using nin by (intro arg_cong [where f = length] filter_cong) auto
  have tls: "tl_inv ?tk (m_granted lk)" "tl_inv ?tk (m_waiting lk)"
    using lk_coreD(2,3) [OF i(1)] nin by (subst tl_inv_cong [where tk' = tk]; auto)+
  have "holders_ok (conflicting s) ((\<lambda>u. m_type (tk u))(t := ty)) (\<lambda>u. m_ctx (tk u)) (set (holders lk))"
    using lk_coreD(6) [OF i(1)] assms(3)
    by (intro mdl_conflict.holders_ok_retype) (auto simp: mdl_compat_def type_change_ok_def)
  moreover have "(\<lambda>u. m_type (?tk u)) = (\<lambda>u. m_type (tk u))(t := ty)" by auto
  ultimately have mc: "mdl_compat s ?tk (set (holders lk))" by (simp add: mdl_compat_def)
  have "fr_inv ?tk (heavy tk lk) (m_fast_road lk)"
    using i(2) sup unfolding fr_inv_def by (auto split: if_splits)
  then show ?thesis
    using i(1) tls mc hv sup assms(3) unfolding lock_inv_def lk_core_def by (auto simp: type_change_ok_def)
qed

lemma type_change_weaker:
  assumes "lock_inv tk s lk" "t \<in> set (holders lk)" "has_stronger_or_equal_type s (m_type (tk t)) ty"
    "weaker_ok s (m_type (tk t)) ty" "ty < type_end s"
    "supported_type (m_fast_road lk) ty \<longleftrightarrow> supported_type (m_fast_road lk) (m_type (tk t))"
  shows "type_change_ok tk s lk t ty"
proof -
  have core: "lk_core tk s lk" using assms(1) by (simp add: lock_inv_def)
  have "\<not> conflicting s (m_type (tk u)) ty" if u: "u \<in> set (holders lk)" "m_ctx (tk u) \<noteq> m_ctx (tk t)" for u
  proof
    assume "conflicting s (m_type (tk u)) ty"
    moreover have "m_type (tk u) < type_end s" "m_type (tk t) < type_end s"
      using lk_coreD(7) [OF core] u(1) assms(2) by (auto simp: lk_sets)
    ultimately have "conflicting s (m_type (tk u)) (m_type (tk t))"
      using stronger_conflicting [OF assms(3,4)] assms(5) conflicting_sym by metis
    then show False using lk_coreD(6) [OF core] u assms(2) by (auto simp: mdl_compat_def holders_ok_def)
  qed
  then show ?thesis using assms(5,6) by (simp add: type_change_ok_def)
qed

lemma lk_downgrade_inv:
  assumes "lk_downgrade mx s tk ws lk t ty = (tk', ws', lk')" "lock_inv tk s lk" "t \<in> set (holders lk)"
    "type_change_ok tk s lk t ty"
  shows "tk' = retype tk t ty" "lock_inv tk' s lk'" "lock_key lk' = lock_key lk"
    "\<exists>gs. woken tk' ws (set (holders lk)) (m_list (m_waiting lk)) ws' lk' gs"
proof -
  show tk': "tk' = retype tk t ty"
    using assms(1) by (auto simp: lk_downgrade_def fr_try_change_ticket_type_def retype_def Let_def split: option.splits)
  have "lock_inv tk' s lk' \<and> lock_key lk' = lock_key lk \<and>
      (\<exists>gs. woken tk' ws (set (holders lk)) (m_list (m_waiting lk)) ws' lk' gs)"
  proof (cases "m_fast_lane (tk t)")
    case (Some i)
    then have "ws' = ws" "lk' = lk" using assms(1) by (auto simp: lk_downgrade_def fr_try_change_ticket_type_def)
    moreover have "lock_inv tk' s lk"
      unfolding tk' using Some lane_iff(1) [OF assms(2,3)] by (intro retype_lane_inv [OF assms(2) _ assms(4)]) simp
    ultimately show ?thesis using woken_none [of lk, OF refl] by auto
  next
    case None
    let ?lk = "lk\<lparr>m_granted := add_ticket tk' (remove_ticket tk (m_granted lk) t) t\<rparr>"
    have r: "reschedule_waiters mx s tk' ws ?lk = (ws', lk')"
      using assms(1) None tk' by (simp add: lk_downgrade_def fr_try_change_ticket_type_def Let_def)
    have t: "t \<in> set (m_list (m_granted lk))" using None lane_iff(2) [OF assms(2,3)] by simp
    have inv: "lock_inv tk' s ?lk" unfolding tk' by (rule retype_granted_inv [OF assms(2) t assms(4)])
    obtain gs where gs: "resched_frame tk' ws ?lk ws' lk' gs" using reschedule_waiters_inv(2) [OF r inv] by blast
    have "distinct (m_list (m_granted lk))" using assms(2) by (auto simp: lock_inv_def all_tickets_def dest!: lk_coreD(4))
    then have "set (holders ?lk) = set (holders lk)" using t by (auto simp: holders_def)
    with resched_frame_woken [OF gs] have "woken tk' ws (set (holders lk)) (m_list (m_waiting lk)) ws' lk' gs" by simp
    then show ?thesis
      using reschedule_waiters_inv(1) [OF r inv] gs
      by (auto simp: resched_frame_def)
  qed
  then show "lock_inv tk' s lk'" "lock_key lk' = lock_key lk"
    "\<exists>gs. woken tk' ws (set (holders lk)) (m_list (m_waiting lk)) ws' lk' gs" by blast+
qed

lemma upgrade_remove_inv:
  assumes "lock_inv tk s lk" "r \<in> set (holders lk)"
  defines "lk1 \<equiv> (case fr_try_release tk (m_fast_road lk) r of
      Some fr \<Rightarrow> lk\<lparr>m_fast_road := fr\<rparr>
    | None \<Rightarrow> lk\<lparr>m_fast_road := fr_reopen (m_fast_road lk) (m_type (tk r)),
                 m_granted := remove_ticket tk (m_granted lk) r\<rparr>)"
  shows "lock_inv tk s lk1" "set (holders lk1) = set (holders lk) - {r}" "m_waiting lk1 = m_waiting lk"
    "lock_key lk1 = lock_key lk" "m_hog_lock_count lk1 = m_hog_lock_count lk"
    "m_supported_types (m_fast_road lk1) = m_supported_types (m_fast_road lk)"
    "set (m_list (m_granted lk1)) = set (m_list (m_granted lk)) - {r}"
proof -
  have d: "distinct (all_tickets lk)" using assms(1) by (auto simp: lock_inv_def dest!: lk_coreD(4))
  consider (fast) fr where "fr_try_release tk (m_fast_road lk) r = Some fr" "r \<in> set (fr_iterate (m_fast_road lk))"
    | (conv) "fr_try_release tk (m_fast_road lk) r = None" "r \<in> set (m_list (m_granted lk))"
    using lane_iff [OF assms(1,2)] by (cases "m_fast_lane (tk r)") (auto simp: fr_try_release_def)
  then have "lock_inv tk s lk1 \<and> set (holders lk1) = set (holders lk) - {r} \<and> m_waiting lk1 = m_waiting lk \<and>
    lock_key lk1 = lock_key lk \<and> m_hog_lock_count lk1 = m_hog_lock_count lk \<and>
    m_supported_types (m_fast_road lk1) = m_supported_types (m_fast_road lk) \<and>
    set (m_list (m_granted lk1)) = set (m_list (m_granted lk)) - {r}"
  proof cases
    case fast
    note q = lk_fast_release_inv [OF fast(1) assms(1) fast(2)]
    have "r \<notin> set (m_list (m_granted lk))" using d fast(2) by (auto simp: all_tickets_def)
    then show ?thesis using q by (auto simp: lk1_def fast(1) holders_def)
  next
    case conv
    let ?lk = "lk\<lparr>m_granted := remove_ticket tk (m_granted lk) r\<rparr>"
    have e: "lk1 = ?lk\<lparr>m_fast_road := fr_reopen (m_fast_road ?lk) (m_type (tk r))\<rparr>"
      by (simp add: lk1_def conv(1))
    have "queue_remove_ticket tk lk Granted_queue r = ?lk"
      using granted_only(1) [OF d conv(2)] by (cases lk) (simp add: unlink_other)
    with queue_remove_ticket_core [OF assms(1), of r Granted_queue] conv(2)
    have "lk_core tk s ?lk" "fr_inv tk (heavy tk ?lk + (if supported_type (m_fast_road ?lk) (m_type (tk r)) then 0 else 1)) (m_fast_road ?lk)"
      by auto
    then have "lock_inv tk s lk1" unfolding e by (rule reopen_lock_inv)
    moreover have "set (remove1 r (m_list (m_granted lk))) = set (m_list (m_granted lk)) - {r}"
      using d by (simp add: all_tickets_def)
    ultimately show ?thesis using granted_only(2) [OF d conv(2)] by (auto simp: e holders_def)
  qed
  then show "lock_inv tk s lk1" "set (holders lk1) = set (holders lk) - {r}" "m_waiting lk1 = m_waiting lk"
    "lock_key lk1 = lock_key lk" "m_hog_lock_count lk1 = m_hog_lock_count lk"
    "m_supported_types (m_fast_road lk1) = m_supported_types (m_fast_road lk)"
    "set (m_list (m_granted lk1)) = set (m_list (m_granted lk)) - {r}" by auto
qed

lemma lk_upgrade_inv:
  assumes "lk_upgrade tk lk t ty remove = (tk', lk')" "lock_inv tk s lk" "t \<in> set (m_list (m_granted lk))"
    "type_change_ok tk s lk t ty" "\<And>r. remove = Some r \<Longrightarrow> r \<in> set (holders lk) \<and> r \<noteq> t"
  shows "tk' = retype tk t ty" "lock_inv tk' s lk'" "lock_key lk' = lock_key lk"
    "m_hog_lock_count lk' = m_hog_lock_count lk" "m_list (m_waiting lk') = m_list (m_waiting lk)"
    "set (holders lk') = set (holders lk) - set_option remove"
proof -
  obtain lk1 where lk1: "lock_inv tk s lk1" "set (holders lk1) = set (holders lk) - set_option remove"
    "m_waiting lk1 = m_waiting lk" "lock_key lk1 = lock_key lk" "m_hog_lock_count lk1 = m_hog_lock_count lk"
    "m_supported_types (m_fast_road lk1) = m_supported_types (m_fast_road lk)"
    "t \<in> set (m_list (m_granted lk1))"
    and r: "tk' = retype tk t ty" "lk' = lk1\<lparr>m_granted := add_ticket tk' (remove_ticket tk (m_granted lk1) t) t\<rparr>"
  proof (cases remove)
    case None
    then show ?thesis using that [of lk] assms(1-3) by (auto simp: lk_upgrade_def Let_def)
  next
    case (Some r)
    have r: "r \<in> set (holders lk)" "r \<noteq> t" using assms(5) Some by auto
    note q = upgrade_remove_inv [OF assms(2) r(1)]
    show ?thesis
      by (rule that [OF q(1) _ q(3-6)]) (use q(2,7) r(2) assms(1,3) Some in \<open>auto simp: lk_upgrade_def Let_def\<close>)
  qed
  have tc: "type_change_ok tk s lk1 t ty"
    using assms(4) lk1(2,6) by (auto simp: type_change_ok_def supported_type_bit)
  show "tk' = retype tk t ty" by (rule r(1))
  show "lock_inv tk' s lk'" unfolding r by (rule retype_granted_inv [OF lk1(1,7) tc])
  have "distinct (m_list (m_granted lk1))" using lk1(1) by (auto simp: lock_inv_def all_tickets_def dest!: lk_coreD(4))
  then show "lock_key lk' = lock_key lk" "m_hog_lock_count lk' = m_hog_lock_count lk"
    "m_list (m_waiting lk') = m_list (m_waiting lk)" "set (holders lk') = set (holders lk) - set_option remove"
    using lk1 r by (auto simp: holders_def)
qed

end
