(* ===== verification/Mdl_System.thy ===== *)
theory Mdl_System
  imports Mdl_Context Mdl_Lock_Inv
begin

text \<open>
  The metadata lock subsystem as a whole: what sessions hold and wait for agrees with the lists of
  the locks, in every state that interleaved operations of the sessions reach.
\<close>

subsection \<open>Sessions and locks\<close>

type_synonym lock_map = "string \<Rightarrow> MDL_lock option"

definition hold_set :: "lock_map \<Rightarrow> string \<Rightarrow> ticket set" where
  "hold_set locks k = (case locks k of None \<Rightarrow> {} | Some lk \<Rightarrow> set (holders lk))"

definition wait_set :: "lock_map \<Rightarrow> string \<Rightarrow> ticket set" where
  "wait_set locks k = (case locks k of None \<Rightarrow> {} | Some lk \<Rightarrow> set (m_list (m_waiting lk)))"

definition held :: "MDL_context \<Rightarrow> ticket list" where
  "held x = m_tickets x MDL_STATEMENT @ m_tickets x MDL_TRANSACTION @ m_tickets x MDL_EXPLICIT"

definition pending :: "MDL_context \<Rightarrow> ticket option" where
  "pending x = map_option snd (acquiring x)"

text \<open>
  Each holder of a lock is in a list of its context, or its context has just been granted it and
  is about to wake up; each waiter is the pending ticket of its context.
\<close>

definition links ::
  "ticket_store \<Rightarrow> wait_slots \<Rightarrow> (string \<Rightarrow> ticket set) \<Rightarrow> (string \<Rightarrow> ticket set) \<Rightarrow>
   (context_id \<Rightarrow> ticket list) \<Rightarrow> (context_id \<Rightarrow> ticket option) \<Rightarrow> bool" where
  "links tk ws H W L P \<longleftrightarrow>
     (\<forall>k. \<forall>t\<in>H k. m_lock (tk t) = k \<and>
        (t \<in> set (L (m_ctx (tk t))) \<or> P (m_ctx (tk t)) = Some t \<and> ws (m_ctx (tk t)) = GRANTED)) \<and>
     (\<forall>k. \<forall>t\<in>W k. m_lock (tk t) = k \<and> P (m_ctx (tk t)) = Some t \<and> ws (m_ctx (tk t)) \<noteq> GRANTED) \<and>
     (\<forall>c. distinct (L c)) \<and>
     (\<forall>c. \<forall>t\<in>set (L c). m_ctx (tk t) = c \<and> t \<in> H (m_lock (tk t)) \<and> P c \<noteq> Some t) \<and>
     (\<forall>c t. P c = Some t \<longrightarrow>
        m_ctx (tk t) = c \<and> (if ws c = GRANTED then t \<in> H (m_lock (tk t)) else t \<in> W (m_lock (tk t)))) \<and>
     (\<forall>c. P c = None \<longrightarrow> ws c = EMPTY)"

lemma linksD:
  assumes "links tk ws H W L P"
  shows "t \<in> H k \<Longrightarrow> m_lock (tk t) = k"
    "t \<in> H k \<Longrightarrow> t \<in> set (L (m_ctx (tk t))) \<or> P (m_ctx (tk t)) = Some t \<and> ws (m_ctx (tk t)) = GRANTED"
    "t \<in> W k \<Longrightarrow> m_lock (tk t) = k \<and> P (m_ctx (tk t)) = Some t \<and> ws (m_ctx (tk t)) \<noteq> GRANTED"
    "distinct (L c)" "t \<in> set (L c) \<Longrightarrow> m_ctx (tk t) = c \<and> t \<in> H (m_lock (tk t)) \<and> P c \<noteq> Some t"
    "P c = Some t \<Longrightarrow> m_ctx (tk t) = c"
    "P c = Some t \<Longrightarrow> ws c = GRANTED \<Longrightarrow> t \<in> H (m_lock (tk t))"
    "P c = Some t \<Longrightarrow> ws c \<noteq> GRANTED \<Longrightarrow> t \<in> W (m_lock (tk t))"
    "P c = None \<Longrightarrow> ws c = EMPTY"
  using assms unfolding links_def by (auto split: if_splits)

lemma linksI:
  assumes "\<And>k t. t \<in> H k \<Longrightarrow> m_lock (tk t) = k"
    "\<And>k t. t \<in> H k \<Longrightarrow> t \<in> set (L (m_ctx (tk t))) \<or> P (m_ctx (tk t)) = Some t \<and> ws (m_ctx (tk t)) = GRANTED"
    "\<And>k t. t \<in> W k \<Longrightarrow> m_lock (tk t) = k \<and> P (m_ctx (tk t)) = Some t \<and> ws (m_ctx (tk t)) \<noteq> GRANTED"
    "\<And>c. distinct (L c)" "\<And>c t. t \<in> set (L c) \<Longrightarrow> m_ctx (tk t) = c \<and> t \<in> H (m_lock (tk t)) \<and> P c \<noteq> Some t"
    "\<And>c t. P c = Some t \<Longrightarrow> m_ctx (tk t) = c"
    "\<And>c t. P c = Some t \<Longrightarrow> ws c = GRANTED \<Longrightarrow> t \<in> H (m_lock (tk t))"
    "\<And>c t. P c = Some t \<Longrightarrow> ws c \<noteq> GRANTED \<Longrightarrow> t \<in> W (m_lock (tk t))"
    "\<And>c. P c = None \<Longrightarrow> ws c = EMPTY"
  shows "links tk ws H W L P"
  unfolding links_def using assms by (intro conjI allI ballI impI) (simp_all split: if_split)

lemma links_tk_cong:
  assumes "links tk ws H W L P"
    "\<And>t. (\<exists>k. t \<in> H k \<union> W k) \<Longrightarrow> m_lock (tk' t) = m_lock (tk t) \<and> m_ctx (tk' t) = m_ctx (tk t)"
  shows "links tk' ws H W L P"
proof -
  note d = linksD [OF assms(1)]
  have h: "m_lock (tk' t) = m_lock (tk t)" "m_ctx (tk' t) = m_ctx (tk t)" if "t \<in> H k \<or> t \<in> W k" for t k
    using assms(2) that by blast+
  have l: "m_lock (tk' t) = m_lock (tk t)" "m_ctx (tk' t) = m_ctx (tk t)" if "t \<in> set (L c)" for t c
    using d(5) [OF that] h [of t "m_lock (tk t)"] by simp_all
  have p: "m_lock (tk' t) = m_lock (tk t)" "m_ctx (tk' t) = m_ctx (tk t)" if "P c = Some t" for t c
    using d(7,8) [OF that] h [of t "m_lock (tk t)"] by blast+
  show ?thesis
  proof (rule linksI, goal_cases)
    case (1 k t) then show ?case using d(1) [of t k] h [of t k] by simp
  next
    case (2 k t) then show ?case using d(2) [of t k] h [of t k] by simp
  next
    case (3 k t) then show ?case using d(3) [of t k] h [of t k] by simp
  next
    case (4 c) then show ?case by (rule d(4))
  next
    case (5 c t) then show ?case using d(5) [of t c] l [of t c] by simp
  next
    case (6 c t) then show ?case using d(6) [of c t] p [of c t] by simp
  next
    case (7 c t) then show ?case using d(7) [of c t] p [of c t] by simp
  next
    case (8 c t) then show ?case using d(8) [of c t] p [of c t] by simp
  next
    case (9 c) then show ?case by (rule d(9))
  qed
qed

lemma links_wake:
  assumes "links tk ws H W L P" "gs \<subseteq> W k" "\<forall>g\<in>gs. ws (m_ctx (tk g)) = EMPTY"
    "\<forall>c. ws' c = (if \<exists>g\<in>gs. m_ctx (tk g) = c then GRANTED else ws c)"
  shows "links tk ws' (H(k := H k \<union> gs)) (W(k := W k - gs)) L P"
proof -
  note d = linksD [OF assms(1)]
  have g: "m_lock (tk t) = k" "P (m_ctx (tk t)) = Some t" "ws' (m_ctx (tk t)) = GRANTED" if "t \<in> gs" for t
    using that assms(2,4) d(3) [of t k] by auto
  have ng: "ws' c = ws c" if "\<not> (\<exists>t\<in>gs. P c = Some t)" for c
  proof -
    have "\<not> (\<exists>g\<in>gs. m_ctx (tk g) = c)" using that g(2) by blast
    then show ?thesis using assms(4) by simp
  qed
  have wg: "ws c = GRANTED \<Longrightarrow> ws' c = GRANTED" for c using assms(4) by simp
  have kt: "t \<notin> gs" if "t \<in> W k'" "k' \<noteq> k" for t k' using g(1) [of t] d(3) [of t k'] that by auto
  show ?thesis
  proof (rule linksI, goal_cases)
    case (1 k' t) then show ?case using g(1) [of t] d(1) [of t k'] by (auto split: if_splits)
  next
    case (2 k' t)
    then consider "t \<in> gs" | "t \<in> H k'" by (auto split: if_splits)
    then show ?case using g [of t] d(2) [of t k'] wg [of "m_ctx (tk t)"] by cases auto
  next
    case (3 k' t)
    then have t: "t \<in> W k'" "t \<notin> gs" using kt [of t k'] by (auto split: if_splits)
    then show ?case using d(3) [of t k'] ng [of "m_ctx (tk t)"] by auto
  next
    case (4 c) then show ?case by (rule d(4))
  next
    case (5 c t) then show ?case using d(5) [of t c] by auto
  next
    case (6 c t) then show ?case by (rule d(6))
  next
    case (7 c t)
    then show ?case using d(6-8) [of c t] g [of t] ng [of c] by (cases "t \<in> gs") auto
  next
    case (8 c t)
    then show ?case using d(6-8) [of c t] g [of t] ng [of c] wg [of c] by (cases "t \<in> gs") auto
  next
    case (9 c) then show ?case using ng [of c] d(9) [of c] by simp
  qed
qed

lemma links_release:
  assumes "links tk ws H W L P" "t \<in> set (L c)" "k = m_lock (tk t)" "mset L' = mset (L c) - {#t#}"
  shows "links tk ws (H(k := H k - {t})) W (L(c := L')) P"
proof -
  note d = linksD [OF assms(1)]
  have "mset L' = mset (remove1 t (L c))" using assms(4) by simp
  then have L': "set L' = set (L c) - {t}" "distinct L'"
    using d(4) [of c] by (metis mset_eq_setD set_remove1_eq, metis distinct_remove1 mset_eq_imp_distinct_iff)
  have tc: "m_ctx (tk t) = c" "P c \<noteq> Some t" using d(5) [OF assms(2)] by auto
  have tp: "P c' \<noteq> Some t" for c' using d(6) [of c' t] tc by auto
  have lc: "set ((L(c := L')) c') = set (L c') - {t}" for c'
    using L'(1) d(5) [of t c'] tc(1) by (cases "c' = c") auto
  show ?thesis
  proof (rule linksI, unfold lc, goal_cases)
    case (1 k' u) then show ?case using d(1) [of u k'] by (auto split: if_splits)
  next
    case (2 k' u)
    then have "u \<in> H k'" "u \<noteq> t" using d(1) [of u k'] assms(3) by (auto split: if_splits)
    then show ?case using d(2) [of u k'] by auto
  next
    case (3 k' u) then show ?case by (rule d(3))
  next
    case (4 c') then show ?case using d(4) [of c'] L'(2) by simp
  next
    case (5 c' u) then show ?case using d(5) [of u c'] by auto
  next
    case (6 c' u) then show ?case by (rule d(6))
  next
    case (7 c' u) then show ?case using d(7) [of c' u] tp [of c'] by auto
  next
    case (8 c' u) then show ?case by (rule d(8))
  next
    case (9 c') then show ?case by (rule d(9))
  qed
qed

lemma links_lists:
  assumes "links tk ws H W L P" "\<And>c. mset (L' c) = mset (L c)"
  shows "links tk ws H W L' P"
proof -
  note d = linksD [OF assms(1)]
  have s: "set (L' c) = set (L c)" "distinct (L' c)" for c
    using assms(2) [of c] d(4) [of c] by (metis mset_eq_setD, metis mset_eq_imp_distinct_iff)
  show ?thesis using assms(1) by (simp add: links_def s)
qed

lemma links_acquire:
  assumes "links tk ws H W L P" "\<And>k'. t \<notin> H k' \<and> t \<notin> W k'" "m_lock (tk t) = k" "m_ctx (tk t) = c"
    "mset L' = add_mset t (mset (L c))"
  shows "links tk ws (H(k := insert t (H k))) W (L(c := L')) P"
proof -
  note d = linksD [OF assms(1)]
  have nl: "t \<notin> set (L c')" for c' using d(5) [of t c'] assms(2) by blast
  have np: "P c' \<noteq> Some t" for c' using d(7,8) [of c' t] assms(2) by (cases "ws c' = GRANTED") auto
  have "mset L' = mset (t # L c)" using assms(5) by simp
  then have L': "set L' = insert t (set (L c))" "distinct L'"
    using d(4) [of c] nl [of c] by (metis list.simps(15) mset_eq_setD, metis distinct.simps(2) mset_eq_imp_distinct_iff)
  have lc: "set ((L(c := L')) c') = (if c' = c then insert t (set (L c')) else set (L c'))" for c'
    using L'(1) by simp
  show ?thesis
  proof (rule linksI, unfold lc, goal_cases)
    case (1 k' u) then show ?case using d(1) [of u k'] assms(3) by (auto split: if_splits)
  next
    case (2 k' u) then show ?case using d(2) [of u k'] assms(4) by (auto split: if_splits)
  next
    case (3 k' u) then show ?case by (rule d(3))
  next
    case (4 c') then show ?case using d(4) [of c'] L'(2) by simp
  next
    case (5 c' u) then show ?case using d(5) [of u c'] assms(3,4) np [of c'] by (auto split: if_splits)
  next
    case (6 c' u) then show ?case by (rule d(6))
  next
    case (7 c' u) then show ?case using d(7) [of c' u] by auto
  next
    case (8 c' u) then show ?case by (rule d(8))
  next
    case (9 c') then show ?case by (rule d(9))
  qed
qed

lemma links_wait:
  assumes "links tk ws H W L P" "\<And>k'. t \<notin> H k' \<and> t \<notin> W k'" "m_lock (tk t) = k" "m_ctx (tk t) = c" "P c = None"
  shows "links tk ws H (W(k := insert t (W k))) L (P(c := Some t))"
proof -
  note d = linksD [OF assms(1)]
  have e: "ws c = EMPTY" by (rule d(9) [OF assms(5)])
  have nl: "t \<notin> set (L c')" for c' using d(5) [of t c'] assms(2) by blast
  show ?thesis
  proof (rule linksI, goal_cases)
    case (1 k' u) then show ?case by (rule d(1))
  next
    case (2 k' u) then show ?case using d(2) [of u k'] assms(5) by auto
  next
    case (3 k' u) then show ?case using d(3) [of u k'] assms(3-5) e by (auto split: if_splits)
  next
    case (4 c') then show ?case by (rule d(4))
  next
    case (5 c' u) then show ?case using d(5) [of u c'] nl [of c'] by auto
  next
    case (6 c' u) then show ?case using d(6) [of c' u] assms(4) by (auto split: if_splits)
  next
    case (7 c' u) then show ?case using d(7) [of c' u] e by (auto split: if_splits)
  next
    case (8 c' u) then show ?case using d(8) [of c' u] assms(3) by (auto split: if_splits)
  next
    case (9 c') then show ?case using d(9) [of c'] by (auto split: if_splits)
  qed
qed

lemma links_abort:
  assumes "links tk ws H W L P" "P c = Some t" "ws c \<noteq> GRANTED" "k = m_lock (tk t)"
  shows "links tk (ws(c := EMPTY)) H (W(k := W k - {t})) L (P(c := None))"
proof -
  note d = linksD [OF assms(1)]
  have tc: "m_ctx (tk t) = c" by (rule d(6) [OF assms(2)])
  have w: "u = t" if "u \<in> W k'" "m_ctx (tk u) = c" for u k' using d(3) [OF that(1)] that(2) assms(2) by simp
  show ?thesis
  proof (rule linksI, goal_cases)
    case (1 k' u) then show ?case by (rule d(1))
  next
    case (2 k' u) then show ?case using d(2) [of u k'] assms(2,3) by auto
  next
    case (3 k' u)
    then have "u \<in> W k'" "u \<noteq> t" using d(3) [of u k'] assms(4) by (auto split: if_splits)
    then show ?case using d(3) [of u k'] w [of u k'] by auto
  next
    case (4 c') then show ?case by (rule d(4))
  next
    case (5 c' u) then show ?case using d(5) [of u c'] by auto
  next
    case (6 c' u) then show ?case using d(6) [of c' u] by (auto split: if_splits)
  next
    case (7 c' u) then show ?case using d(7) [of c' u] by (auto split: if_splits)
  next
    case (8 c' u)
    then have "c' \<noteq> c" by auto
    moreover have "u \<noteq> t" using 8 d(6) [of c' u] tc calculation by auto
    ultimately show ?case using 8 d(8) [of c' u] by (auto split: if_splits)
  next
    case (9 c') then show ?case using d(9) [of c'] by (auto split: if_splits)
  qed
qed

lemma links_finish:
  assumes "links tk ws H W L P" "P c = Some t" "ws c = GRANTED" "mset L' = add_mset t (mset (L c))"
  shows "links tk (ws(c := EMPTY)) H W (L(c := L')) (P(c := None))"
proof -
  note d = linksD [OF assms(1)]
  have tc: "m_ctx (tk t) = c" by (rule d(6) [OF assms(2)])
  have th: "t \<in> H (m_lock (tk t))" by (rule d(7) [OF assms(2,3)])
  have nl: "t \<notin> set (L c)" using d(5) [of t c] assms(2) by auto
  have "mset L' = mset (t # L c)" using assms(4) by simp
  then have L': "set L' = insert t (set (L c))" "distinct L'"
    using d(4) [of c] nl by (metis list.simps(15) mset_eq_setD, metis distinct.simps(2) mset_eq_imp_distinct_iff)
  have lc: "set ((L(c := L')) c') = (if c' = c then insert t (set (L c')) else set (L c'))" for c'
    using L'(1) by simp
  show ?thesis
  proof (rule linksI, unfold lc, goal_cases)
    case (1 k' u) then show ?case by (rule d(1))
  next
    case (2 k' u)
    show ?case
    proof (cases "m_ctx (tk u) = c")
      case True
      then show ?thesis using d(2) [OF 2] assms(2) by auto
    next
      case False
      then show ?thesis using d(2) [OF 2] by simp
    qed
  next
    case (3 k' u)
    then have "m_ctx (tk u) \<noteq> c" using d(3) [OF 3] assms(3) by metis
    then show ?case using d(3) [OF 3] by simp
  next
    case (4 c') then show ?case using d(4) [of c'] L'(2) by simp
  next
    case (5 c' u)
    show ?case
    proof (cases "u = t")
      case True
      then have "c' = c" using 5 d(5) [of t c'] tc by (auto split: if_splits)
      then show ?thesis using True tc th by simp
    next
      case False
      then show ?thesis using 5 d(5) [of u c'] by (simp split: if_splits)
    qed
  next
    case (6 c' u) then show ?case using d(6) [of c' u] by (auto split: if_splits)
  next
    case (7 c' u) then show ?case using d(7) [of c' u] by (auto split: if_splits)
  next
    case (8 c' u) then show ?case using d(8) [of c' u] by (auto split: if_splits)
  next
    case (9 c') then show ?case using d(9) [of c'] by (auto split: if_splits)
  qed
qed

lemma links_status:
  assumes "links tk ws H W L P" "ws c = EMPTY" "P c \<noteq> None" "s \<noteq> GRANTED"
  shows "links tk (ws(c := s)) H W L P"
proof -
  note d = linksD [OF assms(1)]
  show ?thesis
  proof (rule linksI, goal_cases)
    case (1 k t) then show ?case by (rule d(1))
  next
    case (2 k t) then show ?case using d(2) [OF 2] assms(2) by auto
  next
    case (3 k t) then show ?case using d(3) [OF 3] assms(4) by simp
  next
    case (4 c) then show ?case by (rule d(4))
  next
    case (5 c t) then show ?case by (rule d(5))
  next
    case (6 c t) then show ?case by (rule d(6))
  next
    case (7 c' t) then show ?case using d(7) [of c' t] assms(4) by (simp split: if_splits)
  next
    case (8 c' t) then show ?case using d(8) [of c' t] assms(2) by (cases "c' = c") auto
  next
    case (9 c') then show ?case using d(9) [of c'] assms(3) by (cases "c' = c") auto
  qed
qed

subsection \<open>The invariant\<close>

definition locks_ok :: "ticket_store \<Rightarrow> ticket \<Rightarrow> lock_map \<Rightarrow> bool" where
  "locks_ok tk n locks \<longleftrightarrow>
     (\<forall>k lk. locks k = Some lk \<longrightarrow>
        lock_key lk = k \<and> lock_inv tk (key_strategy k) lk \<and>
        (\<forall>t\<in>set (all_tickets lk). t < n)) \<and>
     (\<forall>k. namespace_of k = BACKUP \<longrightarrow> (locks k \<noteq> None \<longleftrightarrow> k = backup_key))"

definition mdl_links :: "mdl_state \<Rightarrow> bool" where
  "mdl_links st \<longleftrightarrow>
     links (tickets st) (waits st) (hold_set (mdl_locks st)) (wait_set (mdl_locks st))
       (\<lambda>c. held (contexts st c)) (\<lambda>c. pending (contexts st c))"

definition mdl_inv :: "mdl_state \<Rightarrow> bool" where
  "mdl_inv st \<longleftrightarrow> locks_ok (tickets st) (next_ticket st) (mdl_locks st) \<and> mdl_links st"

lemma locks_okD:
  assumes "locks_ok tk n locks" "locks k = Some lk"
  shows "lock_key lk = k" "lock_inv tk (key_strategy k) lk"
    "t \<in> set (all_tickets lk) \<Longrightarrow> t < n" "t \<in> set (all_tickets lk) \<Longrightarrow> m_lock (tk t) = k"
    "m_strategy lk = Some (key_strategy k)"
proof -
  show "lock_key lk = k" "lock_inv tk (key_strategy k) lk"
    "t \<in> set (all_tickets lk) \<Longrightarrow> t < n"
    using assms by (auto simp: locks_ok_def)
  then show "t \<in> set (all_tickets lk) \<Longrightarrow> m_lock (tk t) = k" "m_strategy lk = Some (key_strategy k)"
    by (auto simp: lock_inv_def dest: lk_coreD(1,8))
qed

definition tickets_at :: "lock_map \<Rightarrow> string \<Rightarrow> ticket set" where
  "tickets_at locks k = (case locks k of None \<Rightarrow> {} | Some lk \<Rightarrow> set (all_tickets lk))"

lemma hold_wait_tickets_at: "hold_set locks k \<union> wait_set locks k = tickets_at locks k"
  by (auto simp: hold_set_def wait_set_def tickets_at_def lk_sets split: option.splits)

lemma tickets_at_lt: "locks_ok tk n locks \<Longrightarrow> u \<in> tickets_at locks k \<Longrightarrow> u < n \<and> m_lock (tk u) = k"
  by (auto simp: tickets_at_def dest: locks_okD(3,4) split: option.splits)

lemma locks_ok_upd:
  assumes "locks_ok tk n locks" "n \<le> n'"
    "\<And>u k'. k' \<noteq> k \<Longrightarrow> u \<in> tickets_at locks k' \<Longrightarrow> u \<notin> tickets_at locks k \<Longrightarrow> tk' u = tk u"
    "\<And>lk. lko = Some lk \<Longrightarrow> lock_key lk = k \<and> lock_inv tk' (key_strategy k) lk \<and>
        (\<forall>t\<in>set (all_tickets lk). t < n')"
    "namespace_of k = BACKUP \<Longrightarrow> lko \<noteq> None \<and> k = backup_key"
  shows "locks_ok tk' n' (locks(k := lko))"
proof -
  have "lock_inv tk' (key_strategy k') lk \<and> (\<forall>t\<in>set (all_tickets lk). t < n')"
    if "locks k' = Some lk" "k' \<noteq> k" for k' lk
  proof -
    note d = locks_okD [OF assms(1) that(1)]
    have "u \<notin> tickets_at locks k" if "u \<in> set (all_tickets lk)" for u
      using d(4) [OF that] \<open>k' \<noteq> k\<close> locks_okD(4) [OF assms(1)] by (auto simp: tickets_at_def split: option.splits)
    moreover have "u \<in> tickets_at locks k'" if "u \<in> set (all_tickets lk)" for u
      using that \<open>locks k' = Some lk\<close> by (simp add: tickets_at_def)
    ultimately have "same_tickets tk tk' (set (all_tickets lk))"
      using assms(3) [OF \<open>k' \<noteq> k\<close>] by (simp add: same_tickets_def)
    from lock_inv_cong [OF this d(2)] show ?thesis using d(3) assms(2) by fastforce
  qed
  then show ?thesis
    using assms(1,4,5) unfolding locks_ok_def by (auto split: if_splits)
qed

lemma hold_set_upd:
  "hold_set (locks(k := Some lk)) = (hold_set locks)(k := set (holders lk))"
  "hold_set (locks(k := None)) = (hold_set locks)(k := {})"
  "wait_set (locks(k := Some lk)) = (wait_set locks)(k := set (m_list (m_waiting lk)))"
  "wait_set (locks(k := None)) = (wait_set locks)(k := {})"
  by (auto simp: hold_set_def wait_set_def fun_eq_iff)

lemma mset_held_remove:
  "t \<in> set (m_tickets x d) \<Longrightarrow> mset (held (set_tickets d (remove1 t) x)) = mset (held x) - {#t#}"
  by (cases d) (auto simp: held_def set_tickets_def)

lemma mset_held_push: "mset (held (set_tickets d ((#) t) x)) = add_mset t (mset (held x))"
  by (cases d) (auto simp: held_def set_tickets_def)

lemma pending_set_tickets [simp]: "pending (set_tickets d f x) = pending x"
  by (simp add: pending_def set_tickets_def)

lemma held_in: "t \<in> set (m_tickets x d) \<Longrightarrow> t \<in> set (held x)"
  by (cases d) (auto simp: held_def)

lemma upd_ctx_fields [simp]:
  "tickets (upd_ctx st c f) = tickets st" "next_ticket (upd_ctx st c f) = next_ticket st"
  "waits (upd_ctx st c f) = waits st" "mdl_locks (upd_ctx st c f) = mdl_locks st"
  "contexts (upd_ctx st c f) = (contexts st)(c := f (contexts st c))"
  by (auto simp: upd_ctx_def)

lemma store_lock_fields [simp]:
  "tickets (store_lock st k lk) = tickets st" "next_ticket (store_lock st k lk) = next_ticket st"
  "waits (store_lock st k lk) = waits st" "contexts (store_lock st k lk) = contexts st"
  "mdl_locks (store_lock st k lk) = (mdl_locks st)(k := (if m_strategy lk = None then None else Some lk))"
  by (auto simp: store_lock_def)

text \<open>Changing the lists of one context.\<close>

lemma fun_upd_comp: "(\<lambda>a. f ((g(c := x)) a)) = (\<lambda>a. f (g a))(c := f x)"
  by (auto simp: fun_eq_iff)

lemma held_ticket:
  assumes "mdl_inv st" "t \<in> set (held (contexts st c))"
  obtains lk where "mdl_locks st (m_lock (tickets st t)) = Some lk" "t \<in> set (holders lk)" "m_ctx (tickets st t) = c"
    "lock_inv (tickets st) (key_strategy (m_lock (tickets st t))) lk"
    "lock_key lk = m_lock (tickets st t)"
proof -
  have "m_ctx (tickets st t) = c" "t \<in> hold_set (mdl_locks st) (m_lock (tickets st t))"
    using assms linksD(5) [of "tickets st" "waits st" _ _ "\<lambda>c. held (contexts st c)"] by (auto simp: mdl_inv_def mdl_links_def)
  moreover from this obtain lk where "mdl_locks st (m_lock (tickets st t)) = Some lk" "t \<in> set (holders lk)"
    by (auto simp: hold_set_def split: option.splits)
  ultimately show ?thesis
    using that locks_okD(1-3) assms(1) unfolding mdl_inv_def by blast
qed

text \<open>
  A lock loses the ticket \<open>t\<close> and wakes up waiters: the common part of releasing a ticket and of
  giving up a wait.
\<close>

lemma lk_gone_sets:
  assumes "lk_gone lk lk' t" "lock_inv tk s lk"
  shows "t \<in> set (holders lk) \<Longrightarrow> set (holders lk) = {t} \<and> set (m_list (m_waiting lk)) = {}"
    "t \<in> set (m_list (m_waiting lk)) \<Longrightarrow> set (holders lk) = {} \<and> set (m_list (m_waiting lk)) = {t}"
    "m_strategy lk' = None" "namespace_of (lock_key lk) \<noteq> BACKUP"
proof -
  have all: "set (all_tickets lk) = {t}" and d: "distinct (all_tickets lk)"
    using assms by (auto simp: lk_gone_def lock_inv_def dest: lk_coreD(4))
  have sub: "set (holders lk) \<union> set (m_list (m_waiting lk)) = {t}" using all by (auto simp: lk_sets)
  have dj: "set (holders lk) \<inter> set (m_list (m_waiting lk)) = {}" using d by (auto simp: lk_sets)
  {
    fix A B :: "ticket set"
    assume "A \<union> B = {t}" "A \<inter> B = {}"
    then have "(t \<in> A \<longrightarrow> A = {t} \<and> B = {}) \<and> (t \<in> B \<longrightarrow> A = {} \<and> B = {t})" by auto
  }
  from this [OF sub dj]
  show "t \<in> set (holders lk) \<Longrightarrow> set (holders lk) = {t} \<and> set (m_list (m_waiting lk)) = {}"
    "t \<in> set (m_list (m_waiting lk)) \<Longrightarrow> set (holders lk) = {} \<and> set (m_list (m_waiting lk)) = {t}"
    by simp_all
  show "m_strategy lk' = None" "namespace_of (lock_key lk) \<noteq> BACKUP"
    using assms(1) by (auto simp: lk_gone_def lk_clean_def)
qed

end
