(* ===== verification/Mdl_Deadlock.thy ===== *)
theory Mdl_Deadlock
  imports Mdl_Context
begin

text \<open>
  Deadlock detection of \<^verbatim>\<open>sql/mdl.cc\<close>: the visitor with its search depth and victim, the
  traversal of the wait-for graph through \<^verbatim>\<open>MDL_context::visit_subgraph()\<close> and
  \<^verbatim>\<open>MDL_lock::visit_subgraph()\<close>, and \<^verbatim>\<open>MDL_context::find_deadlock()\<close>. The recursion
  is over the number of nodes that may still be entered; \<^verbatim>\<open>MAX_SEARCH_DEPTH\<close> of them are
  enough, since the visitor itself stops at that depth. A search sees one state of the locks.
\<close>

record Deadlock_detection_visitor =
  m_start_node :: context_id
  m_victim :: "context_id option"
  m_current_search_depth :: nat
  m_found_deadlock :: bool

definition MAX_SEARCH_DEPTH :: nat where
  "MAX_SEARCH_DEPTH = 32"

definition new_visitor :: "context_id \<Rightarrow> Deadlock_detection_visitor" where
  "new_visitor c = \<lparr>m_start_node = c, m_victim = None, m_current_search_depth = 0, m_found_deadlock = False\<rparr>"

definition DEADLOCK_WEIGHT_FTWRL1 :: u32 where "DEADLOCK_WEIGHT_FTWRL1 = 0"
definition DEADLOCK_WEIGHT_DML :: u32 where "DEADLOCK_WEIGHT_DML = 1"
definition DEADLOCK_WEIGHT_DDL :: u32 where "DEADLOCK_WEIGHT_DDL = 100"

definition ticket_deadlock_weight :: "MDL_ticket \<Rightarrow> u32" where
  "ticket_deadlock_weight t =
     (if namespace_of (m_lock t) = BACKUP
      then if m_type t = MDL_BACKUP_FTWRL1 then DEADLOCK_WEIGHT_FTWRL1 else DEADLOCK_WEIGHT_DDL
      else if m_type t \<ge> MDL_SHARED_UPGRADABLE then DEADLOCK_WEIGHT_DDL else DEADLOCK_WEIGHT_DML)"

text \<open>The weight of a context is only asked for while it waits.\<close>

definition get_deadlock_weight :: "mdl_state \<Rightarrow> context_id \<Rightarrow> u32" where
  "get_deadlock_weight st c =
     (case m_waiting_for (contexts st c) of
        None \<Rightarrow> 0
      | Some t \<Rightarrow> ticket_deadlock_weight (tickets st t) + m_deadlock_overweight (contexts st c))"

definition opt_change_victim_to :: "mdl_state \<Rightarrow> context_id \<Rightarrow> Deadlock_detection_visitor \<Rightarrow> Deadlock_detection_visitor" where
  "opt_change_victim_to st new_victim v =
     (case m_victim v of
        None \<Rightarrow> v\<lparr>m_victim := Some new_victim\<rparr>
      | Some old \<Rightarrow>
          if get_deadlock_weight st old \<ge> get_deadlock_weight st new_victim
          then v\<lparr>m_victim := Some new_victim\<rparr> else v)"

definition enter_node :: "mdl_state \<Rightarrow> context_id \<Rightarrow> Deadlock_detection_visitor \<Rightarrow> bool \<times> Deadlock_detection_visitor" where
  "enter_node st node v =
     (let depth = m_current_search_depth v + 1; found = depth \<ge> MAX_SEARCH_DEPTH;
          v1 = v\<lparr>m_current_search_depth := depth, m_found_deadlock := found\<rparr> in
      (found, if found then opt_change_victim_to st node v1 else v1))"

definition leave_node :: "mdl_state \<Rightarrow> context_id \<Rightarrow> Deadlock_detection_visitor \<Rightarrow> Deadlock_detection_visitor" where
  "leave_node st node v =
     (let v1 = v\<lparr>m_current_search_depth := m_current_search_depth v - 1\<rparr> in
      if m_found_deadlock v1 then opt_change_victim_to st node v1 else v1)"

definition inspect_edge :: "context_id \<Rightarrow> Deadlock_detection_visitor \<Rightarrow> bool \<times> Deadlock_detection_visitor" where
  "inspect_edge node v =
     (let found = (node = m_start_node v) in (found, v\<lparr>m_found_deadlock := found\<rparr>))"

text \<open>The contexts a waiting ticket waits for, in the order of the two loops over the queues.\<close>

definition blockers :: "MDL_lock_strategy \<Rightarrow> ticket_store \<Rightarrow> MDL_lock \<Rightarrow> ticket \<Rightarrow> context_id list" where
  "blockers s tk lk t =
     map (\<lambda>u. m_ctx (tk u))
       (filter (\<lambda>u. m_ctx (tk u) \<noteq> m_ctx (tk t) \<and> is_incompatible_when_granted s (m_type (tk u)) (m_type (tk t)))
          (m_list (m_granted lk))) @
     map (\<lambda>u. m_ctx (tk u))
       (filter (\<lambda>u. m_ctx (tk u) \<noteq> m_ctx (tk t) \<and> is_incompatible_when_waiting s (m_type (tk u)) (m_type (tk t)))
          (m_list (m_waiting lk)))"

text \<open>A loop that stops at the first edge for which the visitor answers true.\<close>

fun visit_edges ::
  "(context_id \<Rightarrow> Deadlock_detection_visitor \<Rightarrow> bool \<times> Deadlock_detection_visitor) \<Rightarrow> context_id list \<Rightarrow>
   Deadlock_detection_visitor \<Rightarrow> bool \<times> Deadlock_detection_visitor" where
  "visit_edges f [] v = (False, v)"
| "visit_edges f (c # cs) v =
     (case f c v of (True, v1) \<Rightarrow> (True, v1) | (False, v1) \<Rightarrow> visit_edges f cs v1)"

definition lk_visit_subgraph ::
  "(context_id \<Rightarrow> Deadlock_detection_visitor \<Rightarrow> bool \<times> Deadlock_detection_visitor) \<Rightarrow> mdl_state \<Rightarrow> MDL_lock \<Rightarrow>
   ticket \<Rightarrow> Deadlock_detection_visitor \<Rightarrow> bool \<times> Deadlock_detection_visitor" where
  "lk_visit_subgraph visit st lk t v =
     (let src_ctx = m_ctx (tickets st t); es = blockers (ticket_strategy st t) (tickets st) lk t in
      if waits st src_ctx \<noteq> EMPTY then (False, v)
      else case enter_node st src_ctx v of
        (True, v1) \<Rightarrow> (True, v1)
      | (False, v1) \<Rightarrow>
          (case visit_edges inspect_edge es v1 of
             (True, v2) \<Rightarrow> (True, leave_node st src_ctx v2)
           | (False, v2) \<Rightarrow>
               (case visit_edges visit es v2 of
                  (result, v3) \<Rightarrow> (result, leave_node st src_ctx v3))))"

fun visit_subgraph ::
  "nat \<Rightarrow> mdl_state \<Rightarrow> context_id \<Rightarrow> Deadlock_detection_visitor \<Rightarrow> bool \<times> Deadlock_detection_visitor" where
  "visit_subgraph 0 st c v = (False, v)"
| "visit_subgraph (Suc n) st c v =
     (case m_waiting_for (contexts st c) of
        None \<Rightarrow> (False, v)
      | Some t \<Rightarrow>
          (case mdl_locks st (m_lock (tickets st t)) of
             None \<Rightarrow> (False, v)
           | Some lk \<Rightarrow> lk_visit_subgraph (visit_subgraph n st) st lk t v))"

definition mark_victim :: "mdl_state \<Rightarrow> context_id \<Rightarrow> mdl_state" where
  "mark_victim st victim =
     upd_ctx (st\<lparr>waits := snd (set_status (waits st) victim VICTIM)\<rparr>) victim
       (\<lambda>x. x\<lparr>m_deadlock_overweight := m_deadlock_overweight x + 1\<rparr>)"

partial_function (option) find_deadlock :: "mdl_state \<Rightarrow> context_id \<Rightarrow> mdl_state option" where
  "find_deadlock st c =
     (case visit_subgraph MAX_SEARCH_DEPTH st c (new_visitor c) of
        (found, v) \<Rightarrow>
          if \<not> found then Some st
          else case m_victim v of
             None \<Rightarrow> Some st
           | Some victim \<Rightarrow>
               if victim = c then Some (mark_victim st victim)
               else find_deadlock (mark_victim st victim) c)"

declare find_deadlock.simps [code]

subsection \<open>The wait-for graph\<close>

text \<open>A context waits, with an open wait slot, for the contexts its pending ticket conflicts with.\<close>

definition active :: "mdl_state \<Rightarrow> context_id \<Rightarrow> bool" where
  "active st c \<longleftrightarrow> m_waiting_for (contexts st c) \<noteq> None \<and> waits st c = EMPTY"

definition waits_for :: "mdl_state \<Rightarrow> context_id \<Rightarrow> context_id list" where
  "waits_for st c =
     (case m_waiting_for (contexts st c) of
        None \<Rightarrow> []
      | Some t \<Rightarrow>
          (case mdl_locks st (m_lock (tickets st t)) of
             None \<Rightarrow> []
           | Some lk \<Rightarrow> if waits st c = EMPTY then blockers (ticket_strategy st t) (tickets st) lk t else []))"

definition wait_edges :: "mdl_state \<Rightarrow> (context_id \<times> context_id) set" where
  "wait_edges st = {(a, b). b \<in> set (waits_for st a)}"

text \<open>Pending tickets belong to the context that waits.\<close>

definition waiting_ok :: "mdl_state \<Rightarrow> bool" where
  "waiting_ok st \<longleftrightarrow>
     (\<forall>c t. m_waiting_for (contexts st c) = Some t \<longrightarrow>
        m_ctx (tickets st t) = c \<and> mdl_locks st (m_lock (tickets st t)) \<noteq> None)"

lemma visit_subgraph_Suc:
  assumes "waiting_ok st"
  shows "visit_subgraph (Suc n) st c v =
    (if \<not> active st c then (False, v)
     else case enter_node st c v of
        (True, v1) \<Rightarrow> (True, v1)
      | (False, v1) \<Rightarrow>
          (case visit_edges inspect_edge (waits_for st c) v1 of
             (True, v2) \<Rightarrow> (True, leave_node st c v2)
           | (False, v2) \<Rightarrow>
               (case visit_edges (visit_subgraph n st) (waits_for st c) v2 of
                  (result, v3) \<Rightarrow> (result, leave_node st c v3))))"
proof (cases "m_waiting_for (contexts st c)")
  case None
  then show ?thesis by (simp add: active_def)
next
  case (Some t)
  then obtain lk where lk: "m_ctx (tickets st t) = c" "mdl_locks st (m_lock (tickets st t)) = Some lk"
    using assms by (auto simp: waiting_ok_def)
  show ?thesis
  proof (cases "waits st c = EMPTY")
    case True
    then have w: "waits_for st c = blockers (ticket_strategy st t) (tickets st) lk t" "active st c"
      using Some lk(2) by (simp_all add: waits_for_def active_def)
    show ?thesis unfolding w(1) using Some lk True w(2) by (simp add: lk_visit_subgraph_def Let_def)
  next
    case False
    then show ?thesis using Some lk by (simp add: lk_visit_subgraph_def active_def)
  qed
qed

declare visit_subgraph.simps(2) [simp del]

lemma inspect_edge_cases:
  "c = m_start_node v \<Longrightarrow> inspect_edge c v = (True, v\<lparr>m_found_deadlock := True\<rparr>)"
  "c \<noteq> m_start_node v \<Longrightarrow> inspect_edge c v = (False, v\<lparr>m_found_deadlock := False\<rparr>)"
  by (auto simp: inspect_edge_def Let_def)

lemma visit_edges_inspect:
  "visit_edges inspect_edge cs v = (r, v') \<Longrightarrow>
     (r \<longleftrightarrow> m_start_node v \<in> set cs) \<and>
     v' = v\<lparr>m_found_deadlock := (if cs = [] then m_found_deadlock v else r)\<rparr>"
proof (induction cs arbitrary: v)
  case (Cons c cs)
  show ?case
  proof (cases "c = m_start_node v")
    case True
    then show ?thesis using Cons.prems by (auto simp: inspect_edge_cases)
  next
    case False
    let ?v = "v\<lparr>m_found_deadlock := False\<rparr>"
    have "visit_edges inspect_edge cs ?v = (r, v')" using Cons.prems False by (simp add: inspect_edge_cases)
    from Cons.IH [OF this] show ?thesis using False by (cases cs) auto
  qed
qed auto

lemma visit_edges_False:
  assumes "\<And>c r v'. c \<in> set cs \<Longrightarrow> f c v = (False, v') \<Longrightarrow> v' = v" "visit_edges f cs v = (False, v')"
  shows "v' = v \<and> (\<forall>c\<in>set cs. f c v = (False, v))"
  using assms
proof (induction cs)
  case (Cons c cs)
  obtain r v1 where f: "f c v = (r, v1)" by (rule prod.exhaust)
  then have "r = False" using Cons.prems(2) by (cases r) auto
  with f Cons.prems(1) [of c] have fv: "f c v = (False, v)" by auto
  then have "visit_edges f cs v = (False, v')" using Cons.prems(2) by simp
  from Cons.IH [OF _ this] Cons.prems(1) fv show ?case by auto
qed auto

lemma visit_edges_True:
  assumes "\<And>c v'. c \<in> set cs \<Longrightarrow> f c v = (False, v') \<Longrightarrow> v' = v" "visit_edges f cs v = (True, v')"
  shows "\<exists>c\<in>set cs. f c v = (True, v')"
  using assms
proof (induction cs)
  case (Cons c cs)
  obtain r v1 where f: "f c v = (r, v1)" by (rule prod.exhaust)
  show ?case
  proof (cases r)
    case True
    then show ?thesis using f Cons.prems(2) by auto
  next
    case False
    then have "f c v = (False, v)" using f Cons.prems(1) [of c] by auto
    then have "visit_edges f cs v = (True, v')" using Cons.prems(2) by simp
    from Cons.IH [OF _ this] Cons.prems(1) show ?thesis by auto
  qed
qed auto

subsection \<open>What a search finds\<close>

fun wait_path :: "mdl_state \<Rightarrow> context_id list \<Rightarrow> bool" where
  "wait_path st [] = True"
| "wait_path st [a] = active st a"
| "wait_path st (a # b # p) \<longleftrightarrow> active st a \<and> b \<in> set (waits_for st a) \<and> wait_path st (b # p)"

lemma wait_path_active: "wait_path st p \<Longrightarrow> a \<in> set p \<Longrightarrow> active st a"
  by (induction st p rule: wait_path.induct) auto

text \<open>A search that finds nothing leaves the visitor as it was.\<close>

lemma leave_enter:
  assumes "enter_node st c v = (False, v1)"
  shows "m_start_node v1 = m_start_node v" "m_victim v1 = m_victim v" "\<not> m_found_deadlock v1"
    "m_current_search_depth v1 = Suc (m_current_search_depth v)" "Suc (m_current_search_depth v) < MAX_SEARCH_DEPTH"
    "\<not> m_found_deadlock v \<Longrightarrow> leave_node st c v1 = v"
  using assms by (auto simp: enter_node_def leave_node_def Let_def)

lemma visit_subgraph_False:
  assumes "waiting_ok st"
  shows "visit_subgraph n st c v = (False, v') \<Longrightarrow> \<not> m_found_deadlock v \<Longrightarrow> v' = v"
proof (induction n arbitrary: c v v')
  case (Suc n)
  show ?case
  proof (cases "active st c")
    case True
    obtain e v1 where en: "enter_node st c v = (e, v1)" by (rule prod.exhaust)
    have e: "\<not> e" using Suc.prems(1) True en by (auto simp: visit_subgraph_Suc [OF assms] split: prod.splits bool.splits)
    note le = leave_enter [OF en [unfolded e [THEN eq_False [THEN iffD2]]]]
    obtain i v2 where ins: "visit_edges inspect_edge (waits_for st c) v1 = (i, v2)" by (rule prod.exhaust)
    have i: "\<not> i" using Suc.prems(1) True en e ins by (auto simp: visit_subgraph_Suc [OF assms])
    have v2: "v2 = v1" using visit_edges_inspect [OF ins] i le(3) by (cases v1) (auto split: if_splits)
    obtain r v3 where vi: "visit_edges (visit_subgraph n st) (waits_for st c) v1 = (r, v3)" by (rule prod.exhaust)
    have r: "\<not> r" "v' = leave_node st c v3" using Suc.prems(1) True en e ins i v2 vi by (auto simp: visit_subgraph_Suc [OF assms])
    have "v3 = v1" using visit_edges_False [of "waits_for st c" "visit_subgraph n st" v1 v3] Suc.IH le(3) vi r(1) by auto
    then show ?thesis using r(2) le(6) Suc.prems(2) by simp
  next
    case False
    then show ?thesis using Suc.prems by (simp add: visit_subgraph_Suc [OF assms])
  qed
qed simp


text \<open>A search that finds nothing shows that no chain of waits leads from the node to the start node.\<close>

lemma visit_subgraph_complete:
  assumes "waiting_ok st"
  shows "visit_subgraph n st c v = (False, v') \<Longrightarrow> \<not> m_found_deadlock v \<Longrightarrow>
    n + m_current_search_depth v = MAX_SEARCH_DEPTH \<Longrightarrow> 0 < n \<Longrightarrow>
    (c, m_start_node v) \<notin> (wait_edges st)\<^sup>+"
proof (induction n arbitrary: c v v')
  case (Suc n)
  show ?case
  proof (cases "active st c")
    case True
    obtain e v1 where en: "enter_node st c v = (e, v1)" by (rule prod.exhaust)
    have e: "\<not> e" using Suc.prems(1) True en by (auto simp: visit_subgraph_Suc [OF assms])
    note le = leave_enter [OF en [unfolded e [THEN eq_False [THEN iffD2]]]]
    obtain i v2 where ins: "visit_edges inspect_edge (waits_for st c) v1 = (i, v2)" by (rule prod.exhaust)
    have i: "\<not> i" using Suc.prems(1) True en e ins by (auto simp: visit_subgraph_Suc [OF assms])
    have ni: "m_start_node v \<notin> set (waits_for st c)" using visit_edges_inspect [OF ins] i le(1) by simp
    have v2: "v2 = v1" using visit_edges_inspect [OF ins] i le(3) by (cases v1) (auto split: if_splits)
    obtain r v3 where vi: "visit_edges (visit_subgraph n st) (waits_for st c) v1 = (r, v3)" by (rule prod.exhaust)
    have r: "\<not> r" using Suc.prems(1) True en e ins i v2 vi by (auto simp: visit_subgraph_Suc [OF assms])
    have all: "\<forall>b\<in>set (waits_for st c). visit_subgraph n st b v1 = (False, v1)"
      using visit_edges_False [of "waits_for st c" "visit_subgraph n st" v1 v3] visit_subgraph_False [OF assms] le(3) vi r by auto
    have n: "0 < n" "n + m_current_search_depth v1 = MAX_SEARCH_DEPTH" using Suc.prems(3) le(4,5) by auto
    have "(b, m_start_node v) \<notin> (wait_edges st)\<^sup>+" if "b \<in> set (waits_for st c)" for b
      using Suc.IH [OF _ le(3) n(2) n(1), of b v1] all that le(1) by simp
    note nb = this
    show ?thesis
    proof
      assume "(c, m_start_node v) \<in> (wait_edges st)\<^sup>+"
      then obtain b where b: "(c, b) \<in> wait_edges st" "(b, m_start_node v) \<in> (wait_edges st)\<^sup>*" by (blast dest: tranclD)
      then have "b \<in> set (waits_for st c)" by (simp add: wait_edges_def)
      then show False using nb ni rtranclD [OF b(2)] by blast
    qed
  next
    case False
    then have "waits_for st c = []" by (auto simp: active_def waits_for_def split: option.splits)
    then show ?thesis by (auto simp: wait_edges_def dest!: tranclD)
  qed
qed simp

text \<open>
  A search that finds something has followed a chain of waiting contexts that ends before the start
  node or is as long as the search may go, and its victim is a context of that chain of least weight.
\<close>

definition deadlock_found :: "mdl_state \<Rightarrow> context_id \<Rightarrow> Deadlock_detection_visitor \<Rightarrow> Deadlock_detection_visitor \<Rightarrow> bool" where
  "deadlock_found st c v v' \<longleftrightarrow> m_found_deadlock v' \<and>
     (\<exists>p w. p \<noteq> [] \<and> hd p = c \<and> wait_path st p \<and>
        (m_start_node v \<in> set (waits_for st (last p)) \<or> m_current_search_depth v + length p = MAX_SEARCH_DEPTH) \<and>
        m_victim v' = Some w \<and> w \<in> set p \<and> (\<forall>x\<in>set p. get_deadlock_weight st w \<le> get_deadlock_weight st x))"

lemma opt_change_victim_to_min:
  assumes "m_victim v = Some w" "w \<in> A" "\<forall>x\<in>A. get_deadlock_weight st w \<le> get_deadlock_weight st x"
  shows "\<exists>w'. m_victim (opt_change_victim_to st c v) = Some w' \<and> w' \<in> insert c A \<and>
    (\<forall>x\<in>insert c A. get_deadlock_weight st w' \<le> get_deadlock_weight st x)"
  using assms by (fastforce simp: opt_change_victim_to_def)

lemma opt_change_victim_to_found [simp]: "m_found_deadlock (opt_change_victim_to st c v) = m_found_deadlock v"
  by (simp add: opt_change_victim_to_def split: option.splits)

lemma visit_subgraph_True:
  assumes "waiting_ok st"
  shows "visit_subgraph n st c v = (True, v') \<Longrightarrow> \<not> m_found_deadlock v \<Longrightarrow> m_victim v = None \<Longrightarrow>
    n + m_current_search_depth v = MAX_SEARCH_DEPTH \<Longrightarrow> deadlock_found st c v v'"
proof (induction n arbitrary: c v v')
  case (Suc n)
  have act: "active st c" using Suc.prems(1) by (auto simp: visit_subgraph_Suc [OF assms] split: if_splits)
  obtain e v1 where en: "enter_node st c v = (e, v1)" by (rule prod.exhaust)
  show ?case
  proof (cases e)
    case True
    then have "v' = v1" using Suc.prems(1) act en by (auto simp: visit_subgraph_Suc [OF assms])
    moreover have "m_victim v1 = Some c" "m_found_deadlock v1" "Suc (m_current_search_depth v) = MAX_SEARCH_DEPTH"
      using en True Suc.prems(3,4) by (auto simp: enter_node_def Let_def opt_change_victim_to_def)
    ultimately show ?thesis
      using act unfolding deadlock_found_def by (intro conjI exI [of _ "[c]"] exI [of _ c]) auto
  next
    case False
    note le = leave_enter [OF en [unfolded False [THEN eq_False [THEN iffD2]]]]
    obtain i v2 where ins: "visit_edges inspect_edge (waits_for st c) v1 = (i, v2)" by (rule prod.exhaust)
    note vi = visit_edges_inspect [OF ins]
    show ?thesis
    proof (cases i)
      case True
      then have v': "v' = leave_node st c v2" using Suc.prems(1) act en False ins by (auto simp: visit_subgraph_Suc [OF assms])
      have v2: "m_victim v2 = None" "m_found_deadlock v2" using vi True le(2) Suc.prems(3) by auto
      then have "m_victim v' = Some c" "m_found_deadlock v'" by (auto simp: v' leave_node_def Let_def opt_change_victim_to_def)
      moreover have "m_start_node v \<in> set (waits_for st c)" using vi True le(1) by auto
      ultimately show ?thesis
        using act unfolding deadlock_found_def by (intro conjI exI [of _ "[c]"] exI [of _ c]) auto
    next
      case i: False
      then have v2: "v2 = v1" using vi le(3) by (cases v1) (auto split: if_splits)
      obtain r v3 where ve: "visit_edges (visit_subgraph n st) (waits_for st c) v1 = (r, v3)" by (rule prod.exhaust)
      have r: "r" "v' = leave_node st c v3"
        using Suc.prems(1) act en False ins i v2 ve by (auto simp: visit_subgraph_Suc [OF assms])
      obtain b where b: "b \<in> set (waits_for st c)" "visit_subgraph n st b v1 = (True, v3)"
        using visit_edges_True [of "waits_for st c" "visit_subgraph n st" v1 v3] visit_subgraph_False [OF assms] le(3) ve r(1) by auto
      have "deadlock_found st b v1 v3"
        using Suc.IH [OF b(2) le(3)] le(2,4) Suc.prems(3,4) by simp
      then obtain p w where p: "p \<noteq> []" "hd p = b" "wait_path st p" "m_found_deadlock v3"
        "m_start_node v \<in> set (waits_for st (last p)) \<or> Suc (m_current_search_depth v) + length p = MAX_SEARCH_DEPTH"
        "m_victim v3 = Some w" "w \<in> set p" "\<forall>x\<in>set p. get_deadlock_weight st w \<le> get_deadlock_weight st x"
        by (auto simp: deadlock_found_def le(1,4))
      let ?v4 = "v3\<lparr>m_current_search_depth := m_current_search_depth v3 - 1\<rparr>"
      have v': "v' = opt_change_victim_to st c ?v4" using r(2) p(4) by (simp add: leave_node_def Let_def)
      have "m_victim ?v4 = Some w" using p(6) by simp
      from opt_change_victim_to_min [OF this p(7,8), of c]
      obtain w' where w': "m_victim v' = Some w'" "w' \<in> set (c # p)" "\<forall>x\<in>set (c # p). get_deadlock_weight st w' \<le> get_deadlock_weight st x"
        unfolding v' by auto
      have "wait_path st (c # p)" using p(1-3) b(1) act by (cases p) auto
      then show ?thesis
        using w' p(1,4,5) v' unfolding deadlock_found_def by (intro conjI exI [of _ "c # p"] exI [of _ w']) auto
    qed
  qed
qed simp

subsection \<open>The loop of searches\<close>

lemma mark_victim_fields [simp]:
  "tickets (mark_victim st w) = tickets st" "mdl_locks (mark_victim st w) = mdl_locks st"
  "next_ticket (mark_victim st w) = next_ticket st"
  "m_waiting_for (contexts (mark_victim st w) c) = m_waiting_for (contexts st c)"
  "m_tickets (contexts (mark_victim st w) c) = m_tickets (contexts st c)"
  "acquiring (contexts (mark_victim st w) c) = acquiring (contexts st c)"
  "waits (mark_victim st w) = snd (set_status (waits st) w VICTIM)"
  by (auto simp: mark_victim_def upd_ctx_def)

lemma mark_victim_waiting_ok: "waiting_ok st \<Longrightarrow> waiting_ok (mark_victim st w)"
  by (simp add: waiting_ok_def)

lemma new_visitor_fields [simp]:
  "m_start_node (new_visitor c) = c" "m_victim (new_visitor c) = None"
  "m_current_search_depth (new_visitor c) = 0" "\<not> m_found_deadlock (new_visitor c)"
  by (simp_all add: new_visitor_def)

lemma first_search_True:
  assumes "waiting_ok st" "visit_subgraph MAX_SEARCH_DEPTH st c (new_visitor c) = (True, v)"
  obtains p w where "p \<noteq> []" "hd p = c" "wait_path st p" "c \<in> set (waits_for st (last p)) \<or> length p = MAX_SEARCH_DEPTH"
    "m_victim v = Some w" "w \<in> set p" "\<forall>x\<in>set p. get_deadlock_weight st w \<le> get_deadlock_weight st x" "active st w"
proof -
  have "deadlock_found st c (new_visitor c) v"
    by (rule visit_subgraph_True [OF assms]) simp_all
  then show ?thesis using that wait_path_active unfolding deadlock_found_def by (metis add_0 new_visitor_fields(1,3))
qed

lemma find_deadlock_returns:
  assumes "finite {x. active st x}" "waiting_ok st"
  shows "\<exists>st'. find_deadlock st c = Some st'"
  using assms
proof (induction "card {x. active st x}" arbitrary: st rule: less_induct)
  case less
  obtain r v where s: "visit_subgraph MAX_SEARCH_DEPTH st c (new_visitor c) = (r, v)" by (rule prod.exhaust)
  show ?case
  proof (cases r)
    case True
    obtain w where w: "m_victim v = Some w" "active st w"
      using first_search_True [OF less.prems(2) s [unfolded True [THEN eq_True [THEN iffD2]]]] by blast
    let ?st = "mark_victim st w"
    have "{x. active ?st x} = {x. active st x} - {w}"
      by (auto simp: active_def set_status_def split: if_splits)
    moreover have "card ({x. active st x} - {w}) < card {x. active st x}"
      using w(2) less.prems(1) by (intro psubset_card_mono) auto
    ultimately have "\<exists>st'. find_deadlock ?st c = Some st'"
      using less.hyps [of ?st] less.prems mark_victim_waiting_ok by simp
    then show ?thesis using s True w(1) by (subst find_deadlock.simps) auto
  qed (use s in \<open>subst find_deadlock.simps, simp\<close>)
qed

lemma find_deadlock_induct:
  assumes "find_deadlock st c = Some st'" "waiting_ok st" "P st"
    "\<And>s w. P s \<Longrightarrow> waiting_ok s \<Longrightarrow> active s w \<Longrightarrow> P (mark_victim s w)"
  shows "P st'"
proof -
  have "find_deadlock st c = Some st' \<longrightarrow> waiting_ok st \<longrightarrow> P st \<longrightarrow> P st'"
  proof (rule find_deadlock.raw_induct [of "\<lambda>st c st'. waiting_ok st \<longrightarrow> P st \<longrightarrow> P st'", THEN impI])
    fix f st c st'
    assume ih: "\<And>st c st'. f st c = Some st' \<Longrightarrow> waiting_ok st \<longrightarrow> P st \<longrightarrow> P st'"
      and r: "(case visit_subgraph MAX_SEARCH_DEPTH st c (new_visitor c) of
          (found, v) \<Rightarrow> if \<not> found then Some st
            else case m_victim v of None \<Rightarrow> Some st
              | Some victim \<Rightarrow> if victim = c then Some (mark_victim st victim) else f (mark_victim st victim) c) = Some st'"
    show "waiting_ok st \<longrightarrow> P st \<longrightarrow> P st'"
    proof (intro impI)
      assume wo: "waiting_ok st" and p: "P st"
      obtain fd v where s: "visit_subgraph MAX_SEARCH_DEPTH st c (new_visitor c) = (fd, v)" by (rule prod.exhaust)
      show "P st'"
      proof (cases fd)
        case True
        obtain w where w: "m_victim v = Some w" "active st w"
          using first_search_True [OF wo s [unfolded True [THEN eq_True [THEN iffD2]]]] by blast
        have "P (mark_victim st w)" by (rule assms(4) [OF p wo w(2)])
        then show ?thesis
          using r s True w(1) ih [of "mark_victim st w" c st'] mark_victim_waiting_ok [OF wo] by (auto split: if_splits)
      qed (use r s p in simp)
    qed
  qed
  then show ?thesis using assms(1-3) by blast
qed

text \<open>
  At the end of the loop the context has a status in its wait slot, or no chain of waits leads from
  it back to itself.
\<close>

lemma find_deadlock_result:
  assumes "find_deadlock st c = Some st'" "waiting_ok st"
  shows "waits st' c \<noteq> EMPTY \<or> (c, c) \<notin> (wait_edges st')\<^sup>+"
proof -
  have "find_deadlock st c = Some st' \<longrightarrow> waiting_ok st \<longrightarrow> waits st' c \<noteq> EMPTY \<or> (c, c) \<notin> (wait_edges st')\<^sup>+"
  proof (rule find_deadlock.raw_induct [of "\<lambda>st c st'. waiting_ok st \<longrightarrow> waits st' c \<noteq> EMPTY \<or> (c, c) \<notin> (wait_edges st')\<^sup>+", THEN impI])
    fix f st c st'
    assume ih: "\<And>st c st'. f st c = Some st' \<Longrightarrow> waiting_ok st \<longrightarrow> waits st' c \<noteq> EMPTY \<or> (c, c) \<notin> (wait_edges st')\<^sup>+"
      and r: "(case visit_subgraph MAX_SEARCH_DEPTH st c (new_visitor c) of
          (found, v) \<Rightarrow> if \<not> found then Some st
            else case m_victim v of None \<Rightarrow> Some st
              | Some victim \<Rightarrow> if victim = c then Some (mark_victim st victim) else f (mark_victim st victim) c) = Some st'"
    show "waiting_ok st \<longrightarrow> waits st' c \<noteq> EMPTY \<or> (c, c) \<notin> (wait_edges st')\<^sup>+"
    proof
      assume wo: "waiting_ok st"
      obtain fd v where s: "visit_subgraph MAX_SEARCH_DEPTH st c (new_visitor c) = (fd, v)" by (rule prod.exhaust)
      show "waits st' c \<noteq> EMPTY \<or> (c, c) \<notin> (wait_edges st')\<^sup>+"
      proof (cases fd)
        case True
        obtain w where w: "m_victim v = Some w" "active st w"
          using first_search_True [OF wo s [unfolded True [THEN eq_True [THEN iffD2]]]] by blast
        show ?thesis
        proof (cases "w = c")
          case True
          then have "waits st' c = VICTIM" using r s \<open>fd\<close> w by (auto simp: set_status_def active_def)
          then show ?thesis by simp
        next
          case False
          then show ?thesis using r s \<open>fd\<close> w(1) ih [of "mark_victim st w" c st'] mark_victim_waiting_ok [OF wo] by simp
        qed
      next
        case False
        then have "(c, m_start_node (new_visitor c)) \<notin> (wait_edges st)\<^sup>+"
          using visit_subgraph_complete [OF wo, of MAX_SEARCH_DEPTH c "new_visitor c" v] s by (simp add: MAX_SEARCH_DEPTH_def)
        then show ?thesis using r s False by simp
      qed
    qed
  qed
  then show ?thesis using assms by blast
qed

end
