(* ===== verification/Mdl_Session.thy ===== *)
theory Mdl_Session
  imports Mdl_System Mdl_Deadlock
begin

text \<open>
  Every operation of \<^verbatim>\<open>MDL_context\<close> keeps the invariant of the whole subsystem: the
  operations one by one, then the step relation of all sessions and what holds in every reachable
  state.
\<close>

subsection \<open>Releasing and giving up\<close>

lemma all_tickets_split: "set (all_tickets lk) = set (holders lk) \<union> set (m_list (m_waiting lk))"
  by (auto simp: lk_sets)

lemma drop_wake:
  assumes "locks_ok tk n locks" "locks k = Some lk"
    and out: "lk_gone lk lk' t \<and> ws' = ws \<or>
      (lock_inv tk (key_strategy k) lk' \<and> lock_key lk' = lock_key lk \<and>
       (\<exists>gs. woken tk ws (set (holders lk) - {t}) wl ws' lk' gs))"
    and "set wl = set (m_list (m_waiting lk)) - {t}"
  defines "locks' \<equiv> locks(k := if m_strategy lk' = None then None else Some lk')"
  shows "locks_ok tk n locks'"
    "\<exists>gs. gs \<subseteq> wait_set locks k - {t} \<and> (\<forall>g\<in>gs. ws (m_ctx (tk g)) = EMPTY) \<and>
       (\<forall>c. ws' c = (if \<exists>g\<in>gs. m_ctx (tk g) = c then GRANTED else ws c)) \<and>
       hold_set locks' = (hold_set locks)(k := hold_set locks k - {t} \<union> gs) \<and>
       wait_set locks' = (wait_set locks)(k := wait_set locks k - {t} - gs)"
proof -
  note d = locks_okD [OF assms(1,2)]
  have hs: "hold_set locks k = set (holders lk)" "wait_set locks k = set (m_list (m_waiting lk))"
    using assms(2) by (auto simp: hold_set_def wait_set_def)
  have bk: "namespace_of k = BACKUP \<Longrightarrow> k = backup_key" using assms(1,2) by (auto simp: locks_ok_def)
  have "locks_ok tk n locks' \<and> (\<exists>gs. gs \<subseteq> wait_set locks k - {t} \<and> (\<forall>g\<in>gs. ws (m_ctx (tk g)) = EMPTY) \<and>
       (\<forall>c. ws' c = (if \<exists>g\<in>gs. m_ctx (tk g) = c then GRANTED else ws c)) \<and>
       hold_set locks' = (hold_set locks)(k := hold_set locks k - {t} \<union> gs) \<and>
       wait_set locks' = (wait_set locks)(k := wait_set locks k - {t} - gs))"
  proof (cases "m_strategy lk' = None")
    case True
    then have g: "lk_gone lk lk' t" "ws' = ws" using out by (auto simp: lock_inv_def lk_core_def)
    have s: "set (holders lk) \<union> set (m_list (m_waiting lk)) = {t}" using g(1) by (auto simp: lk_gone_def lk_sets)
    have "locks_ok tk n (locks(k := None))"
      by (rule locks_ok_upd [OF assms(1)]) (use lk_gone_sets(4) [OF g(1) d(2)] d(1) in auto)
    moreover have "hold_set locks' = (hold_set locks)(k := hold_set locks k - {t} \<union> {})"
      "wait_set locks' = (wait_set locks)(k := wait_set locks k - {t} - {})"
      using s True by (auto simp: hs locks'_def hold_set_upd fun_eq_iff)
    ultimately show ?thesis
      using True g(2) by (intro conjI exI [of _ "{}"]) (simp_all add: locks'_def)
  next
    case False
    then obtain gs where w: "lock_inv tk (key_strategy k) lk'" "lock_key lk' = k"
        "woken tk ws (set (holders lk) - {t}) wl ws' lk' gs"
      using out d(1) by (auto simp: lk_gone_def lk_clean_def)
    have h: "set (holders lk') = set (holders lk) - {t} \<union> set gs"
      "set (m_list (m_waiting lk')) = set (m_list (m_waiting lk)) - {t} - set gs"
      "set gs \<subseteq> set (m_list (m_waiting lk)) - {t}"
      using w(3) assms(4) by (auto simp: woken_def)
    have "u < n" if "u \<in> set (all_tickets lk')" for u
      using that d(3) [of u] h by (auto simp: lk_sets)
    then have "locks_ok tk n (locks(k := Some lk'))"
      using w(1,2) bk by (intro locks_ok_upd [OF assms(1)]) auto
    moreover have "locks' = locks(k \<mapsto> lk')" using False by (auto simp: locks'_def)
    ultimately show ?thesis
      using h w(3) by (intro conjI exI [of _ "set gs"]) (simp_all add: hold_set_upd hs woken_def)
  qed
  then show "locks_ok tk n locks'"
    "\<exists>gs. gs \<subseteq> wait_set locks k - {t} \<and> (\<forall>g\<in>gs. ws (m_ctx (tk g)) = EMPTY) \<and>
       (\<forall>c. ws' c = (if \<exists>g\<in>gs. m_ctx (tk g) = c then GRANTED else ws c)) \<and>
       hold_set locks' = (hold_set locks)(k := hold_set locks k - {t} \<union> gs) \<and>
       wait_set locks' = (wait_set locks)(k := wait_set locks k - {t} - gs)"
    by blast+
qed

lemma fun_upd_same_comp: "(\<lambda>a. f (g a))(c := f (g c)) = (\<lambda>a. f (g a))"
  by auto

lemmas ctx_upd = fun_upd_comp fun_upd_same_comp fun_upd_same

lemma held_not_waiting:
  assumes "links tk ws H W L P" "t \<in> set (L c)"
  shows "t \<notin> W k"
  using linksD(3) [OF assms(1), of t k] linksD(5) [OF assms] by auto

lemma release_lock_inv:
  assumes "mdl_inv st" "t \<in> set (m_tickets (contexts st c) d)"
  shows "mdl_inv (release_lock mx st c d t)"
    "contexts (release_lock mx st c d t) = (contexts st)(c := set_tickets d (remove1 t) (contexts st c))"
    "tickets (release_lock mx st c d t) = tickets st"
    "next_ticket (release_lock mx st c d t) = next_ticket st"
proof -
  let ?k = "m_lock (tickets st t)" and ?tk = "tickets st" and ?x = "set_tickets d (remove1 t) (contexts st c)"
  obtain lk where lk: "mdl_locks st ?k = Some lk" "t \<in> set (holders lk)" "m_ctx (?tk t) = c"
      "lock_inv ?tk (key_strategy ?k) lk" "lock_key lk = ?k"
    by (rule held_ticket [OF assms(1) held_in [OF assms(2)]])
  obtain ws' lk' where r: "lk_release mx ?tk (waits st) lk t = (ws', lk')" by (cases "lk_release mx ?tk (waits st) lk t")
  have i: "locks_ok ?tk (next_ticket st) (mdl_locks st)" using assms(1) by (simp add: mdl_inv_def)
  have l: "links ?tk (waits st) (hold_set (mdl_locks st)) (wait_set (mdl_locks st))
      (\<lambda>c. held (contexts st c)) (\<lambda>c. pending (contexts st c))" using assms(1) by (simp add: mdl_inv_def mdl_links_def)
  have nw: "t \<notin> wait_set (mdl_locks st) ?k" by (rule held_not_waiting [OF l held_in [OF assms(2)]])
  then have "set (m_list (m_waiting lk)) = set (m_list (m_waiting lk)) - {t}" using lk(1) by (simp add: wait_set_def)
  note w = this
  have "key_strategy ?k = key_strategy (lock_key lk)" by (simp add: lk(5))
  from drop_wake [OF i lk(1) lk_release_inv [OF r lk(4,2) this] w]
  obtain gs where q: "locks_ok ?tk (next_ticket st) ((mdl_locks st)(?k := if m_strategy lk' = None then None else Some lk'))"
    "gs \<subseteq> wait_set (mdl_locks st) ?k - {t}" "\<forall>g\<in>gs. waits st (m_ctx (?tk g)) = EMPTY"
    "\<forall>c. ws' c = (if \<exists>g\<in>gs. m_ctx (?tk g) = c then GRANTED else waits st c)"
    "hold_set ((mdl_locks st)(?k := if m_strategy lk' = None then None else Some lk')) =
       (hold_set (mdl_locks st))(?k := hold_set (mdl_locks st) ?k - {t} \<union> gs)"
    "wait_set ((mdl_locks st)(?k := if m_strategy lk' = None then None else Some lk')) =
       (wait_set (mdl_locks st))(?k := wait_set (mdl_locks st) ?k - {t} - gs)"
    by auto
  have r': "release_lock mx st c d t = upd_ctx (store_lock (st\<lparr>waits := ws'\<rparr>) ?k lk') c (set_tickets d (remove1 t))"
    using lk(1) r by (simp add: release_lock_def)
  show "contexts (release_lock mx st c d t) = (contexts st)(c := ?x)" "tickets (release_lock mx st c d t) = tickets st"
    "next_ticket (release_lock mx st c d t) = next_ticket st" by (simp_all add: r')
  note l1 = links_release [OF l held_in [OF assms(2)] refl mset_held_remove [OF assms(2)]]
  have "gs \<subseteq> wait_set (mdl_locks st) ?k" using q(2) by blast
  note l2 = links_wake [OF l1 this q(3,4)]
  have "wait_set (mdl_locks st) ?k - {t} = wait_set (mdl_locks st) ?k" using nw by simp
  then show "mdl_inv (release_lock mx st c d t)"
    using q(1) l2 unfolding mdl_inv_def mdl_links_def r' by (simp add: q(5,6) ctx_upd del: fun_upd_apply)
qed

text \<open>
  The end of \<^verbatim>\<open>acquire_lock()\<close>, unless the lock was granted to a session that gives up
  because its client is gone.
\<close>

lemma acquire_lock_end_inv:
  assumes "mdl_inv st" "acquiring (contexts st c) = Some (req, t)" "s = wait_status (contexts st c)"
    "s = GRANTED \<longleftrightarrow> waits st c = GRANTED" "acquire_lock_end mx st c = (r, st')"
  shows "mdl_inv st'" "tickets st' = tickets st" "next_ticket st' = next_ticket st"
    "acquiring (contexts st' c) = None" "r = (if s = GRANTED then Some t else None)"
    "\<And>d. m_tickets (contexts st' c) d =
       (if s = GRANTED \<and> d = req_duration req then t # m_tickets (contexts st c) d else m_tickets (contexts st c) d)"
    "\<And>c'. c' \<noteq> c \<Longrightarrow> contexts st' c' = contexts st c'"
proof -
  let ?k = "m_lock (tickets st t)" and ?tk = "tickets st"
  have p: "pending (contexts st c) = Some t" using assms(2) by (simp add: pending_def)
  have i: "locks_ok ?tk (next_ticket st) (mdl_locks st)" using assms(1) by (simp add: mdl_inv_def)
  have l: "links ?tk (waits st) (hold_set (mdl_locks st)) (wait_set (mdl_locks st))
      (\<lambda>c. held (contexts st c)) (\<lambda>c. pending (contexts st c))" using assms(1) by (simp add: mdl_inv_def mdl_links_def)
  let ?goal = "mdl_inv st' \<and> tickets st' = tickets st \<and> next_ticket st' = next_ticket st \<and>
    acquiring (contexts st' c) = None \<and> r = (if s = GRANTED then Some t else None) \<and>
    (\<forall>d. m_tickets (contexts st' c) d =
       (if s = GRANTED \<and> d = req_duration req then t # m_tickets (contexts st c) d else m_tickets (contexts st c) d)) \<and>
    (\<forall>c'. c' \<noteq> c \<longrightarrow> contexts st' c' = contexts st c')"
  have ?goal
  proof (cases "s = GRANTED")
    case True
    let ?f = "\<lambda>x. (set_tickets (req_duration req) ((#) t) x)\<lparr>acquiring := None\<rparr>"
    let ?x = "?f ((contexts st c)\<lparr>m_waiting_for := None\<rparr>)"
    have r: "r = Some t" "st' = st\<lparr>waits := (waits st)(c := EMPTY), contexts := (contexts st)(c := ?x)\<rparr>"
      using assms(2,3,5) True by (auto simp: acquire_lock_end_def done_waiting_for_def reset_status_def upd_ctx_def)
    have h: "mset (held ?x) = add_mset t (mset (held (contexts st c)))"
      using mset_held_push [of "req_duration req" t "contexts st c"] by (simp add: held_def set_tickets_def)
    have "waits st c = GRANTED" using True assms(4) by simp
    note l1 = links_finish [OF l p this h]
    have "(\<lambda>a. pending (((contexts st)(c := ?x)) a)) = (\<lambda>a. pending (contexts st a))(c := None)"
      "(\<lambda>a. held (((contexts st)(c := ?x)) a)) = (\<lambda>a. held (contexts st a))(c := held ?x)"
      by (auto simp: pending_def fun_eq_iff)
    then show ?thesis
      using i l1 True unfolding mdl_inv_def mdl_links_def r by (simp add: set_tickets_def)
  next
    case False
    obtain lk where lk: "mdl_locks st ?k = Some lk" "t \<in> set (m_list (m_waiting lk))"
      using linksD(8) [OF l p] False assms(4) by (auto simp: wait_set_def split: option.splits)
    note d = locks_okD [OF i lk(1)]
    obtain ws' lk' where r: "lk_abort_wait mx ?tk (waits st) lk t = (ws', lk')" by (cases "lk_abort_wait mx ?tk (waits st) lk t")
    have nh: "t \<notin> set (holders lk)" using d(2) lk(2) by (auto simp: lock_inv_def lk_sets dest!: lk_coreD(4))
    have ds: "distinct (m_list (m_waiting lk))" using d(2) by (auto simp: lock_inv_def all_tickets_def dest!: lk_coreD(4))
    have wl: "set (remove1 t (m_list (m_waiting lk))) = set (m_list (m_waiting lk)) - {t}" using ds by simp
    have "set (holders lk) - {t} = set (holders lk)" using nh by simp
    moreover have "key_strategy ?k = key_strategy (lock_key lk)" by (simp add: d(1))
    ultimately have out: "lk_gone lk lk' t \<and> ws' = waits st \<or>
      (lock_inv ?tk (key_strategy ?k) lk' \<and> lock_key lk' = lock_key lk \<and>
       (\<exists>gs. woken ?tk (waits st) (set (holders lk) - {t}) (remove1 t (m_list (m_waiting lk))) ws' lk' gs))"
      using lk_abort_wait_inv [OF r d(2) lk(2)] by simp
    let ?locks = "(mdl_locks st)(?k := if m_strategy lk' = None then None else Some lk')"
    from drop_wake [OF i lk(1) out wl]
    obtain gs where q: "locks_ok ?tk (next_ticket st) ?locks"
      "gs \<subseteq> wait_set (mdl_locks st) ?k - {t}" "\<forall>g\<in>gs. waits st (m_ctx (?tk g)) = EMPTY"
      "\<forall>c. ws' c = (if \<exists>g\<in>gs. m_ctx (?tk g) = c then GRANTED else waits st c)"
      "hold_set ?locks = (hold_set (mdl_locks st))(?k := hold_set (mdl_locks st) ?k - {t} \<union> gs)"
      "wait_set ?locks = (wait_set (mdl_locks st))(?k := wait_set (mdl_locks st) ?k - {t} - gs)"
      by auto
    have nh': "hold_set (mdl_locks st) ?k - {t} = hold_set (mdl_locks st) ?k" using nh lk(1) by (simp add: hold_set_def)
    have nc: "waits st c \<noteq> GRANTED" using False assms(4) by simp
    note l1 = links_abort [OF l p nc refl]
    have gc: "\<not> (\<exists>g\<in>gs. m_ctx (?tk g) = c)" using q(2) linksD(3) [OF l, of _ ?k] p by fastforce
    have g1: "gs \<subseteq> ((wait_set (mdl_locks st))(?k := wait_set (mdl_locks st) ?k - {t})) ?k" using q(2) by simp
    have g2: "\<forall>g\<in>gs. ((waits st)(c := EMPTY)) (m_ctx (?tk g)) = EMPTY" using q(3) by simp
    have g3: "\<forall>a. (ws'(c := EMPTY)) a = (if \<exists>g\<in>gs. m_ctx (?tk g) = a then GRANTED else ((waits st)(c := EMPTY)) a)"
      using q(4) gc by auto
    let ?W = "(wait_set (mdl_locks st))(?k := wait_set (mdl_locks st) ?k - {t})"
    have l2: "links ?tk (ws'(c := EMPTY)) ((hold_set (mdl_locks st))(?k := hold_set (mdl_locks st) ?k \<union> gs))
        (?W(?k := ?W ?k - gs)) (\<lambda>a. held (contexts st a)) ((\<lambda>a. pending (contexts st a))(c := None))"
      by (rule links_wake [OF l1 g1 g2 g3])
    let ?x = "(contexts st c)\<lparr>m_waiting_for := None, acquiring := None\<rparr>"
    have r': "r = None" "st' = (done_waiting_for st c)\<lparr>waits := ws'(c := EMPTY), mdl_locks := ?locks, contexts := (contexts st)(c := ?x)\<rparr>"
      using assms(2,3,5) False lk(1) r
      by (auto simp: acquire_lock_end_def done_waiting_for_def reset_status_def store_lock_def upd_ctx_def)
    have "(\<lambda>a. pending (((contexts st)(c := ?x)) a)) = (\<lambda>a. pending (contexts st a))(c := None)"
      "(\<lambda>a. held (((contexts st)(c := ?x)) a)) = (\<lambda>a. held (contexts st a))"
      by (auto simp: pending_def held_def fun_eq_iff)
    then show ?thesis
      using q(1) l2 False unfolding mdl_inv_def mdl_links_def r'
      by (simp add: done_waiting_for_def q(5,6) nh')
  qed
  then show "mdl_inv st'" "tickets st' = tickets st" "next_ticket st' = next_ticket st"
    "acquiring (contexts st' c) = None" "r = (if s = GRANTED then Some t else None)"
    "\<And>d. m_tickets (contexts st' c) d =
       (if s = GRANTED \<and> d = req_duration req then t # m_tickets (contexts st c) d else m_tickets (contexts st c) d)"
    "\<And>c'. c' \<noteq> c \<Longrightarrow> contexts st' c' = contexts st c'" by blast+
qed

subsection \<open>Acquiring\<close>

definition lock_room :: "lock_map \<Rightarrow> string \<Rightarrow> bool" where
  "lock_room locks k \<longleftrightarrow> (case locks k of None \<Rightarrow> True | Some lk \<Rightarrow> length (all_tickets lk) + 1 < 2 ^ 32)"

definition raw_ok :: "MDL_lock option \<Rightarrow> bool" where
  "raw_ok raw \<longleftrightarrow> (case raw of None \<Rightarrow> True | Some r \<Rightarrow> lk_clean r)"

lemma mdl_inv_new_ticket:
  assumes "mdl_inv st" "new_ticket st c req = (t, st1)"
  shows "mdl_inv st1" "t = next_ticket st" "t < next_ticket st1" "\<And>k. t \<notin> tickets_at (mdl_locks st) k"
    "mdl_locks st1 = mdl_locks st" "contexts st1 = contexts st" "waits st1 = waits st"
    "tickets st1 = (tickets st)(t := \<lparr>m_type = req_type req, m_ctx = c, m_lock = [], m_fast_lane = None\<rparr>)"
proof -
  let ?x = "\<lparr>m_type = req_type req, m_ctx = c, m_lock = [], m_fast_lane = None\<rparr>"
  have st1: "t = next_ticket st" "st1 = st\<lparr>tickets := (tickets st)(t := ?x), next_ticket := Suc t\<rparr>"
    using assms(2) by (auto simp: new_ticket_def)
  have i: "locks_ok (tickets st) (next_ticket st) (mdl_locks st)" using assms(1) by (simp add: mdl_inv_def)
  show n: "t \<notin> tickets_at (mdl_locks st) k" for k
    using locks_okD(3) [OF i, of k _ t] st1(1) by (auto simp: tickets_at_def split: option.splits)
  have "lock_inv ((tickets st)(t := ?x)) (key_strategy k) lk" if lk: "mdl_locks st k = Some lk" for k lk
  proof (rule lock_inv_cong)
    show "lock_inv (tickets st) (key_strategy k) lk" by (rule locks_okD(2) [OF i lk])
    show "same_tickets (tickets st) ((tickets st)(t := ?x)) (set (all_tickets lk))"
      using n [of k] lk by (auto simp: same_tickets_def tickets_at_def)
  qed
  then have "locks_ok ((tickets st)(t := ?x)) (Suc t) (mdl_locks st)"
    using i st1(1) by (auto simp: locks_ok_def less_Suc_eq)
  moreover have "links ((tickets st)(t := ?x)) (waits st) (hold_set (mdl_locks st)) (wait_set (mdl_locks st))
      (\<lambda>c. held (contexts st c)) (\<lambda>c. pending (contexts st c))"
  proof (rule links_tk_cong)
    show "links (tickets st) (waits st) (hold_set (mdl_locks st)) (wait_set (mdl_locks st))
      (\<lambda>c. held (contexts st c)) (\<lambda>c. pending (contexts st c))" using assms(1) by (simp add: mdl_inv_def mdl_links_def)
    show "m_lock (((tickets st)(t := ?x)) u) = m_lock (tickets st u) \<and> m_ctx (((tickets st)(t := ?x)) u) = m_ctx (tickets st u)"
      if "\<exists>k. u \<in> hold_set (mdl_locks st) k \<union> wait_set (mdl_locks st) k" for u
      using that n by (auto simp only: hold_wait_tickets_at fun_upd_apply split: if_splits)
  qed
  ultimately show "mdl_inv st1" by (simp add: mdl_inv_def mdl_links_def st1(2))
  show "t = next_ticket st" "t < next_ticket st1" "mdl_locks st1 = mdl_locks st" "contexts st1 = contexts st"
    "waits st1 = waits st" "tickets st1 = (tickets st)(t := ?x)" using st1 by auto
qed

text \<open>The lock found in the map or made for the key.\<close>

lemma map_lock_inv:
  assumes "locks_ok tk n locks" "lock_room locks k" "raw_ok raw" "namespace_of k = BACKUP \<longrightarrow> k = backup_key"
    "(case locks k of Some lk \<Rightarrow> Some lk | None \<Rightarrow> map_option (\<lambda>r. lf_hash_initializer r k) raw) = Some lk"
  shows "lock_inv tk (key_strategy k) lk" "lock_key lk = k"
    "set (all_tickets lk) = tickets_at locks k" "set (holders lk) = hold_set locks k"
    "set (m_list (m_waiting lk)) = wait_set locks k" "length (all_tickets lk) + 1 < 2 ^ 32"
proof -
  have "lock_inv tk (key_strategy k) lk \<and> lock_key lk = k \<and>
    set (all_tickets lk) = tickets_at locks k \<and> set (holders lk) = hold_set locks k \<and>
    set (m_list (m_waiting lk)) = wait_set locks k \<and> length (all_tickets lk) + 1 < 2 ^ 32"
  proof (cases "locks k")
    case None
    then obtain r where r: "raw = Some r" "lk = lf_hash_initializer r k" using assms(5) by auto
    have c: "lk_clean r" using assms(3) r by (auto simp: raw_ok_def)
    have nb: "namespace_of k \<noteq> BACKUP" using None assms(1,4) by (auto simp: locks_ok_def)
    have "all_tickets lk = []" "holders lk = []" "m_waiting lk = Ticket_list_init" "lock_key lk = k"
      using c by (auto simp: r(2) lf_hash_initializer_def lk_clean_def all_tickets_def holders_def fr_iterate_def)
    then show ?thesis
      using lf_hash_initializer_inv [OF c nb] None r(2)
      by (simp add: tickets_at_def hold_set_def wait_set_def)
  next
    case (Some lk0)
    then have "locks k = Some lk" using assms(5) by simp
    then show ?thesis
      using locks_okD(1,2) [OF assms(1), of k lk] assms(2)
      by (simp add: tickets_at_def hold_set_def wait_set_def lock_room_def)
  qed
  then show "lock_inv tk (key_strategy k) lk" "lock_key lk = k"
    "set (all_tickets lk) = tickets_at locks k" "set (holders lk) = hold_set locks k"
    "set (m_list (m_waiting lk)) = wait_set locks k" "length (all_tickets lk) + 1 < 2 ^ 32" by blast+
qed

lemma map_try_acquire_lock_inv:
  assumes "map_try_acquire_lock st k t wait raw = (res, nt, st')" "locks_ok (tickets st) (next_ticket st) (mdl_locks st)"
    "\<And>k. t \<notin> tickets_at (mdl_locks st) k" "t < next_ticket st" "m_type (tickets st t) < type_end (key_strategy k)"
    "m_fast_lane (tickets st t) = None" "lock_room (mdl_locks st) k" "raw_ok raw"
    "namespace_of k = BACKUP \<longrightarrow> k = backup_key"
  shows "locks_ok (tickets st') (next_ticket st) (mdl_locks st')"
    "next_ticket st' = next_ticket st" "contexts st' = contexts st" "waits st' = waits st"
    "\<And>u. m_type (tickets st' u) = m_type (tickets st u) \<and> m_ctx (tickets st' u) = m_ctx (tickets st u)"
    "\<And>u. u \<noteq> t \<Longrightarrow> m_lock (tickets st' u) = m_lock (tickets st u)"
    "res \<noteq> TAL_ERROR \<Longrightarrow> m_lock (tickets st' t) = k"
    "hold_set (mdl_locks st') = (if res = TAL_ACQUIRED
       then (hold_set (mdl_locks st))(k := insert t (hold_set (mdl_locks st) k)) else hold_set (mdl_locks st))"
    "wait_set (mdl_locks st') = (if res = TAL_WAIT
       then (wait_set (mdl_locks st))(k := insert t (wait_set (mdl_locks st) k)) else wait_set (mdl_locks st))"
    "res = TAL_WAIT \<Longrightarrow> wait" "res = TAL_NOWAIT \<Longrightarrow> \<not> wait"
proof -
  let ?tk = "tickets st" and ?locks = "mdl_locks st"
  let ?goal = "locks_ok (tickets st') (next_ticket st) (mdl_locks st') \<and>
    next_ticket st' = next_ticket st \<and> contexts st' = contexts st \<and> waits st' = waits st \<and>
    (\<forall>u. m_type (tickets st' u) = m_type (?tk u) \<and> m_ctx (tickets st' u) = m_ctx (?tk u)) \<and>
    (\<forall>u. u \<noteq> t \<longrightarrow> m_lock (tickets st' u) = m_lock (?tk u)) \<and>
    (res \<noteq> TAL_ERROR \<longrightarrow> m_lock (tickets st' t) = k) \<and>
    hold_set (mdl_locks st') = (if res = TAL_ACQUIRED then (hold_set ?locks)(k := insert t (hold_set ?locks k)) else hold_set ?locks) \<and>
    wait_set (mdl_locks st') = (if res = TAL_WAIT then (wait_set ?locks)(k := insert t (wait_set ?locks k)) else wait_set ?locks) \<and>
    (res = TAL_WAIT \<longrightarrow> wait) \<and> (res = TAL_NOWAIT \<longrightarrow> \<not> wait)"
  have ?goal
  proof (cases "case ?locks k of Some lk \<Rightarrow> Some lk | None \<Rightarrow> map_option (\<lambda>r. lf_hash_initializer r k) raw")
    case None
    then have "res = TAL_ERROR" "st' = st" using assms(1) by (auto simp: map_try_acquire_lock_def)
    then show ?thesis using assms(2) by simp
  next
    case (Some lk)
    note lk = map_lock_inv [OF assms(2,7,8,9) Some]
    obtain tk' lk' where r: "lk_try_acquire_lock (thread_ids st) ?tk lk t wait = (res, nt, tk', lk')"
      and st': "st' = store_lock (st\<lparr>tickets := tk'\<rparr>) k lk'"
      using assms(1) unfolding map_try_acquire_lock_def Some
      by (cases "lk_try_acquire_lock (thread_ids st) ?tk lk t wait") auto
    have "fresh_ticket ?tk (key_strategy k) lk t" using assms(3,5,6) lk(3,6) by (simp add: fresh_ticket_def)
    note q = lk_try_acquire_lock_inv [OF r lk(1) this]
    have strat: "m_strategy lk' = Some (key_strategy k)" using q(1) by (auto simp: lock_inv_def dest: lk_coreD(1))
    have h: "set (holders lk') = (if res = TAL_ACQUIRED then insert t (hold_set ?locks k) else hold_set ?locks k)"
      "set (m_list (m_waiting lk')) = (if res = TAL_WAIT then insert t (wait_set ?locks k) else wait_set ?locks k)"
      using q(2,5-7) lk(4,5) by (cases res; simp)+
    have "u < next_ticket st" if "u \<in> set (all_tickets lk')" for u
      using that assms(4) tickets_at_lt [OF assms(2), of u k] hold_wait_tickets_at [of ?locks k]
      by (auto simp: all_tickets_split h split: if_splits)
    then have "locks_ok tk' (next_ticket st) (?locks(k := Some lk'))"
      using q(1,3,9) lk(2,3) assms(3,9)
      by (intro locks_ok_upd [OF assms(2)]) auto
    moreover have "mdl_locks st' = ?locks(k := Some lk')" "tickets st' = tk'" "next_ticket st' = next_ticket st"
      "contexts st' = contexts st" "waits st' = waits st" using strat by (simp_all add: st')
    moreover have "hold_set (?locks(k := Some lk')) = (if res = TAL_ACQUIRED then (hold_set ?locks)(k := insert t (hold_set ?locks k)) else hold_set ?locks)"
      "wait_set (?locks(k := Some lk')) = (if res = TAL_WAIT then (wait_set ?locks)(k := insert t (wait_set ?locks k)) else wait_set ?locks)"
      by (simp_all add: hold_set_upd h)
    ultimately show ?thesis using q(2,4,6-8) lk(2) by simp
  qed
  then show "locks_ok (tickets st') (next_ticket st) (mdl_locks st')"
    "next_ticket st' = next_ticket st" "contexts st' = contexts st" "waits st' = waits st"
    "\<And>u. m_type (tickets st' u) = m_type (tickets st u) \<and> m_ctx (tickets st' u) = m_ctx (tickets st u)"
    "\<And>u. u \<noteq> t \<Longrightarrow> m_lock (tickets st' u) = m_lock (tickets st u)"
    "res \<noteq> TAL_ERROR \<Longrightarrow> m_lock (tickets st' t) = k"
    "hold_set (mdl_locks st') = (if res = TAL_ACQUIRED
       then (hold_set (mdl_locks st))(k := insert t (hold_set (mdl_locks st) k)) else hold_set (mdl_locks st))"
    "wait_set (mdl_locks st') = (if res = TAL_WAIT
       then (wait_set (mdl_locks st))(k := insert t (wait_set (mdl_locks st) k)) else wait_set (mdl_locks st))"
    "res = TAL_WAIT \<Longrightarrow> wait" "res = TAL_NOWAIT \<Longrightarrow> \<not> wait"
    by blast+
qed

text \<open>Cloning a ticket the context holds.\<close>

lemma clone_ticket_inv:
  assumes "mdl_inv st" "clone_ticket st c req orig True = Some (t, st')" "orig \<in> set (held (contexts st c))"
    "req_type req < type_end (key_strategy (m_lock (tickets st orig)))" "lock_room (mdl_locks st) (m_lock (tickets st orig))"
    "has_stronger_or_equal_type (key_strategy (m_lock (tickets st orig))) (m_type (tickets st orig)) (req_type req)"
    "weaker_ok (key_strategy (m_lock (tickets st orig))) (m_type (tickets st orig)) (req_type req)"
  shows "mdl_inv st'" "t = next_ticket st" "m_lock (tickets st' t) = m_lock (tickets st orig)"
    "m_type (tickets st' t) = req_type req" "next_ticket st' = Suc (next_ticket st)" "waits st' = waits st"
    "contexts st' = (contexts st)(c := set_tickets (req_duration req) ((#) t) (contexts st c))"
    "\<And>u. u \<noteq> t \<Longrightarrow> m_type (tickets st' u) = m_type (tickets st u) \<and> m_ctx (tickets st' u) = m_ctx (tickets st u) \<and> m_lock (tickets st' u) = m_lock (tickets st u)"
    "hold_set (mdl_locks st') = (hold_set (mdl_locks st))(m_lock (tickets st orig) := insert t (hold_set (mdl_locks st) (m_lock (tickets st orig))))"
    "wait_set (mdl_locks st') = wait_set (mdl_locks st)"
proof -
  let ?k = "m_lock (tickets st orig)"
  obtain lk where lk: "mdl_locks st ?k = Some lk" "orig \<in> set (holders lk)" "m_ctx (tickets st orig) = c"
      "lock_inv (tickets st) (key_strategy ?k) lk" "lock_key lk = ?k"
    by (rule held_ticket [OF assms(1,3)])
  obtain t1 st1 where nt: "new_ticket st c req = (t1, st1)" by (cases "new_ticket st c req")
  let ?tk1 = "(tickets st1)(t := (tickets st1 t)\<lparr>m_lock := ?k\<rparr>)"
  obtain tk2 lk' where ac': "lk_add_cloned_ticket ((tickets st1)(t1 := (tickets st1 t1)\<lparr>m_lock := ?k\<rparr>)) lk t1 = (tk2, lk')"
    by (rule prod.exhaust)
  have "t1 = t \<and> st' = upd_ctx (store_lock (st1\<lparr>tickets := tk2\<rparr>) ?k lk') c (set_tickets (req_duration req) ((#) t1))"
    using assms(2) by (auto simp: clone_ticket_def lk(1) nt ac' Let_def)
  then have ac: "t1 = t" "lk_add_cloned_ticket ?tk1 lk t = (tk2, lk')"
    and st': "st' = upd_ctx (store_lock (st1\<lparr>tickets := tk2\<rparr>) ?k lk') c (set_tickets (req_duration req) ((#) t))"
    using ac' by auto
  note n = mdl_inv_new_ticket [OF assms(1) nt [unfolded ac(1)]]
  have i1: "locks_ok (tickets st1) (next_ticket st1) (mdl_locks st)" using n(1,5) by (simp add: mdl_inv_def)
  have at: "set (all_tickets lk) = tickets_at (mdl_locks st) ?k" using lk(1) by (simp add: tickets_at_def)
  have ne: "orig \<noteq> t" using lk(2) n(4) [of ?k] at by (auto simp: all_tickets_split)
  have "lock_inv (tickets st1) (key_strategy ?k) lk" by (rule locks_okD(2) [OF i1 lk(1)])
  moreover have "same_tickets (tickets st1) ?tk1 (set (all_tickets lk))"
    using n(4) [of ?k] at by (simp add: same_tickets_def)
  ultimately have inv: "lock_inv ?tk1 (key_strategy ?k) lk" by (rule lock_inv_cong [rotated])
  have fresh: "fresh_ticket ?tk1 (key_strategy ?k) lk t"
    using assms(4,5) lk(1) n(4) [of ?k] at by (simp add: fresh_ticket_def n(8) lock_room_def)
  have "?tk1 orig = tickets st orig" using ne by (simp add: n(8))
  then have o: "m_lock (?tk1 t) = lock_key lk" "m_ctx (?tk1 orig) = m_ctx (?tk1 t)"
    "has_stronger_or_equal_type (key_strategy ?k) (m_type (?tk1 orig)) (m_type (?tk1 t))"
    "weaker_ok (key_strategy ?k) (m_type (?tk1 orig)) (m_type (?tk1 t))"
    using assms(6,7) lk(3,5) by (simp_all add: n(8))
  note q = lk_add_cloned_ticket_inv [OF ac(2) inv fresh o(1) lk(2) o(2-4)]
  have strat: "m_strategy lk' = Some (key_strategy ?k)" using q(1) by (auto simp: lock_inv_def dest: lk_coreD(1))
  have h: "set (holders lk') = insert t (hold_set (mdl_locks st) ?k)" "set (m_list (m_waiting lk')) = wait_set (mdl_locks st) ?k"
    using q(3,4) lk(1) by (auto simp: hold_set_def wait_set_def)
  have "u < next_ticket st1" if "u \<in> set (all_tickets lk')" for u
    using that n(3) tickets_at_lt [OF i1, of u ?k] hold_wait_tickets_at [of "mdl_locks st" ?k]
    by (auto simp: all_tickets_split h)
  moreover have "tk2 u = tickets st1 u" if "u \<in> tickets_at (mdl_locks st) k'" "u \<notin> tickets_at (mdl_locks st) ?k" for u k'
    using q(6) [of u] that n(4) [of k'] at by auto
  ultimately have i2: "locks_ok tk2 (next_ticket st1) ((mdl_locks st)(?k := Some lk'))"
    using q(1,2) lk i1 by (intro locks_ok_upd [OF i1]) (auto simp: locks_ok_def)
  have f: "m_type (tk2 u) = m_type (?tk1 u)" "m_ctx (tk2 u) = m_ctx (?tk1 u)" "m_lock (tk2 u) = m_lock (?tk1 u)" for u
    using q(5) [of u] by auto
  have sets: "hold_set ((mdl_locks st)(?k := Some lk')) = (hold_set (mdl_locks st))(?k := insert t (hold_set (mdl_locks st) ?k))"
    "wait_set ((mdl_locks st)(?k := Some lk')) = wait_set (mdl_locks st)" by (simp_all add: hold_set_upd h)
  have nin: "t \<notin> hold_set (mdl_locks st) k' \<and> t \<notin> wait_set (mdl_locks st) k'" for k'
    using n(4) [of k'] hold_wait_tickets_at [of "mdl_locks st" k'] by blast
  have "links tk2 (waits st) (hold_set (mdl_locks st)) (wait_set (mdl_locks st))
      (\<lambda>c. held (contexts st c)) (\<lambda>c. pending (contexts st c))"
  proof (rule links_tk_cong)
    show "links (tickets st) (waits st) (hold_set (mdl_locks st)) (wait_set (mdl_locks st))
      (\<lambda>c. held (contexts st c)) (\<lambda>c. pending (contexts st c))" using assms(1) by (simp add: mdl_inv_def mdl_links_def)
    show "m_lock (tk2 u) = m_lock (tickets st u) \<and> m_ctx (tk2 u) = m_ctx (tickets st u)"
      if "\<exists>k. u \<in> hold_set (mdl_locks st) k \<union> wait_set (mdl_locks st) k" for u
      using that nin by (auto simp: f n(8))
  qed
  from links_acquire [OF this nin _ _ mset_held_push, of ?k c "req_duration req"]
  have "links tk2 (waits st) ((hold_set (mdl_locks st))(?k := insert t (hold_set (mdl_locks st) ?k))) (wait_set (mdl_locks st))
      ((\<lambda>c. held (contexts st c))(c := held (set_tickets (req_duration req) ((#) t) (contexts st c)))) (\<lambda>c. pending (contexts st c))"
    by (simp add: f n(8))
  then show "mdl_inv st'"
    using i2 strat unfolding mdl_inv_def mdl_links_def st'
    by (simp add: n(5-7) sets ctx_upd del: fun_upd_apply)
  show "t = next_ticket st" by (rule n(2))
  show "m_lock (tickets st' t) = m_lock (tickets st orig)" "m_type (tickets st' t) = req_type req"
    "next_ticket st' = Suc (next_ticket st)" "waits st' = waits st"
    "contexts st' = (contexts st)(c := set_tickets (req_duration req) ((#) t) (contexts st c))"
    "hold_set (mdl_locks st') = (hold_set (mdl_locks st))(m_lock (tickets st orig) := insert t (hold_set (mdl_locks st) (m_lock (tickets st orig))))"
    "wait_set (mdl_locks st') = wait_set (mdl_locks st)"
    using nt ac(1) strat by (auto simp: st' f n(5-8) sets new_ticket_def)
  show "\<And>u. u \<noteq> t \<Longrightarrow> m_type (tickets st' u) = m_type (tickets st u) \<and> m_ctx (tickets st' u) = m_ctx (tickets st u) \<and> m_lock (tickets st' u) = m_lock (tickets st u)"
    by (simp add: st' f n(8))
qed

text \<open>A request a session may make.\<close>

definition request_ok :: "mdl_state \<Rightarrow> context_id \<Rightarrow> MDL_request \<Rightarrow> bool" where
  "request_ok st c req \<longleftrightarrow>
     req_type req < type_end (key_strategy (req_key req)) \<and>
     (namespace_of (req_key req) = BACKUP \<longrightarrow> req_key req = backup_key) \<and>
     lock_room (mdl_locks st) (req_key req) \<and>
     (\<forall>t\<in>set (held (contexts st c)). m_lock (tickets st t) = req_key req \<longrightarrow>
        weaker_ok (key_strategy (req_key req)) (m_type (tickets st t)) (req_type req))"

lemma find_SomeD: "List.find P xs = Some x \<Longrightarrow> x \<in> set xs \<and> P x"
  by (induction xs) (auto split: if_splits)

lemma find_ticket_Some:
  assumes "find_ticket st c req = Some (t, d)"
  shows "t \<in> set (m_tickets (contexts st c) d)" "m_lock (tickets st t) = req_key req"
    "ticket_has_stronger_or_equal_type st t (req_type req)"
  using find_SomeD [OF assms [unfolded find_ticket_def]] by auto

lemma ticket_strategy_held:
  assumes "mdl_inv st" "t \<in> set (held (contexts st c))"
  shows "ticket_strategy st t = key_strategy (m_lock (tickets st t))"
proof -
  obtain lk where "mdl_locks st (m_lock (tickets st t)) = Some lk" using held_ticket [OF assms] by blast
  then show ?thesis
    using locks_okD(5) assms(1) by (fastforce simp: ticket_strategy_def mdl_inv_def)
qed

definition acquired :: "mdl_state \<Rightarrow> context_id \<Rightarrow> MDL_request \<Rightarrow> ticket \<Rightarrow> bool" where
  "acquired st c req t \<longleftrightarrow>
     t \<in> set (m_tickets (contexts st c) (req_duration req)) \<and> m_lock (tickets st t) = req_key req \<and>
     has_stronger_or_equal_type (key_strategy (req_key req)) (m_type (tickets st t)) (req_type req)"

lemma has_stronger_refl: "has_stronger_or_equal_type s ty ty"
  by (simp add: has_stronger_or_equal_type_iff)

lemma try_acquire_lock_impl_inv:
  assumes "mdl_inv st" "request_ok st c req" "raw_ok raw" "acquiring (contexts st c) = None"
    "try_acquire_lock_impl st c req wait alloc_ok raw = (r, st')"
  shows "\<And>t. r = Acq_ticket t \<Longrightarrow> acquired st' c req t"
    "case r of Acq_wait t \<Rightarrow> wait \<and> mdl_inv (upd_ctx st' c (\<lambda>x. x\<lparr>acquiring := Some (req, t)\<rparr>)) | _ \<Rightarrow> mdl_inv st'"
    "\<And>c'. acquiring (contexts st' c') = acquiring (contexts st c')"
    "\<And>u. u < next_ticket st \<Longrightarrow> m_type (tickets st' u) = m_type (tickets st u) \<and>
       m_ctx (tickets st' u) = m_ctx (tickets st u) \<and> m_lock (tickets st' u) = m_lock (tickets st u)"
    "\<And>c' d. m_tickets (contexts st' c') d = m_tickets (contexts st c') d \<or>
       c' = c \<and> d = req_duration req \<and> m_tickets (contexts st' c') d = next_ticket st # m_tickets (contexts st c') d"
proof -
  let ?goal = "(\<forall>t. r = Acq_ticket t \<longrightarrow> acquired st' c req t) \<and>
    (case r of Acq_wait t \<Rightarrow> wait \<and> mdl_inv (upd_ctx st' c (\<lambda>x. x\<lparr>acquiring := Some (req, t)\<rparr>)) | _ \<Rightarrow> mdl_inv st') \<and>
    (\<forall>c'. acquiring (contexts st' c') = acquiring (contexts st c')) \<and>
    (\<forall>u. u < next_ticket st \<longrightarrow> m_type (tickets st' u) = m_type (tickets st u) \<and>
       m_ctx (tickets st' u) = m_ctx (tickets st u) \<and> m_lock (tickets st' u) = m_lock (tickets st u)) \<and>
    (\<forall>c' d. m_tickets (contexts st' c') d = m_tickets (contexts st c') d \<or>
       c' = c \<and> d = req_duration req \<and> m_tickets (contexts st' c') d = next_ticket st # m_tickets (contexts st c') d)"
  have ok: "req_type req < type_end (key_strategy (req_key req))" "lock_room (mdl_locks st) (req_key req)"
    "namespace_of (req_key req) = BACKUP \<longrightarrow> req_key req = backup_key"
    using assms(2) by (auto simp: request_ok_def)
  have ?goal
  proof (cases "find_ticket st c req")
    case (Some td)
    obtain t d where td: "td = (t, d)" by (rule prod.exhaust)
    note f = find_ticket_Some [OF Some [unfolded td]]
    have h: "t \<in> set (held (contexts st c))" by (rule held_in [OF f(1)])
    have st: "has_stronger_or_equal_type (key_strategy (req_key req)) (m_type (tickets st t)) (req_type req)"
      using f(3) ticket_strategy_held [OF assms(1) h] f(2) by (simp add: ticket_has_stronger_or_equal_type_def)
    have w: "weaker_ok (key_strategy (req_key req)) (m_type (tickets st t)) (req_type req)"
      using assms(2) h f(2) by (auto simp: request_ok_def)
    show ?thesis
    proof (cases "d \<noteq> req_duration req \<or> req_duration req = MDL_EXPLICIT")
      case True
      show ?thesis
      proof (cases "clone_ticket st c req t alloc_ok")
        case None
        then show ?thesis using Some td True assms(1,5) by (simp add: try_acquire_lock_impl_def)
      next
        case (Some ts)
        obtain t' s' where ts: "ts = (t', s')" by (rule prod.exhaust)
        have a: "alloc_ok" using Some by (cases alloc_ok) (simp_all add: clone_ticket_def)
        have r: "r = Acq_ticket t'" "st' = s'"
          using \<open>find_ticket st c req = Some td\<close> td True Some ts assms(5) by (auto simp: try_acquire_lock_impl_def)
        have c: "clone_ticket st c req t True = Some (t', s')" using Some ts a by simp
        note q = clone_ticket_inv [OF assms(1) c h, unfolded f(2), OF ok(1,2) st w]
        show ?thesis
          using q(1-5,8) by (auto simp: r q(7) acquired_def set_tickets_def has_stronger_refl)
      qed
    next
      case False
      then have "r = Acq_ticket t" "st' = st" "d = req_duration req"
        using Some td assms(5) by (auto simp: try_acquire_lock_impl_def)
      then show ?thesis using f st assms(1) by (simp add: acquired_def)
    qed
  next
    case None
    show ?thesis
    proof (cases alloc_ok)
      case False
      then show ?thesis using None assms(1,5) by (simp add: try_acquire_lock_impl_def)
    next
      case True
      obtain t st1 where nt: "new_ticket st c req = (t, st1)" by (rule prod.exhaust)
      obtain res nts st2 where mt: "map_try_acquire_lock st1 (req_key req) t wait raw = (res, nts, st2)" by (rule prod_cases3)
      let ?k = "req_key req"
      note n = mdl_inv_new_ticket [OF assms(1) nt]
      have i: "locks_ok (tickets st1) (next_ticket st1) (mdl_locks st1)" using n(1) by (simp add: mdl_inv_def)
      have nat: "t \<notin> tickets_at (mdl_locks st1) k" for k using n(4) by (simp add: n(5))
      have ty: "m_type (tickets st1 t) < type_end (key_strategy ?k)" "m_fast_lane (tickets st1 t) = None"
        "lock_room (mdl_locks st1) ?k" using ok by (simp_all add: n(5,8))
      note q = map_try_acquire_lock_inv [OF mt i nat n(3) ty assms(3) ok(3), unfolded n(5-7)]
      have r: "(r, st') = (case res of TAL_ACQUIRED \<Rightarrow> (Acq_ticket t, upd_ctx st2 c (set_tickets (req_duration req) ((#) t)))
          | TAL_WAIT \<Rightarrow> (Acq_wait t, st2) | TAL_NOWAIT \<Rightarrow> (Acq_conflict, st2) | TAL_ERROR \<Rightarrow> (Acq_error, st2))"
        using None True nt mt assms(5) by (simp add: try_acquire_lock_impl_def split: tal_status.splits)
      have nin: "t \<notin> hold_set (mdl_locks st) k' \<and> t \<notin> wait_set (mdl_locks st) k'" for k'
        using n(4) [of k'] hold_wait_tickets_at [of "mdl_locks st" k'] by blast
      have old: "m_type (tickets st2 u) = m_type (tickets st u) \<and> m_ctx (tickets st2 u) = m_ctx (tickets st u) \<and>
          m_lock (tickets st2 u) = m_lock (tickets st u)" if "u \<noteq> t" for u
        using q(5) [of u] q(6) [OF that] that by (simp add: n(8))
      have new: "m_ctx (tickets st2 t) = c" "m_type (tickets st2 t) = req_type req" using q(5) [of t] by (simp_all add: n(8))
      have l: "links (tickets st2) (waits st) (hold_set (mdl_locks st)) (wait_set (mdl_locks st))
          (\<lambda>c. held (contexts st c)) (\<lambda>c. pending (contexts st c))"
      proof (rule links_tk_cong)
        show "links (tickets st) (waits st) (hold_set (mdl_locks st)) (wait_set (mdl_locks st))
          (\<lambda>c. held (contexts st c)) (\<lambda>c. pending (contexts st c))" using assms(1) by (simp add: mdl_inv_def mdl_links_def)
        show "m_lock (tickets st2 u) = m_lock (tickets st u) \<and> m_ctx (tickets st2 u) = m_ctx (tickets st u)"
          if "\<exists>k. u \<in> hold_set (mdl_locks st) k \<union> wait_set (mdl_locks st) k" for u
          using that nin old [of u] by auto
      qed
      have fr: "\<forall>u. u < next_ticket st \<longrightarrow> m_type (tickets st2 u) = m_type (tickets st u) \<and>
         m_ctx (tickets st2 u) = m_ctx (tickets st u) \<and> m_lock (tickets st2 u) = m_lock (tickets st u)"
        using old n(2) by auto
      show ?thesis
      proof (cases res)
        case TAL_ERROR
        then show ?thesis using r q(1-4) l fr by (auto simp: mdl_inv_def mdl_links_def q(8,9))
      next
        case TAL_ACQUIRED
        have m: "m_lock (tickets st2 t) = ?k" by (rule q(7)) (simp add: TAL_ACQUIRED)
        have "links (tickets st2) (waits st) ((hold_set (mdl_locks st))(?k := insert t (hold_set (mdl_locks st) ?k))) (wait_set (mdl_locks st))
            ((\<lambda>c. held (contexts st c))(c := held (set_tickets (req_duration req) ((#) t) (contexts st c)))) (\<lambda>c. pending (contexts st c))"
          by (rule links_acquire [OF l nin m new(1) mset_held_push])
        then have "mdl_inv st'"
          using r q(1-4) TAL_ACQUIRED unfolding mdl_inv_def mdl_links_def
          by (simp add: q(8,9) ctx_upd del: fun_upd_apply)
        then show ?thesis
          using r TAL_ACQUIRED fr m new(2) n(2) q(3)
          by (auto simp: acquired_def set_tickets_def has_stronger_refl)
      next
        case TAL_WAIT
        have m: "m_lock (tickets st2 t) = ?k" by (rule q(7)) (simp add: TAL_WAIT)
        have "pending (contexts st c) = None" using assms(4) by (simp add: pending_def)
        from links_wait [OF l nin m new(1) this]
        have l2: "links (tickets st2) (waits st) (hold_set (mdl_locks st)) ((wait_set (mdl_locks st))(?k := insert t (wait_set (mdl_locks st) ?k)))
            (\<lambda>c. held (contexts st c)) ((\<lambda>c. pending (contexts st c))(c := Some t))" .
        let ?x = "(contexts st c)\<lparr>acquiring := Some (req, t)\<rparr>"
        have "(\<lambda>a. pending (((contexts st)(c := ?x)) a)) = (\<lambda>a. pending (contexts st a))(c := Some t)"
          "(\<lambda>a. held (((contexts st)(c := ?x)) a)) = (\<lambda>a. held (contexts st a))"
          by (auto simp: pending_def held_def fun_eq_iff)
        then have "mdl_inv (upd_ctx st2 c (\<lambda>x. x\<lparr>acquiring := Some (req, t)\<rparr>))"
          using q(1-4) TAL_WAIT l2 unfolding mdl_inv_def mdl_links_def by (simp add: q(8,9))
        then show ?thesis using r TAL_WAIT fr q(3,10) by auto
      next
        case TAL_NOWAIT
        then show ?thesis using r q(1-4) l fr by (auto simp: mdl_inv_def mdl_links_def q(8,9))
      qed
    qed
  qed
  then show "\<And>t. r = Acq_ticket t \<Longrightarrow> acquired st' c req t"
    "case r of Acq_wait t \<Rightarrow> wait \<and> mdl_inv (upd_ctx st' c (\<lambda>x. x\<lparr>acquiring := Some (req, t)\<rparr>)) | _ \<Rightarrow> mdl_inv st'"
    "\<And>c'. acquiring (contexts st' c') = acquiring (contexts st c')"
    "\<And>u. u < next_ticket st \<Longrightarrow> m_type (tickets st' u) = m_type (tickets st u) \<and>
       m_ctx (tickets st' u) = m_ctx (tickets st u) \<and> m_lock (tickets st' u) = m_lock (tickets st u)"
    "\<And>c' d. m_tickets (contexts st' c') d = m_tickets (contexts st c') d \<or>
       c' = c \<and> d = req_duration req \<and> m_tickets (contexts st' c') d = next_ticket st # m_tickets (contexts st c') d"
    by blast+
qed

lemma mdl_inv_ctx_cong:
  assumes "mdl_inv st" "\<And>a. mset (held (f a)) = mset (held (contexts st a)) \<and> pending (f a) = pending (contexts st a)"
  shows "mdl_inv (st\<lparr>contexts := f\<rparr>)"
proof -
  have "(\<lambda>a. pending (f a)) = (\<lambda>a. pending (contexts st a))" using assms(2) by simp
  moreover have "links (tickets st) (waits st) (hold_set (mdl_locks st)) (wait_set (mdl_locks st))
      (\<lambda>c. held (f c)) (\<lambda>c. pending (contexts st c))"
    by (rule links_lists [where L = "\<lambda>c. held (contexts st c)"])
      (use assms in \<open>auto simp: mdl_inv_def mdl_links_def\<close>)
  ultimately show ?thesis using assms(1) by (simp add: mdl_inv_def mdl_links_def)
qed

lemma mdl_inv_upd_ctx:
  assumes "mdl_inv st" "mset (held (f (contexts st c))) = mset (held (contexts st c))" "pending (f (contexts st c)) = pending (contexts st c)"
  shows "mdl_inv (upd_ctx st c f)"
  unfolding upd_ctx_def using assms by (intro mdl_inv_ctx_cong) auto

lemma will_wait_for_inv: "mdl_inv st \<Longrightarrow> mdl_inv (will_wait_for st c t)"
  unfolding will_wait_for_def by (rule mdl_inv_upd_ctx) (auto simp: held_def pending_def)

lemma acquire_lock_begin_inv:
  assumes "mdl_inv st" "request_ok st c req" "raw_ok raw" "acquiring (contexts st c) = None"
    "acquire_lock_begin st c req wait alloc_ok raw = (r, st')"
  shows "mdl_inv st'" "\<And>t. r = Acq_ticket t \<Longrightarrow> acquired st' c req t"
    "\<And>t. r = Acq_wait t \<Longrightarrow> wait \<and> acquiring (contexts st' c) = Some (req, t) \<and> m_waiting_for (contexts st' c) = Some t"
    "\<And>c'. c' \<noteq> c \<Longrightarrow> m_tickets (contexts st' c') = m_tickets (contexts st c')"
proof -
  obtain r1 st1 where i: "try_acquire_lock_impl st c req wait alloc_ok raw = (r1, st1)" by (rule prod.exhaust)
  note q = try_acquire_lock_impl_inv [OF assms(1-4) i]
  have r: "r = r1" "st' = (case r1 of Acq_wait t \<Rightarrow> will_wait_for (upd_ctx (upd_ctx st1 c (\<lambda>x. x\<lparr>acquiring := Some (req, t)\<rparr>)) c
      (\<lambda>x. x\<lparr>wait_status := EMPTY\<rparr>)) c t | _ \<Rightarrow> st1)"
    using assms(5) i by (cases r1; auto simp: acquire_lock_begin_def upd_ctx_def)+
  show "mdl_inv st'" using q(2) r by (cases r1) (auto intro!: will_wait_for_inv mdl_inv_upd_ctx simp: held_def pending_def)
  show "\<And>t. r = Acq_ticket t \<Longrightarrow> acquired st' c req t" using q(1) r by simp
  show "\<And>t. r = Acq_wait t \<Longrightarrow> wait \<and> acquiring (contexts st' c) = Some (req, t) \<and> m_waiting_for (contexts st' c) = Some t"
    using q(2) r by (auto simp: will_wait_for_def)
  show "m_tickets (contexts st' c') = m_tickets (contexts st c')" if "c' \<noteq> c" for c'
    using q(5) [of c'] that r by (cases r1) (auto simp: fun_eq_iff will_wait_for_def)
qed

text \<open>Another session, a timeout or a kill sets the slot of a session that waits.\<close>

lemma set_status_inv:
  assumes "mdl_inv st" "acquiring (contexts st c) \<noteq> None" "s \<noteq> GRANTED"
  shows "mdl_inv (st\<lparr>waits := snd (set_status (waits st) c s)\<rparr>)"
proof (cases "waits st c = EMPTY")
  case True
  have "pending (contexts st c) \<noteq> None" using assms(2) by (simp add: pending_def)
  from links_status [where P = "\<lambda>c. pending (contexts st c)" and ws = "waits st" and c = c, OF _ True this assms(3)] show ?thesis
    using assms(1) True by (simp add: mdl_inv_def mdl_links_def set_status_def)
next
  case False
  then have "st\<lparr>waits := snd (set_status (waits st) c s)\<rparr> = st" by (simp add: set_status_def)
  then show ?thesis using assms(1) by simp
qed

lemma acquire_wait_inv:
  assumes "mdl_inv st" "acquiring (contexts st c) \<noteq> None" "st' = acquire_wait st c killed last_wait connected"
  shows "mdl_inv st'" "wait_status (contexts st' c) = GRANTED \<Longrightarrow> waits st' c = GRANTED"
    "contexts st' = (contexts st)(c := (contexts st c)\<lparr>wait_status := wait_status (contexts st' c)\<rparr>)"
    "waits st a = GRANTED \<Longrightarrow> waits st' a = GRANTED"
proof -
  have w: "waits st' = (if waits st c \<noteq> EMPTY \<or> \<not> killed \<and> \<not> last_wait then waits st
       else snd (set_status (waits st) c (if killed then KILLED else TIMEOUT)))"
    "st' = upd_ctx (st\<lparr>waits := waits st'\<rparr>) c (\<lambda>x. x\<lparr>wait_status := wait_status (contexts st' c)\<rparr>)"
    by (auto simp: assms(3) acquire_wait_def timed_wait_end_def set_status_def upd_ctx_def Let_def split: if_splits)
  show "wait_status (contexts st' c) = GRANTED \<Longrightarrow> waits st' c = GRANTED"
    by (auto simp: assms(3) acquire_wait_def timed_wait_end_def Let_def split: if_splits)
  show "contexts st' = (contexts st)(c := (contexts st c)\<lparr>wait_status := wait_status (contexts st' c)\<rparr>)"
    by (subst w(2)) (simp add: upd_ctx_def)
  show "waits st a = GRANTED \<Longrightarrow> waits st' a = GRANTED" unfolding w(1) by (auto simp: set_status_def)
  have "mdl_inv (st\<lparr>waits := waits st'\<rparr>)"
    unfolding w(1) using assms(1,2) by (auto intro: set_status_inv)
  then show "mdl_inv st'" by (subst w(2)) (rule mdl_inv_upd_ctx, simp_all add: held_def pending_def)
qed

subsection \<open>Durations\<close>

lemma set_lock_duration_inv:
  assumes "mdl_inv st" "t \<in> set (m_tickets (contexts st c) MDL_TRANSACTION)"
  shows "mdl_inv (set_lock_duration st c t d)"
  unfolding set_lock_duration_def
proof (rule mdl_inv_upd_ctx [OF assms(1)])
  show "mset (held (set_tickets d ((#) t) (set_tickets MDL_TRANSACTION (remove1 t) (contexts st c)))) = mset (held (contexts st c))"
    using held_in [OF assms(2)] by (simp add: mset_held_push mset_held_remove [OF assms(2)])
qed simp

lemma move_tickets_fold:
  assumes "from \<noteq> to"
  shows "m_tickets x from = ts @ ys \<Longrightarrow>
    m_tickets (fold (\<lambda>t y. set_tickets to ((#) t) (set_tickets from (remove1 t) y)) ts x) =
      (m_tickets x)(from := ys, to := rev ts @ m_tickets x to) \<and>
    pending (fold (\<lambda>t y. set_tickets to ((#) t) (set_tickets from (remove1 t) y)) ts x) = pending x"
proof (induction ts arbitrary: x)
  case (Cons t ts)
  let ?x = "set_tickets to ((#) t) (set_tickets from (remove1 t) x)"
  have "m_tickets ?x from = ts @ ys" "m_tickets ?x to = t # m_tickets x to"
    using Cons.prems assms by (simp_all add: set_tickets_def)
  with Cons.IH [of ?x] show ?case
    using assms by (auto simp: set_tickets_def pending_def fun_eq_iff)
qed (auto simp: fun_eq_iff)

lemma move_tickets_eq:
  assumes "from \<noteq> to"
  shows "m_tickets (move_tickets from to x) = (m_tickets x)(from := [], to := rev (m_tickets x from) @ m_tickets x to)"
    "pending (move_tickets from to x) = pending x"
  using move_tickets_fold [OF assms, of x "m_tickets x from" "[]"] by (simp_all add: move_tickets_def)

lemma swap_tickets_pending [simp]: "pending (swap_tickets a b x) = pending x"
  by (simp add: swap_tickets_def pending_def)

lemma set_explicit_duration_inv:
  "mdl_inv st \<Longrightarrow> mdl_inv (set_explicit_duration_for_all_locks st c)"
  unfolding set_explicit_duration_for_all_locks_def
  by (erule mdl_inv_upd_ctx) (simp_all add: held_def move_tickets_eq, simp add: swap_tickets_def)

lemma set_transaction_duration_inv:
  "mdl_inv st \<Longrightarrow> mdl_inv (set_transaction_duration_for_all_locks st c)"
  unfolding set_transaction_duration_for_all_locks_def
  by (erule mdl_inv_upd_ctx) (simp_all add: held_def move_tickets_eq, simp add: swap_tickets_def)

subsection \<open>Changing the type of a ticket\<close>

definition same_road :: "mdl_state \<Rightarrow> ticket \<Rightarrow> enum_mdl_type \<Rightarrow> bool" where
  "same_road st t ty \<longleftrightarrow>
     (case mdl_locks st (m_lock (tickets st t)) of
        None \<Rightarrow> True
      | Some lk \<Rightarrow> supported_type (m_fast_road lk) ty = supported_type (m_fast_road lk) (m_type (tickets st t)))"

lemma retype_step:
  assumes "mdl_inv st" "t \<in> set (held (contexts st c))" "mdl_locks st (m_lock (tickets st t)) = Some lk"
    "tk' = retype (tickets st) t ty" "lock_inv tk' (key_strategy (m_lock (tickets st t))) lk'"
    "lock_key lk' = lock_key lk" "woken tk' (waits st) (set (holders lk)) (m_list (m_waiting lk)) ws' lk' gs"
  shows "mdl_inv (store_lock (st\<lparr>tickets := tk', waits := ws'\<rparr>) (m_lock (tickets st t)) lk')"
proof -
  let ?k = "m_lock (tickets st t)" and ?locks = "mdl_locks st"
  have i: "locks_ok (tickets st) (next_ticket st) ?locks" using assms(1) by (simp add: mdl_inv_def)
  have tat: "t \<in> tickets_at ?locks ?k"
    using held_ticket [OF assms(1,2)] assms(3) by (fastforce simp: tickets_at_def all_tickets_split)
  have hs: "hold_set ?locks ?k = set (holders lk)" "wait_set ?locks ?k = set (m_list (m_waiting lk))"
    using assms(3) by (auto simp: hold_set_def wait_set_def)
  have w: "set (holders lk') = set (holders lk) \<union> set gs" "set gs \<subseteq> set (m_list (m_waiting lk))"
    "set (m_list (m_waiting lk')) = set (m_list (m_waiting lk)) - set gs"
    "\<forall>g\<in>set gs. waits st (m_ctx (tk' g)) = EMPTY"
    "\<forall>c. ws' c = (if \<exists>g\<in>set gs. m_ctx (tk' g) = c then GRANTED else waits st c)"
    using assms(7) by (auto simp: woken_def)
  have strat: "m_strategy lk' = Some (key_strategy ?k)" using assms(5) by (auto simp: lock_inv_def dest: lk_coreD(1))
  have "set (all_tickets lk') \<subseteq> set (all_tickets lk)" using w(1-3) by (auto simp: all_tickets_split)
  then have "locks_ok tk' (next_ticket st) (?locks(?k := Some lk'))"
    using assms(3-6) locks_okD(1,3) [OF i assms(3)] tat i
    by (intro locks_ok_upd [OF i]) (auto simp: retype_def locks_ok_def)
  moreover have "links tk' ws' ((hold_set ?locks)(?k := hold_set ?locks ?k \<union> set gs)) ((wait_set ?locks)(?k := wait_set ?locks ?k - set gs))
      (\<lambda>c. held (contexts st c)) (\<lambda>c. pending (contexts st c))"
  proof (rule links_wake)
    show "links tk' (waits st) (hold_set ?locks) (wait_set ?locks) (\<lambda>c. held (contexts st c)) (\<lambda>c. pending (contexts st c))"
      by (rule links_tk_cong [where tk = "tickets st"]) (use assms(1,4) in \<open>auto simp: mdl_inv_def mdl_links_def\<close>)
  qed (use w hs in auto)
  ultimately show ?thesis
    using strat w by (simp add: mdl_inv_def mdl_links_def hold_set_upd hs)
qed

lemma downgrade_lock_inv:
  assumes "mdl_inv st" "t \<in> set (held (contexts st c))" "ty < type_end (key_strategy (m_lock (tickets st t)))"
    "weaker_ok (key_strategy (m_lock (tickets st t))) (m_type (tickets st t)) ty" "same_road st t ty"
  shows "mdl_inv (downgrade_lock mx st t ty)" "contexts (downgrade_lock mx st t ty) = contexts st"
proof -
  let ?k = "m_lock (tickets st t)"
  obtain lk where lk: "mdl_locks st ?k = Some lk" "t \<in> set (holders lk)" "m_ctx (tickets st t) = c"
      "lock_inv (tickets st) (key_strategy ?k) lk" "lock_key lk = ?k"
    by (rule held_ticket [OF assms(1,2)])
  obtain tk' ws' lk' where d: "lk_downgrade mx (key_strategy ?k) (tickets st) (waits st) lk t ty = (tk', ws', lk')"
    by (rule prod_cases3)
  have s: "ticket_strategy st t = key_strategy ?k" by (rule ticket_strategy_held [OF assms(1,2)])
  have r: "downgrade_lock mx st t ty =
      (if m_type (tickets st t) = ty \<or> \<not> has_stronger_or_equal_type (key_strategy ?k) (m_type (tickets st t)) ty then st
       else store_lock (st\<lparr>tickets := tk', waits := ws'\<rparr>) ?k lk')"
    using lk(1) d s by (simp add: downgrade_lock_def ticket_has_stronger_or_equal_type_def Let_def)
  show "contexts (downgrade_lock mx st t ty) = contexts st" by (simp add: r)
  show "mdl_inv (downgrade_lock mx st t ty)"
  proof (cases "has_stronger_or_equal_type (key_strategy ?k) (m_type (tickets st t)) ty")
    case True
    have "type_change_ok (tickets st) (key_strategy ?k) lk t ty"
      using type_change_weaker [OF lk(4,2) True assms(4,3)] assms(5) lk(1) by (simp add: same_road_def)
    note q = lk_downgrade_inv [OF d lk(4,2) this]
    then show ?thesis using assms(1) retype_step [OF assms(1,2) lk(1) q(1-3)] by (auto simp: r)
  qed (use assms(1) in \<open>simp add: r\<close>)
qed

text \<open>
  The end of \<^verbatim>\<open>upgrade_shared_lock()\<close>: the context has acquired \<open>xticket\<close>, at least as strong
  as the new type, on the same key.
\<close>

lemma upgrade_end_inv:
  assumes "mdl_inv st" "t \<in> set (held (contexts st c))" "x \<in> set (held (contexts st c))"
    "m_lock (tickets st x) = m_lock (tickets st t)" "m_fast_lane (tickets st t) = None"
    "ty < type_end (key_strategy (m_lock (tickets st t)))" "same_road st t ty"
    "has_stronger_or_equal_type (key_strategy (m_lock (tickets st t))) (m_type (tickets st x)) ty"
    "weaker_ok (key_strategy (m_lock (tickets st t))) (m_type (tickets st x)) ty"
    "\<not> has_lock st c sv x \<longrightarrow> x \<noteq> t \<and> x \<in> set (m_tickets (contexts st c) MDL_TRANSACTION)"
  shows "mdl_inv (upgrade_end st c sv t ty x)"
    "m_type (tickets (upgrade_end st c sv t ty x) t) = ty"
proof -
  let ?k = "m_lock (tickets st t)" and ?s = "key_strategy (m_lock (tickets st t))" and ?new = "\<not> has_lock st c sv x"
  obtain lk where lk: "mdl_locks st ?k = Some lk" "t \<in> set (holders lk)" "m_ctx (tickets st t) = c"
      "lock_inv (tickets st) ?s lk" "lock_key lk = ?k"
    by (rule held_ticket [OF assms(1,2)])
  have x: "x \<in> set (holders lk)" "m_ctx (tickets st x) = c"
    using held_ticket [OF assms(1,3)] assms(4) lk(1) by auto
  obtain tk' lk' where u: "lk_upgrade (tickets st) lk t ty (if ?new then Some x else None) = (tk', lk')" by (rule prod.exhaust)
  have "type_change_ok (tickets st) ?s lk t ty"
  proof -
    have core: "lk_core (tickets st) ?s lk" using lk(4) by (simp add: lock_inv_def)
    have "\<not> conflicting ?s (m_type (tickets st v)) ty" if v: "v \<in> set (holders lk)" "m_ctx (tickets st v) \<noteq> c" for v
    proof
      assume "conflicting ?s (m_type (tickets st v)) ty"
      moreover have "m_type (tickets st v) < type_end ?s" "m_type (tickets st x) < type_end ?s"
        using lk_coreD(7) [OF core] v(1) x(1) by (auto simp: lk_sets)
      ultimately have "conflicting ?s (m_type (tickets st v)) (m_type (tickets st x))"
        using stronger_conflicting [OF assms(8,9)] assms(6) conflicting_sym by metis
      then show False using lk_coreD(6) [OF core] v x by (auto simp: mdl_compat_def holders_ok_def)
    qed
    then show ?thesis using assms(6,7) lk(1,3) by (auto simp: type_change_ok_def same_road_def)
  qed
  note tc = this
  have t: "t \<in> set (m_list (m_granted lk))" using lane_iff(2) [OF lk(4,2)] assms(5) by simp
  have rm: "r \<in> set (holders lk) \<and> r \<noteq> t" if "(if ?new then Some x else None) = Some r" for r
    using that x(1) assms(10) by (auto split: if_splits)
  note q = lk_upgrade_inv [OF u lk(4) t tc rm]
  have strat: "m_strategy lk' = Some ?s" using q(2) by (auto simp: lock_inv_def dest: lk_coreD(1))
  let ?locks = "mdl_locks st" and ?R = "if ?new then {x} else {}"
  have hs: "hold_set ?locks ?k = set (holders lk)" "wait_set ?locks ?k = set (m_list (m_waiting lk))"
    using lk(1) by (auto simp: hold_set_def wait_set_def)
  have i: "locks_ok (tickets st) (next_ticket st) ?locks" using assms(1) by (simp add: mdl_inv_def)
  have h: "set (holders lk') = set (holders lk) - ?R" using q(6) by auto
  have "set (all_tickets lk') \<subseteq> set (all_tickets lk)" using h q(5) by (auto simp: all_tickets_split)
  moreover have "t \<in> tickets_at ?locks ?k" using lk(1,2) by (simp add: tickets_at_def all_tickets_split)
  ultimately have ok: "locks_ok tk' (next_ticket st) (?locks(?k := Some lk'))"
    using q(1-3) lk(1,5) locks_okD(3) [OF i lk(1)] i
    by (intro locks_ok_upd [OF i]) (auto simp: retype_def locks_ok_def)
  have l: "links tk' (waits st) (hold_set ?locks) (wait_set ?locks) (\<lambda>c. held (contexts st c)) (\<lambda>c. pending (contexts st c))"
    by (rule links_tk_cong [where tk = "tickets st"]) (use assms(1) q(1) in \<open>auto simp: mdl_inv_def mdl_links_def\<close>)
  have r: "upgrade_end st c sv t ty x =
      (if ?new then upd_ctx (store_lock (st\<lparr>tickets := tk'\<rparr>) ?k lk') c (set_tickets MDL_TRANSACTION (remove1 x))
       else store_lock (st\<lparr>tickets := tk'\<rparr>) ?k lk')"
    using lk(1) u by (simp add: upgrade_end_def Let_def)
  show "m_type (tickets (upgrade_end st c sv t ty x) t) = ty" using q(1) by (simp add: r)
  show "mdl_inv (upgrade_end st c sv t ty x)"
  proof (cases ?new)
    case True
    have xt: "x \<in> set (m_tickets (contexts st c) MDL_TRANSACTION)" using True assms(10) by blast
    have kx: "?k = m_lock (tk' x)" using assms(4) q(1) by simp
    note links_release [OF l held_in [OF xt] kx mset_held_remove [OF xt]]
    then show ?thesis
      using ok strat True h q(5) unfolding mdl_inv_def mdl_links_def r
      by (simp add: hold_set_upd hs ctx_upd fun_upd_idem del: fun_upd_apply)
  next
    case False
    then show ?thesis
      using ok l strat h q(5) unfolding mdl_inv_def mdl_links_def r
      by (simp add: hold_set_upd hs fun_upd_idem)
  qed
qed

lemma lane_type_change_ok:
  assumes "lock_inv tk s lk" "t \<in> set (fr_iterate (m_fast_road lk))" "supported_type (m_fast_road lk) ty" "ty < type_end s"
  shows "type_change_ok tk s lk t ty"
proof -
  have i: "lk_core tk s lk" "fr_inv tk (heavy tk lk) (m_fast_road lk)" using assms(1) by (auto simp: lock_inv_def)
  note bs = lane_strategy [OF i(1) assms(2)]
  have "heavy tk lk = 0"
    using i(2) assms(2) by (auto simp: fr_inv_def set_fr_iterate)
  then have "supported_type (m_fast_road lk) (m_type (tk u))" if "u \<in> set (holders lk)" for u
    using that heavy_pos [of u lk tk] lk_coreD(11) [OF i(1), of u] by (auto simp: holders_def)
  then have "\<not> conflicting s (m_type (tk u)) ty" if "u \<in> set (holders lk)" for u
    using that fast_types_compatible assms(3) bs by (simp add: supported_type_bit)
  then show ?thesis using assms(3,4) lk_coreD(11) [OF i(1) assms(2)] by (simp add: type_change_ok_def)
qed

lemma upgrade_begin_inv:
  assumes "mdl_inv st" "t \<in> set (held (contexts st c))" "ty < type_end (key_strategy (m_lock (tickets st t)))"
    "same_road st t ty" "upgrade_begin st t ty = (r, st')"
  shows "mdl_inv st'" "contexts st' = contexts st"
proof -
  let ?k = "m_lock (tickets st t)"
  obtain lk where lk: "mdl_locks st ?k = Some lk" "t \<in> set (holders lk)" "m_ctx (tickets st t) = c"
      "lock_inv (tickets st) (key_strategy ?k) lk" "lock_key lk = ?k"
    by (rule held_ticket [OF assms(1,2)])
  have c: "st' = st \<or> m_fast_lane (tickets st t) \<noteq> None \<and> st' = st\<lparr>tickets := retype (tickets st) t ty\<rparr>"
    using assms(5) by (auto simp: upgrade_begin_def lk_try_fast_upgrade_def fr_try_change_ticket_type_def retype_def
        split: if_splits option.splits)
  then show "contexts st' = contexts st" by auto
  show "mdl_inv st'"
  proof (cases "st' = st")
    case False
    then have st': "m_fast_lane (tickets st t) \<noteq> None" "st' = st\<lparr>tickets := retype (tickets st) t ty\<rparr>" using c by auto
    have t: "t \<in> set (fr_iterate (m_fast_road lk))" using lane_iff(1) [OF lk(4,2)] st'(1) by simp
    have "supported_type (m_fast_road lk) ty"
      using assms(4) lk(1) lk(4) t by (auto simp: same_road_def lock_inv_def dest: lk_coreD(11))
    from retype_lane_inv [OF lk(4) t lane_type_change_ok [OF lk(4) t this assms(3)]]
    have inv: "lock_inv (retype (tickets st) t ty) (key_strategy ?k) lk" .
    have "m_strategy lk \<noteq> None" using lk(4) by (auto simp: lock_inv_def lk_core_def)
    then have "store_lock (st\<lparr>tickets := retype (tickets st) t ty, waits := waits st\<rparr>) ?k lk = st'"
      using lk(1) st'(2) by (auto simp: store_lock_def fun_upd_idem)
    with retype_step [OF assms(1,2) lk(1) refl inv refl woken_none [OF refl]] show ?thesis by simp
  qed (use assms(1) in simp)
qed

subsection \<open>All sessions together\<close>

text \<open>
  The race of \<^verbatim>\<open>acquire_lock()\<close> with a session that grants the lock: the client is gone, so
  that \<^verbatim>\<open>wait_status\<close> is \<^verbatim>\<open>TIMEOUT\<close>, but the wait slot has stayed open and is
  \<^verbatim>\<open>GRANTED\<close> by now.
\<close>

definition disconnect_race :: "mdl_state \<Rightarrow> context_id \<Rightarrow> bool" where
  "disconnect_race st c \<longleftrightarrow> wait_status (contexts st c) \<noteq> GRANTED \<and> waits st c = GRANTED"

text \<open>
  One step of one session, except for the end of \<^verbatim>\<open>acquire_lock()\<close> in that race: it damages
  the lock object, and is a step of \<open>mdl_any_step\<close> below only. All other outcomes of a wait are
  steps here, a client that is gone included. A session that waits does nothing but end its wait;
  its wait slot may be set at any time by a session that kills it or makes it the victim of a
  deadlock. The limit \<open>mx\<close> is the value \<^verbatim>\<open>max_write_lock_count\<close> has at the time of the step. A
  lock object from the allocator is a new one or one that was released empty, which
  \<open>lk_remove_ticket_inv\<close> shows to be clean; nothing is assumed of the count of grants in it. The
  premises on types are those of the callers: a lock changes its type only between types that use
  the fast lanes or between types that do not, and a holder of \<^verbatim>\<open>MDL_BACKUP_BLOCK_DDL\<close> does
  not ask for \<^verbatim>\<open>MDL_BACKUP_START\<close>.
\<close>

inductive mdl_step :: "mdl_state \<Rightarrow> mdl_state \<Rightarrow> bool" where
  step_acquire: "\<lbrakk>acquiring (contexts st c) = None; request_ok st c req; raw_ok raw;
     acquire_lock_begin st c req wait alloc_ok raw = (r, st')\<rbrakk> \<Longrightarrow> mdl_step st st'"
| step_set_status: "\<lbrakk>acquiring (contexts st c) \<noteq> None; s \<noteq> GRANTED\<rbrakk> \<Longrightarrow>
     mdl_step st (st\<lparr>waits := snd (set_status (waits st) c s)\<rparr>)"
| step_wait: "\<lbrakk>acquiring (contexts st c) \<noteq> None; wait_status (contexts st c) = EMPTY\<rbrakk> \<Longrightarrow>
     mdl_step st (acquire_wait st c killed last_wait connected)"
| step_acquire_end: "\<lbrakk>acquiring (contexts st c) \<noteq> None; wait_status (contexts st c) \<noteq> EMPTY;
     \<not> disconnect_race st c; acquire_lock_end mx st c = (r, st')\<rbrakk> \<Longrightarrow> mdl_step st st'"
| step_reset: "mdl_step st (mdl_context_reset st c)"
| step_find_deadlock: "\<lbrakk>acquiring (contexts st c) \<noteq> None; find_deadlock st c = Some st'\<rbrakk> \<Longrightarrow> mdl_step st st'"
| step_release: "\<lbrakk>acquiring (contexts st c) = None; t \<in> set (m_tickets (contexts st c) d)\<rbrakk> \<Longrightarrow>
     mdl_step st (release_lock mx st c d t)"
| step_duration: "\<lbrakk>acquiring (contexts st c) = None; t \<in> set (m_tickets (contexts st c) MDL_TRANSACTION)\<rbrakk> \<Longrightarrow>
     mdl_step st (set_lock_duration st c t d)"
| step_explicit: "acquiring (contexts st c) = None \<Longrightarrow> mdl_step st (set_explicit_duration_for_all_locks st c)"
| step_transaction: "acquiring (contexts st c) = None \<Longrightarrow> mdl_step st (set_transaction_duration_for_all_locks st c)"
| step_downgrade: "\<lbrakk>acquiring (contexts st c) = None; t \<in> set (held (contexts st c));
     ty < type_end (key_strategy (m_lock (tickets st t)));
     weaker_ok (key_strategy (m_lock (tickets st t))) (m_type (tickets st t)) ty; same_road st t ty\<rbrakk> \<Longrightarrow>
     mdl_step st (downgrade_lock mx st t ty)"
| step_upgrade_begin: "\<lbrakk>acquiring (contexts st c) = None; t \<in> set (held (contexts st c));
     ty < type_end (key_strategy (m_lock (tickets st t))); same_road st t ty;
     upgrade_begin st t ty = (r, st')\<rbrakk> \<Longrightarrow> mdl_step st st'"
| step_upgrade_end: "\<lbrakk>acquiring (contexts st c) = None; t \<in> set (held (contexts st c)); x \<in> set (held (contexts st c));
     m_lock (tickets st x) = m_lock (tickets st t); m_fast_lane (tickets st t) = None;
     ty < type_end (key_strategy (m_lock (tickets st t))); same_road st t ty;
     has_stronger_or_equal_type (key_strategy (m_lock (tickets st t))) (m_type (tickets st x)) ty;
     weaker_ok (key_strategy (m_lock (tickets st t))) (m_type (tickets st x)) ty;
     \<not> has_lock st c sv x \<longrightarrow> x \<noteq> t \<and> x \<in> set (m_tickets (contexts st c) MDL_TRANSACTION)\<rbrakk> \<Longrightarrow>
     mdl_step st (upgrade_end st c sv t ty x)"

text \<open>A context is registered with the deadlock detector exactly while it waits for its pending ticket.\<close>

definition wait_sync :: "mdl_state \<Rightarrow> bool" where
  "wait_sync st \<longleftrightarrow> (\<forall>c. m_waiting_for (contexts st c) = pending (contexts st c))"

lemma wait_sync_cong:
  assumes "wait_sync st" "\<And>c. m_waiting_for (contexts st' c) = m_waiting_for (contexts st c)"
    "\<And>c. acquiring (contexts st' c) = acquiring (contexts st c)"
  shows "wait_sync st'"
  using assms by (simp add: wait_sync_def pending_def)

lemma set_tickets_wait [simp]:
  "m_waiting_for (set_tickets d f x) = m_waiting_for x" "acquiring (set_tickets d f x) = acquiring x"
  "wait_status (set_tickets d f x) = wait_status x"
  by (simp_all add: set_tickets_def)

lemma move_tickets_wait [simp]:
  "m_waiting_for (move_tickets a b x) = m_waiting_for x" "acquiring (move_tickets a b x) = acquiring x"
  "m_waiting_for (swap_tickets a b x) = m_waiting_for x" "acquiring (swap_tickets a b x) = acquiring x"
  "wait_status (move_tickets a b x) = wait_status x" "wait_status (swap_tickets a b x) = wait_status x"
proof -
  have "m_waiting_for (fold (\<lambda>t y. set_tickets b ((#) t) (set_tickets a (remove1 t) y)) ts x) = m_waiting_for x \<and>
    acquiring (fold (\<lambda>t y. set_tickets b ((#) t) (set_tickets a (remove1 t) y)) ts x) = acquiring x \<and>
    wait_status (fold (\<lambda>t y. set_tickets b ((#) t) (set_tickets a (remove1 t) y)) ts x) = wait_status x" for ts
    by (induction ts arbitrary: x) auto
  then show "m_waiting_for (move_tickets a b x) = m_waiting_for x" "acquiring (move_tickets a b x) = acquiring x"
    "wait_status (move_tickets a b x) = wait_status x"
    by (simp_all add: move_tickets_def)
qed (simp_all add: swap_tickets_def)

lemma fun_upd_wait [simp]:
  "m_waiting_for (f x) = m_waiting_for x \<Longrightarrow> x = g c \<Longrightarrow> m_waiting_for ((g(c := f x)) a) = m_waiting_for (g a)"
  "acquiring (f x) = acquiring x \<Longrightarrow> x = g c \<Longrightarrow> acquiring ((g(c := f x)) a) = acquiring (g a)"
  by auto

lemma map_try_acquire_lock_contexts:
  "map_try_acquire_lock st k t wait raw = (r, nt, st') \<Longrightarrow> contexts st' = contexts st"
  by (auto simp: map_try_acquire_lock_def split: option.splits prod.splits)

lemma clone_ticket_wait:
  assumes "clone_ticket st c req orig alloc_ok = Some (t, st')"
  shows "m_waiting_for (contexts st' c') = m_waiting_for (contexts st c')" "acquiring (contexts st' c') = acquiring (contexts st c')"
  using assms by (auto simp: clone_ticket_def new_ticket_def Let_def split: if_splits option.splits prod.splits)

lemma map_try_acquire_lock_waits:
  "map_try_acquire_lock st k t wait raw = (r, nt, st') \<Longrightarrow> contexts st' = contexts st \<and> waits st' = waits st"
  by (auto simp: map_try_acquire_lock_def split: option.splits prod.splits)

lemma clone_ticket_status:
  assumes "clone_ticket st c req orig alloc_ok = Some (t, st')"
  shows "wait_status (contexts st' c') = wait_status (contexts st c')" "waits st' = waits st"
  using assms by (auto simp: clone_ticket_def new_ticket_def Let_def split: if_splits option.splits prod.splits)

lemma try_acquire_lock_impl_wait:
  assumes "try_acquire_lock_impl st c req wait alloc_ok raw = (r, st')"
  shows "m_waiting_for (contexts st' c') = m_waiting_for (contexts st c') \<and> acquiring (contexts st' c') = acquiring (contexts st c')"
  using assms unfolding try_acquire_lock_impl_def new_ticket_def
  by (auto split: option.splits prod.splits if_splits tal_status.splits
      dest!: map_try_acquire_lock_contexts dest: clone_ticket_wait)

lemma acquire_lock_begin_sync:
  assumes "acquire_lock_begin st c req wait alloc_ok raw = (r, st')" "wait_sync st"
  shows "wait_sync st'"
proof -
  obtain r1 st1 where i: "try_acquire_lock_impl st c req wait alloc_ok raw = (r1, st1)" by (rule prod.exhaust)
  have "wait_sync st1" by (rule wait_sync_cong [OF assms(2)]) (use try_acquire_lock_impl_wait [OF i] in auto)
  then show ?thesis
    using assms(1) i by (cases r1) (auto simp: acquire_lock_begin_def will_wait_for_def wait_sync_def pending_def)
qed

lemma acquire_lock_end_sync:
  assumes "acquire_lock_end mx st c = (r, st')" "wait_sync st" "mdl_inv st" "acquiring (contexts st c) = Some (req, t)"
    "wait_status (contexts st c) = GRANTED \<longleftrightarrow> waits st c = GRANTED"
  shows "wait_sync st'"
proof -
  note q = acquire_lock_end_inv [OF assms(3,4) refl assms(5,1)]
  have "m_waiting_for (contexts st' c) = None"
    using assms(1,4) by (auto simp: acquire_lock_end_def done_waiting_for_def Let_def split: option.splits if_splits prod.splits)
  then show ?thesis
    using q(4,7) assms(2) unfolding wait_sync_def pending_def by (metis option.map_disc_iff)
qed

lemma mdl_inv_waiting_ok:
  assumes "mdl_inv st" "wait_sync st"
  shows "waiting_ok st"
  unfolding waiting_ok_def
proof (intro allI impI)
  fix c t
  assume "m_waiting_for (contexts st c) = Some t"
  then have p: "pending (contexts st c) = Some t" using assms(2) by (simp add: wait_sync_def)
  have l: "links (tickets st) (waits st) (hold_set (mdl_locks st)) (wait_set (mdl_locks st))
      (\<lambda>c. held (contexts st c)) (\<lambda>c. pending (contexts st c))" using assms(1) by (simp add: mdl_inv_def mdl_links_def)
  show "m_ctx (tickets st t) = c \<and> mdl_locks st (m_lock (tickets st t)) \<noteq> None"
    using linksD(6,7,8) [OF l p] by (cases "waits st c = GRANTED") (auto simp: hold_set_def wait_set_def split: option.splits)
qed

lemma mark_victim_inv:
  assumes "mdl_inv st" "wait_sync st" "active st w"
  shows "mdl_inv (mark_victim st w) \<and> wait_sync (mark_victim st w)"
proof
  have "acquiring (contexts st w) \<noteq> None" using assms(2,3) by (auto simp: active_def wait_sync_def pending_def)
  from set_status_inv [OF assms(1) this, of VICTIM]
  show "mdl_inv (mark_victim st w)"
    unfolding mark_victim_def by (intro mdl_inv_upd_ctx) (simp_all add: held_def pending_def)
  show "wait_sync (mark_victim st w)" by (rule wait_sync_cong [OF assms(2)]) simp_all
qed

lemma find_deadlock_inv:
  assumes "find_deadlock st c = Some st'" "mdl_inv st" "wait_sync st"
  shows "mdl_inv st' \<and> wait_sync st'"
  using find_deadlock_induct [OF assms(1) mdl_inv_waiting_ok [OF assms(2,3)], of "\<lambda>s. mdl_inv s \<and> wait_sync s"]
    assms(2,3) mark_victim_inv by blast

text \<open>A session that has found its slot \<^verbatim>\<open>GRANTED\<close> still finds it so: a slot once set is kept.\<close>

definition status_sync :: "mdl_state \<Rightarrow> bool" where
  "status_sync st \<longleftrightarrow>
     (\<forall>c. acquiring (contexts st c) \<noteq> None \<and> wait_status (contexts st c) = GRANTED \<longrightarrow> waits st c = GRANTED)"

lemma status_sync_mono:
  assumes "status_sync st"
    "\<And>c. acquiring (contexts st' c) \<noteq> None \<Longrightarrow> wait_status (contexts st' c) = GRANTED \<Longrightarrow>
       acquiring (contexts st c) \<noteq> None \<and> wait_status (contexts st c) = GRANTED"
    "\<And>c. acquiring (contexts st' c) \<noteq> None \<Longrightarrow> waits st c = GRANTED \<Longrightarrow> waits st' c = GRANTED"
  shows "status_sync st'"
  using assms unfolding status_sync_def by blast

lemma not_race:
  "\<lbrakk>status_sync st; acquiring (contexts st c) \<noteq> None; \<not> disconnect_race st c\<rbrakk> \<Longrightarrow>
     wait_status (contexts st c) = GRANTED \<longleftrightarrow> waits st c = GRANTED"
  by (auto simp: status_sync_def disconnect_race_def)

lemma set_status_kept: "ws c = GRANTED \<Longrightarrow> snd (set_status ws c' s) c = GRANTED"
  by (auto simp: set_status_def)

lemma reschedule_loop_kept: "ws c = GRANTED \<Longrightarrow> fst (reschedule_loop s skip tk ws lk ts) c = GRANTED"
  by (induction ts arbitrary: ws lk) (auto simp: set_status_def)

lemma reschedule_waiters_kept: "ws c = GRANTED \<Longrightarrow> fst (reschedule_waiters mx s tk ws lk) c = GRANTED"
  using reschedule_loop_kept [of ws c s "skip_hogs mx s lk" tk lk "m_list (m_waiting lk)"]
  by (auto simp: reschedule_waiters_def split: prod.splits)

lemma lk_remove_ticket_kept: "ws c = GRANTED \<Longrightarrow> fst (lk_remove_ticket mx tk ws lk q t) c = GRANTED"
  using reschedule_waiters_kept [of ws c mx] by (auto simp: lk_remove_ticket_def Let_def split: prod.splits option.splits) (metis fst_conv)+

lemma release_lock_kept: "waits st a = GRANTED \<Longrightarrow> waits (release_lock mx st c d t) a = GRANTED"
  using lk_remove_ticket_kept [of "waits st" a mx "tickets st" _ _ t]
  by (auto simp: release_lock_def lk_release_def Let_def split: option.splits prod.splits) (metis fst_conv)

lemma downgrade_lock_kept: "waits st a = GRANTED \<Longrightarrow> waits (downgrade_lock mx st t ty) a = GRANTED"
  using reschedule_waiters_kept [of "waits st" a mx]
  by (auto simp: downgrade_lock_def lk_downgrade_def Let_def split: option.splits prod.splits) (metis fst_conv)

lemma mark_victim_status: "status_sync st \<Longrightarrow> status_sync (mark_victim st w)"
  by (rule status_sync_mono) (auto simp: mark_victim_def set_status_kept split: if_splits)

lemma find_deadlock_status:
  assumes "find_deadlock st c = Some st'" "mdl_inv st" "wait_sync st" "status_sync st"
  shows "status_sync st'"
  using find_deadlock_induct [OF assms(1) mdl_inv_waiting_ok [OF assms(2,3)], of "\<lambda>s. mdl_inv s \<and> wait_sync s \<and> status_sync s"]
    assms(2-4) mark_victim_inv mark_victim_status by blast

lemma try_acquire_lock_impl_status:
  assumes "try_acquire_lock_impl st c req wait alloc_ok raw = (r, st')"
  shows "wait_status (contexts st' c') = wait_status (contexts st c') \<and> waits st' = waits st"
  using assms unfolding try_acquire_lock_impl_def new_ticket_def
  by (auto split: option.splits prod.splits if_splits tal_status.splits
      dest!: map_try_acquire_lock_waits dest: clone_ticket_status)

lemma acquire_lock_begin_status:
  assumes "acquire_lock_begin st c req wait alloc_ok raw = (r, st')" "status_sync st"
  shows "status_sync st'"
proof -
  obtain r1 st1 where i: "try_acquire_lock_impl st c req wait alloc_ok raw = (r1, st1)" by (rule prod.exhaust)
  have "status_sync st1"
    by (rule status_sync_mono [OF assms(2)]) (use try_acquire_lock_impl_wait [OF i] try_acquire_lock_impl_status [OF i] in auto)
  then show ?thesis
    using assms(1) i by (cases r1) (auto simp: acquire_lock_begin_def will_wait_for_def status_sync_def split: if_splits)
qed

lemma acquire_lock_end_status:
  assumes "acquire_lock_end mx st c = (r, st')" "status_sync st" "acquiring (contexts st c) = Some (req, t)"
    "mdl_inv st" "wait_status (contexts st c) = GRANTED \<longleftrightarrow> waits st c = GRANTED"
  shows "status_sync st'"
proof (rule status_sync_mono [OF assms(2)])
  note q = acquire_lock_end_inv [OF assms(4,3) refl assms(5,1)]
  fix a
  assume a: "acquiring (contexts st' a) \<noteq> None"
  then have ac: "a \<noteq> c" using q(4) by auto
  show "wait_status (contexts st' a) = GRANTED \<Longrightarrow> acquiring (contexts st a) \<noteq> None \<and> wait_status (contexts st a) = GRANTED"
    using a q(7) [OF ac] by simp
  show "waits st a = GRANTED \<Longrightarrow> waits st' a = GRANTED"
    using ac assms(1,3) lk_remove_ticket_kept [of "waits st" a mx "tickets st" _ Waiting_queue t]
    by (auto simp: acquire_lock_end_def done_waiting_for_def lk_abort_wait_def reset_status_def Let_def
        split: if_splits option.splits prod.splits) (metis fst_conv)
qed

lemma mdl_step_sync:
  assumes "mdl_step st st'" "mdl_inv st" "wait_sync st" "status_sync st"
  shows "wait_sync st'"
  using assms
proof (induction rule: mdl_step.induct)
  case (step_acquire st c req raw wait alloc_ok r st')
  then show ?case by (blast intro: acquire_lock_begin_sync)
next
  case (step_wait st c killed last_wait connected)
  then show ?case by (auto simp: acquire_wait_def intro: wait_sync_cong split: prod.splits)
next
  case (step_acquire_end st c mx r st')
  then obtain req t where a: "acquiring (contexts st c) = Some (req, t)" by auto
  show ?case
    by (rule acquire_lock_end_sync [OF step_acquire_end.hyps(4) step_acquire_end.prems(2,1) a not_race]) (use step_acquire_end in auto)
next
  case (step_reset st c)
  then show ?case by (auto simp: mdl_context_reset_def intro: wait_sync_cong)
next
  case (step_find_deadlock st c st')
  then show ?case by (blast dest: find_deadlock_inv)
next
  case (step_release st c t d mx)
  then show ?case by (intro wait_sync_cong [OF step_release.prems(2)]) (auto simp: release_lock_inv(2))
next
  case (step_duration st c t d)
  then show ?case by (auto simp: set_lock_duration_def intro: wait_sync_cong)
next
  case (step_explicit st c)
  show ?case by (rule wait_sync_cong [OF step_explicit.prems(2)]) (simp_all add: set_explicit_duration_for_all_locks_def)
next
  case (step_transaction st c)
  show ?case by (rule wait_sync_cong [OF step_transaction.prems(2)]) (simp_all add: set_transaction_duration_for_all_locks_def)
next
  case (step_downgrade st c t ty mx)
  then show ?case by (intro wait_sync_cong [OF step_downgrade.prems(2)]) (auto simp: downgrade_lock_inv(2))
next
  case (step_upgrade_begin st c t ty r st')
  then show ?case by (intro wait_sync_cong [OF step_upgrade_begin.prems(2)]) (auto dest: upgrade_begin_inv(2))
next
  case (step_upgrade_end st c t x ty sv)
  then show ?case by (intro wait_sync_cong [OF step_upgrade_end.prems(2)])
     (auto simp: upgrade_end_def Let_def split: option.splits prod.splits)
qed (auto intro: wait_sync_cong)

lemma mdl_step_inv: "mdl_step st st' \<Longrightarrow> mdl_inv st \<Longrightarrow> wait_sync st \<Longrightarrow> status_sync st \<Longrightarrow> mdl_inv st'"
proof (induction rule: mdl_step.induct)
  case (step_acquire st c req raw wait alloc_ok r st')
  then show ?case by (blast intro: acquire_lock_begin_inv(1))
next
  case (step_wait st c killed last_wait connected)
  then show ?case by (blast intro: acquire_wait_inv(1))
next
  case (step_acquire_end st c mx r st')
  then obtain req t where "acquiring (contexts st c) = Some (req, t)" by auto
  then show ?case
    by (rule acquire_lock_end_inv(1) [OF step_acquire_end.prems(1) _ refl not_race step_acquire_end.hyps(4)])
      (use step_acquire_end in auto)
next
  case (step_reset st c)
  then show ?case unfolding mdl_context_reset_def by (intro mdl_inv_upd_ctx) (simp_all add: held_def pending_def)
next
  case (step_find_deadlock st c st')
  then show ?case by (blast dest: find_deadlock_inv)
next
  case (step_upgrade_begin st c t ty r st')
  then show ?case by (blast intro: upgrade_begin_inv(1))
next
  case (step_upgrade_end st c t x ty sv)
  then show ?case by (blast intro: upgrade_end_inv(1))
qed (auto intro: set_status_inv release_lock_inv(1) set_lock_duration_inv set_explicit_duration_inv
    set_transaction_duration_inv downgrade_lock_inv(1))

lemma mdl_step_status:
  assumes "mdl_step st st'" "mdl_inv st" "wait_sync st" "status_sync st"
  shows "status_sync st'"
  using assms
proof (induction rule: mdl_step.induct)
  case (step_acquire st c req raw wait alloc_ok r st')
  then show ?case by (blast intro: acquire_lock_begin_status)
next
  case (step_wait st c killed last_wait connected)
  note w = acquire_wait_inv(2-4) [OF step_wait.prems(1) step_wait.hyps(1) refl]
  show ?case unfolding status_sync_def
  proof (intro allI impI)
    fix a
    assume "acquiring (contexts (acquire_wait st c killed last_wait connected) a) \<noteq> None \<and>
      wait_status (contexts (acquire_wait st c killed last_wait connected) a) = GRANTED"
    moreover have "a \<noteq> c \<Longrightarrow> contexts (acquire_wait st c killed last_wait connected) a = contexts st a"
      using w(2) by (metis fun_upd_other)
    ultimately show "waits (acquire_wait st c killed last_wait connected) a = GRANTED"
      using w(1,3) step_wait.prems(3) unfolding status_sync_def by (cases "a = c") auto
  qed
next
  case (step_acquire_end st c mx r st')
  then obtain req t where a: "acquiring (contexts st c) = Some (req, t)" by auto
  show ?case
    by (rule acquire_lock_end_status [OF step_acquire_end.hyps(4) step_acquire_end.prems(3) a step_acquire_end.prems(1) not_race])
      (use step_acquire_end in auto)
next
  case (step_find_deadlock st c st')
  then show ?case by (blast intro: find_deadlock_status)
next
  case (step_release st c t d mx)
  then show ?case
    by (intro status_sync_mono [OF step_release.prems(3)]) (auto simp: release_lock_inv(2) release_lock_kept split: if_splits)
next
  case (step_downgrade st c t ty mx)
  then show ?case
    by (intro status_sync_mono [OF step_downgrade.prems(3)]) (auto simp: downgrade_lock_inv(2) downgrade_lock_kept)
next
  case (step_upgrade_begin st c t ty r st')
  have "contexts st' = contexts st"
    by (rule upgrade_begin_inv(2) [OF step_upgrade_begin.prems(1) step_upgrade_begin.hyps(2-5)])
  moreover have "waits st' = waits st"
    using step_upgrade_begin.hyps(5) by (auto simp: upgrade_begin_def split: if_splits option.splits)
  ultimately show ?case using step_upgrade_begin.prems(3) by (simp add: status_sync_def)
next
  case (step_upgrade_end st c t x ty sv)
  then show ?case
    by (intro status_sync_mono [OF step_upgrade_end.prems(3)])
      (auto simp: upgrade_end_def Let_def split: option.splits prod.splits if_splits)
qed (auto simp: status_sync_def set_status_kept mdl_context_reset_def set_lock_duration_def
    set_explicit_duration_for_all_locks_def set_transaction_duration_for_all_locks_def)

text \<open>The states reached without the race, and all states.\<close>

inductive mdl_reachable :: "mdl_state \<Rightarrow> bool" where
  mdl_start: "0 < mdl_instances \<Longrightarrow> mdl_reachable (mdl_init mdl_instances alloc_ok thr)"
| mdl_next: "mdl_reachable st \<Longrightarrow> mdl_step st st' \<Longrightarrow> mdl_reachable st'"

inductive mdl_any_step :: "mdl_state \<Rightarrow> mdl_state \<Rightarrow> bool" where
  any_step: "mdl_step st st' \<Longrightarrow> mdl_any_step st st'"
| any_race: "\<lbrakk>acquiring (contexts st c) \<noteq> None; disconnect_race st c; wait_status (contexts st c) \<noteq> EMPTY;
     acquire_lock_end mx st c = (r, st')\<rbrakk> \<Longrightarrow> mdl_any_step st st'"

inductive mdl_any_reachable :: "mdl_state \<Rightarrow> bool" where
  any_start: "0 < mdl_instances \<Longrightarrow> mdl_any_reachable (mdl_init mdl_instances alloc_ok thr)"
| any_next: "mdl_any_reachable st \<Longrightarrow> mdl_any_step st st' \<Longrightarrow> mdl_any_reachable st'"

lemma mdl_reachable_any: "mdl_reachable st \<Longrightarrow> mdl_any_reachable st"
  by (induction rule: mdl_reachable.induct) (auto intro: any_start any_next any_step)

lemma mdl_init_inv: "mdl_inv (mdl_init n alloc_ok thr)"
proof -
  have e: "fr_iterate (m_fast_road (MDL_lock_backup n alloc_ok)) = []"
    by (auto simp: MDL_lock_backup_def fr_enable_def fr_iterate_def)
  then have t: "all_tickets (MDL_lock_backup n alloc_ok) = []" "holders (MDL_lock_backup n alloc_ok) = []"
    by (auto simp: MDL_lock_backup_def all_tickets_def holders_def)
  have "namespace_of backup_key = BACKUP" by code_simp
  then have "lock_inv tk (key_strategy backup_key) (MDL_lock_backup n alloc_ok)" for tk
    unfolding lock_inv_def lk_core_def fr_inv_def e t
    by (auto simp: MDL_lock_backup_def key_strategy_def heavy_def mdl_compat_def fr_enable_def mdl_conflict.holders_ok_empty)
  then have "locks_ok tk 0 [backup_key \<mapsto> MDL_lock_backup n alloc_ok]" for tk
    using t by (auto simp: locks_ok_def) (auto simp: MDL_lock_backup_def)
  moreover have "hold_set [backup_key \<mapsto> MDL_lock_backup n alloc_ok] = (\<lambda>_. {})"
    "wait_set [backup_key \<mapsto> MDL_lock_backup n alloc_ok] = (\<lambda>_. {})"
    using t by (auto simp: hold_set_def wait_set_def fun_eq_iff) (auto simp: MDL_lock_backup_def)
  ultimately show ?thesis
    by (auto simp: mdl_inv_def mdl_links_def mdl_init_def held_def pending_def intro!: linksI)
qed

lemma mdl_init_sync: "wait_sync (mdl_init n alloc_ok thr)"
  by (simp add: wait_sync_def mdl_init_def pending_def)

lemma mdl_init_status: "status_sync (mdl_init n alloc_ok thr)"
  by (simp add: status_sync_def mdl_init_def)

lemma mdl_reachable_all: "mdl_reachable st \<Longrightarrow> mdl_inv st \<and> wait_sync st \<and> status_sync st"
  by (induction rule: mdl_reachable.induct)
    (auto intro: mdl_init_inv mdl_init_sync mdl_init_status mdl_step_inv mdl_step_sync mdl_step_status)

lemma mdl_reachable_both: "mdl_reachable st \<Longrightarrow> mdl_inv st \<and> wait_sync st"
  using mdl_reachable_all by blast

lemmas mdl_reachable_inv = mdl_reachable_both [THEN conjunct1]
  and mdl_reachable_sync = mdl_reachable_both [THEN conjunct2]

text \<open>Only finitely many contexts wait.\<close>

lemma mdl_reachable_finite:
  assumes "mdl_reachable st"
  shows "finite {c. active st c}"
proof -
  have i: "mdl_inv st" "wait_sync st" using mdl_reachable_both [OF assms] by auto
  then have l: "links (tickets st) (waits st) (hold_set (mdl_locks st)) (wait_set (mdl_locks st))
      (\<lambda>c. held (contexts st c)) (\<lambda>c. pending (contexts st c))" by (simp add: mdl_inv_def mdl_links_def)
  have "c \<in> (\<lambda>t. m_ctx (tickets st t)) ` {..<next_ticket st}" if "active st c" for c
  proof -
    have "pending (contexts st c) \<noteq> None" "waits st c = EMPTY"
      using that i(2) by (metis active_def wait_sync_def, simp add: active_def)
    then obtain t where t: "pending (contexts st c) = Some t" "waits st c = EMPTY" by blast
    have "t \<in> tickets_at (mdl_locks st) (m_lock (tickets st t))"
      using linksD(8) [OF l t(1)] t(2) hold_wait_tickets_at [of "mdl_locks st" "m_lock (tickets st t)"] by auto
    then have "t < next_ticket st" using tickets_at_lt i(1) by (auto simp: mdl_inv_def)
    then show ?thesis using linksD(6) [OF l t(1)] by force
  qed
  then have "{c. active st c} \<subseteq> (\<lambda>t. m_ctx (tickets st t)) ` {..<next_ticket st}" by blast
  then show ?thesis by (rule finite_subset) simp
qed

end
