(* ===== verification/Mdl_Example.thy ===== *)
theory Mdl_Example
  imports Mdl_Session
begin

text \<open>
  A run of three sessions on the table \<^verbatim>\<open>d.t\<close>, evaluated step by step: session 1 gets a
  shared read lock, session 5 a shared write lock, session 6 waits for an exclusive lock; then 1
  and 5 release, and 6 is granted the lock.
\<close>

definition example_key :: string where
  "example_key = [CHR 0x02, CHR ''d'', CHR 0x00, CHR ''t'', CHR 0x00]"

definition example_request :: "enum_mdl_type \<Rightarrow> enum_mdl_duration \<Rightarrow> MDL_request" where
  "example_request ty d = \<lparr>req_key = example_key, req_type = ty, req_duration = d\<rparr>"

definition example_start :: mdl_state where
  "example_start = mdl_init 1 True (\<lambda>c. c)"

fun example_tickets :: "ticket \<Rightarrow> (enum_mdl_type \<times> context_id) list \<Rightarrow> ticket_store \<Rightarrow> ticket_store" where
  "example_tickets n [] tk = tk"
| "example_tickets n ((ty, c) # xs) tk =
     example_tickets (Suc n) xs (tk(n := \<lparr>m_type = ty, m_ctx = c, m_lock = example_key, m_fast_lane = None\<rparr>))"

definition example_list :: "(ticket \<times> enum_mdl_type) list \<Rightarrow> Ticket_list" where
  "example_list ts = fold (\<lambda>(t, ty) l. l\<lparr>m_list := m_list l @ [t], m_bitmap := m_bitmap l OR MDL_BIT ty,
     m_type_counters := (m_type_counters l)(ty := m_type_counters l ty + 1)\<rparr>) ts Ticket_list_init"

definition example_lock :: "(ticket \<times> enum_mdl_type) list \<Rightarrow> (ticket \<times> enum_mdl_type) list \<Rightarrow> MDL_lock" where
  "example_lock g w = \<lparr>lock_key = example_key, m_granted = example_list g, m_waiting = example_list w, m_hog_lock_count = 0,
     m_fast_road = Fast_road_init, m_strategy = Some MDL_object_lock\<rparr>"

definition example_context :: "context_id \<Rightarrow> (enum_mdl_duration \<Rightarrow> ticket list) \<Rightarrow> (MDL_request \<times> ticket) option \<Rightarrow> MDL_context" where
  "example_context c ts w = \<lparr>m_tickets = ts, m_waiting_for = map_option snd w, m_deadlock_overweight = 0,
     m_thread_id = c, acquiring = w, wait_status = EMPTY\<rparr>"

definition example_state ::
  "(enum_mdl_type \<times> context_id) list \<Rightarrow> MDL_lock \<Rightarrow> (context_id \<Rightarrow> MDL_context) \<Rightarrow> mdl_state" where
  "example_state tys lk cs = example_start\<lparr>tickets := example_tickets 0 tys (tickets example_start), next_ticket := length tys,
     mdl_locks := (mdl_locks example_start)(example_key := Some lk), contexts := cs\<rparr>"

definition example1 :: mdl_state where
  "example1 = example_state [(MDL_SHARED_READ, 1)] (example_lock [(0, MDL_SHARED_READ)] [])
     ((contexts example_start)(1 := example_context 1 ((\<lambda>_. [])(MDL_TRANSACTION := [0])) None))"

definition example2 :: mdl_state where
  "example2 = example_state [(MDL_SHARED_READ, 1), (MDL_SHARED_WRITE, 5)] (example_lock [(0, MDL_SHARED_READ), (1, MDL_SHARED_WRITE)] [])
     ((contexts example1)(5 := example_context 5 ((\<lambda>_. [])(MDL_STATEMENT := [1])) None))"

definition example3 :: mdl_state where
  "example3 = example_state [(MDL_SHARED_READ, 1), (MDL_SHARED_WRITE, 5), (MDL_EXCLUSIVE, 6)]
     (example_lock [(0, MDL_SHARED_READ), (1, MDL_SHARED_WRITE)] [(Suc (Suc 0), MDL_EXCLUSIVE)])
     ((contexts example2)(6 := example_context 6 (\<lambda>_. []) (Some (example_request MDL_EXCLUSIVE MDL_TRANSACTION, Suc (Suc 0)))))"

definition example4 :: mdl_state where
  "example4 = example3\<lparr>mdl_locks := (mdl_locks example_start)(example_key :=
      Some (example_lock [(1, MDL_SHARED_WRITE)] [(Suc (Suc 0), MDL_EXCLUSIVE)]
        \<lparr>m_granted := (example_list [(1, MDL_SHARED_WRITE)])
          \<lparr>m_type_counters := ((\<lambda>_. 0)(MDL_SHARED_READ := 1, MDL_SHARED_WRITE := 1))(MDL_SHARED_READ := 0)\<rparr>\<rparr>)),
     contexts := (contexts example3)(1 := example_context 1 ((\<lambda>_. [])(MDL_TRANSACTION := [])) None)\<rparr>"

definition example5 :: mdl_state where
  "example5 = release_lock 10 example4 5 MDL_STATEMENT 1"

lemma example_key_facts [simp]: "namespace_of example_key = TABLE" "example_key \<noteq> backup_key" "backup_key \<noteq> example_key" "example_key \<noteq> []"
  by (code_simp, code_simp, code_simp, code_simp)

lemmas mdl_exec = acquire_lock_begin_def try_acquire_lock_impl_def find_ticket_def new_ticket_def
  map_try_acquire_lock_def lk_try_acquire_lock_def fr_try_acquire_lock_def lf_hash_initializer_def
  lf_alloc_constructor_def upd_ctx_def store_lock_def set_tickets_def lk_close_def fr_close_def
  Fast_road_init_def Ticket_list_init_def add_ticket_def is_enabled_def supported_type_def Let_def
  can_grant_lock_def MDL_lock_backup_def fr_enable_def will_wait_for_def is_incompatible_when_granted_def is_incompatible_when_waiting_def
  ticket_has_stronger_or_equal_type_def ticket_strategy_def has_stronger_or_equal_type_def
  object_granted_eval object_waiting_eval MDL_BIT_def
lemmas example_defs = example_request_def mdl_init_def example_start_def example_state_def example_list_def
  example_lock_def example_context_def

lemmas example_states = example1_def example2_def example3_def

lemma example_step1: "acquire_lock_begin example_start 1 (example_request MDL_SHARED_READ MDL_TRANSACTION) True True (Some lf_alloc_constructor) = (Acq_ticket 0, example1)"
  by (simp add: mdl_exec example_defs example_states)

lemma example_step2: "acquire_lock_begin example1 5 (example_request MDL_SHARED_WRITE MDL_STATEMENT) True True None = (Acq_ticket 1, example2)"
  by (simp add: mdl_exec example_defs example_states)

lemma example_step3: "acquire_lock_begin example2 6 (example_request MDL_EXCLUSIVE MDL_TRANSACTION) True True None = (Acq_wait (Suc (Suc 0)), example3)"
  by (simp add: mdl_exec example_defs example_states)

lemmas mdl_exec_release = release_lock_def lk_release_def fr_try_release_def lk_remove_ticket_def
  remove_ticket_def unlink_def lk_is_empty_def tl_is_empty_def reschedule_waiters_def skip_hogs_def
  set_status_def grant_waiter_def fr_reopen_def

lemma example_step4: "release_lock 10 example3 1 MDL_TRANSACTION 0 = example4"
  by (simp add: mdl_exec mdl_exec_release example_defs example_states example4_def)

lemma example_raw_ok [simp]: "raw_ok (Some lf_alloc_constructor)" "raw_ok None"
  by (simp_all add: raw_ok_def lk_clean_def lf_alloc_constructor_def Fast_road_init_def)

lemmas request_exec = request_ok_def lock_room_def weaker_ok_def key_strategy_def all_tickets_def
  fr_iterate_def held_def

lemma example_requests:
  "request_ok example_start 1 (example_request MDL_SHARED_READ MDL_TRANSACTION)"
  "request_ok example1 5 (example_request MDL_SHARED_WRITE MDL_STATEMENT)"
  "request_ok example2 6 (example_request MDL_EXCLUSIVE MDL_TRANSACTION)"
  by (simp_all add: request_exec mdl_exec example_defs example_states)

lemma example_idle:
  "acquiring (contexts example_start c) = None" "acquiring (contexts example1 c) = None"
  "acquiring (contexts example2 c) = None" "c \<noteq> 6 \<Longrightarrow> acquiring (contexts example3 c) = None"
  "c \<noteq> 6 \<Longrightarrow> acquiring (contexts example4 c) = None"
  by (simp_all add: example_defs example_states example4_def)

lemma example_held:
  "m_tickets (contexts example3 1) = (\<lambda>_. [])(MDL_TRANSACTION := [0])"
  "m_tickets (contexts example3 5) = (\<lambda>_. [])(MDL_STATEMENT := [1])"
  "m_tickets (contexts example4 5) = (\<lambda>_. [])(MDL_STATEMENT := [1])"
  by (simp_all add: example_defs example_states example4_def)

lemma example_reachable:
  "mdl_reachable example_start" "mdl_reachable example1" "mdl_reachable example2"
  "mdl_reachable example3" "mdl_reachable example4" "mdl_reachable example5"
proof -
  show r0: "mdl_reachable example_start" unfolding example_start_def by (rule mdl_start) simp
  show r1: "mdl_reachable example1"
    by (rule mdl_next [OF r0 step_acquire [OF example_idle(1) example_requests(1) example_raw_ok(1) example_step1]])
  show r2: "mdl_reachable example2"
    by (rule mdl_next [OF r1 step_acquire [OF example_idle(2) example_requests(2) example_raw_ok(2) example_step2]])
  show r3: "mdl_reachable example3"
    by (rule mdl_next [OF r2 step_acquire [OF example_idle(3) example_requests(3) example_raw_ok(2) example_step3]])
  show r4: "mdl_reachable example4"
    unfolding example_step4 [symmetric] by (rule mdl_next [OF r3 step_release]) (simp_all add: example_idle example_held [simplified])
  show "mdl_reachable example5"
    unfolding example5_def by (rule mdl_next [OF r4 step_release]) (simp_all add: example_idle example_held [simplified])
qed

lemma example_tickets_of:
  "tickets example3 0 = \<lparr>m_type = MDL_SHARED_READ, m_ctx = 1, m_lock = example_key, m_fast_lane = None\<rparr>"
  "tickets example3 1 = \<lparr>m_type = MDL_SHARED_WRITE, m_ctx = 5, m_lock = example_key, m_fast_lane = None\<rparr>"
  "tickets example3 (Suc (Suc 0)) = \<lparr>m_type = MDL_EXCLUSIVE, m_ctx = 6, m_lock = example_key, m_fast_lane = None\<rparr>"
  "tickets example4 = tickets example3" "waits example4 = (\<lambda>_. EMPTY)"
  by (simp_all add: example_defs example_states example4_def)

lemma example_locks:
  "mdl_locks example3 example_key =
     Some (example_lock [(0, MDL_SHARED_READ), (1, MDL_SHARED_WRITE)] [(Suc (Suc 0), MDL_EXCLUSIVE)])"
  "\<exists>lk. mdl_locks example4 example_key = Some lk \<and> m_list (m_granted lk) = [1] \<and> m_list (m_waiting lk) = [Suc (Suc 0)]"
  by (simp_all add: example_defs example_states example4_def mdl_exec)

text \<open>The release by session 5 hands the lock to session 6.\<close>

lemma example_last_release:
  "waits example5 6 = GRANTED"
  "\<exists>lk. mdl_locks example5 example_key = Some lk \<and> m_list (m_granted lk) = [Suc (Suc 0)] \<and> m_list (m_waiting lk) = [] \<and>
     fr_iterate (m_fast_road lk) = []"
  by (simp_all add: example5_def mdl_exec mdl_exec_release example_defs example_states example4_def fr_iterate_def)

text \<open>
  Another continuation of the second state: sessions 1 and 5 both ask for the exclusive lock, and
  each waits for the other.
\<close>

definition example6 :: mdl_state where
  "example6 = example_state [(MDL_SHARED_READ, 1), (MDL_SHARED_WRITE, 5), (MDL_EXCLUSIVE, 1)]
     (example_lock [(0, MDL_SHARED_READ), (1, MDL_SHARED_WRITE)] [(Suc (Suc 0), MDL_EXCLUSIVE)])
     ((contexts example2)(1 := example_context 1 ((\<lambda>_. [])(MDL_TRANSACTION := [0]))
        (Some (example_request MDL_EXCLUSIVE MDL_TRANSACTION, Suc (Suc 0)))))"

definition example7 :: mdl_state where
  "example7 = example_state [(MDL_SHARED_READ, 1), (MDL_SHARED_WRITE, 5), (MDL_EXCLUSIVE, 1), (MDL_EXCLUSIVE, 5)]
     (example_lock [(0, MDL_SHARED_READ), (1, MDL_SHARED_WRITE)]
       [(Suc (Suc 0), MDL_EXCLUSIVE), (Suc (Suc (Suc 0)), MDL_EXCLUSIVE)])
     ((contexts example6)(5 := example_context 5 ((\<lambda>_. [])(MDL_STATEMENT := [1]))
        (Some (example_request MDL_EXCLUSIVE MDL_TRANSACTION, Suc (Suc (Suc 0))))))"

lemmas example_states2 = example_states example6_def example7_def

lemma example_step6: "acquire_lock_begin example2 1 (example_request MDL_EXCLUSIVE MDL_TRANSACTION) True True None = (Acq_wait (Suc (Suc 0)), example6)"
  by (simp add: mdl_exec example_defs example_states2 fun_upd_twist)

lemma example_step7: "acquire_lock_begin example6 5 (example_request MDL_EXCLUSIVE MDL_TRANSACTION) True True None = (Acq_wait (Suc (Suc (Suc 0))), example7)"
  by (simp add: mdl_exec example_defs example_states2 fun_upd_twist)

lemma example_reachable2: "mdl_reachable example6" "mdl_reachable example7"
proof -
  have r: "request_ok example2 1 (example_request MDL_EXCLUSIVE MDL_TRANSACTION)"
    "request_ok example6 5 (example_request MDL_EXCLUSIVE MDL_TRANSACTION)" "acquiring (contexts example6 5) = None"
    by (simp_all add: request_exec mdl_exec example_defs example_states2)
  show r6: "mdl_reachable example6"
    by (rule mdl_next [OF example_reachable(3) step_acquire [OF example_idle(3) r(1) example_raw_ok(2) example_step6]])
  show "mdl_reachable example7"
    by (rule mdl_next [OF r6 step_acquire [OF r(3,2) example_raw_ok(2) example_step7]])
qed

lemma example_waits_for:
  "waits_for example7 5 = [1]" "waits_for example7 1 = [5]"
  "m_waiting_for (contexts example7 5) = Some (Suc (Suc (Suc 0)))" "m_waiting_for (contexts example7 1) = Some (Suc (Suc 0))"
  "waits example7 = (\<lambda>_. EMPTY)"
  by (simp_all add: waits_for_def blockers_def mdl_exec example_defs example_states2)

lemma example_deadlock:
  "visit_subgraph MAX_SEARCH_DEPTH example7 5 (new_visitor 5) =
     (True, \<lparr>m_start_node = 5, m_victim = Some 5, m_current_search_depth = 0, m_found_deadlock = True\<rparr>)"
proof -
  have wo: "waiting_ok example7"
    using mdl_reachable_both [OF example_reachable2(2)] mdl_inv_waiting_ok by blast
  have w: "get_deadlock_weight example7 5 = 100" "get_deadlock_weight example7 1 = 100" "active example7 5" "active example7 1"
    by (simp_all add: get_deadlock_weight_def ticket_deadlock_weight_def DEADLOCK_WEIGHT_DDL_def active_def
        example_defs example_states2)
  have d: "MAX_SEARCH_DEPTH = Suc (Suc 30)" by (simp add: MAX_SEARCH_DEPTH_def)
  show ?thesis unfolding d visit_subgraph_Suc [OF wo] example_waits_for
    by (simp add: visit_subgraph_Suc [OF wo] w example_waits_for [simplified] w [simplified] enter_node_def leave_node_def
        opt_change_victim_to_def inspect_edge_def new_visitor_def d Let_def)
qed

end
