(* ===== verification/Mdl_Race.thy ===== *)
theory Mdl_Race
  imports Mdl_Example
begin

text \<open>
  The race of a client that disconnects with the grant of the lock its session waits for. While
  \<^verbatim>\<open>acquire_lock()\<close> waits it looks from time to time whether the client is still there, and if not sets
  its variable \<^verbatim>\<open>wait_status\<close> to \<^verbatim>\<open>TIMEOUT\<close> and leaves the loop. The wait slot stays open, so that another
  session can grant the ticket before it is taken out of the queue of the lock.
\<close>

text \<open>
  The run: session 1 reads the table; session 6 waits for \<^verbatim>\<open>MDL_EXCLUSIVE\<close> and session 7, behind it, to
  read. The client of session 6 goes, session 1 releases its lock and so grants the table to session 6, and
  session 6 ends its wait with \<^verbatim>\<open>abort_wait()\<close>. Session 7 gets the table. Session 8 then asks for
  \<^verbatim>\<open>MDL_EXCLUSIVE\<close> and times out.
\<close>

definition read_request :: MDL_request where
  "read_request = example_request MDL_SHARED_READ MDL_TRANSACTION"

definition drop_request :: MDL_request where
  "drop_request = example_request MDL_EXCLUSIVE MDL_TRANSACTION"

definition race2 :: mdl_state where
  "race2 = snd (acquire_lock_begin example1 6 drop_request True True None)"

definition race3 :: mdl_state where
  "race3 = snd (acquire_lock_begin race2 7 read_request True True None)"

definition race4 :: mdl_state where
  "race4 = acquire_wait race3 6 False False False"

definition race5 :: mdl_state where
  "race5 = release_lock 10 race4 1 MDL_TRANSACTION 0"

definition race6 :: mdl_state where
  "race6 = snd (acquire_lock_end 10 race5 6)"

definition race7 :: mdl_state where
  "race7 = snd (acquire_lock_begin race6 8 drop_request True True None)"

definition race8 :: mdl_state where
  "race8 = acquire_wait race7 8 False True True"

definition race9 :: mdl_state where
  "race9 = snd (acquire_lock_end 10 race8 8)"

lemmas race_exec = mdl_exec mdl_exec_release example_defs example_states acquire_wait_def timed_wait_end_def
  acquire_lock_end_def done_waiting_for_def lk_abort_wait_def reset_status_def read_request_def drop_request_def

lemmas race_states = race2_def race3_def race4_def race5_def race6_def race7_def race8_def race9_def

lemma race_waits:
  "acquire_lock_begin example1 6 drop_request True True None = (Acq_wait (Suc 0), race2)"
  "acquire_lock_begin race2 7 read_request True True None = (Acq_wait (Suc (Suc 0)), race3)"
  "acquire_lock_begin race6 8 drop_request True True None = (Acq_wait (Suc (Suc (Suc 0))), race7)"
  by (simp_all add: race_states race_exec)

lemma race_requests:
  "request_ok example1 6 drop_request" "request_ok race2 7 read_request" "request_ok race6 8 drop_request"
  by (simp_all add: request_exec race_states race_exec)

lemma race_contexts:
  "acquiring (contexts example1 6) = None" "acquiring (contexts race2 7) = None" "acquiring (contexts race6 8) = None"
  "acquiring (contexts race3 6) \<noteq> None" "wait_status (contexts race3 6) = EMPTY"
  "acquiring (contexts race4 1) = None" "0 \<in> set (m_tickets (contexts race4 1) MDL_TRANSACTION)"
  "acquiring (contexts race5 6) \<noteq> None" "wait_status (contexts race5 6) = TIMEOUT" "waits race5 6 = GRANTED"
  "acquiring (contexts race7 8) \<noteq> None" "wait_status (contexts race7 8) = EMPTY"
  "acquiring (contexts race8 8) \<noteq> None" "wait_status (contexts race8 8) = TIMEOUT" "waits race8 8 = TIMEOUT"
  by (simp_all add: race_states race_exec)

lemma race_reachable: "mdl_reachable race4" "mdl_reachable race5"
proof -
  have "mdl_reachable race2" by (rule mdl_next [OF example_reachable(2) step_acquire [OF race_contexts(1) race_requests(1) example_raw_ok(2) race_waits(1)]])
  then have "mdl_reachable race3" by (rule mdl_next [OF _ step_acquire [OF race_contexts(2) race_requests(2) example_raw_ok(2) race_waits(2)]])
  then show 4: "mdl_reachable race4" unfolding race4_def by (rule mdl_next [OF _ step_wait [OF race_contexts(4,5)]])
  show "mdl_reachable race5" unfolding race5_def by (rule mdl_next [OF 4 step_release [OF race_contexts(6,7)]])
qed

lemma race_any_reachable: "mdl_any_reachable race9"
proof -
  have 6: "mdl_any_reachable race6"
    by (rule any_next [OF mdl_reachable_any [OF race_reachable(2)] any_race [OF race_contexts(8), of 10 "fst (acquire_lock_end 10 race5 6)"]])
      (simp_all add: disconnect_race_def race_contexts(9,10) [simplified] race6_def)
  have 7: "mdl_any_reachable race7"
    by (rule any_next [OF 6 any_step [OF step_acquire [OF race_contexts(3) race_requests(3) example_raw_ok(2) race_waits(3)]]])
  have 8: "mdl_any_reachable race8" unfolding race8_def by (rule any_next [OF 7 any_step [OF step_wait [OF race_contexts(11,12)]]])
  show ?thesis
    by (rule any_next [OF 8 any_step [OF step_acquire_end [OF race_contexts(13), of 10 "fst (acquire_lock_end 10 race8 8)"]]])
      (simp_all add: disconnect_race_def race_contexts(14,15) [simplified] race9_def)
qed

text \<open>
  C30: A session whose client disconnects while another session grants its lock damages the lock object:
  \<^verbatim>\<open>abort_wait()\<close> takes a granted ticket out of the waiting list. There is a state, reached from the start by steps
  of the sessions, in which the only holder of a table has \<^verbatim>\<open>MDL_SHARED_READ\<close>, no request waits, and yet
  another session that asks for \<^verbatim>\<open>MDL_SHARED_READ\<close> is refused.
\<close>

theorem disconnect_race_damages_lock:
  "\<exists>st lk. mdl_any_reachable st \<and> mdl_locks st example_key = Some lk \<and> m_list (m_waiting lk) = [] \<and>
     map (\<lambda>t. m_type (tickets st t)) (holders lk) = [MDL_SHARED_READ] \<and>
     fst (acquire_lock_begin st 9 read_request False True None) = Acq_conflict"
proof (intro exI conjI)
  show "mdl_any_reachable race9" by (rule race_any_reachable)
  show "mdl_locks race9 example_key = Some (the (mdl_locks race9 example_key))"
    "m_list (m_waiting (the (mdl_locks race9 example_key))) = []"
    "map (\<lambda>t. m_type (tickets race9 t)) (holders (the (mdl_locks race9 example_key))) = [MDL_SHARED_READ]"
    "fst (acquire_lock_begin race9 9 read_request False True None) = Acq_conflict"
    by (simp_all add: race_states race_exec holders_def fr_iterate_def)
qed

end
