(* ===== verification/Mdl_Theorems.thy ===== *)
theory Mdl_Theorems
  imports Mdl_Race
begin

text \<open>
  What the metadata locking subsystem guarantees: mutual exclusion in every reachable state, the
  bookkeeping of bitmaps, counters and fast lanes, waking up of waiters, and the effect of the
  operations of a session. The reachable states are those of \<open>mdl_reachable\<close>: reached by any steps
  but the end of \<^verbatim>\<open>acquire_lock()\<close> in the \<open>disconnect_race\<close>, after which the lock is damaged.
\<close>

subsection \<open>Priorities of waiting requests\<close>

definition waiting_rank :: "nat list" where
  "waiting_rank = [0, 1, 0, 1, 3, 1, 2, 4, 4, 5, 0, 0, 0, 0, 0, 0]"

lemma waiting_acyclic:
  assumes "s \<noteq> MDL_backup_lock" "is_incompatible_when_waiting s u t" "t < type_end s" "u < type_end s"
  shows "waiting_rank ! t < waiting_rank ! u"
proof -
  have "\<forall>t\<in>set [0..<10]. \<forall>u\<in>set [0..<10]. if is_incompatible_when_waiting MDL_scoped_lock u t
      then waiting_rank ! t < waiting_rank ! u else True"
    "\<forall>t\<in>set [0..<10]. \<forall>u\<in>set [0..<10]. if is_incompatible_when_waiting MDL_object_lock u t
      then waiting_rank ! t < waiting_rank ! u else True"
    by code_simp+
  then show ?thesis using assms unfolding ball_upt by (cases s) (auto split: if_splits)
qed

lemma no_holder_grants:
  assumes "lock_inv tk s lk" "s \<noteq> MDL_backup_lock" "holders lk = []" "m_list (m_waiting lk) \<noteq> []"
    "\<forall>w\<in>set (m_list (m_waiting lk)). ws (m_ctx (tk w)) = EMPTY"
    "skip \<longrightarrow> m_bitmap (m_waiting lk) AND NOT (hog_lock_types_bitmap s) \<noteq> 0"
  shows "\<exists>w\<in>set (m_list (m_waiting lk)). grants s skip tk ws lk w"
proof -
  have core: "lk_core tk s lk" using assms(1) by (simp add: lock_inv_def)
  have g: "m_list (m_granted lk) = []" using assms(3) by (simp add: holders_def)
  show ?thesis
  proof (cases skip)
    case True
    then obtain w where "w \<in> set (m_list (m_waiting lk))" "\<not> is_hog s tk w"
      using assms(6) bitmap_and_row [OF lk_coreD(3) [OF core], of "NOT (hog_lock_types_bitmap s)"]
      by (auto simp: list_ex_iff is_hog_def bit_simps)
    then show ?thesis using assms(5) g True by (auto simp: grants_def can_grant_def)
  next
    case False
    let ?r = "\<lambda>w. waiting_rank ! m_type (tk w)"
    obtain w where w: "w \<in> set (m_list (m_waiting lk))" "\<forall>v\<in>set (m_list (m_waiting lk)). ?r v \<le> ?r w"
      using obtains_MAX [of "set (m_list (m_waiting lk))" ?r] assms(4) by (metis (no_types) List.finite_set Max_ge finite_imageI imageI set_empty)
    have "\<not> is_incompatible_when_waiting s (m_type (tk v)) (m_type (tk w))" if v: "v \<in> set (m_list (m_waiting lk))" for v
    proof
      assume "is_incompatible_when_waiting s (m_type (tk v)) (m_type (tk w))"
      moreover have "m_type (tk v) < type_end s" "m_type (tk w) < type_end s"
        using lk_coreD(7) [OF core] v w(1) by (auto simp: lk_sets)
      ultimately have "?r w < ?r v" using waiting_acyclic [OF assms(2)] by blast
      then show False using w(2) v by fastforce
    qed
    then show ?thesis using w(1) assms(5) g False by (auto simp: grants_def can_grant_def)
  qed
qed

subsection \<open>A release outside the fast lanes\<close>

lemma slow_release:
  assumes "mdl_inv st" "t \<in> set (m_tickets (contexts st c) d)" "m_fast_lane (tickets st t) = None"
    "mdl_locks (release_lock mx st c d t) (m_lock (tickets st t)) = Some lk'"
    "mdl_locks st (m_lock (tickets st t)) = Some lk"
  defines "s \<equiv> key_strategy (m_lock (tickets st t))" and "lk1 \<equiv> queue_remove_ticket (tickets st) lk Granted_queue t"
    and "ws' \<equiv> waits (release_lock mx st c d t)"
  shows "lock_inv (tickets st) s lk'" "\<exists>gs. resched_frame (tickets st) (waits st) lk1 ws' lk' gs \<and> hogs_counted mx s (tickets st) lk lk' gs"
    "\<not> lk_is_empty lk1 \<or> s = MDL_backup_lock \<and> m_list (m_waiting lk') = []"
    "\<And>w. w \<in> set (m_list (m_waiting lk')) \<Longrightarrow> \<not> grants s (skip_hogs mx s lk1) (tickets st) ws' lk' w"
proof -
  let ?k = "m_lock (tickets st t)" and ?tk = "tickets st"
  obtain lk0 where lk0: "mdl_locks st ?k = Some lk0" "t \<in> set (holders lk0)" "m_ctx (?tk t) = c"
      "lock_inv ?tk (key_strategy ?k) lk0" "lock_key lk0 = ?k"
    by (rule held_ticket [OF assms(1) held_in [OF assms(2)]])
  have e: "lk0 = lk" using lk0(1) assms(5) by simp
  note lk = lk0 [unfolded e, folded s_def]
  have t: "t \<in> set (queue_of lk Granted_queue)" using lane_iff(2) [OF lk(4,2)] assms(3) by simp
  obtain ws lk'' where r: "lk_remove_ticket mx ?tk (waits st) lk Granted_queue t = (ws, lk'')" by (rule prod.exhaust)
  then have "lk_release mx ?tk (waits st) lk t = (ws, lk'')" using assms(3) by (simp add: lk_release_def fr_try_release_def)
  then have rl: "release_lock mx st c d t = upd_ctx (store_lock (st\<lparr>waits := ws\<rparr>) ?k lk'') c (set_tickets d (remove1 t))"
    using lk(1) by (simp add: release_lock_def)
  have f: "lk'' = lk'" "m_strategy lk' \<noteq> None" "ws' = ws" using assms(4) by (auto simp: rl ws'_def split: if_splits)
  have se: "s = key_strategy (lock_key lk)" by (simp add: lk(5) s_def)
  from lk_remove_ticket_inv [OF r lk(4) t se, folded lk1_def] f
  show inv: "lock_inv ?tk s lk'" and fr: "\<exists>gs. resched_frame ?tk (waits st) lk1 ws' lk' gs \<and> hogs_counted mx s ?tk lk lk' gs"
    by (auto simp: lk_clean_def)
  show em: "\<not> lk_is_empty lk1 \<or> s = MDL_backup_lock \<and> m_list (m_waiting lk') = []"
  proof (cases "lk_is_empty lk1")
    case True
    then have "namespace_of (lock_key lk) = BACKUP"
      using r f(1,2) by (auto simp: lk_remove_ticket_def lk1_def Let_def split: if_splits)
    moreover have "m_list (m_waiting lk') = []" using fr True by (auto simp: resched_frame_def lk_is_empty_def tl_is_empty_def)
    ultimately show ?thesis using se key_strategy_backup by simp
  qed simp
  show "\<not> grants s (skip_hogs mx s lk1) ?tk ws' lk' w" if "w \<in> set (m_list (m_waiting lk'))" for w
    using lk_remove_ticket_inv [OF r lk(4) t se, folded lk1_def] f em that by (auto simp: lk_clean_def)
qed

subsection \<open>Guarantees in every reachable state\<close>



text \<open>
  C12: Bookkeeping. In every reachable state and for every lock: the bitmaps of the granted and of
  the waiting list are exactly the types in the list, each type counter is the number of tickets of
  that type, and every fast lane is closed as often as there are tickets whose type does not use
  the fast lanes, and is empty unless that number is 0.
  (Reachable: by all steps but the end of \<^verbatim>\<open>acquire_lock()\<close> in the \<open>disconnect_race\<close>.)
\<close>

theorem mdl_lock_bookkeeping:
  assumes "mdl_reachable st" "mdl_locks st k = Some lk" "l = m_granted lk \<or> l = m_waiting lk"
  shows "(\<forall>ty. bit (m_bitmap l) ty \<longleftrightarrow> (\<exists>t\<in>set (m_list l). m_type (tickets st t) = ty)) \<and>
    (\<forall>ty. unat (m_type_counters l ty) = length (filter (\<lambda>t. m_type (tickets st t) = ty) (m_list l))) \<and>
    (\<forall>i<length (lanes (m_fast_road lk)).
       unat (m_close_count (lanes (m_fast_road lk) ! i)) =
         length (filter (\<lambda>t. \<not> supported_type (m_fast_road lk) (m_type (tickets st t)))
           (m_list (m_granted lk) @ m_list (m_waiting lk))) \<and>
       (m_close_count (lanes (m_fast_road lk) ! i) \<noteq> 0 \<longrightarrow> lane_list (lanes (m_fast_road lk) ! i) = []))"
proof (intro conjI)
  have inv: "lock_inv (tickets st) (key_strategy k) lk"
    using mdl_reachable_inv [OF assms(1)] assms(2) locks_okD(2) by (auto simp: mdl_inv_def)
  then have tl: "tl_inv (tickets st) l" and fr: "fr_inv (tickets st) (heavy (tickets st) lk) (m_fast_road lk)"
    using assms(3) by (auto simp: lock_inv_def dest: lk_coreD(2,3))
  show "\<forall>ty. bit (m_bitmap l) ty \<longleftrightarrow> (\<exists>t\<in>set (m_list l). m_type (tickets st t) = ty)"
    using tl_inv_bitmap [OF tl] by blast
  have "count_type (tickets st) (m_list l) ty < 2 ^ 32" for ty
    using tl le_less_trans [OF length_filter_le] unfolding tl_inv_def count_type_def by blast
  then show "\<forall>ty. unat (m_type_counters l ty) = length (filter (\<lambda>t. m_type (tickets st t) = ty) (m_list l))"
    using tl by (simp add: tl_inv_def count_type_def unat_of_nat)
  show "\<forall>i<length (lanes (m_fast_road lk)).
       unat (m_close_count (lanes (m_fast_road lk) ! i)) =
         length (filter (\<lambda>t. \<not> supported_type (m_fast_road lk) (m_type (tickets st t)))
           (m_list (m_granted lk) @ m_list (m_waiting lk))) \<and>
       (m_close_count (lanes (m_fast_road lk) ! i) \<noteq> 0 \<longrightarrow> lane_list (lanes (m_fast_road lk) ! i) = [])"
  proof (intro allI impI)
    fix i
    assume "i < length (lanes (m_fast_road lk))"
    then have "m_close_count (lanes (m_fast_road lk) ! i) = of_nat (heavy (tickets st) lk)" "heavy (tickets st) lk < 2 ^ 32"
      "0 < heavy (tickets st) lk \<longrightarrow> lane_list (lanes (m_fast_road lk) ! i) = []"
      using fr by (auto simp: fr_inv_def)
    then show "unat (m_close_count (lanes (m_fast_road lk) ! i)) =
         length (filter (\<lambda>t. \<not> supported_type (m_fast_road lk) (m_type (tickets st t)))
           (m_list (m_granted lk) @ m_list (m_waiting lk))) \<and>
       (m_close_count (lanes (m_fast_road lk) ! i) \<noteq> 0 \<longrightarrow> lane_list (lanes (m_fast_road lk) ! i) = [])"
      unfolding heavy_def [symmetric] by (cases "heavy (tickets st) lk = 0") (simp_all add: unat_of_nat)
  qed
qed

theorem mdl_lock_bookkeeping_witness:
  "\<exists>lk. mdl_locks example3 example_key = Some lk \<and>
     unat (m_type_counters (m_waiting lk) MDL_EXCLUSIVE) = length (filter (\<lambda>t. m_type (tickets example3 t) = MDL_EXCLUSIVE) (m_list (m_waiting lk)))"
  using mdl_lock_bookkeeping [OF example_reachable(4) example_locks(1), of "m_waiting (example_lock [(0, MDL_SHARED_READ), (1, MDL_SHARED_WRITE)] [(Suc (Suc 0), MDL_EXCLUSIVE)])"]
    example_locks(1) by blast

text \<open>
  C3: No lost wakeup. After a session has released a ticket that is not in a fast lane, every
  request that still waits for the key with an open wait slot is one that cannot be granted, as long
  as the lock has not reached the limit of \<^verbatim>\<open>max_write_lock_count\<close> consecutive grants.
  (Reachable: by all steps but the end of \<^verbatim>\<open>acquire_lock()\<close> in the \<open>disconnect_race\<close>.)
\<close>

theorem release_no_lost_wakeup:
  assumes "mdl_reachable st" "t \<in> set (m_tickets (contexts st c) d)" "m_fast_lane (tickets st t) = None"
    "k = m_lock (tickets st t)" "mdl_locks st k = Some lk" "m_hog_lock_count lk < mx"
    "mdl_locks (release_lock mx st c d t) k = Some lk'" "w \<in> set (m_list (m_waiting lk'))"
    "waits (release_lock mx st c d t) (m_ctx (tickets st w)) = EMPTY"
  shows "\<not> can_grant_lock (key_strategy k) (tickets st) lk' (m_type (tickets st w)) (m_ctx (tickets st w)) False"
proof -
  let ?lk1 = "queue_remove_ticket (tickets st) lk Granted_queue t"
  note s = slow_release [OF mdl_reachable_inv [OF assms(1)] assms(2,3), folded assms(4), OF assms(7,5)]
  have "\<not> skip_hogs mx (key_strategy k) ?lk1" using assms(6) by (auto simp: skip_hogs_def dest: leD)
  moreover have "tl_inv (tickets st) (m_granted lk')" "tl_inv (tickets st) (m_waiting lk')"
    using s(1) by (auto simp: lock_inv_def dest: lk_coreD(2,3))
  ultimately show ?thesis
    using s(4) [OF assms(8)] assms(9) can_grant_lock_iff by (auto simp: grants_def)
qed

theorem release_no_lost_wakeup_witness:
  "\<exists>lk'. mdl_locks (release_lock 10 example3 1 MDL_TRANSACTION 0) example_key = Some lk' \<and>
     m_list (m_waiting lk') = [Suc (Suc 0)] \<and>
     \<not> can_grant_lock (key_strategy example_key) (tickets example3) lk' MDL_EXCLUSIVE 6 False"
proof -
  obtain lk' where lk': "mdl_locks example4 example_key = Some lk'" "m_list (m_waiting lk') = [Suc (Suc 0)]"
    using example_locks(2) by blast
  have "m_hog_lock_count (example_lock g w) < 10" for g w by (simp add: example_lock_def)
  from release_no_lost_wakeup [OF example_reachable(4), of 0 1 MDL_TRANSACTION example_key, OF _ _ _ example_locks(1) this, unfolded example_step4, OF _ _ _ lk'(1), of "Suc (Suc 0)"]
  show ?thesis
    using lk' unfolding example_step4 by (simp add: example_held [simplified] example_tickets_of)
qed

text \<open>
  C29: Bounded overtaking. As long as a request of another type waits for the key, a release of a
  ticket that is not in a fast lane grants at most one request of the types that starve others, adds
  the number of such grants to the count of consecutive ones, and grants none of them when the
  count has reached the value \<^verbatim>\<open>max_write_lock_count\<close> has at that time.
  (Reachable: by all steps but the end of \<^verbatim>\<open>acquire_lock()\<close> in the \<open>disconnect_race\<close>.)
\<close>

theorem hog_limit_respected:
  assumes "mdl_reachable st" "t \<in> set (m_tickets (contexts st c) d)" "m_fast_lane (tickets st t) = None"
    "k = m_lock (tickets st t)" "mdl_locks st k = Some lk" "mdl_locks (release_lock mx st c d t) k = Some lk'"
    "w \<in> set (m_list (m_waiting lk'))" "\<not> bit (hog_lock_types_bitmap (key_strategy k)) (m_type (tickets st w))"
  defines "hogs \<equiv> filter (\<lambda>g. bit (hog_lock_types_bitmap (key_strategy k)) (m_type (tickets st g)))
      (filter (\<lambda>g. g \<notin> set (m_list (m_granted lk))) (m_list (m_granted lk')))"
  shows "m_hog_lock_count lk' = m_hog_lock_count lk + of_nat (length hogs) \<and> length hogs \<le> 1 \<and>
    (mx \<le> m_hog_lock_count lk \<longrightarrow> hogs = [])"
proof -
  let ?s = "key_strategy k" and ?tk = "tickets st" and ?lk1 = "queue_remove_ticket (tickets st) lk Granted_queue t"
  have i: "mdl_inv st" by (rule mdl_reachable_inv [OF assms(1)])
  obtain gs where gs: "resched_frame ?tk (waits st) ?lk1 (waits (release_lock mx st c d t)) lk' gs" "hogs_counted mx ?s ?tk lk lk' gs"
    using slow_release(2) [OF i assms(2,3), folded assms(4), OF assms(6,5)] by blast
  have inv: "lock_inv ?tk ?s lk" using i assms(5) locks_okD(2) by (auto simp: mdl_inv_def)
  have "distinct (all_tickets lk)" using inv by (auto simp: lock_inv_def dest: lk_coreD(4))
  then have n: "set gs \<inter> set (m_list (m_granted lk)) = {}"
    using gs(1) by (auto simp: resched_frame_def all_tickets_def unlink_def dest: notin_set_remove1)
  have "filter (\<lambda>g. g \<notin> set (m_list (m_granted lk))) (m_list (m_granted lk')) = gs"
  proof -
    have "filter (\<lambda>g. g \<notin> set (m_list (m_granted lk))) (m_list (m_granted ?lk1)) = []"
      by (auto simp: filter_empty_conv dest: set_remove1_subset [THEN subsetD])
    moreover have "filter (\<lambda>g. g \<notin> set (m_list (m_granted lk))) gs = gs" using n by (auto simp: filter_id_conv)
    ultimately show ?thesis using gs(1) by (simp add: resched_frame_def)
  qed
  then have "hogs = filter (is_hog ?s ?tk) gs" by (simp add: hogs_def is_hog_def [abs_def])
  then show ?thesis using gs(2) assms(7,8) by (auto simp: hogs_counted_def is_hog_def)
qed

theorem hog_limit_respected_witness:
  "\<exists>lk lk'. mdl_locks race4 example_key = Some lk \<and> mdl_locks race5 example_key = Some lk' \<and>
     m_list (m_granted lk') = [Suc 0] \<and> m_type (tickets race4 (Suc 0)) = MDL_EXCLUSIVE \<and> m_hog_lock_count lk' = m_hog_lock_count lk + 1"
proof -
  obtain lk lk' where l: "mdl_locks race4 example_key = Some lk" "mdl_locks race5 example_key = Some lk'"
    "m_list (m_granted lk) = [0]" "m_list (m_granted lk') = [Suc 0]" "m_list (m_waiting lk') = [Suc (Suc 0)]"
    "m_type (tickets race4 (Suc 0)) = MDL_EXCLUSIVE" "m_type (tickets race4 (Suc (Suc 0))) = MDL_SHARED_READ"
    "m_lock (tickets race4 0) = example_key" "m_fast_lane (tickets race4 0) = None"
    by (simp add: race_states race_exec)
  from hog_limit_respected [OF race_reachable(1) race_contexts(7) l(9) l(8) [symmetric] l(1), of 10, folded race5_def, OF l(2), of "Suc (Suc 0)"] l
  show ?thesis by (simp add: key_strategy_def bit_simps)
qed

text \<open>
  C10: Progress. After a release, the lock of an object or schema is never left with requests
  waiting and nobody holding it: somebody holds the lock, or one of the waiting sessions has a
  status in its wait slot and is about to leave.
  (Reachable: by all steps but the end of \<^verbatim>\<open>acquire_lock()\<close> in the \<open>disconnect_race\<close>.)
\<close>

theorem release_progress:
  assumes "mdl_reachable st" "t \<in> set (m_tickets (contexts st c) d)"
    "k = m_lock (tickets st t)" "namespace_of k \<noteq> BACKUP" "mdl_locks (release_lock mx st c d t) k = Some lk'"
  shows "holders lk' \<noteq> [] \<or> (\<exists>w\<in>set (m_list (m_waiting lk')). waits (release_lock mx st c d t) (m_ctx (tickets st w)) \<noteq> EMPTY)"
proof (rule ccontr)
  let ?tk = "tickets st" and ?ws = "waits (release_lock mx st c d t)"
  assume n: "\<not> (holders lk' \<noteq> [] \<or> (\<exists>w\<in>set (m_list (m_waiting lk')). ?ws (m_ctx (?tk w)) \<noteq> EMPTY))"
  have i: "mdl_inv st" by (rule mdl_reachable_inv [OF assms(1)])
  obtain lk where lk: "mdl_locks st k = Some lk" "t \<in> set (holders lk)" "m_ctx (?tk t) = c" "lock_inv ?tk (key_strategy k) lk"
    using held_ticket [OF i held_in [OF assms(2)]] assms(3) by blast
  have s: "key_strategy k \<noteq> MDL_backup_lock" using assms(4) key_strategy_backup by simp
  have "lanes (m_fast_road lk) = []" using lk(4) s by (auto simp: lock_inv_def lk_core_def)
  then have "m_fast_lane (?tk t) = None" using lane_iff(1) [OF lk(4,2)] by (auto simp: fr_iterate_def)
  note sr = slow_release [OF i assms(2) this, folded assms(3), OF assms(5) lk(1)]
  let ?lk1 = "queue_remove_ticket ?tk lk Granted_queue t"
  obtain gs where f: "resched_frame ?tk (waits st) ?lk1 ?ws lk' gs" using sr(2) by blast
  have gs: "gs = []" "m_list (m_granted ?lk1) = []" using f n by (auto simp: resched_frame_def holders_def)
  have wl: "m_list (m_waiting lk') = m_list (m_waiting ?lk1)" using f gs by (simp add: resched_frame_def)
  moreover have "m_list (m_waiting ?lk1) \<noteq> []" using sr(3) s gs(2) by (auto simp: lk_is_empty_def tl_is_empty_def)
  ultimately have ne: "m_list (m_waiting lk') \<noteq> []" by simp
  have t: "t \<in> set (queue_of lk Granted_queue)"
    using lane_iff(2) [OF lk(4,2)] \<open>m_fast_lane (?tk t) = None\<close> by simp
  have "m_bitmap (m_waiting ?lk1) = m_bitmap (m_waiting lk')"
    using tl_inv_bitmap lk_coreD(3) [OF queue_remove_ticket_core(1) [OF lk(4) t]] sr(1) wl
    by (intro bit_eqI) (auto simp: lock_inv_def dest!: lk_coreD(3))
  then have "skip_hogs mx (key_strategy k) ?lk1 \<longrightarrow>
      m_bitmap (m_waiting lk') AND NOT (hog_lock_types_bitmap (key_strategy k)) \<noteq> 0"
    by (simp add: skip_hogs_def)
  from no_holder_grants [OF sr(1) s _ ne _ this, of ?ws] n sr(4) show False by blast
qed

theorem release_progress_witness:
  "\<exists>lk'. mdl_locks (release_lock 10 example4 5 MDL_STATEMENT 1) example_key = Some lk' \<and> holders lk' \<noteq> []"
proof -
  obtain lk' where lk': "mdl_locks example5 example_key = Some lk'" "m_list (m_waiting lk') = []"
    using example_last_release(2) by blast
  from release_progress [OF example_reachable(5), of 1 5 MDL_STATEMENT example_key 10, folded example5_def, OF _ _ _ lk'(1)]
  show ?thesis
    using lk' unfolding example5_def [symmetric] by (simp add: example_held [simplified] example_tickets_of [simplified])
qed

subsection \<open>Deciding and acquiring\<close>

text \<open>
  C20: In a reachable state the check over bitmaps \<^verbatim>\<open>can_grant_lock()\<close> decides exactly what
  the queues say: no waiting ticket of higher priority, unless priorities are ignored, and no
  incompatible ticket of another context in the granted list.
  (Reachable: by all steps but the end of \<^verbatim>\<open>acquire_lock()\<close> in the \<open>disconnect_race\<close>.)
\<close>

theorem can_grant_lock_exact:
  assumes "mdl_reachable st" "mdl_locks st k = Some lk"
  shows "can_grant_lock (key_strategy k) (tickets st) lk ty c ignore_lock_priority \<longleftrightarrow>
    (ignore_lock_priority \<or>
      (\<forall>w\<in>set (m_list (m_waiting lk)). \<not> is_incompatible_when_waiting (key_strategy k) (m_type (tickets st w)) ty)) \<and>
    (\<forall>g\<in>set (m_list (m_granted lk)). m_ctx (tickets st g) \<noteq> c \<longrightarrow>
      \<not> is_incompatible_when_granted (key_strategy k) (m_type (tickets st g)) ty)"
proof -
  have "lock_inv (tickets st) (key_strategy k) lk"
    using mdl_reachable_inv [OF assms(1)] assms(2) locks_okD(2) by (auto simp: mdl_inv_def)
  then have "tl_inv (tickets st) (m_granted lk)" "tl_inv (tickets st) (m_waiting lk)"
    by (auto simp: lock_inv_def dest: lk_coreD(2,3))
  from can_grant_lock_iff [OF this] show ?thesis by (simp add: can_grant_def)
qed

theorem can_grant_lock_exact_witness:
  "\<exists>lk. mdl_locks example3 example_key = Some lk \<and>
     (can_grant_lock (key_strategy example_key) (tickets example3) lk MDL_SHARED_READ 7 False \<longleftrightarrow>
        (False \<or> (\<forall>w\<in>set (m_list (m_waiting lk)).
           \<not> is_incompatible_when_waiting (key_strategy example_key) (m_type (tickets example3 w)) MDL_SHARED_READ)) \<and>
        (\<forall>g\<in>set (m_list (m_granted lk)). m_ctx (tickets example3 g) \<noteq> 7 \<longrightarrow>
           \<not> is_incompatible_when_granted (key_strategy example_key) (m_type (tickets example3 g)) MDL_SHARED_READ))"
  using can_grant_lock_exact [OF example_reachable(4) example_locks(1), of MDL_SHARED_READ 7 False] example_locks(1) by blast

text \<open>
  C27: A request that \<^verbatim>\<open>acquire_lock()\<close> satisfies at once leaves a ticket on the key, of a
  type at least as strong, in the list of the requested duration. A request that has to wait leaves
  the ticket in the queue of the lock and the session registered as waiting for it, and only a
  request that may wait does. Other sessions keep their tickets.
  (Reachable: by all steps but the end of \<^verbatim>\<open>acquire_lock()\<close> in the \<open>disconnect_race\<close>.)
\<close>

theorem acquire_lock_begin_correct:
  assumes "mdl_reachable st" "acquiring (contexts st c) = None" "request_ok st c req" "raw_ok raw"
    "acquire_lock_begin st c req wait alloc_ok raw = (r, st')"
  shows "(r = Acq_ticket t \<longrightarrow>
      t \<in> set (m_tickets (contexts st' c) (req_duration req)) \<and> m_lock (tickets st' t) = req_key req \<and>
      has_stronger_or_equal_type (key_strategy (req_key req)) (m_type (tickets st' t)) (req_type req)) \<and>
    (r = Acq_wait t \<longrightarrow> wait \<and> m_waiting_for (contexts st' c) = Some t \<and>
      (\<exists>lk. mdl_locks st' (m_lock (tickets st' t)) = Some lk \<and>
        (waits st' c \<noteq> GRANTED \<longrightarrow> t \<in> set (m_list (m_waiting lk))))) \<and>
    (c' \<noteq> c \<longrightarrow> m_tickets (contexts st' c') = m_tickets (contexts st c'))"
proof (intro conjI)
  note q = acquire_lock_begin_inv [OF mdl_reachable_inv [OF assms(1)] assms(3,4,2,5)]
  show "r = Acq_ticket t \<longrightarrow>
      t \<in> set (m_tickets (contexts st' c) (req_duration req)) \<and> m_lock (tickets st' t) = req_key req \<and>
      has_stronger_or_equal_type (key_strategy (req_key req)) (m_type (tickets st' t)) (req_type req)"
    using q(2) by (auto simp: acquired_def)
  show "c' \<noteq> c \<longrightarrow> m_tickets (contexts st' c') = m_tickets (contexts st c')" using q(4) by blast
  show "r = Acq_wait t \<longrightarrow> wait \<and> m_waiting_for (contexts st' c) = Some t \<and>
      (\<exists>lk. mdl_locks st' (m_lock (tickets st' t)) = Some lk \<and>
        (waits st' c \<noteq> GRANTED \<longrightarrow> t \<in> set (m_list (m_waiting lk))))"
  proof
    assume r: "r = Acq_wait t"
    then have p: "pending (contexts st' c) = Some t" using q(3) by (auto simp: pending_def)
    have l: "links (tickets st') (waits st') (hold_set (mdl_locks st')) (wait_set (mdl_locks st'))
        (\<lambda>c. held (contexts st' c)) (\<lambda>c. pending (contexts st' c))" using q(1) by (simp add: mdl_inv_def mdl_links_def)
    have "\<exists>lk. mdl_locks st' (m_lock (tickets st' t)) = Some lk \<and> (waits st' c \<noteq> GRANTED \<longrightarrow> t \<in> set (m_list (m_waiting lk)))"
      using linksD(7) [OF l p] linksD(8) [OF l p]
      by (cases "waits st' c = GRANTED") (auto simp: hold_set_def wait_set_def split: option.splits)
    then show "wait \<and> m_waiting_for (contexts st' c) = Some t \<and>
      (\<exists>lk. mdl_locks st' (m_lock (tickets st' t)) = Some lk \<and> (waits st' c \<noteq> GRANTED \<longrightarrow> t \<in> set (m_list (m_waiting lk))))"
      using q(3) r by blast
  qed
qed

theorem acquire_lock_begin_correct_witness:
  "acquire_lock_begin example2 6 (example_request MDL_EXCLUSIVE MDL_TRANSACTION) True True None = (Acq_wait (Suc (Suc 0)), example3) \<and>
   m_waiting_for (contexts example3 6) = Some (Suc (Suc 0)) \<and> m_tickets (contexts example3 1) = m_tickets (contexts example2 1)"
  using acquire_lock_begin_correct [OF example_reachable(3) example_idle(3) example_requests(3) example_raw_ok(2) example_step3]
    example_step3 by auto

subsection \<open>Releasing in bulk\<close>

lemma release_until_inv:
  assumes "mdl_inv st" "m_tickets (contexts st c) d = ts @ ys" "\<forall>t\<in>set ts. Some t \<noteq> s" "s = front ys"
  shows "mdl_inv (release_until mx st c d s (ts @ ys)) \<and>
    m_tickets (contexts (release_until mx st c d s (ts @ ys)) c) = (m_tickets (contexts st c))(d := ys) \<and>
    (\<forall>c'. c' \<noteq> c \<longrightarrow> contexts (release_until mx st c d s (ts @ ys)) c' = contexts st c') \<and>
    tickets (release_until mx st c d s (ts @ ys)) = tickets st"
  using assms
proof (induction ts arbitrary: st)
  case Nil
  then show ?case by (cases ys) (auto simp: front_def)
next
  case (Cons t ts)
  let ?st = "release_lock mx st c d t"
  have t: "t \<in> set (m_tickets (contexts st c) d)" using Cons.prems(2) by simp
  note r = release_lock_inv [OF Cons.prems(1) t]
  have m: "m_tickets (contexts ?st c) = (m_tickets (contexts st c))(d := ts @ ys)"
    using Cons.prems(2) by (simp add: r(2) set_tickets_def)
  then have "m_tickets (contexts ?st c) d = ts @ ys" by simp
  from Cons.IH [OF r(1) this _ Cons.prems(4)] Cons.prems(3)
  have "mdl_inv (release_until mx ?st c d s (ts @ ys)) \<and>
    m_tickets (contexts (release_until mx ?st c d s (ts @ ys)) c) = (m_tickets (contexts ?st c))(d := ys) \<and>
    (\<forall>c'. c' \<noteq> c \<longrightarrow> contexts (release_until mx ?st c d s (ts @ ys)) c' = contexts ?st c') \<and>
    tickets (release_until mx ?st c d s (ts @ ys)) = tickets ?st" by (simp del: fun_upd_apply)
  moreover have "(m_tickets (contexts ?st c))(d := ys) = (m_tickets (contexts st c))(d := ys)" unfolding m by simp
  moreover have "release_until mx st c d s ((t # ts) @ ys) = release_until mx ?st c d s (ts @ ys)"
    using Cons.prems(3) by simp
  ultimately show ?case using r(2,3) by (simp del: release_until.simps)
qed

lemma release_locks_stored_before_inv:
  assumes "mdl_inv st" "m_tickets (contexts st c) d = ts @ ys" "\<forall>t\<in>set ts. Some t \<noteq> front ys"
  shows "mdl_inv (release_locks_stored_before mx st c d (front ys))"
    "m_tickets (contexts (release_locks_stored_before mx st c d (front ys)) c) = (m_tickets (contexts st c))(d := ys)"
    "c' \<noteq> c \<Longrightarrow> contexts (release_locks_stored_before mx st c d (front ys)) c' = contexts st c'"
    "tickets (release_locks_stored_before mx st c d (front ys)) = tickets st"
  using release_until_inv [OF assms refl] unfolding release_locks_stored_before_def assms(2) by auto

text \<open>
  C28: \<^verbatim>\<open>rollback_to_savepoint()\<close> releases exactly what was acquired since
  \<^verbatim>\<open>mdl_savepoint()\<close>: when statement and transaction locks have since been added in front of
  the lists of then, it restores these lists and leaves explicit locks and other sessions alone.
  (Reachable: by all steps but the end of \<^verbatim>\<open>acquire_lock()\<close> in the \<open>disconnect_race\<close>.)
\<close>

theorem rollback_to_savepoint_exact:
  assumes "mdl_reachable st" "sv = mdl_savepoint st0 c"
    "m_tickets (contexts st c) MDL_STATEMENT = new_stmt @ m_tickets (contexts st0 c) MDL_STATEMENT"
    "m_tickets (contexts st c) MDL_TRANSACTION = new_trans @ m_tickets (contexts st0 c) MDL_TRANSACTION"
  shows "(m_tickets (contexts (rollback_to_savepoint mx st c sv) c) MDL_STATEMENT = m_tickets (contexts st0 c) MDL_STATEMENT) \<and>
    (m_tickets (contexts (rollback_to_savepoint mx st c sv) c) MDL_TRANSACTION = m_tickets (contexts st0 c) MDL_TRANSACTION) \<and>
    (m_tickets (contexts (rollback_to_savepoint mx st c sv) c) MDL_EXPLICIT = m_tickets (contexts st c) MDL_EXPLICIT) \<and>
    (c' \<noteq> c \<longrightarrow> contexts (rollback_to_savepoint mx st c sv) c' = contexts st c')"
proof (intro conjI)
  let ?S = "m_tickets (contexts st0 c) MDL_STATEMENT" and ?T = "m_tickets (contexts st0 c) MDL_TRANSACTION"
  let ?st1 = "release_locks_stored_before mx st c MDL_STATEMENT (m_stmt_ticket sv)"
  have i: "mdl_inv st" by (rule mdl_reachable_inv [OF assms(1)])
  then have "distinct (held (contexts st c))" using linksD(4) by (auto simp: mdl_inv_def mdl_links_def)
  then have d: "distinct (new_stmt @ ?S)" "distinct (new_trans @ ?T)" using assms(3,4) by (auto simp: held_def)
  have s: "\<forall>t\<in>set new_stmt. Some t \<noteq> front ?S" "\<forall>t\<in>set new_trans. Some t \<noteq> front ?T"
    using d by (auto simp: front_def split: list.splits)
  have sv: "m_stmt_ticket sv = front ?S" "m_trans_ticket sv = front ?T" by (simp_all add: assms(2) mdl_savepoint_def)
  note r1 = release_locks_stored_before_inv [OF i assms(3) s(1), folded sv]
  have "m_tickets (contexts ?st1 c) MDL_TRANSACTION = new_trans @ ?T" using assms(4) r1(2) by simp
  note r2 = release_locks_stored_before_inv [OF r1(1) this s(2), folded sv]
  show "m_tickets (contexts (rollback_to_savepoint mx st c sv) c) MDL_STATEMENT = ?S"
    "m_tickets (contexts (rollback_to_savepoint mx st c sv) c) MDL_TRANSACTION = ?T"
    "m_tickets (contexts (rollback_to_savepoint mx st c sv) c) MDL_EXPLICIT = m_tickets (contexts st c) MDL_EXPLICIT"
    "c' \<noteq> c \<longrightarrow> contexts (rollback_to_savepoint mx st c sv) c' = contexts st c'"
    unfolding rollback_to_savepoint_def using r1(2,3) r2(2,3) by simp_all
qed

theorem rollback_to_savepoint_exact_witness:
  "m_tickets (contexts example3 5) MDL_STATEMENT = [1] \<and>
   m_tickets (contexts (rollback_to_savepoint 10 example3 5 (mdl_savepoint example1 5)) 5) MDL_STATEMENT = []"
  using rollback_to_savepoint_exact [OF example_reachable(4), of "mdl_savepoint example1 5" example1 5 "[1]" "[]"]
  by (simp add: example_held [simplified], simp add: example_defs example_states)

subsection \<open>Deadlocks\<close>

text \<open>
  C35: The loop of searches of \<^verbatim>\<open>find_deadlock()\<close> ends in every reachable state, whatever the
  number of loops in the wait-for graph.
  (Reachable: by all steps but the end of \<^verbatim>\<open>acquire_lock()\<close> in the \<open>disconnect_race\<close>.)
\<close>

theorem find_deadlock_terminates:
  assumes "mdl_reachable st"
  shows "\<exists>st'. find_deadlock st c = Some st'"
  using find_deadlock_returns [OF mdl_reachable_finite [OF assms]] mdl_reachable_both [OF assms] mdl_inv_waiting_ok by blast

theorem find_deadlock_terminates_witness: "mdl_reachable example7 \<and> (\<exists>st'. find_deadlock example7 5 = Some st')"
  using find_deadlock_terminates [OF example_reachable2(2)] example_reachable2(2) by blast

text \<open>
  C2: When \<^verbatim>\<open>find_deadlock()\<close> returns, the session that ran it has been told to stop waiting,
  or no chain of waiting sessions leads from it back to itself: a session never goes to sleep in a
  deadlock it is part of.
  (Reachable: by all steps but the end of \<^verbatim>\<open>acquire_lock()\<close> in the \<open>disconnect_race\<close>.)
\<close>

theorem find_deadlock_resolves:
  assumes "mdl_reachable st" "find_deadlock st c = Some st'"
  shows "waits st' c \<noteq> EMPTY \<or> (c, c) \<notin> (wait_edges st')\<^sup>+"
  using find_deadlock_result [OF assms(2)] mdl_reachable_both [OF assms(1)] mdl_inv_waiting_ok by blast

theorem find_deadlock_resolves_witness:
  "\<exists>st'. find_deadlock example7 5 = Some st' \<and> (5, 5) \<in> (wait_edges example7)\<^sup>+ \<and>
     (waits st' 5 \<noteq> EMPTY \<or> (5, 5) \<notin> (wait_edges st')\<^sup>+)"
proof -
  have f: "find_deadlock example7 5 = Some (mark_victim example7 5)"
    by (subst find_deadlock.simps) (simp add: example_deadlock)
  have "(5, 1) \<in> wait_edges example7" "(1, 5) \<in> wait_edges example7"
    by (simp_all add: wait_edges_def example_waits_for [simplified])
  then have "(5, 5) \<in> (wait_edges example7)\<^sup>+" by (meson trancl.intros)
  then show ?thesis using f find_deadlock_resolves [OF example_reachable2(2) f] by blast
qed

text \<open>
  C11: A search reports a deadlock only after following a chain of sessions that wait, with open
  wait slots, each for the next one; the last of them waits for the session that searches, or the
  chain has \<^verbatim>\<open>MAX_SEARCH_DEPTH\<close> sessions. The victim is a session of the chain, and none of
  the chain has a smaller weight.
  (Reachable: by all steps but the end of \<^verbatim>\<open>acquire_lock()\<close> in the \<open>disconnect_race\<close>.)
\<close>

theorem deadlock_search_sound:
  assumes "mdl_reachable st" "visit_subgraph MAX_SEARCH_DEPTH st c (new_visitor c) = (True, v)"
  shows "\<exists>p w. p \<noteq> [] \<and> hd p = c \<and> wait_path st p \<and>
    (c \<in> set (waits_for st (last p)) \<or> length p = MAX_SEARCH_DEPTH) \<and>
    m_victim v = Some w \<and> w \<in> set p \<and> (\<forall>x\<in>set p. get_deadlock_weight st w \<le> get_deadlock_weight st x)"
  using first_search_True [OF _ assms(2)] mdl_reachable_both [OF assms(1)] mdl_inv_waiting_ok by metis

theorem deadlock_search_sound_witness:
  "\<exists>v p. visit_subgraph MAX_SEARCH_DEPTH example7 5 (new_visitor 5) = (True, v) \<and> hd p = 5 \<and> wait_path example7 p"
  using deadlock_search_sound [OF example_reachable2(2) example_deadlock] example_deadlock by blast

subsection \<open>Two backup requests that block each other\<close>

text \<open>
  A waiting request for \<^verbatim>\<open>MDL_BACKUP_START\<close> blocks one for \<^verbatim>\<open>MDL_BACKUP_BLOCK_DDL\<close> and the
  other way round: with both in the queue and nobody holding the lock, neither is granted, which
  the progress theorem above excludes for objects and schemas.
\<close>

lemma backup_waiting_cycle:
  "is_incompatible_when_waiting MDL_backup_lock MDL_BACKUP_START MDL_BACKUP_BLOCK_DDL"
  "is_incompatible_when_waiting MDL_backup_lock MDL_BACKUP_BLOCK_DDL MDL_BACKUP_START"
  by code_simp+

end
