(* ===== verification/Thr_Lock.thy ===== *)
theory Thr_Lock
  imports Mdb_Prelude
begin

text \<open>
  The table lock manager of \<^verbatim>\<open>mysys/thr_lock.c\<close> and \<^verbatim>\<open>include/thr_lock.h\<close>: lock types, the lock
  instances (\<^verbatim>\<open>THR_LOCK_DATA\<close>) in a store indexed by address, the lock of a table (\<^verbatim>\<open>THR_LOCK\<close>) with
  its four lists, and the critical sections of the operations on one lock.

  The source links the instances of a list through \<^verbatim>\<open>next\<close> and \<^verbatim>\<open>prev\<close>; here a list is a HOL list of
  addresses, and unlinking an instance removes it from the list it is in. A wait is cut in two: the
  section that ends in \<^verbatim>\<open>mysql_cond_timedwait\<close> and the one that runs once the wait is over, with the
  sections of other sessions in between. \<^verbatim>\<open>data->cond\<close> is modelled by whether it is set. The engine
  callbacks \<^verbatim>\<open>get_status\<close> and \<^verbatim>\<open>check_status\<close> are optional functions of the lock, as in the source;
  the callbacks that only change the state of the engine appear as flags and as recorded calls.
\<close>

subsection \<open>Lock types\<close>

datatype thr_lock_type =
    TL_IGNORE | TL_UNLOCK | TL_READ_DEFAULT | TL_READ_SKIP_LOCKED | TL_READ
  | TL_READ_WITH_SHARED_LOCKS | TL_READ_HIGH_PRIORITY | TL_READ_NO_INSERT
  | TL_WRITE_ALLOW_WRITE | TL_WRITE_CONCURRENT_INSERT | TL_WRITE_DELAYED | TL_WRITE_DEFAULT
  | TL_WRITE_LOW_PRIORITY | TL_WRITE_SKIP_LOCKED | TL_WRITE | TL_WRITE_ONLY

primrec tl_value :: "thr_lock_type \<Rightarrow> int" where
  "tl_value TL_IGNORE = -1"
| "tl_value TL_UNLOCK = 0"
| "tl_value TL_READ_DEFAULT = 1"
| "tl_value TL_READ_SKIP_LOCKED = 2"
| "tl_value TL_READ = 3"
| "tl_value TL_READ_WITH_SHARED_LOCKS = 4"
| "tl_value TL_READ_HIGH_PRIORITY = 5"
| "tl_value TL_READ_NO_INSERT = 6"
| "tl_value TL_WRITE_ALLOW_WRITE = 7"
| "tl_value TL_WRITE_CONCURRENT_INSERT = 8"
| "tl_value TL_WRITE_DELAYED = 9"
| "tl_value TL_WRITE_DEFAULT = 10"
| "tl_value TL_WRITE_LOW_PRIORITY = 11"
| "tl_value TL_WRITE_SKIP_LOCKED = 12"
| "tl_value TL_WRITE = 13"
| "tl_value TL_WRITE_ONLY = 14"

lemma tl_value_inj: "tl_value a = tl_value b \<Longrightarrow> a = b"
  by (cases a; cases b) simp_all

instantiation thr_lock_type :: linorder
begin

definition less_eq_thr_lock_type :: "thr_lock_type \<Rightarrow> thr_lock_type \<Rightarrow> bool" where
  "less_eq_thr_lock_type a b = (tl_value a \<le> tl_value b)"

definition less_thr_lock_type :: "thr_lock_type \<Rightarrow> thr_lock_type \<Rightarrow> bool" where
  "less_thr_lock_type a b = (tl_value a < tl_value b)"

instance
  by standard (auto simp: less_eq_thr_lock_type_def less_thr_lock_type_def intro: tl_value_inj)

end

lemmas tl_order = less_eq_thr_lock_type_def less_thr_lock_type_def

abbreviation (input) TL_FIRST_WRITE :: thr_lock_type where
  "TL_FIRST_WRITE \<equiv> TL_WRITE_ALLOW_WRITE"

datatype enum_thr_lock_result =
  THR_LOCK_SUCCESS | THR_LOCK_ABORTED | THR_LOCK_WAIT_TIMEOUT | THR_LOCK_DEADLOCK

definition THR_LOCK_LATE_PRIV :: u32 where
  "THR_LOCK_LATE_PRIV = 1"

subsection \<open>Lock instances and locks\<close>

type_synonym data_id = nat
type_synonym lock_id = nat
type_synonym owner_id = nat

record THR_LOCK_INFO =
  thread :: nat
  thread_id :: nat

record THR_LOCK_DATA =
  d_owner :: owner_id
  d_lock :: lock_id
  d_cond :: bool
  d_status_param :: nat
  d_type :: thr_lock_type
  d_priority :: u32

type_synonym data_store = "data_id \<Rightarrow> THR_LOCK_DATA"

record THR_LOCK =
  read_wait :: "data_id list"
  read_list :: "data_id list"
  write_wait :: "data_id list"
  write_list :: "data_id list"
  write_lock_count :: u64
  read_no_write_count :: u32
  get_status :: "(nat \<Rightarrow> bool \<Rightarrow> bool) option"
  check_status :: "(nat \<Rightarrow> bool) option"
  has_copy_status :: bool
  has_start_trans :: bool
  has_fix_status :: bool
  allow_multiple_concurrent_insert :: bool

definition thr_lock_init :: THR_LOCK where
  "thr_lock_init = \<lparr> read_wait = [], read_list = [], write_wait = [], write_list = [],
     write_lock_count = 0, read_no_write_count = 0, get_status = None, check_status = None,
     has_copy_status = False, has_start_trans = False, has_fix_status = False,
     allow_multiple_concurrent_insert = False \<rparr>"

definition thr_lock_info_init :: "nat \<Rightarrow> nat \<Rightarrow> THR_LOCK_INFO" where
  "thr_lock_info_init self tid = \<lparr> thread = self, thread_id = tid \<rparr>"

definition thr_lock_data_init :: "lock_id \<Rightarrow> nat \<Rightarrow> THR_LOCK_DATA" where
  "thr_lock_data_init l param = \<lparr> d_owner = 0, d_lock = l, d_cond = False,
     d_status_param = param, d_type = TL_UNLOCK, d_priority = 0 \<rparr>"

definition set_type :: "data_id \<Rightarrow> thr_lock_type \<Rightarrow> data_store \<Rightarrow> data_store" where
  "set_type d ty tk = tk(d := (tk d)\<lparr>d_type := ty\<rparr>)"

definition set_cond :: "data_id \<Rightarrow> bool \<Rightarrow> data_store \<Rightarrow> data_store" where
  "set_cond d c tk = tk(d := (tk d)\<lparr>d_cond := c\<rparr>)"

text \<open>The idiom \<^verbatim>\<open>if (((*data->prev)=data->next)) ... else ...last=data->prev\<close>.\<close>

definition unlink :: "data_id \<Rightarrow> THR_LOCK \<Rightarrow> THR_LOCK" where
  "unlink d lk = lk\<lparr> read_wait := remove1 d (read_wait lk), read_list := remove1 d (read_list lk),
     write_wait := remove1 d (write_wait lk), write_list := remove1 d (write_list lk) \<rparr>"

definition thr_lock_owner_equal :: "owner_id \<Rightarrow> owner_id \<Rightarrow> bool" where
  "thr_lock_owner_equal rhs lhs = (rhs = lhs)"

fun has_old_lock :: "data_store \<Rightarrow> data_id list \<Rightarrow> owner_id \<Rightarrow> bool" where
  "has_old_lock tk [] own = False"
| "has_old_lock tk (d # ds) own =
     (if thr_lock_owner_equal (d_owner (tk d)) own then True else has_old_lock tk ds own)"

definition status_result :: "data_store \<Rightarrow> THR_LOCK \<Rightarrow> data_id \<Rightarrow> bool \<Rightarrow> enum_thr_lock_result" where
  "status_result tk lk d concurrent_insert =
     (case get_status lk of
        None \<Rightarrow> THR_LOCK_SUCCESS
      | Some f \<Rightarrow> if f (d_status_param (tk d)) concurrent_insert then THR_LOCK_ABORTED
                  else THR_LOCK_SUCCESS)"

definition status_check :: "data_store \<Rightarrow> THR_LOCK \<Rightarrow> data_id \<Rightarrow> bool" where
  "status_check tk lk d =
     (case check_status lk of None \<Rightarrow> False | Some f \<Rightarrow> f (d_status_param (tk d)))"

subsection \<open>Waking up\<close>

text \<open>
  \<^verbatim>\<open>free_all_read_locks\<close> moves \<^verbatim>\<open>read_wait\<close> to \<^verbatim>\<open>read\<close> and walks over the moved instances; the loop
  sends a \<^const>\<open>TL_READ_NO_INSERT\<close> back when a concurrent insert is running.
\<close>

primrec free_read_loop :: "bool \<Rightarrow> data_id list \<Rightarrow> data_store \<Rightarrow> THR_LOCK \<Rightarrow> data_store \<times> THR_LOCK" where
  "free_read_loop using_ci [] tk lk = (tk, lk)"
| "free_read_loop using_ci (d # ds) tk lk =
     (if d_type (tk d) = TL_READ_NO_INSERT then
        if using_ci then
          free_read_loop using_ci ds tk
            (lk\<lparr> read_list := remove1 d (read_list lk), read_wait := read_wait lk @ [d] \<rparr>)
        else
          free_read_loop using_ci ds (set_cond d False tk)
            (lk\<lparr> read_no_write_count := read_no_write_count lk + 1 \<rparr>)
      else free_read_loop using_ci ds (set_cond d False tk) lk)"

definition free_all_read_locks :: "bool \<Rightarrow> data_store \<Rightarrow> THR_LOCK \<Rightarrow> data_store \<times> THR_LOCK" where
  "free_all_read_locks using_ci tk lk =
     (let data = read_wait lk;
          (tk1, lk1) = free_read_loop using_ci data tk
                         (lk\<lparr> read_list := read_list lk @ data, read_wait := [] \<rparr>)
      in if read_wait lk1 = [] then (tk1, lk1\<lparr> write_lock_count := 0 \<rparr>) else (tk1, lk1))"

text \<open>
  The two loops that start writers: without active locks (the first \<^verbatim>\<open>for (;;)\<close>, which may upgrade
  a concurrent insert) and beside active readers (the \<^verbatim>\<open>do ... while\<close>). Both get the first waiter
  and the rest of \<^verbatim>\<open>write_wait\<close> and return the last instance they started.
\<close>

fun start_writers :: "data_id \<Rightarrow> data_id list \<Rightarrow> data_store \<Rightarrow> THR_LOCK \<Rightarrow> data_id \<times> data_store \<times> THR_LOCK" where
  "start_writers d ws tk lk =
     (let lk1 = lk\<lparr> write_wait := ws, write_list := write_list lk @ [d] \<rparr>;
          tk1 = (if d_type (tk d) = TL_WRITE_CONCURRENT_INSERT \<and> status_check tk lk d
                 then set_type d TL_WRITE tk else tk);
          tk2 = set_cond d False tk1
      in case ws of
           [] \<Rightarrow> (d, tk2, lk1)
         | e # ws' \<Rightarrow>
             if d_type (tk2 d) \<noteq> TL_WRITE_ALLOW_WRITE \<or> d_type (tk2 e) \<noteq> TL_WRITE_ALLOW_WRITE
             then (d, tk2, lk1)
             else start_writers e ws' tk2 lk1)"

fun join_writers :: "thr_lock_type \<Rightarrow> data_id \<Rightarrow> data_id list \<Rightarrow> data_store \<Rightarrow> THR_LOCK \<Rightarrow> data_store \<times> THR_LOCK" where
  "join_writers lock_type d ws tk lk =
     (let lk1 = lk\<lparr> write_wait := ws, write_list := write_list lk @ [d] \<rparr>;
          tk1 = set_cond d False tk
      in case ws of
           [] \<Rightarrow> (tk1, lk1)
         | e # ws' \<Rightarrow>
             if lock_type = TL_WRITE_ALLOW_WRITE \<and> d_type (tk1 e) = TL_WRITE_ALLOW_WRITE
             then join_writers lock_type e ws' tk1 lk1
             else (tk1, lk1))"

declare start_writers.simps [simp del] join_writers.simps [simp del]

definition shares_insert :: "thr_lock_type \<Rightarrow> bool" where
  "shares_insert ty \<longleftrightarrow> ty = TL_WRITE_CONCURRENT_INSERT \<or> ty = TL_WRITE_ALLOW_WRITE"

definition free_readers_if :: "bool \<Rightarrow> data_store \<Rightarrow> THR_LOCK \<Rightarrow> data_store \<times> THR_LOCK" where
  "free_readers_if using_ci tk lk =
     (if read_wait lk \<noteq> [] then free_all_read_locks using_ci tk lk else (tk, lk))"

text \<open>The branch of \<^verbatim>\<open>wake_up_waiters\<close> for a lock with no active instance.\<close>

definition wake_up_idle :: "u64 \<Rightarrow> data_store \<Rightarrow> THR_LOCK \<Rightarrow> data_store \<times> THR_LOCK" where
  "wake_up_idle max_write_lock_count tk lk =
     (case write_wait lk of
        [] \<Rightarrow> free_readers_if False tk lk
      | d # ws \<Rightarrow>
          if d_type (tk d) \<noteq> TL_WRITE_LOW_PRIORITY \<or> read_wait lk = [] \<or>
             d_type (tk (hd (read_wait lk))) < TL_READ_HIGH_PRIORITY
          then
            (let over = write_lock_count lk > max_write_lock_count;
                 lk1 = lk\<lparr> write_lock_count := (if over then 0 else write_lock_count lk + 1) \<rparr>
             in if over \<and> read_wait lk1 \<noteq> [] then free_all_read_locks False tk lk1
                else
                  (case start_writers d ws tk lk1 of
                     (lastd, tk2, lk2) \<Rightarrow>
                       if d_type (tk2 lastd) \<ge> TL_WRITE_LOW_PRIORITY then (tk2, lk2)
                       else free_readers_if (shares_insert (d_type (tk2 lastd))) tk2 lk2))
          else free_readers_if (shares_insert (d_type (tk d))) tk lk)"

text \<open>The branch for a lock with active readers.\<close>

definition wake_up_beside_readers :: "data_store \<Rightarrow> THR_LOCK \<Rightarrow> data_store \<times> THR_LOCK" where
  "wake_up_beside_readers tk lk =
     (case write_wait lk of
        [] \<Rightarrow> free_readers_if False tk lk
      | d # ws \<Rightarrow>
          (let lock_type = d_type (tk d) in
           if lock_type \<le> TL_WRITE_DELAYED \<and>
              (lock_type \<noteq> TL_WRITE_CONCURRENT_INSERT \<and> lock_type \<noteq> TL_WRITE_ALLOW_WRITE \<or>
               read_no_write_count lk = 0)
           then
             if lock_type = TL_WRITE_CONCURRENT_INSERT \<and> status_check tk lk d
             then free_readers_if False (set_type d TL_WRITE tk) lk
             else
               (case join_writers lock_type d ws tk lk of
                  (tk1, lk1) \<Rightarrow> free_readers_if (shares_insert lock_type) tk1 lk1)
           else (tk, lk)))"

definition wake_up_waiters :: "u64 \<Rightarrow> data_store \<Rightarrow> THR_LOCK \<Rightarrow> data_store \<times> THR_LOCK" where
  "wake_up_waiters max_write_lock_count tk lk =
     (if write_list lk \<noteq> [] then (tk, lk)
      else if read_list lk = [] then wake_up_idle max_write_lock_count tk lk
      else wake_up_beside_readers tk lk)"

subsection \<open>Requests\<close>

datatype lock_answer = Answered enum_thr_lock_result | Waiting

definition add_read :: "data_store \<Rightarrow> data_id \<Rightarrow> THR_LOCK \<Rightarrow> THR_LOCK" where
  "add_read tk d lk = lk\<lparr> read_list := read_list lk @ [d],
     read_no_write_count := (if d_type (tk d) = TL_READ_NO_INSERT then read_no_write_count lk + 1
                             else read_no_write_count lk) \<rparr>"

definition add_write :: "data_id \<Rightarrow> THR_LOCK \<Rightarrow> THR_LOCK" where
  "add_write d lk = lk\<lparr> write_list := write_list lk @ [d] \<rparr>"

text \<open>What \<^verbatim>\<open>wait_for_lock\<close> does before it sleeps, for each of the two wait queues.\<close>

definition wait_for_read :: "data_store \<Rightarrow> THR_LOCK \<Rightarrow> data_id \<Rightarrow> lock_answer \<times> data_store \<times> THR_LOCK" where
  "wait_for_read tk lk d = (Waiting, set_cond d True tk, lk\<lparr> read_wait := read_wait lk @ [d] \<rparr>)"

definition wait_for_write :: "data_store \<Rightarrow> THR_LOCK \<Rightarrow> data_id \<Rightarrow> lock_answer \<times> data_store \<times> THR_LOCK" where
  "wait_for_write tk lk d = (Waiting, set_cond d True tk, lk\<lparr> write_wait := write_wait lk @ [d] \<rparr>)"

definition lock_refused :: "data_store \<Rightarrow> THR_LOCK \<Rightarrow> data_id \<Rightarrow> lock_answer \<times> data_store \<times> THR_LOCK" where
  "lock_refused tk lk d = (Answered THR_LOCK_ABORTED, set_type d TL_UNLOCK tk, lk)"

definition read_beside_write :: "data_store \<Rightarrow> data_id \<Rightarrow> data_id \<Rightarrow> bool" where
  "read_beside_write tk d w \<longleftrightarrow>
     thr_lock_owner_equal (d_owner (tk d)) (d_owner (tk w)) \<or>
     d_type (tk w) \<le> TL_WRITE_DELAYED \<and>
     (d_type (tk d) \<le> TL_READ_HIGH_PRIORITY \<or> d_type (tk w) \<noteq> TL_WRITE_CONCURRENT_INSERT)"

definition thr_lock_read :: "data_store \<Rightarrow> THR_LOCK \<Rightarrow> data_id \<Rightarrow> lock_answer \<times> data_store \<times> THR_LOCK" where
  "thr_lock_read tk lk d =
     (case write_list lk of
        w # _ \<Rightarrow>
          if read_beside_write tk d w
          then (Answered (status_result tk lk d False), tk, add_read tk d lk)
          else if d_type (tk w) = TL_WRITE_ONLY then lock_refused tk lk d
          else wait_for_read tk lk d
      | [] \<Rightarrow>
          if write_wait lk = [] \<or> d_type (tk (hd (write_wait lk))) \<le> TL_WRITE_LOW_PRIORITY \<or>
             d_type (tk d) = TL_READ_HIGH_PRIORITY \<or>
             has_old_lock tk (read_list lk) (d_owner (tk d))
          then (Answered (status_result tk lk d False), tk, add_read tk d lk)
          else wait_for_read tk lk d)"

definition second_write :: "data_store \<Rightarrow> THR_LOCK \<Rightarrow> data_id \<Rightarrow> data_id \<Rightarrow> bool" where
  "second_write tk lk d w \<longleftrightarrow>
     (let lock_type = d_type (tk d) in
      (lock_type = TL_WRITE_ALLOW_WRITE \<or>
       lock_type = TL_WRITE_CONCURRENT_INSERT \<and> allow_multiple_concurrent_insert lk \<and>
       read_no_write_count lk = 0) \<and>
      write_wait lk = [] \<and> d_type (tk w) = lock_type \<and> read_no_write_count lk = 0) \<or>
     has_old_lock tk (write_list lk) (d_owner (tk d))"

text \<open>The part of \<^verbatim>\<open>thr_lock\<close> for a write request after the treatment of delayed inserts.\<close>

definition thr_lock_write :: "thr_lock_type \<Rightarrow> data_store \<Rightarrow> THR_LOCK \<Rightarrow> data_id \<Rightarrow> lock_answer \<times> data_store \<times> THR_LOCK" where
  "thr_lock_write upgraded tk lk d =
     (case write_list lk of
        w # _ \<Rightarrow>
          if d_type (tk w) = TL_WRITE_ONLY \<and>
             \<not> thr_lock_owner_equal (d_owner (tk d)) (d_owner (tk w))
          then lock_refused tk lk d
          else if second_write tk lk d w
          then (Answered (status_result tk lk d (d_type (tk d) = TL_WRITE_CONCURRENT_INSERT)),
                tk, add_write d lk)
          else wait_for_write tk lk d
      | [] \<Rightarrow>
          if write_wait lk = [] then
            (let wants_ci = d_type (tk d) = TL_WRITE_CONCURRENT_INSERT;
                 bad = wants_ci \<and> status_check tk lk d;
                 tk1 = (if bad then set_type d upgraded tk else tk);
                 lock_type = d_type (tk1 d)
             in if read_list lk = [] \<or>
                   lock_type \<le> TL_WRITE_DELAYED \<and>
                   (lock_type \<noteq> TL_WRITE_CONCURRENT_INSERT \<and> lock_type \<noteq> TL_WRITE_ALLOW_WRITE \<or>
                    read_no_write_count lk = 0)
                then (Answered (status_result tk1 lk d (wants_ci \<and> \<not> bad)), tk1, add_write d lk)
                else wait_for_write tk1 lk d)
          else wait_for_write tk lk d)"

definition thr_lock_begin :: "thr_lock_type \<Rightarrow> data_store \<Rightarrow> THR_LOCK \<Rightarrow> data_id \<Rightarrow> owner_id \<Rightarrow> lock_answer \<times> data_store \<times> THR_LOCK" where
  "thr_lock_begin upgraded tk0 lk d own =
     (let tk = tk0(d := (tk0 d)\<lparr> d_cond := False, d_owner := own,
                         d_priority := and (d_priority (tk0 d)) (not THR_LOCK_LATE_PRIV) \<rparr>);
          lock_type = d_type (tk d)
      in if lock_type < TL_FIRST_WRITE then thr_lock_read tk lk d
         else if lock_type = TL_WRITE_DELAYED then
           if write_list lk \<noteq> [] \<and> d_type (tk (hd (write_list lk))) = TL_WRITE_ONLY
           then lock_refused tk lk d
           else if write_list lk \<noteq> [] \<or> read_list lk \<noteq> []
           then (Answered THR_LOCK_SUCCESS, set_cond d True tk,
                 lk\<lparr> write_wait := write_wait lk @ [d] \<rparr>)
           else thr_lock_write upgraded tk lk d
         else if lock_type = TL_WRITE_CONCURRENT_INSERT \<and> check_status lk = None
         then thr_lock_write upgraded (set_type d upgraded tk) lk d
         else thr_lock_write upgraded tk lk d)"

text \<open>
  The end of \<^verbatim>\<open>wait_for_lock\<close>: the instance has been granted or aborted, the wait timed out, or the
  session was killed.
\<close>

definition wait_for_lock_end :: "u64 \<Rightarrow> data_store \<Rightarrow> THR_LOCK \<Rightarrow> data_id \<Rightarrow> bool \<Rightarrow> enum_thr_lock_result \<times> data_store \<times> THR_LOCK" where
  "wait_for_lock_end max_write_lock_count tk lk d timed_out =
     (if d_cond (tk d) then
        (if timed_out then THR_LOCK_WAIT_TIMEOUT else THR_LOCK_ABORTED,
         wake_up_waiters max_write_lock_count (set_type d TL_UNLOCK tk) (unlink d lk))
      else if d_type (tk d) = TL_UNLOCK then (THR_LOCK_ABORTED, tk, lk)
      else (status_result tk lk d (d_type (tk d) = TL_WRITE_CONCURRENT_INSERT), tk, lk))"

subsection \<open>Releasing, aborting, changing a delayed lock\<close>

definition thr_unlock :: "u64 \<Rightarrow> data_store \<Rightarrow> THR_LOCK \<Rightarrow> data_id \<Rightarrow> data_store \<times> THR_LOCK" where
  "thr_unlock max_write_lock_count tk lk d =
     (let lk1 = unlink d lk;
          lk2 = (if d_type (tk d) = TL_READ_NO_INSERT
                 then lk1\<lparr> read_no_write_count := read_no_write_count lk1 - 1 \<rparr> else lk1)
      in wake_up_waiters max_write_lock_count (set_type d TL_UNLOCK tk) lk2)"

definition abort_data :: "data_id \<Rightarrow> data_store \<Rightarrow> data_store" where
  "abort_data d tk = set_cond d False (set_type d TL_UNLOCK tk)"

definition thr_abort_locks :: "data_store \<Rightarrow> THR_LOCK \<Rightarrow> bool \<Rightarrow> data_store \<times> THR_LOCK" where
  "thr_abort_locks tk lk upgrade_lock =
     (let tk1 = fold abort_data (write_wait lk) (fold abort_data (read_wait lk) tk);
          lk1 = lk\<lparr> read_wait := [], write_wait := [] \<rparr>
      in if upgrade_lock \<and> write_list lk1 \<noteq> []
         then (set_type (hd (write_list lk1)) TL_WRITE_ONLY tk1, lk1) else (tk1, lk1))"

definition owned_by_thread :: "(owner_id \<Rightarrow> THR_LOCK_INFO) \<Rightarrow> data_store \<Rightarrow> nat \<Rightarrow> data_id \<Rightarrow> bool" where
  "owned_by_thread info tk tid d \<longleftrightarrow> thread_id (info (d_owner (tk d))) = tid"

definition thr_abort_locks_for_thread ::
  "u64 \<Rightarrow> (owner_id \<Rightarrow> THR_LOCK_INFO) \<Rightarrow> data_store \<Rightarrow> THR_LOCK \<Rightarrow> nat \<Rightarrow> bool \<times> data_store \<times> THR_LOCK" where
  "thr_abort_locks_for_thread max_write_lock_count info tk lk tid =
     (let rs = filter (owned_by_thread info tk tid) (read_wait lk);
          ws = filter (owned_by_thread info tk tid) (write_wait lk);
          tk1 = fold abort_data ws (fold abort_data rs tk);
          lk1 = lk\<lparr> read_wait := filter (\<lambda>d. \<not> owned_by_thread info tk tid d) (read_wait lk),
                    write_wait := filter (\<lambda>d. \<not> owned_by_thread info tk tid d) (write_wait lk) \<rparr>
      in (rs \<noteq> [] \<or> ws \<noteq> [], wake_up_waiters max_write_lock_count tk1 lk1))"

text \<open>
  \<^verbatim>\<open>thr_upgrade_write_delay_lock\<close> answers at once (the value it returns, where true means aborted) or
  goes to sleep at the head of \<^verbatim>\<open>write_wait\<close>.
\<close>

datatype upgrade_answer = Returned bool | Must_wait

definition put_first_write_wait :: "data_id \<Rightarrow> THR_LOCK \<Rightarrow> THR_LOCK" where
  "put_first_write_wait d lk = lk\<lparr> write_wait := d # write_wait lk \<rparr>"

definition thr_upgrade_write_delay_lock :: "data_store \<Rightarrow> THR_LOCK \<Rightarrow> data_id \<Rightarrow> thr_lock_type \<Rightarrow> upgrade_answer \<times> data_store \<times> THR_LOCK" where
  "thr_upgrade_write_delay_lock tk lk d new_lock_type =
     (if d_type (tk d) = TL_UNLOCK \<or> d_type (tk d) \<ge> TL_WRITE_LOW_PRIORITY
      then (Returned (d_type (tk d) = TL_UNLOCK), tk, lk)
      else
        (let tk1 = set_type d new_lock_type tk in
         if \<not> d_cond (tk1 d) then
           if read_list lk = [] then (Returned False, tk1, lk)
           else (Must_wait, set_cond d True tk1, put_first_write_wait d (unlink d lk))
         else (Must_wait, set_cond d True tk1, lk)))"

definition thr_upgrade_write_delay_lock_end ::
  "u64 \<Rightarrow> (nat \<Rightarrow> bool) \<Rightarrow> data_store \<Rightarrow> THR_LOCK \<Rightarrow> data_id \<Rightarrow> bool \<Rightarrow> bool \<times> data_store \<times> THR_LOCK" where
  "thr_upgrade_write_delay_lock_end max_write_lock_count start_trans tk lk d timed_out =
     (case wait_for_lock_end max_write_lock_count tk lk d timed_out of
        (res, tk1, lk1) \<Rightarrow>
          (if res = THR_LOCK_SUCCESS \<and> has_start_trans lk1
           then start_trans (d_status_param (tk1 d)) else False, tk1, lk1))"

text \<open>The first critical section of \<^verbatim>\<open>thr_reschedule_write_lock\<close>; an upgrade to the old type follows.\<close>

definition thr_reschedule_write_lock :: "data_store \<Rightarrow> THR_LOCK \<Rightarrow> data_id \<Rightarrow> thr_lock_type option \<times> data_store \<times> THR_LOCK" where
  "thr_reschedule_write_lock tk lk d =
     (if read_wait lk = [] then (None, tk, lk)
      else
        (let write_lock_type = d_type (tk d);
             tk1 = set_cond d True (set_type d TL_WRITE_DELAYED tk);
             lk1 = put_first_write_wait d (unlink d lk)
         in (Some write_lock_type, free_all_read_locks False tk1 lk1)))"

end
