(* ===== verification/Thr_Lock_Inv.thy ===== *)
theory Thr_Lock_Inv
  imports Thr_Lock
begin

text \<open>
  What holds of a table lock between critical sections, and that the waking up of waiters keeps it.
  The invariant contains what \<^verbatim>\<open>check_locks\<close> of the source tests in debug builds where the code
  really guarantees it, and what the tests need to be inductive.
\<close>

definition linked :: "THR_LOCK \<Rightarrow> data_id list" where
  "linked lk = read_wait lk @ read_list lk @ write_wait lk @ write_list lk"

definition is_read :: "thr_lock_type \<Rightarrow> bool" where
  "is_read ty \<longleftrightarrow> TL_UNLOCK < ty \<and> ty \<le> TL_READ_NO_INSERT"

definition is_write :: "thr_lock_type \<Rightarrow> bool" where
  "is_write ty \<longleftrightarrow> TL_FIRST_WRITE \<le> ty \<and> ty \<noteq> TL_WRITE_DEFAULT"

text \<open>
  Which types of different sessions may not be active together. With
  \<^const>\<open>allow_multiple_concurrent_insert\<close> the code does not keep \<^const>\<open>TL_READ_NO_INSERT\<close> and
  \<^const>\<open>TL_WRITE_CONCURRENT_INSERT\<close> apart when a session asks for both on one table.
\<close>

definition write_conflict :: "bool \<Rightarrow> thr_lock_type \<Rightarrow> thr_lock_type \<Rightarrow> bool" where
  "write_conflict multi w ty \<longleftrightarrow>
     (if is_write ty
      then \<not> (if multi then w \<le> TL_WRITE_CONCURRENT_INSERT \<and> ty \<le> TL_WRITE_CONCURRENT_INSERT
              else w = TL_WRITE_ALLOW_WRITE \<and> ty = TL_WRITE_ALLOW_WRITE)
      else TL_WRITE_DELAYED < w \<or>
           \<not> multi \<and> w = TL_WRITE_CONCURRENT_INSERT \<and> ty = TL_READ_NO_INSERT)"

definition thr_conflict :: "bool \<Rightarrow> thr_lock_type \<Rightarrow> thr_lock_type \<Rightarrow> bool" where
  "thr_conflict multi a b \<longleftrightarrow>
     is_write a \<and> write_conflict multi a b \<or> is_write b \<and> write_conflict multi b a"

interpretation thr: lock_compatibility "thr_conflict multi"
  by unfold_locales (auto simp: thr_conflict_def)

text \<open>The exclusive types all rank the same: \<^verbatim>\<open>thr_lock\<close> treats them alike once they are active.\<close>

definition tl_rank :: "thr_lock_type \<Rightarrow> int" where
  "tl_rank ty = min (tl_value ty) (tl_value TL_WRITE_DEFAULT)"

definition no_insert_reads :: "data_store \<Rightarrow> data_id list \<Rightarrow> nat" where
  "no_insert_reads tk ds = length (filter (\<lambda>d. d_type (tk d) = TL_READ_NO_INSERT) ds)"

definition lists_ok :: "data_store \<Rightarrow> THR_LOCK \<Rightarrow> bool" where
  "lists_ok tk lk \<longleftrightarrow>
     distinct (linked lk) \<and>
     (\<forall>d\<in>set (read_wait lk) \<union> set (read_list lk). is_read (d_type (tk d))) \<and>
     (\<forall>d\<in>set (write_wait lk) \<union> set (write_list lk). is_write (d_type (tk d))) \<and>
     (\<forall>d\<in>set (read_wait lk) \<union> set (write_wait lk). d_cond (tk d)) \<and>
     (\<forall>d\<in>set (read_list lk) \<union> set (write_list lk). \<not> d_cond (tk d))"

definition count_ok :: "data_store \<Rightarrow> THR_LOCK \<Rightarrow> bool" where
  "count_ok tk lk \<longleftrightarrow>
     read_no_write_count lk = of_nat (no_insert_reads tk (read_list lk)) \<and>
     length (read_wait lk) + length (read_list lk) < 2 ^ 32"

definition holders_compatible :: "data_store \<Rightarrow> THR_LOCK \<Rightarrow> bool" where
  "holders_compatible tk lk \<longleftrightarrow>
     holders_ok (thr_conflict (allow_multiple_concurrent_insert lk)) (\<lambda>d. d_type (tk d))
       (\<lambda>d. d_owner (tk d)) (set (read_list lk) \<union> set (write_list lk))"

definition write_order :: "data_store \<Rightarrow> data_id \<Rightarrow> data_id \<Rightarrow> bool" where
  "write_order tk a b \<longleftrightarrow>
     (d_owner (tk a) = d_owner (tk b) \<longrightarrow> tl_rank (d_type (tk b)) \<le> tl_rank (d_type (tk a)))"

definition writers_ok :: "data_store \<Rightarrow> THR_LOCK \<Rightarrow> bool" where
  "writers_ok tk lk \<longleftrightarrow>
     sorted_wrt (write_order tk) (write_list lk) \<and>
     (\<forall>d\<in>set (write_list lk). d_type (tk d) = TL_WRITE_DELAYED \<longrightarrow> write_list lk = [d]) \<and>
     (check_status lk = None \<longrightarrow>
       (\<forall>d\<in>set (write_wait lk) \<union> set (write_list lk). d_type (tk d) \<noteq> TL_WRITE_CONCURRENT_INSERT))"

definition lock_ok :: "data_store \<Rightarrow> THR_LOCK \<Rightarrow> bool" where
  "lock_ok tk lk \<longleftrightarrow>
     lists_ok tk lk \<and> count_ok tk lk \<and> holders_compatible tk lk \<and> writers_ok tk lk"

lemmas lock_ok_defs = lock_ok_def lists_ok_def count_ok_def holders_compatible_def writers_ok_def

definition no_orphans :: "THR_LOCK \<Rightarrow> bool" where
  "no_orphans lk \<longleftrightarrow>
     (write_list lk = [] \<and> read_list lk = [] \<longrightarrow> write_wait lk = [] \<and> read_wait lk = []) \<and>
     (write_list lk = [] \<and> write_wait lk = [] \<longrightarrow> read_wait lk = [])"

subsection \<open>Facts on lock types\<close>

lemma read_not_write: "is_read ty \<Longrightarrow> \<not> is_write ty"
  by (cases ty) (simp_all add: is_read_def is_write_def tl_order)

lemma reads_no_conflict: "is_read a \<Longrightarrow> is_read b \<Longrightarrow> \<not> thr_conflict multi a b"
  by (simp add: thr_conflict_def read_not_write)

lemma conflict_read_write:
  "is_read r \<Longrightarrow> is_write w \<Longrightarrow> thr_conflict multi r w \<longleftrightarrow>
     TL_WRITE_DELAYED < w \<or> \<not> multi \<and> w = TL_WRITE_CONCURRENT_INSERT \<and> r = TL_READ_NO_INSERT"
  by (simp add: thr_conflict_def write_conflict_def read_not_write)

lemma conflict_write_write:
  "is_write a \<Longrightarrow> is_write b \<Longrightarrow> thr_conflict multi a b \<longleftrightarrow>
     \<not> (if multi then a \<le> TL_WRITE_CONCURRENT_INSERT \<and> b \<le> TL_WRITE_CONCURRENT_INSERT
        else a = TL_WRITE_ALLOW_WRITE \<and> b = TL_WRITE_ALLOW_WRITE)"
  by (auto simp: thr_conflict_def write_conflict_def)

lemma conflict_sym: "thr_conflict multi a b \<longleftrightarrow> thr_conflict multi b a"
  by (auto simp: thr_conflict_def)

subsection \<open>The invariant reads the linked instances only\<close>

lemma no_insert_cong: "(\<And>d. d \<in> set ds \<Longrightarrow> d_type (tk' d) = d_type (tk d)) \<Longrightarrow>
    no_insert_reads tk' ds = no_insert_reads tk ds"
  unfolding no_insert_reads_def by (metis (mono_tags, lifting) filter_cong)

lemma no_insert_simps [simp]:
  "no_insert_reads tk [] = 0"
  "no_insert_reads tk (d # ds) = (if d_type (tk d) = TL_READ_NO_INSERT then 1 else 0) + no_insert_reads tk ds"
  "no_insert_reads tk (ds @ es) = no_insert_reads tk ds + no_insert_reads tk es"
  by (simp_all add: no_insert_reads_def)

lemma linked_set: "set (linked lk) =
    set (read_wait lk) \<union> set (read_list lk) \<union> set (write_wait lk) \<union> set (write_list lk)"
  by (auto simp: linked_def)

lemma sorted_wrt_cong_set:
  "(\<And>x y. x \<in> set xs \<Longrightarrow> y \<in> set xs \<Longrightarrow> P x y = Q x y) \<Longrightarrow> sorted_wrt P xs = sorted_wrt Q xs"
  by (induction xs) auto

lemma lock_ok_cong:
  assumes "\<And>d. d \<in> set (linked lk) \<Longrightarrow> tk' d = tk d"
  shows "lock_ok tk' lk = lock_ok tk lk"
proof -
  have rd: "\<And>d. d \<in> set (read_wait lk) \<Longrightarrow> tk' d = tk d" "\<And>d. d \<in> set (read_list lk) \<Longrightarrow> tk' d = tk d"
    "\<And>d. d \<in> set (write_wait lk) \<Longrightarrow> tk' d = tk d" "\<And>d. d \<in> set (write_list lk) \<Longrightarrow> tk' d = tk d"
    using assms by (auto simp: linked_set)
  have c: "no_insert_reads tk' (read_list lk) = no_insert_reads tk (read_list lk)"
    using rd by (intro no_insert_cong) simp
  have s: "sorted_wrt (write_order tk') (write_list lk) = sorted_wrt (write_order tk) (write_list lk)"
    using rd by (intro sorted_wrt_cong_set) (simp add: write_order_def)
  have h: "holders_compatible tk' lk = holders_compatible tk lk"
    unfolding holders_compatible_def holders_ok_def
    using rd by (intro ball_cong refl) auto
  have l: "lists_ok tk' lk = lists_ok tk lk"
    using rd by (simp add: lists_ok_def ball_Un cong: ball_cong)
  show ?thesis using rd c s h l
    by (simp add: lock_ok_def count_ok_def writers_ok_def ball_Un cong: ball_cong)
qed

lemma lock_ok_fresh: "lock_ok tk lk \<Longrightarrow> d \<notin> set (linked lk) \<Longrightarrow> lock_ok (tk(d := x)) lk"
  using lock_ok_cong [of lk "tk(d := x)" tk] by (metis fun_upd_other)

subsection \<open>Linking and unlinking one instance\<close>

lemma lock_okD:
  assumes "lock_ok tk lk"
  shows "distinct (linked lk)"
    "\<And>d. d \<in> set (read_wait lk) \<Longrightarrow> is_read (d_type (tk d)) \<and> d_cond (tk d)"
    "\<And>d. d \<in> set (read_list lk) \<Longrightarrow> is_read (d_type (tk d)) \<and> \<not> d_cond (tk d)"
    "\<And>d. d \<in> set (write_wait lk) \<Longrightarrow> is_write (d_type (tk d)) \<and> d_cond (tk d)"
    "\<And>d. d \<in> set (write_list lk) \<Longrightarrow> is_write (d_type (tk d)) \<and> \<not> d_cond (tk d)"
  using assms by (auto simp: lock_ok_def lists_ok_def)

lemma lock_ok_add_write_wait:
  assumes ok: "lock_ok tk lk" and new: "d \<notin> set (linked lk)"
    and ws: "set ws = insert d (set (write_wait lk))" "distinct ws"
    and ty: "is_write (d_type (tk d))" "d_cond (tk d)"
      "check_status lk = None \<longrightarrow> d_type (tk d) \<noteq> TL_WRITE_CONCURRENT_INSERT"
  shows "lock_ok tk (lk\<lparr> write_wait := ws \<rparr>)"
  using assms unfolding lock_ok_defs by (auto simp: linked_def)

lemma lock_ok_add_read_wait:
  assumes ok: "lock_ok tk lk" and new: "d \<notin> set (linked lk)"
    and ty: "is_read (d_type (tk d))" "d_cond (tk d)"
    and room: "length (read_wait lk) + length (read_list lk) + 1 < 2 ^ 32"
  shows "lock_ok tk (lk\<lparr> read_wait := read_wait lk @ [d] \<rparr>)"
  using assms unfolding lock_ok_defs by (auto simp: linked_def)

lemma lock_ok_add_write:
  assumes ok: "lock_ok tk lk" and new: "d \<notin> set (linked lk)"
    and ty: "is_write (d_type (tk d))" "\<not> d_cond (tk d)"
      "check_status lk = None \<longrightarrow> d_type (tk d) \<noteq> TL_WRITE_CONCURRENT_INSERT"
    and compat: "\<And>u. u \<in> set (read_list lk) \<union> set (write_list lk) \<Longrightarrow> d_owner (tk u) \<noteq> d_owner (tk d) \<Longrightarrow>
      \<not> thr_conflict (allow_multiple_concurrent_insert lk) (d_type (tk u)) (d_type (tk d))"
    and order: "\<And>w. w \<in> set (write_list lk) \<Longrightarrow> write_order tk w d"
    and delayed: "write_list lk = [] \<or> d_type (tk d) \<noteq> TL_WRITE_DELAYED \<and>
      (\<forall>w\<in>set (write_list lk). d_type (tk w) \<noteq> TL_WRITE_DELAYED)"
  shows "lock_ok tk (add_write d lk)"
proof -
  have "holders_ok (thr_conflict (allow_multiple_concurrent_insert lk)) (\<lambda>d. d_type (tk d))
      (\<lambda>d. d_owner (tk d)) (insert d (set (read_list lk) \<union> set (write_list lk)))"
    using ok compat unfolding lock_ok_defs by (intro thr.holders_ok_insert) auto
  then have "holders_compatible tk (add_write d lk)"
    by (simp add: holders_compatible_def add_write_def Un_insert_right)
  moreover have "writers_ok tk (add_write d lk)"
    using ok order ty delayed unfolding lock_ok_def writers_ok_def
    by (auto simp: add_write_def sorted_wrt_append)
  moreover have "lists_ok tk (add_write d lk)"
    using ok new ty unfolding lock_ok_def lists_ok_def
    by (auto simp: add_write_def linked_def)
  moreover have "count_ok tk (add_write d lk)"
    using ok by (simp add: lock_ok_def count_ok_def add_write_def)
  ultimately show ?thesis by (simp add: lock_ok_def)
qed

lemma lock_ok_add_read:
  assumes ok: "lock_ok tk lk" and new: "d \<notin> set (linked lk)"
    and ty: "is_read (d_type (tk d))" "\<not> d_cond (tk d)"
    and compat: "\<And>w. w \<in> set (write_list lk) \<Longrightarrow> d_owner (tk w) \<noteq> d_owner (tk d) \<Longrightarrow>
      \<not> thr_conflict (allow_multiple_concurrent_insert lk) (d_type (tk w)) (d_type (tk d))"
    and room: "length (read_wait lk) + length (read_list lk) + 1 < 2 ^ 32"
  shows "lock_ok tk (add_read tk d lk)"
proof -
  have "\<not> thr_conflict (allow_multiple_concurrent_insert lk) (d_type (tk u)) (d_type (tk d))"
    if "u \<in> set (read_list lk) \<union> set (write_list lk)" "d_owner (tk u) \<noteq> d_owner (tk d)" for u
    using that compat reads_no_conflict ty(1) lock_okD(3) [OF ok] by auto
  then have "holders_ok (thr_conflict (allow_multiple_concurrent_insert lk)) (\<lambda>d. d_type (tk d))
      (\<lambda>d. d_owner (tk d)) (insert d (set (read_list lk) \<union> set (write_list lk)))"
    using ok unfolding lock_ok_defs by (intro thr.holders_ok_insert) auto
  then have "holders_compatible tk (add_read tk d lk)"
    by (simp add: holders_compatible_def add_read_def)
  moreover have "writers_ok tk (add_read tk d lk)"
    using ok by (auto simp: lock_ok_def writers_ok_def add_read_def)
  moreover have "lists_ok tk (add_read tk d lk)"
    using ok new ty unfolding lock_ok_def lists_ok_def
    by (auto simp: add_read_def linked_def)
  moreover have "count_ok tk (add_read tk d lk)"
    using ok room by (auto simp: lock_ok_def count_ok_def add_read_def)
  ultimately show ?thesis by (simp add: lock_ok_def)
qed

lemma remove1_filter: "distinct xs \<Longrightarrow> remove1 x xs = filter (\<lambda>y. y \<noteq> x) xs"
  by (simp add: distinct_remove1_removeAll removeAll_filter_not_eq) (rule filter_cong, auto)

lemma no_insert_remove:
  "d \<in> set ds \<Longrightarrow> no_insert_reads tk ds =
     (if d_type (tk d) = TL_READ_NO_INSERT then 1 else 0) + no_insert_reads tk (remove1 d ds)"
  by (induction ds) auto

lemma unlink_fields [simp]:
  "read_wait (unlink d lk) = remove1 d (read_wait lk)"
  "read_list (unlink d lk) = remove1 d (read_list lk)"
  "write_wait (unlink d lk) = remove1 d (write_wait lk)"
  "write_list (unlink d lk) = remove1 d (write_list lk)"
  "read_no_write_count (unlink d lk) = read_no_write_count lk"
  "write_lock_count (unlink d lk) = write_lock_count lk"
  "check_status (unlink d lk) = check_status lk"
  "get_status (unlink d lk) = get_status lk"
  "allow_multiple_concurrent_insert (unlink d lk) = allow_multiple_concurrent_insert lk"
  by (simp_all add: unlink_def)

lemma linked_distinctD:
  assumes "distinct (linked lk)"
  shows "distinct (read_wait lk)" "distinct (read_list lk)" "distinct (write_wait lk)" "distinct (write_list lk)"
  using assms by (auto simp: linked_def)

lemma linked_unlink: "distinct (linked lk) \<Longrightarrow> linked (unlink d lk) = filter (\<lambda>e. e \<noteq> d) (linked lk)"
  by (simp add: linked_def remove1_filter)

lemma not_linked_unlink: "distinct (linked lk) \<Longrightarrow> d \<notin> set (linked (unlink d lk))"
  by (simp add: linked_unlink)

lemma lock_ok_unlink_parts:
  assumes ok: "lock_ok tk lk"
  shows "lists_ok tk (unlink d lk)" "holders_compatible tk (unlink d lk)" "writers_ok tk (unlink d lk)"
proof -
  note dist = linked_distinctD [OF lock_okD(1) [OF ok]]
  show "lists_ok tk (unlink d lk)"
    using ok dist by (auto simp: lock_ok_def lists_ok_def linked_unlink remove1_filter)
  have "holders_ok (thr_conflict (allow_multiple_concurrent_insert lk)) (\<lambda>d. d_type (tk d))
      (\<lambda>d. d_owner (tk d)) (set (read_list lk) \<union> set (write_list lk))"
    using ok by (simp add: lock_ok_def holders_compatible_def)
  from thr.holders_ok_mono [OF this Un_mono [OF set_remove1_subset set_remove1_subset]]
  show "holders_compatible tk (unlink d lk)"
    by (simp add: holders_compatible_def)
  show "writers_ok tk (unlink d lk)"
    using ok dist by (auto simp: lock_ok_def writers_ok_def remove1_filter sorted_wrt_filter)
qed

lemma lock_ok_unlink:
  assumes ok: "lock_ok tk lk" and nr: "d \<notin> set (read_list lk)"
  shows "lock_ok tk (unlink d lk)"
proof -
  have "count_ok tk (unlink d lk)"
    using ok nr unfolding lock_ok_def count_ok_def
    by (auto simp: remove1_idem length_remove1)
  then show ?thesis using lock_ok_unlink_parts [OF ok] by (simp add: lock_ok_def)
qed

lemma lock_ok_release:
  assumes ok: "lock_ok tk lk" and d: "d \<notin> set (read_wait lk)"
  shows "lock_ok tk ((unlink d lk)\<lparr> read_no_write_count :=
    (if d_type (tk d) = TL_READ_NO_INSERT \<and> d \<in> set (read_list lk) then read_no_write_count lk - 1
     else read_no_write_count lk) \<rparr>)" (is "lock_ok tk ?lk")
proof -
  have "count_ok tk ?lk"
    using ok d unfolding lock_ok_def count_ok_def
    by (auto simp: remove1_idem length_remove1 no_insert_remove [of d "read_list lk"])
  moreover have "lists_ok tk ?lk" "holders_compatible tk ?lk" "writers_ok tk ?lk"
    using lock_ok_unlink_parts [OF ok, of d]
    by (simp_all add: lists_ok_def holders_compatible_def writers_ok_def linked_def)
  ultimately show ?thesis by (simp add: lock_ok_def)
qed

lemma lock_ok_filter_waiters:
  assumes ok: "lock_ok tk lk"
  shows "lock_ok tk (lk\<lparr> read_wait := filter P (read_wait lk), write_wait := filter Q (write_wait lk) \<rparr>)"
proof -
  have "count_ok tk (lk\<lparr> read_wait := filter P (read_wait lk), write_wait := filter Q (write_wait lk) \<rparr>)"
    using ok le_less_trans [OF add_right_mono [OF length_filter_le [of P "read_wait lk"]]]
    by (auto simp: lock_ok_def count_ok_def)
  then show ?thesis
    using ok unfolding lock_ok_def lists_ok_def holders_compatible_def writers_ok_def
    by (auto simp: linked_def)
qed

subsection \<open>Freeing the waiting readers\<close>

definition sent_back :: "bool \<Rightarrow> data_store \<Rightarrow> data_id \<Rightarrow> bool" where
  "sent_back using_ci tk d \<longleftrightarrow> using_ci \<and> d_type (tk d) = TL_READ_NO_INSERT"

definition wake_all :: "data_id list \<Rightarrow> data_store \<Rightarrow> data_store" where
  "wake_all ds tk = (\<lambda>d. if d \<in> set ds then (tk d)\<lparr>d_cond := False\<rparr> else tk d)"

lemma wake_all_fields [simp]:
  "d_type (wake_all ds tk d) = d_type (tk d)" "d_owner (wake_all ds tk d) = d_owner (tk d)"
  "d_lock (wake_all ds tk d) = d_lock (tk d)" "d_status_param (wake_all ds tk d) = d_status_param (tk d)"
  "d_priority (wake_all ds tk d) = d_priority (tk d)"
  "d_cond (wake_all ds tk d) = (d_cond (tk d) \<and> d \<notin> set ds)"
  by (simp_all add: wake_all_def)

lemma set_cond_fields [simp]:
  "d_type (set_cond d c tk e) = d_type (tk e)" "d_owner (set_cond d c tk e) = d_owner (tk e)"
  "d_lock (set_cond d c tk e) = d_lock (tk e)" "d_status_param (set_cond d c tk e) = d_status_param (tk e)"
  "d_priority (set_cond d c tk e) = d_priority (tk e)"
  "d_cond (set_cond d c tk e) = (if e = d then c else d_cond (tk e))"
  by (simp_all add: set_cond_def)

lemma set_type_fields [simp]:
  "d_type (set_type d ty tk e) = (if e = d then ty else d_type (tk e))"
  "d_owner (set_type d ty tk e) = d_owner (tk e)"
  "d_lock (set_type d ty tk e) = d_lock (tk e)" "d_status_param (set_type d ty tk e) = d_status_param (tk e)"
  "d_priority (set_type d ty tk e) = d_priority (tk e)" "d_cond (set_type d ty tk e) = d_cond (tk e)"
  by (simp_all add: set_type_def)

lemma write_order_cong: "(\<And>d. d_type (tk' d) = d_type (tk d)) \<Longrightarrow> (\<And>d. d_owner (tk' d) = d_owner (tk d)) \<Longrightarrow>
    write_order tk' = write_order tk"
  by (intro ext) (simp add: write_order_def)

lemma wake_all_Cons: "wake_all ds (set_cond d False tk) = wake_all (d # ds) tk"
  by (rule ext) (simp add: wake_all_def set_cond_def)

lemma remove1_append_middle: "d \<notin> set xs \<Longrightarrow> remove1 d (xs @ d # ys) = xs @ ys"
  by (induction xs) auto

lemma free_read_loop_eq:
  assumes "distinct (rs @ ds)" "read_list lk = rs @ ds"
  shows "free_read_loop u ds tk lk =
    (wake_all (filter (\<lambda>d. \<not> sent_back u tk d) ds) tk,
     lk\<lparr> read_list := rs @ filter (\<lambda>d. \<not> sent_back u tk d) ds,
         read_wait := read_wait lk @ filter (sent_back u tk) ds,
         read_no_write_count := read_no_write_count lk +
           of_nat (no_insert_reads tk (filter (\<lambda>d. \<not> sent_back u tk d) ds)) \<rparr>)"
  using assms
proof (induction ds arbitrary: rs tk lk)
  case Nil
  then show ?case by (auto simp: wake_all_def)
next
  case (Cons d ds)
  let ?ni = "d_type (tk d) = TL_READ_NO_INSERT"
  have sb: "sent_back u (set_cond d False tk) = sent_back u tk" by (auto simp: sent_back_def)
  have ni: "no_insert_reads (set_cond d False tk) xs = no_insert_reads tk xs" for xs
    by (rule no_insert_cong) simp
  show ?case
  proof (cases "?ni \<and> u")
    case True
    have "remove1 d (read_list lk) = rs @ ds"
      using Cons.prems by (simp add: remove1_append_middle)
    then show ?thesis
      using True Cons.IH [of rs "lk\<lparr> read_list := remove1 d (read_list lk), read_wait := read_wait lk @ [d] \<rparr>" tk]
        Cons.prems by (auto simp: sent_back_def)
  next
    case False
    let ?lk = "if ?ni then lk\<lparr> read_no_write_count := read_no_write_count lk + 1 \<rparr> else lk"
    have "free_read_loop u (d # ds) tk lk = free_read_loop u ds (set_cond d False tk) ?lk"
      using False by auto
    also have "\<dots> = (wake_all (filter (\<lambda>d. \<not> sent_back u tk d) ds) (set_cond d False tk),
     ?lk\<lparr> read_list := (rs @ [d]) @ filter (\<lambda>d. \<not> sent_back u tk d) ds,
         read_wait := read_wait lk @ filter (sent_back u tk) ds,
         read_no_write_count := read_no_write_count ?lk +
           of_nat (no_insert_reads tk (filter (\<lambda>d. \<not> sent_back u tk d) ds)) \<rparr>)"
      using Cons.IH [of "rs @ [d]" ?lk "set_cond d False tk"] Cons.prems by (simp add: sb ni)
    moreover have "\<not> sent_back u tk d" using False by (auto simp: sent_back_def)
    ultimately show ?thesis by (auto simp: wake_all_Cons)
  qed
qed

lemma free_all_read_locks_eq:
  assumes "distinct (linked lk)"
  shows "free_all_read_locks u tk lk =
    (let freed = filter (\<lambda>d. \<not> sent_back u tk d) (read_wait lk);
         kept = filter (sent_back u tk) (read_wait lk)
     in (wake_all freed tk,
         lk\<lparr> read_list := read_list lk @ freed, read_wait := kept,
             read_no_write_count := read_no_write_count lk + of_nat (no_insert_reads tk freed),
             write_lock_count := (if kept = [] then 0 else write_lock_count lk) \<rparr>))"
proof -
  have "distinct (read_list lk @ read_wait lk)" using assms by (auto simp: linked_def)
  from free_read_loop_eq [OF this, of "lk\<lparr> read_list := read_list lk @ read_wait lk, read_wait := [] \<rparr>" u tk]
  show ?thesis by (simp add: free_all_read_locks_def Let_def)
qed

lemma lock_ok_free_all:
  assumes ok: "lock_ok tk lk"
    and compat: "\<And>r w. r \<in> set (read_wait lk) \<Longrightarrow> \<not> sent_back u tk r \<Longrightarrow> w \<in> set (write_list lk) \<Longrightarrow>
      \<not> thr_conflict (allow_multiple_concurrent_insert lk) (d_type (tk w)) (d_type (tk r))"
  shows "case free_all_read_locks u tk lk of (tk', lk') \<Rightarrow> lock_ok tk' lk'"
proof -
  let ?freed = "filter (\<lambda>d. \<not> sent_back u tk d) (read_wait lk)"
  let ?kept = "filter (sent_back u tk) (read_wait lk)"
  let ?tk = "wake_all ?freed tk"
  let ?lk = "lk\<lparr> read_list := read_list lk @ ?freed, read_wait := ?kept,
             read_no_write_count := read_no_write_count lk + of_nat (no_insert_reads tk ?freed),
             write_lock_count := (if ?kept = [] then 0 else write_lock_count lk) \<rparr>"
  have len: "length ?kept + length ?freed = length (read_wait lk)"
    by (rule sum_length_filter_compl)
  have "no_insert_reads ?tk (read_list ?lk) = no_insert_reads tk (read_list lk @ ?freed)"
    by (simp add: no_insert_cong [of _ ?tk tk])
  then have c: "count_ok ?tk ?lk" using ok len by (simp add: lock_ok_def count_ok_def)
  have l: "lists_ok ?tk ?lk"
    using ok by (auto simp: lock_ok_def lists_ok_def linked_def)
  have "\<not> thr_conflict (allow_multiple_concurrent_insert lk) (d_type (tk a)) (d_type (tk b))"
    if ab: "a \<in> set (read_list lk) \<union> set ?freed \<union> set (write_list lk)" "b \<in> set (read_list lk) \<union> set ?freed \<union> set (write_list lk)"
      "d_owner (tk a) \<noteq> d_owner (tk b)" for a b
  proof -
    have rd: "is_read (d_type (tk x))" if "x \<in> set (read_list lk) \<union> set ?freed" for x
      using that lock_okD(2,3) [OF ok] by auto
    consider "a \<in> set (read_list lk) \<union> set ?freed" "b \<in> set (read_list lk) \<union> set ?freed"
      | "a \<in> set ?freed" "b \<in> set (write_list lk)" | "a \<in> set (write_list lk)" "b \<in> set ?freed"
      | "a \<in> set (read_list lk) \<union> set (write_list lk)" "b \<in> set (read_list lk) \<union> set (write_list lk)"
      using ab by blast
    then show ?thesis
    proof cases
      case 1 then show ?thesis using rd by (simp add: reads_no_conflict)
    next
      case 2 then show ?thesis using compat [of a b] by (simp add: conflict_sym)
    next
      case 3 then show ?thesis using compat [of b a] by simp
    next
      case 4 then show ?thesis using ab(3) ok
        unfolding lock_ok_def holders_compatible_def holders_ok_def by blast
    qed
  qed
  then have h: "holders_compatible ?tk ?lk"
    by (simp add: holders_compatible_def holders_ok_def Un_assoc)
  have "writers_ok ?tk ?lk"
    using ok by (simp add: lock_ok_def writers_ok_def write_order_cong [of ?tk tk])
  then have "lock_ok ?tk ?lk" using c l h by (simp add: lock_ok_def)
  then show ?thesis
    by (simp add: free_all_read_locks_eq [OF lock_okD(1) [OF ok]] Let_def)
qed

lemma lock_ok_free_if:
  assumes "lock_ok tk lk"
    and "\<And>r w. r \<in> set (read_wait lk) \<Longrightarrow> \<not> sent_back u tk r \<Longrightarrow> w \<in> set (write_list lk) \<Longrightarrow>
      \<not> thr_conflict (allow_multiple_concurrent_insert lk) (d_type (tk w)) (d_type (tk r))"
  shows "case free_readers_if u tk lk of (tk', lk') \<Rightarrow> lock_ok tk' lk'"
  using assms lock_ok_free_all [of tk lk u] by (simp add: free_readers_if_def)

subsection \<open>Changing the type of a waiting writer\<close>

lemma lock_ok_retype_waiting:
  assumes ok: "lock_ok tk lk" and d: "d \<in> set (write_wait lk)"
    and ty: "is_write ty" "check_status lk = None \<longrightarrow> ty \<noteq> TL_WRITE_CONCURRENT_INSERT"
  shows "lock_ok (set_type d ty tk) lk"
proof -
  let ?tk = "set_type d ty tk"
  have nl: "d \<notin> set (read_wait lk)" "d \<notin> set (read_list lk)" "d \<notin> set (write_list lk)"
    using lock_okD(1) [OF ok] d by (auto simp: linked_def)
  have same: "?tk e = tk e" if "e \<in> set (read_list lk) \<union> set (write_list lk)" for e
    using that nl by (auto simp: set_type_def)
  have "no_insert_reads ?tk (read_list lk) = no_insert_reads tk (read_list lk)"
    using same by (intro no_insert_cong) simp
  then have "count_ok ?tk lk" using ok by (simp add: lock_ok_def count_ok_def)
  moreover have "holders_compatible ?tk lk = holders_compatible tk lk"
    unfolding holders_compatible_def holders_ok_def using same by (intro ball_cong refl) auto
  moreover have "sorted_wrt (write_order ?tk) (write_list lk) = sorted_wrt (write_order tk) (write_list lk)"
    using same by (intro sorted_wrt_cong_set) (simp add: write_order_def)
  then have "writers_ok ?tk lk"
    using ok nl ty by (auto simp: lock_ok_def writers_ok_def)
  moreover have "lists_ok ?tk lk"
    using ok nl ty by (auto simp: lock_ok_def lists_ok_def)
  ultimately show ?thesis using ok by (simp add: lock_ok_def)
qed

subsection \<open>Starting writers\<close>

lemma lock_ok_move_write:
  assumes ok: "lock_ok tk lk" and ww: "write_wait lk = d # ws"
    and d: "tk' = tk(d := x)" "d_owner x = d_owner (tk d)" "\<not> d_cond x" "is_write (d_type x)"
      "d_type x = d_type (tk d) \<or> d_type x \<noteq> TL_WRITE_CONCURRENT_INSERT"
    and compat: "\<And>u. u \<in> set (read_list lk) \<Longrightarrow>
      \<not> thr_conflict (allow_multiple_concurrent_insert lk) (d_type (tk u)) (d_type x)"
    and aw: "write_list lk = [] \<or> d_type x = TL_WRITE_ALLOW_WRITE \<and>
      (\<forall>w\<in>set (write_list lk). d_type (tk w) = TL_WRITE_ALLOW_WRITE)"
  shows "lock_ok tk' (lk\<lparr> write_wait := ws, write_list := write_list lk @ [d] \<rparr>)"
proof -
  have dist: "distinct (linked lk)" using ok by (rule lock_okD)
  have "unlink d lk = lk\<lparr> write_wait := ws \<rparr>"
    using dist ww by (auto simp: unlink_def linked_def remove1_idem)
  moreover have "lock_ok tk (unlink d lk)"
    using ok dist ww by (intro lock_ok_unlink) (auto simp: linked_def)
  ultimately have ok1: "lock_ok tk' (lk\<lparr> write_wait := ws \<rparr>)"
    using dist ww not_linked_unlink [OF dist, of d] by (simp add: d lock_ok_fresh)
  have nl: "d \<notin> set (read_list lk)" "d \<notin> set (write_list lk)" "d \<notin> set ws"
    using dist ww by (auto simp: linked_def)
  have aw_ok: "\<not> thr_conflict m TL_WRITE_ALLOW_WRITE TL_WRITE_ALLOW_WRITE" for m
    by (simp add: thr_conflict_def write_conflict_def is_write_def tl_order)
  have "lock_ok tk' (add_write d (lk\<lparr> write_wait := ws \<rparr>))"
  proof (rule lock_ok_add_write [OF ok1])
    show "d \<notin> set (linked (lk\<lparr> write_wait := ws \<rparr>))" using dist ww by (auto simp: linked_def)
    show "check_status (lk\<lparr> write_wait := ws \<rparr>) = None \<longrightarrow> d_type (tk' d) \<noteq> TL_WRITE_CONCURRENT_INSERT"
      using ok ww d by (auto simp: lock_ok_def writers_ok_def)
  qed (use d compat aw nl aw_ok in \<open>auto simp: write_order_def\<close>)
  then show ?thesis by (simp add: add_write_def)
qed

text \<open>
  The state between two rounds of a loop that starts writers: the writers started so far are either
  none or all of type \<^const>\<open>TL_WRITE_ALLOW_WRITE\<close>.
\<close>

definition started :: "data_store \<Rightarrow> THR_LOCK \<Rightarrow> data_id \<Rightarrow> data_store" where
  "started tk lk d = set_cond d False
     (if d_type (tk d) = TL_WRITE_CONCURRENT_INSERT \<and> status_check tk lk d
      then set_type d TL_WRITE tk else tk)"

definition writers_so_far :: "data_store \<Rightarrow> THR_LOCK \<Rightarrow> data_id \<Rightarrow> bool" where
  "writers_so_far tk lk d \<longleftrightarrow> write_list lk = [] \<or> d_type (tk d) = TL_WRITE_ALLOW_WRITE \<and>
      (\<forall>w\<in>set (write_list lk). d_type (tk w) = TL_WRITE_ALLOW_WRITE)"

lemma started_other: "e \<noteq> d \<Longrightarrow> started tk lk d e = tk e"
  by (simp add: started_def set_cond_def set_type_def)

lemma started_aw: "d_type (tk d) = TL_WRITE_ALLOW_WRITE \<Longrightarrow> d_type (started tk lk d d) = TL_WRITE_ALLOW_WRITE"
  by (simp add: started_def)

lemma start_round:
  assumes ok: "lock_ok tk lk" and ww: "write_wait lk = d # ws" and rl: "read_list lk = []"
    and aw: "writers_so_far tk lk d"
  shows "lock_ok (started tk lk d) (lk\<lparr> write_wait := ws, write_list := write_list lk @ [d] \<rparr>)"
proof -
  have "is_write (d_type (tk d))" using lock_okD(4) [OF ok] ww by simp
  moreover have "is_write TL_WRITE" by (simp add: is_write_def tl_order)
  ultimately show ?thesis
    using aw rl by (intro lock_ok_move_write [OF ok ww, where x = "started tk lk d d"])
      (auto simp: started_def set_cond_def set_type_def writers_so_far_def)
qed

definition uniform :: "data_store \<Rightarrow> data_id list \<Rightarrow> data_id \<Rightarrow> bool" where
  "uniform tk ds e \<longleftrightarrow> (\<forall>w\<in>set ds. d_type (tk w) = d_type (tk e))"

definition writers_started :: "data_store \<Rightarrow> THR_LOCK \<Rightarrow> data_id \<Rightarrow> data_store \<Rightarrow> THR_LOCK \<Rightarrow> bool" where
  "writers_started tk lk e tk' lk' \<longleftrightarrow>
    lock_ok tk' lk' \<and> read_wait lk' = read_wait lk \<and> read_list lk' = read_list lk \<and>
    write_list lk' \<noteq> [] \<and> allow_multiple_concurrent_insert lk' = allow_multiple_concurrent_insert lk \<and>
    uniform tk' (write_list lk') e \<and> e \<in> set (write_list lk') \<and>
    (\<forall>r. r \<notin> set (write_wait lk) \<longrightarrow> tk' r = tk r)"

lemma start_writers_step:
  "start_writers d [] tk lk = (d, started tk lk d, lk\<lparr> write_wait := [], write_list := write_list lk @ [d] \<rparr>)"
  "start_writers d (f # ws) tk lk =
     (if d_type (started tk lk d d) \<noteq> TL_WRITE_ALLOW_WRITE \<or> d_type (started tk lk d f) \<noteq> TL_WRITE_ALLOW_WRITE
      then (d, started tk lk d, lk\<lparr> write_wait := f # ws, write_list := write_list lk @ [d] \<rparr>)
      else start_writers f ws (started tk lk d) (lk\<lparr> write_wait := f # ws, write_list := write_list lk @ [d] \<rparr>))"
  by (simp_all only: start_writers.simps [of d] started_def [symmetric] Let_def list.case)

lemma join_writers_step:
  "join_writers lock_type d [] tk lk =
     (set_cond d False tk, lk\<lparr> write_wait := [], write_list := write_list lk @ [d] \<rparr>)"
  "join_writers lock_type d (f # ws) tk lk =
     (if lock_type = TL_WRITE_ALLOW_WRITE \<and> d_type (tk f) = TL_WRITE_ALLOW_WRITE
      then join_writers lock_type f ws (set_cond d False tk)
             (lk\<lparr> write_wait := f # ws, write_list := write_list lk @ [d] \<rparr>)
      else (set_cond d False tk, lk\<lparr> write_wait := f # ws, write_list := write_list lk @ [d] \<rparr>))"
  by (simp_all only: join_writers.simps [of _ d] Let_def list.case set_cond_fields)

lemma writers_startedI:
  assumes "lock_ok tk' (lk\<lparr> write_wait := ws, write_list := write_list lk @ [d] \<rparr>)"
    "\<And>w. w \<in> set (write_list lk) \<Longrightarrow> d_type (tk' w) = d_type (tk' d)"
    "\<And>r. r \<notin> set (write_wait lk) \<Longrightarrow> tk' r = tk r"
  shows "writers_started tk lk d tk' (lk\<lparr> write_wait := ws, write_list := write_list lk @ [d] \<rparr>)"
proof -
  have "uniform tk' (write_list lk @ [d]) d" using assms(2) by (force simp: uniform_def)
  then show ?thesis using assms(1,3) unfolding writers_started_def by simp
qed

lemma writers_started_trans:
  assumes "writers_started tk1 lk1 e tk' lk'" "set (write_wait lk1) \<subseteq> set (write_wait lk)"
    "read_wait lk1 = read_wait lk" "read_list lk1 = read_list lk"
    "allow_multiple_concurrent_insert lk1 = allow_multiple_concurrent_insert lk"
    "\<And>r. r \<notin> set (write_wait lk) \<Longrightarrow> tk1 r = tk r"
  shows "writers_started tk lk e tk' lk'"
  using assms by (auto simp: writers_started_def)

lemma start_writers_ok:
  assumes "lock_ok tk lk" "write_wait lk = d # ws" "read_list lk = []" "writers_so_far tk lk d"
    "start_writers d ws tk lk = (e, tk', lk')"
  shows "writers_started tk lk e tk' lk'"
  using assms
proof (induction ws arbitrary: d tk lk)
  case (Nil d tk lk)
  have ok: "lock_ok (started tk lk d) (lk\<lparr> write_wait := [], write_list := write_list lk @ [d] \<rparr>)"
    using Nil.prems by (intro start_round)
  have "d \<notin> set (write_list lk)"
    using lock_okD(1) [OF Nil.prems(1)] Nil.prems(2) by (auto simp: linked_def)
  then have same: "d_type (started tk lk d w) = d_type (started tk lk d d)" if "w \<in> set (write_list lk)" for w
    using that Nil.prems(4) by (metis empty_iff empty_set started_aw started_other writers_so_far_def)
  have "writers_started tk lk d (started tk lk d) (lk\<lparr> write_wait := [], write_list := write_list lk @ [d] \<rparr>)"
    using Nil.prems(2) by (intro writers_startedI ok same) (auto simp: started_other)
  then show ?case using Nil.prems(5) by (auto simp: start_writers_step)
next
  case (Cons f ws d tk lk)
  let ?lk = "lk\<lparr> write_wait := f # ws, write_list := write_list lk @ [d] \<rparr>"
  let ?tk = "started tk lk d"
  have ok: "lock_ok ?tk ?lk" using Cons.prems by (intro start_round)
  have "d \<notin> set (write_list lk)"
    using lock_okD(1) [OF Cons.prems(1)] Cons.prems(2) by (auto simp: linked_def)
  then have same: "d_type (?tk w) = d_type (?tk d)" if "w \<in> set (write_list lk)" for w
    using that Cons.prems(4) by (metis empty_iff empty_set started_aw started_other writers_so_far_def)
  show ?case
  proof (cases "d_type (?tk d) \<noteq> TL_WRITE_ALLOW_WRITE \<or> d_type (?tk f) \<noteq> TL_WRITE_ALLOW_WRITE")
    case True
    have "writers_started tk lk d ?tk ?lk"
      using Cons.prems(2) by (intro writers_startedI ok same) (auto simp: started_other)
    moreover have "(e, tk', lk') = (d, ?tk, ?lk)"
      using True Cons.prems(5) by (simp only: start_writers_step if_True)
    ultimately show ?thesis by simp
  next
    case False
    then have aw: "d_type (?tk d) = TL_WRITE_ALLOW_WRITE" "d_type (?tk f) = TL_WRITE_ALLOW_WRITE" by simp_all
    have "writers_so_far ?tk ?lk f"
      using aw same unfolding writers_so_far_def by simp
    moreover have "start_writers f ws ?tk ?lk = (e, tk', lk')"
      using aw Cons.prems(5) by (simp add: start_writers_step)
    ultimately have st: "writers_started ?tk ?lk e tk' lk'"
      using Cons.prems(3) by (intro Cons.IH [OF ok]) simp_all
    show ?thesis
      using Cons.prems(2) by (intro writers_started_trans [OF st]) (auto simp: started_other)
  qed
qed

lemma join_writers_ok:
  assumes "lock_ok tk lk" "write_wait lk = d # ws" "d_type (tk d) = lock_type"
    "\<forall>r\<in>set (read_list lk).
       \<not> thr_conflict (allow_multiple_concurrent_insert lk) (d_type (tk r)) lock_type"
    "writers_so_far tk lk d" "join_writers lock_type d ws tk lk = (tk', lk')"
  shows "\<exists>e. writers_started tk lk e tk' lk' \<and> d_type (tk' e) = lock_type"
  using assms
proof (induction ws arbitrary: d tk lk)
  case (Nil d tk lk)
  have ok: "lock_ok (set_cond d False tk) (lk\<lparr> write_wait := [], write_list := write_list lk @ [d] \<rparr>)"
    using Nil.prems lock_okD(4) [OF Nil.prems(1)]
    by (intro lock_ok_move_write [where x = "set_cond d False tk d"]) (auto simp: set_cond_def writers_so_far_def)
  have "writers_started tk lk d (set_cond d False tk) (lk\<lparr> write_wait := [], write_list := write_list lk @ [d] \<rparr>)"
    using Nil.prems(2,5) by (intro writers_startedI ok) (auto simp: set_cond_def writers_so_far_def)
  then show ?case using Nil.prems(3,6) by (auto simp: join_writers_step)
next
  case (Cons f ws d tk lk)
  let ?lk = "lk\<lparr> write_wait := f # ws, write_list := write_list lk @ [d] \<rparr>"
  let ?tk = "set_cond d False tk"
  have ok: "lock_ok ?tk ?lk"
    using Cons.prems lock_okD(4) [OF Cons.prems(1)]
    by (intro lock_ok_move_write [where x = "?tk d"]) (auto simp: set_cond_def writers_so_far_def)
  show ?case
  proof (cases "lock_type = TL_WRITE_ALLOW_WRITE \<and> d_type (tk f) = TL_WRITE_ALLOW_WRITE")
    case True
    then have "\<exists>e. writers_started ?tk ?lk e tk' lk' \<and> d_type (tk' e) = lock_type"
      using Cons.prems by (intro Cons.IH [OF ok]) (auto simp: writers_so_far_def join_writers_step)
    then obtain e where e: "writers_started ?tk ?lk e tk' lk'" "d_type (tk' e) = lock_type" by blast
    have "writers_started tk lk e tk' lk'"
      using Cons.prems(2) by (intro writers_started_trans [OF e(1)]) (auto simp: set_cond_def)
    with e show ?thesis by blast
  next
    case False
    have "writers_started tk lk d ?tk ?lk"
      using Cons.prems(2,5) by (intro writers_startedI ok) (auto simp: set_cond_def writers_so_far_def)
    moreover have "(tk', lk') = (?tk, ?lk)"
      using False Cons.prems(6) by (auto simp: join_writers_step split: if_splits)
    ultimately show ?thesis using Cons.prems(3) by auto
  qed
qed

subsection \<open>Waking up keeps the invariant\<close>

lemma shared_no_conflict:
  assumes "is_read r" "is_write w" "w < TL_WRITE_LOW_PRIORITY" "\<not> (shares_insert w \<and> r = TL_READ_NO_INSERT)"
  shows "\<not> thr_conflict multi w r"
proof -
  have "w \<le> TL_WRITE_DELAYED" using assms(2,3) by (cases w) (auto simp: is_write_def tl_order)
  then show ?thesis
    using assms conflict_read_write [of r w] conflict_sym [of multi w r] by (auto simp: shares_insert_def)
qed

lemma free_after_start:
  assumes st: "writers_started tk lk e tk1 lk1" and lt: "d_type (tk1 e) < TL_WRITE_LOW_PRIORITY"
  shows "case free_readers_if (shares_insert (d_type (tk1 e))) tk1 lk1 of (tk', lk') \<Rightarrow> lock_ok tk' lk'"
proof (rule lock_ok_free_if)
  show ok: "lock_ok tk1 lk1" using st by (simp add: writers_started_def)
  fix r w assume r: "r \<in> set (read_wait lk1)" "\<not> sent_back (shares_insert (d_type (tk1 e))) tk1 r"
    and w: "w \<in> set (write_list lk1)"
  have "d_type (tk1 w) = d_type (tk1 e)" using st w unfolding writers_started_def uniform_def by blast
  moreover have "is_read (d_type (tk1 r))" "is_write (d_type (tk1 w))"
    using lock_okD(2) [OF ok r(1)] lock_okD(5) [OF ok w] by auto
  ultimately show "\<not> thr_conflict (allow_multiple_concurrent_insert lk1) (d_type (tk1 w)) (d_type (tk1 r))"
    using r lt by (intro shared_no_conflict) (auto simp: sent_back_def)
qed

lemma wake_up_idle_ok:
  assumes ok: "lock_ok tk lk" and idle: "write_list lk = []" "read_list lk = []"
  shows "case wake_up_idle mx tk lk of (tk', lk') \<Rightarrow> lock_ok tk' lk'"
proof (cases "write_wait lk")
  case Nil
  have "case free_readers_if False tk lk of (tk', lk') \<Rightarrow> lock_ok tk' lk'"
    using idle by (intro lock_ok_free_if ok) simp
  then show ?thesis using Nil by (simp add: wake_up_idle_def)
next
  case (Cons d ws)
  let ?over = "write_lock_count lk > mx"
  let ?lk = "lk\<lparr> write_lock_count := (if ?over then 0 else write_lock_count lk + 1) \<rparr>"
  have ok1: "lock_ok tk ?lk" using ok by (simp add: lock_ok_defs linked_def)
  obtain e tk2 lk2 where st: "start_writers d ws tk ?lk = (e, tk2, lk2)" by (metis prod_cases3)
  have ws: "writers_started tk ?lk e tk2 lk2"
    using st ok1 idle Cons by (intro start_writers_ok) (auto simp: writers_so_far_def)
  have free: "\<not> d_type (tk2 e) \<ge> TL_WRITE_LOW_PRIORITY \<Longrightarrow>
      case free_readers_if (shares_insert (d_type (tk2 e))) tk2 lk2 of (tk', lk') \<Rightarrow> lock_ok tk' lk'"
    using free_after_start [OF ws] by (simp add: not_le)
  have all: "case free_all_read_locks False tk ?lk of (tk', lk') \<Rightarrow> lock_ok tk' lk'"
    using idle by (intro lock_ok_free_all ok1) simp
  have low: "case free_readers_if u tk lk of (tk', lk') \<Rightarrow> lock_ok tk' lk'" for u
    using idle by (intro lock_ok_free_if ok) simp
  have "lock_ok tk2 lk2" using ws by (simp add: writers_started_def)
  then show ?thesis
    using free all low by (simp only: wake_up_idle_def Let_def Cons list.case st prod.case split: if_split) simp
qed

lemma no_insert_zero:
  assumes "lock_ok tk lk" "read_no_write_count lk = 0" "r \<in> set (read_list lk)"
  shows "d_type (tk r) \<noteq> TL_READ_NO_INSERT"
proof -
  have "no_insert_reads tk (read_list lk) \<le> length (read_list lk)" by (simp add: no_insert_reads_def)
  then have "no_insert_reads tk (read_list lk) < 2 ^ LENGTH(32)"
    using assms(1) by (simp add: lock_ok_def count_ok_def)
  moreover have "(of_nat (no_insert_reads tk (read_list lk)) :: u32) = 0"
    using assms(1,2) by (simp add: lock_ok_def count_ok_def)
  ultimately have "no_insert_reads tk (read_list lk) = 0"
    by (metis of_nat_inverse unat_0)
  then show ?thesis using assms(3) by (auto simp: no_insert_reads_def filter_empty_conv)
qed

text \<open>The guard under which a writer may run beside active readers.\<close>

lemma beside_readers_no_conflict:
  assumes ok: "lock_ok tk lk" and r: "r \<in> set (read_list lk)" and w: "is_write ty"
    and guard: "ty \<le> TL_WRITE_DELAYED \<and>
      (ty \<noteq> TL_WRITE_CONCURRENT_INSERT \<and> ty \<noteq> TL_WRITE_ALLOW_WRITE \<or> read_no_write_count lk = 0)"
  shows "\<not> thr_conflict multi (d_type (tk r)) ty"
proof -
  have "d_type (tk r) \<noteq> TL_READ_NO_INSERT" if "ty = TL_WRITE_CONCURRENT_INSERT"
    using that guard no_insert_zero [OF ok _ r] by simp
  then show ?thesis
    using lock_okD(3) [OF ok r] w guard by (auto simp: conflict_read_write)
qed

lemma wake_up_beside_readers_ok:
  assumes ok: "lock_ok tk lk" and idle: "write_list lk = []"
  shows "case wake_up_beside_readers tk lk of (tk', lk') \<Rightarrow> lock_ok tk' lk'"
proof (cases "write_wait lk")
  case Nil
  have "case free_readers_if False tk lk of (tk', lk') \<Rightarrow> lock_ok tk' lk'"
    using idle by (intro lock_ok_free_if ok) simp
  then show ?thesis using Nil by (simp add: wake_up_beside_readers_def)
next
  case (Cons d ws)
  let ?ty = "d_type (tk d)"
  let ?guard = "?ty \<le> TL_WRITE_DELAYED \<and>
      (?ty \<noteq> TL_WRITE_CONCURRENT_INSERT \<and> ?ty \<noteq> TL_WRITE_ALLOW_WRITE \<or> read_no_write_count lk = 0)"
  have w: "is_write ?ty" using lock_okD(4) [OF ok] Cons by simp
  have nr: "d \<notin> set (read_wait lk)" "d \<notin> set (read_list lk)" "d \<notin> set ws"
    using lock_okD(1) [OF ok] Cons by (auto simp: linked_def)
  obtain tk1 lk1 where jn: "join_writers ?ty d ws tk lk = (tk1, lk1)" by fastforce
  have up: "case free_readers_if False (set_type d TL_WRITE tk) lk of (tk', lk') \<Rightarrow> lock_ok tk' lk'"
  proof (rule lock_ok_free_if)
    show "lock_ok (set_type d TL_WRITE tk) lk"
      using Cons by (intro lock_ok_retype_waiting ok) (auto simp: is_write_def tl_order)
  qed (use idle in simp)
  have jo: "case free_readers_if (shares_insert ?ty) tk1 lk1 of (tk', lk') \<Rightarrow> lock_ok tk' lk'" if g: ?guard
  proof -
    have "\<forall>r\<in>set (read_list lk). \<not> thr_conflict (allow_multiple_concurrent_insert lk) (d_type (tk r)) ?ty"
      using beside_readers_no_conflict [OF ok _ w g] by blast
    then obtain e where "writers_started tk lk e tk1 lk1" "d_type (tk1 e) = ?ty"
      using join_writers_ok [OF ok Cons refl _ _ jn] idle by (auto simp: writers_so_far_def)
    moreover have "?ty < TL_WRITE_LOW_PRIORITY" using g by (auto simp: tl_order)
    ultimately show ?thesis using free_after_start by metis
  qed
  show ?thesis
    using up jo ok by (simp only: wake_up_beside_readers_def Let_def Cons list.case jn prod.case split: if_split) simp
qed

lemma wake_up_waiters_ok:
  assumes "lock_ok tk lk"
  shows "case wake_up_waiters mx tk lk of (tk', lk') \<Rightarrow> lock_ok tk' lk'"
proof (cases "write_list lk = []")
  case True
  then show ?thesis
    using wake_up_idle_ok [OF assms, of mx] wake_up_beside_readers_ok [OF assms]
    by (cases "read_list lk = []") (simp_all add: wake_up_waiters_def)
next
  case False
  then show ?thesis using assms by (simp add: wake_up_waiters_def)
qed

end
