(* ===== verification/Thr_Lock_Ops.thy ===== *)
theory Thr_Lock_Ops
  imports Thr_Lock_Inv
begin

text \<open>
  Every critical section on a table lock keeps the invariant, changes only the instances it may
  change, and leaves no waiter behind on an idle lock.
\<close>

subsection \<open>What waking up may change\<close>

definition lock_config :: "THR_LOCK \<Rightarrow> _" where
  "lock_config lk = (get_status lk, check_status lk, has_copy_status lk, has_start_trans lk,
     has_fix_status lk, allow_multiple_concurrent_insert lk)"

definition same_fields :: "data_store \<Rightarrow> data_store \<Rightarrow> bool" where
  "same_fields tk tk' \<longleftrightarrow> (\<forall>e. d_owner (tk' e) = d_owner (tk e) \<and> d_lock (tk' e) = d_lock (tk e) \<and>
     d_status_param (tk' e) = d_status_param (tk e) \<and> d_priority (tk' e) = d_priority (tk e))"

text \<open>A lock type changes on its own only when a concurrent insert becomes an exclusive lock.\<close>

definition grown :: "thr_lock_type \<Rightarrow> thr_lock_type \<Rightarrow> bool" where
  "grown a b \<longleftrightarrow> b = a \<or> a \<le> b \<and> TL_WRITE_DELAYED < b"

lemma grown_refl [simp]: "grown a a"
  by (simp add: grown_def)

lemma grown_trans: "grown a b \<Longrightarrow> grown b c \<Longrightarrow> grown a c"
  by (auto simp: grown_def)

definition wake_frame :: "data_store \<Rightarrow> THR_LOCK \<Rightarrow> data_store \<Rightarrow> THR_LOCK \<Rightarrow> bool" where
  "wake_frame tk lk tk' lk' \<longleftrightarrow>
     (\<forall>e. e \<notin> set (read_wait lk) \<union> set (write_wait lk) \<longrightarrow> tk' e = tk e) \<and>
     same_fields tk tk' \<and> (\<forall>e. grown (d_type (tk e)) (d_type (tk' e))) \<and> lock_config lk' = lock_config lk \<and>
     (\<exists>ws. write_list lk' = write_list lk @ ws \<and> write_wait lk = ws @ write_wait lk') \<and>
     (\<exists>rs. read_list lk' = read_list lk @ rs \<and> set (read_wait lk) = set rs \<union> set (read_wait lk'))"

lemma wake_frame_refl [simp]: "wake_frame tk lk tk lk"
  by (simp add: wake_frame_def same_fields_def)

lemma wake_frame_trans:
  assumes "wake_frame tk lk tk1 lk1" "wake_frame tk1 lk1 tk2 lk2"
  shows "wake_frame tk lk tk2 lk2"
proof -
  obtain ws1 rs1 where a: "write_list lk1 = write_list lk @ ws1" "write_wait lk = ws1 @ write_wait lk1"
    "read_list lk1 = read_list lk @ rs1" "set (read_wait lk) = set rs1 \<union> set (read_wait lk1)"
    using assms(1) by (auto simp: wake_frame_def)
  obtain ws2 rs2 where b: "write_list lk2 = write_list lk1 @ ws2" "write_wait lk1 = ws2 @ write_wait lk2"
    "read_list lk2 = read_list lk1 @ rs2" "set (read_wait lk1) = set rs2 \<union> set (read_wait lk2)"
    using assms(2) by (auto simp: wake_frame_def)
  have "tk2 e = tk e" if "e \<notin> set (read_wait lk) \<union> set (write_wait lk)" for e
  proof -
    have "e \<notin> set (read_wait lk1) \<union> set (write_wait lk1)" using that a by auto
    then show ?thesis using that assms by (simp add: wake_frame_def)
  qed
  moreover have "same_fields tk tk2 \<and> lock_config lk2 = lock_config lk"
    using assms by (simp add: wake_frame_def same_fields_def)
  moreover have "grown (d_type (tk e)) (d_type (tk2 e))" for e
    using assms grown_trans [of "d_type (tk e)" "d_type (tk1 e)"] by (simp add: wake_frame_def)
  ultimately show ?thesis using a b unfolding wake_frame_def
    by (intro conjI exI [of _ "ws1 @ ws2"] exI [of _ "rs1 @ rs2"]) auto
qed

lemma wake_frame_linked:
  assumes "wake_frame tk lk tk' lk'"
  shows "set (linked lk') = set (linked lk)"
  using assms by (auto simp: wake_frame_def linked_set)

lemma wake_frame_free:
  assumes "distinct (linked lk)" "free_all_read_locks u tk lk = (tk', lk')"
  shows "wake_frame tk lk tk' lk'"
  using assms(2) unfolding free_all_read_locks_eq [OF assms(1)] Let_def
  by (auto simp: wake_frame_def same_fields_def lock_config_def wake_all_def)

lemma wake_frame_free_if:
  assumes "distinct (linked lk)" "free_readers_if u tk lk = (tk', lk')"
  shows "wake_frame tk lk tk' lk'"
  using assms wake_frame_free by (auto simp: free_readers_if_def split: if_splits)

lemma started_same: "same_fields tk (started tk lk d)"
  by (simp add: same_fields_def started_def)

lemma started_grows: "grown (d_type (tk e)) (d_type (started tk lk d e))"
  by (simp add: started_def grown_def tl_order)

lemma wake_frame_started:
  "write_wait lk = d # ws \<Longrightarrow>
   wake_frame tk lk (started tk lk d) (lk\<lparr> write_wait := ws, write_list := write_list lk @ [d] \<rparr>)"
  by (auto simp: wake_frame_def started_same started_other started_grows lock_config_def)

lemma wake_frame_joined:
  "write_wait lk = d # ws \<Longrightarrow>
   wake_frame tk lk (set_cond d False tk) (lk\<lparr> write_wait := ws, write_list := write_list lk @ [d] \<rparr>)"
  by (auto simp: wake_frame_def same_fields_def set_cond_def lock_config_def)

lemma wake_frame_start_writers:
  assumes "write_wait lk = d # ws" "start_writers d ws tk lk = (e, tk', lk')"
  shows "wake_frame tk lk tk' lk'"
  using assms
proof (induction ws arbitrary: d tk lk)
  case Nil
  then show ?case using wake_frame_started [of lk d "[]" tk] by (auto simp: start_writers_step)
next
  case (Cons f ws d tk lk)
  note one = wake_frame_started [OF Cons.prems(1), of tk]
  show ?case
  proof (cases "d_type (started tk lk d d) \<noteq> TL_WRITE_ALLOW_WRITE \<or> d_type (started tk lk d f) \<noteq> TL_WRITE_ALLOW_WRITE")
    case True
    then show ?thesis using one Cons.prems(2) by (auto simp: start_writers_step)
  next
    case False
    then have "wake_frame (started tk lk d) (lk\<lparr> write_wait := f # ws, write_list := write_list lk @ [d] \<rparr>) tk' lk'"
      using Cons.prems(2) by (intro Cons.IH) (simp_all add: start_writers_step)
    with one show ?thesis by (rule wake_frame_trans)
  qed
qed

lemma wake_frame_join_writers:
  assumes "write_wait lk = d # ws" "join_writers ty d ws tk lk = (tk', lk')"
  shows "wake_frame tk lk tk' lk'"
  using assms
proof (induction ws arbitrary: d tk lk)
  case Nil
  then show ?case using wake_frame_joined [of lk d "[]" tk] by (auto simp: join_writers_step)
next
  case (Cons f ws d tk lk)
  note one = wake_frame_joined [OF Cons.prems(1), of tk]
  show ?case
  proof (cases "ty = TL_WRITE_ALLOW_WRITE \<and> d_type (tk f) = TL_WRITE_ALLOW_WRITE")
    case False
    then show ?thesis using one Cons.prems(2) by (auto simp: join_writers_step)
  next
    case True
    then have "wake_frame (set_cond d False tk) (lk\<lparr> write_wait := f # ws, write_list := write_list lk @ [d] \<rparr>) tk' lk'"
      using Cons.prems(2) by (intro Cons.IH) (simp_all add: join_writers_step)
    with one show ?thesis by (rule wake_frame_trans)
  qed
qed

lemma wake_frame_retype:
  "d \<in> set (write_wait lk) \<Longrightarrow> grown (d_type (tk d)) ty \<Longrightarrow> wake_frame tk lk (set_type d ty tk) lk"
  by (auto simp: wake_frame_def same_fields_def set_type_def)

lemma wake_frame_count:
  "wake_frame tk lk tk' lk' \<Longrightarrow> wake_frame tk (lk\<lparr> write_lock_count := c \<rparr>) tk' lk'"
  "wake_frame tk (lk\<lparr> write_lock_count := c \<rparr>) tk' lk' \<Longrightarrow> wake_frame tk lk tk' lk'"
  by (simp_all add: wake_frame_def lock_config_def)

lemma no_orphans_free_if:
  assumes "free_readers_if u tk lk = (tk', lk')" "distinct (linked lk)"
    "write_list lk \<noteq> [] \<or> \<not> u \<and> (write_wait lk = [] \<or> read_wait lk \<noteq> [] \<or> read_list lk \<noteq> [])"
  shows "no_orphans lk'"
  using assms(1,3)
  by (auto simp: free_readers_if_def free_all_read_locks_eq [OF assms(2)] Let_def no_orphans_def sent_back_def
      split: if_splits)

lemma no_orphans_active: "write_list lk \<noteq> [] \<Longrightarrow> no_orphans lk"
  by (simp add: no_orphans_def)

lemma wake_up_idle_frame:
  assumes ok: "lock_ok tk lk" and idle: "write_list lk = []" "read_list lk = []"
    and w: "wake_up_idle mx tk lk = (tk', lk')"
  shows "wake_frame tk lk tk' lk' \<and> no_orphans lk'"
proof (cases "write_wait lk")
  case Nil
  then have "free_readers_if False tk lk = (tk', lk')" using w by (simp add: wake_up_idle_def)
  then show ?thesis
    using Nil wake_frame_free_if no_orphans_free_if lock_okD(1) [OF ok] by blast
next
  case (Cons d ws)
  let ?over = "write_lock_count lk > mx"
  let ?lk = "lk\<lparr> write_lock_count := (if ?over then 0 else write_lock_count lk + 1) \<rparr>"
  let ?first = "d_type (tk d) \<noteq> TL_WRITE_LOW_PRIORITY \<or> read_wait lk = [] \<or>
    d_type (tk (hd (read_wait lk))) < TL_READ_HIGH_PRIORITY"
  have dist: "distinct (linked lk)" "distinct (linked ?lk)" using lock_okD(1) [OF ok] by (auto simp: linked_def)
  obtain e tk2 lk2 where st: "start_writers d ws tk ?lk = (e, tk2, lk2)" by (metis prod_cases3)
  have "lock_ok tk ?lk" using ok by (simp add: lock_ok_defs linked_def)
  then have ws: "writers_started tk ?lk e tk2 lk2"
    using st idle Cons by (intro start_writers_ok) (auto simp: writers_so_far_def)
  have f2: "wake_frame tk lk tk2 lk2"
    using wake_frame_start_writers [OF _ st] Cons by (auto intro: wake_frame_count(2))
  have d2: "distinct (linked lk2)" "write_list lk2 \<noteq> []"
    using ws lock_okD(1) by (auto simp: writers_started_def)
  consider (low) "\<not> ?first" | (over) ?first "?over \<and> read_wait lk \<noteq> []" | (go) ?first "\<not> (?over \<and> read_wait lk \<noteq> [])"
    by blast
  then show ?thesis
  proof cases
    case low
    then have "free_readers_if False tk lk = (tk', lk')" "read_wait lk \<noteq> []"
      using w Cons by (auto simp: wake_up_idle_def shares_insert_def)
    then show ?thesis using wake_frame_free_if no_orphans_free_if dist(1) by blast
  next
    case over
    then have fr: "free_readers_if False tk ?lk = (tk', lk')"
      using w Cons by (simp add: wake_up_idle_def free_readers_if_def)
    have "wake_frame tk lk tk' lk'"
      using wake_frame_free_if [OF dist(2) fr] by (rule wake_frame_count(2))
    moreover have "no_orphans lk'" using over by (intro no_orphans_free_if [OF fr dist(2)]) simp
    ultimately show ?thesis ..
  next
    case go
    have rw: "read_wait ?lk = read_wait lk" by simp
    from go have eq: "(if d_type (tk2 e) \<ge> TL_WRITE_LOW_PRIORITY then (tk2, lk2)
        else free_readers_if (shares_insert (d_type (tk2 e))) tk2 lk2) = (tk', lk')"
      using w by (simp only: wake_up_idle_def Let_def Cons list.case st prod.case rw if_True if_False)
    show ?thesis
    proof (cases "d_type (tk2 e) \<ge> TL_WRITE_LOW_PRIORITY")
      case True
      then show ?thesis using eq f2 d2(2) no_orphans_active by simp
    next
      case False
      then have fr: "free_readers_if (shares_insert (d_type (tk2 e))) tk2 lk2 = (tk', lk')" using eq by simp
      have "wake_frame tk lk tk' lk'" using f2 wake_frame_free_if [OF d2(1) fr] by (rule wake_frame_trans)
      moreover have "no_orphans lk'" using d2 by (intro no_orphans_free_if [OF fr]) simp_all
      ultimately show ?thesis ..
    qed
  qed
qed

lemma wake_up_beside_readers_frame:
  assumes ok: "lock_ok tk lk" and idle: "write_list lk = []" "read_list lk \<noteq> []"
    and w: "wake_up_beside_readers tk lk = (tk', lk')"
  shows "wake_frame tk lk tk' lk' \<and> no_orphans lk'"
proof (cases "write_wait lk")
  case Nil
  then have "free_readers_if False tk lk = (tk', lk')" using w by (simp add: wake_up_beside_readers_def)
  then show ?thesis
    using Nil wake_frame_free_if no_orphans_free_if lock_okD(1) [OF ok] by blast
next
  case (Cons d ws)
  let ?ty = "d_type (tk d)"
  let ?guard = "?ty \<le> TL_WRITE_DELAYED \<and>
      (?ty \<noteq> TL_WRITE_CONCURRENT_INSERT \<and> ?ty \<noteq> TL_WRITE_ALLOW_WRITE \<or> read_no_write_count lk = 0)"
  let ?up = "?ty = TL_WRITE_CONCURRENT_INSERT \<and> status_check tk lk d"
  have dist: "distinct (linked lk)" using ok by (rule lock_okD)
  obtain tk1 lk1 where jn: "join_writers ?ty d ws tk lk = (tk1, lk1)" by fastforce
  consider (no) "\<not> ?guard" | (up) ?guard ?up | (go) ?guard "\<not> ?up" by blast
  then show ?thesis
  proof cases
    case no
    then have "(tk', lk') = (tk, lk)" using w Cons by (auto simp: wake_up_beside_readers_def Let_def)
    then show ?thesis using idle Cons by (simp add: no_orphans_def)
  next
    case up
    then have fr: "free_readers_if False (set_type d TL_WRITE tk) lk = (tk', lk')"
      using w Cons by (simp add: wake_up_beside_readers_def Let_def)
    have "wake_frame tk lk tk' lk'"
      using Cons up(2)
      by (intro wake_frame_trans [OF wake_frame_retype wake_frame_free_if [OF dist fr]]) (simp_all add: grown_def tl_order)
    moreover have "no_orphans lk'" using idle by (intro no_orphans_free_if [OF fr dist]) simp
    ultimately show ?thesis ..
  next
    case go
    have "is_write ?ty" using lock_okD(4) [OF ok] Cons by simp
    then have "\<forall>r\<in>set (read_list lk). \<not> thr_conflict (allow_multiple_concurrent_insert lk) (d_type (tk r)) ?ty"
      using beside_readers_no_conflict [OF ok _ _ go(1)] by blast
    then obtain e where "writers_started tk lk e tk1 lk1"
      using join_writers_ok [OF ok Cons refl _ _ jn] idle by (auto simp: writers_so_far_def)
    then have d1: "distinct (linked lk1)" "write_list lk1 \<noteq> []"
      using lock_okD(1) by (auto simp: writers_started_def)
    have fr: "free_readers_if (shares_insert ?ty) tk1 lk1 = (tk', lk')"
      using w go jn Cons by (simp add: wake_up_beside_readers_def Let_def)
    have "wake_frame tk lk tk' lk'"
      using wake_frame_join_writers [OF Cons jn] wake_frame_free_if [OF d1(1) fr] by (rule wake_frame_trans)
    moreover have "no_orphans lk'" using d1 by (intro no_orphans_free_if [OF fr]) simp_all
    ultimately show ?thesis ..
  qed
qed

lemma wake_up_waiters_frame:
  assumes ok: "lock_ok tk lk" and w: "wake_up_waiters mx tk lk = (tk', lk')"
  shows "lock_ok tk' lk'" "wake_frame tk lk tk' lk'" "no_orphans lk'"
proof -
  show "lock_ok tk' lk'" using wake_up_waiters_ok [OF ok, of mx] w by simp
  have "wake_frame tk lk tk' lk' \<and> no_orphans lk'"
  proof (cases "write_list lk = []")
    case True
    then show ?thesis
      using w wake_up_idle_frame [OF ok True] wake_up_beside_readers_frame [OF ok True]
      by (cases "read_list lk = []") (simp_all add: wake_up_waiters_def)
  next
    case False
    then show ?thesis using w by (auto simp: wake_up_waiters_def no_orphans_active)
  qed
  then show "wake_frame tk lk tk' lk'" "no_orphans lk'" by simp_all
qed

subsection \<open>Requests\<close>

text \<open>
  What \<^verbatim>\<open>thr_lock\<close> relies on: the instance is not linked, its type is one that a request may have,
  and requests of a session for one table come in descending order of their types, none of them
  after a delayed insert. \<^verbatim>\<open>sort_locks\<close> provides the order; the source states the rule in the comment
  above its assertion. The global \<^verbatim>\<open>thr_upgraded_concurrent_insert_lock\<close> is one of two types.
\<close>

definition sorted_after :: "data_store \<Rightarrow> THR_LOCK \<Rightarrow> data_id \<Rightarrow> owner_id \<Rightarrow> bool" where
  "sorted_after tk lk d own \<longleftrightarrow> (is_write (d_type (tk d)) \<longrightarrow>
     (\<forall>w\<in>set (write_list lk). d_owner (tk w) = own \<longrightarrow>
        d_type (tk d) \<le> d_type (tk w) \<and> d_type (tk w) \<noteq> TL_WRITE_DELAYED))"

definition thr_request_ok :: "thr_lock_type \<Rightarrow> data_store \<Rightarrow> THR_LOCK \<Rightarrow> data_id \<Rightarrow> owner_id \<Rightarrow> bool" where
  "thr_request_ok upgraded tk lk d own \<longleftrightarrow>
     d \<notin> set (linked lk) \<and> (is_read (d_type (tk d)) \<or> is_write (d_type (tk d))) \<and>
     (upgraded = TL_WRITE \<or> upgraded = TL_WRITE_LOW_PRIORITY) \<and>
     length (read_wait lk) + length (read_list lk) + 1 < 2 ^ 32 \<and> sorted_after tk lk d own"

lemma rank_le: "tl_rank a \<le> tl_rank b \<Longrightarrow> b \<le> TL_WRITE_DELAYED \<Longrightarrow> a \<le> b"
  by (auto simp: tl_rank_def tl_order min_def split: if_splits)

lemma rank_mono: "a \<le> b \<or> TL_WRITE_DELAYED < b \<Longrightarrow> tl_rank a \<le> tl_rank b"
  by (cases b) (auto simp: tl_rank_def tl_order min_def split: if_splits)

lemma is_write_low: "is_write ty \<Longrightarrow> ty \<le> TL_WRITE_DELAYED \<longleftrightarrow>
    ty = TL_WRITE_ALLOW_WRITE \<or> ty = TL_WRITE_CONCURRENT_INSERT \<or> ty = TL_WRITE_DELAYED"
  by (cases ty) (simp_all add: is_write_def tl_order)

lemma holders_compatibleD:
  assumes "lock_ok tk lk" "a \<in> set (read_list lk) \<union> set (write_list lk)"
    "b \<in> set (read_list lk) \<union> set (write_list lk)" "d_owner (tk a) \<noteq> d_owner (tk b)"
  shows "\<not> thr_conflict (allow_multiple_concurrent_insert lk) (d_type (tk a)) (d_type (tk b))"
  using assms unfolding lock_ok_def holders_compatible_def holders_ok_def by blast

lemma other_writer:
  assumes ok: "lock_ok tk lk" and v: "v \<in> set (write_list lk)" "u \<in> set (write_list lk)"
    and own: "d_owner (tk u) \<noteq> d_owner (tk v)"
  shows "d_type (tk v) = TL_WRITE_ALLOW_WRITE \<or>
    allow_multiple_concurrent_insert lk \<and> d_type (tk v) = TL_WRITE_CONCURRENT_INSERT"
proof -
  have "is_write (d_type (tk v))" "is_write (d_type (tk u))" using lock_okD(5) [OF ok] v by auto
  moreover have "\<not> thr_conflict (allow_multiple_concurrent_insert lk) (d_type (tk u)) (d_type (tk v))"
    using holders_compatibleD [OF ok, of u v] v own by simp
  ultimately show ?thesis
    using is_write_low [of "d_type (tk v)"]
    by (auto simp: conflict_write_write tl_order split: if_splits)
qed

text \<open>With a compatible writer at the head of the list, all writers are compatible.\<close>

lemma head_writer:
  assumes ok: "lock_ok tk lk" and wl: "write_list lk = w # ws" and v: "v \<in> set (write_list lk)"
    and low: "d_type (tk w) \<le> TL_WRITE_DELAYED"
  shows "d_type (tk v) = d_type (tk w) \<or> d_type (tk v) = TL_WRITE_ALLOW_WRITE \<or>
    allow_multiple_concurrent_insert lk \<and> d_type (tk v) = TL_WRITE_CONCURRENT_INSERT"
proof (cases "d_owner (tk w) = d_owner (tk v)")
  case True
  have "v = w \<or> write_order tk w v"
    using ok wl v by (auto simp: lock_ok_def writers_ok_def)
  then have "d_type (tk v) \<le> d_type (tk w)"
    using True low by (auto simp: write_order_def intro: rank_le)
  moreover have "is_write (d_type (tk v))" "is_write (d_type (tk w))"
    using lock_okD(5) [OF ok] wl v by auto
  moreover have "d_type (tk w) = TL_WRITE_DELAYED \<Longrightarrow> v = w"
    using ok wl v by (auto simp: lock_ok_def writers_ok_def)
  ultimately show ?thesis using low
    is_write_low [of "d_type (tk v)"] is_write_low [of "d_type (tk w)"] by (auto simp: tl_order)
next
  case False
  then show ?thesis using other_writer [OF ok v, of w] wl by auto
qed

lemma read_beside_write_compat:
  assumes ok: "lock_ok tk lk" and wl: "write_list lk = w # ws" and v: "v \<in> set (write_list lk)"
    and rd: "is_read (d_type (tk d))" and rb: "read_beside_write tk d w"
    and own: "d_owner (tk v) \<noteq> d_owner (tk d)"
  shows "\<not> thr_conflict (allow_multiple_concurrent_insert lk) (d_type (tk v)) (d_type (tk d))"
proof -
  have wr: "is_write (d_type (tk v))" using lock_okD(5) [OF ok v] by simp
  have "d_type (tk v) \<le> TL_WRITE_DELAYED \<and>
    \<not> (\<not> allow_multiple_concurrent_insert lk \<and> d_type (tk v) = TL_WRITE_CONCURRENT_INSERT \<and>
       d_type (tk d) = TL_READ_NO_INSERT)"
  proof (cases "d_owner (tk d) = d_owner (tk w)")
    case True
    then show ?thesis using other_writer [OF ok v, of w] wl own by (auto simp: tl_order)
  next
    case False
    then have "d_type (tk w) \<le> TL_WRITE_DELAYED"
      "d_type (tk d) \<le> TL_READ_HIGH_PRIORITY \<or> d_type (tk w) \<noteq> TL_WRITE_CONCURRENT_INSERT"
      using rb by (auto simp: read_beside_write_def thr_lock_owner_equal_def)
    then show ?thesis using head_writer [OF ok wl v] by (auto simp: tl_order)
  qed
  then show ?thesis
    using wr rd conflict_sym by (auto simp: conflict_read_write not_less)
qed

lemma has_old_lock_iff: "has_old_lock tk ds own \<longleftrightarrow> (\<exists>d\<in>set ds. d_owner (tk d) = own)"
  by (induction ds) (auto simp: thr_lock_owner_equal_def)

definition write_request :: "data_store \<Rightarrow> THR_LOCK \<Rightarrow> data_id \<Rightarrow> bool" where
  "write_request tk lk d \<longleftrightarrow> is_write (d_type (tk d)) \<and>
     (write_list lk \<noteq> [] \<longrightarrow> d_type (tk d) \<noteq> TL_WRITE_DELAYED) \<and>
     (check_status lk = None \<longrightarrow> d_type (tk d) \<noteq> TL_WRITE_CONCURRENT_INSERT) \<and>
     (\<forall>v\<in>set (write_list lk). d_owner (tk v) = d_owner (tk d) \<longrightarrow>
        (d_type (tk d) \<le> d_type (tk v) \<or> TL_WRITE_DELAYED < d_type (tk v)) \<and>
        d_type (tk v) \<noteq> TL_WRITE_DELAYED)"

lemma second_write_compat:
  assumes ok: "lock_ok tk lk" and wl: "write_list lk = w # ws" and wr: "write_request tk lk d"
    and sw: "second_write tk lk d w"
  shows "\<forall>u\<in>set (read_list lk) \<union> set (write_list lk). d_owner (tk u) \<noteq> d_owner (tk d) \<longrightarrow>
      \<not> thr_conflict (allow_multiple_concurrent_insert lk) (d_type (tk u)) (d_type (tk d))"
    and "\<forall>v\<in>set (write_list lk). d_type (tk v) \<noteq> TL_WRITE_DELAYED"
proof -
  let ?m = "allow_multiple_concurrent_insert lk" and ?t = "d_type (tk d)"
  have wt: "is_write ?t" "?t \<noteq> TL_WRITE_DELAYED" using wr wl by (auto simp: write_request_def)
  have ws: "is_write (d_type (tk v))" if "v \<in> set (write_list lk)" for v using lock_okD(5) [OF ok that] by simp
  have rs: "is_read (d_type (tk v))" if "v \<in> set (read_list lk)" for v using lock_okD(3) [OF ok that] by simp
  have both: "(\<forall>u\<in>set (read_list lk) \<union> set (write_list lk). d_owner (tk u) \<noteq> d_owner (tk d) \<longrightarrow>
      \<not> thr_conflict ?m (d_type (tk u)) ?t) \<and> (\<forall>v\<in>set (write_list lk). d_type (tk v) \<noteq> TL_WRITE_DELAYED)"
  proof (cases "has_old_lock tk (write_list lk) (d_owner (tk d))")
    case True
    then obtain v0 where v0: "v0 \<in> set (write_list lk)" "d_owner (tk v0) = d_owner (tk d)"
      by (auto simp: has_old_lock_iff)
    then have below: "?t \<le> d_type (tk v0) \<or> TL_WRITE_DELAYED < d_type (tk v0)" "d_type (tk v0) \<noteq> TL_WRITE_DELAYED"
      using wr by (auto simp: write_request_def)
    have "\<not> thr_conflict ?m (d_type (tk u)) ?t" if u: "u \<in> set (read_list lk)" "d_owner (tk u) \<noteq> d_owner (tk d)" for u
    proof -
      have "\<not> thr_conflict ?m (d_type (tk u)) (d_type (tk v0))"
        using holders_compatibleD [OF ok, of u v0] u v0 by simp
      then show ?thesis
        using below is_write_low [OF ws [OF v0(1)]] wt rs [OF u(1)] ws [OF v0(1)]
        by (cases ?t) (auto simp: conflict_read_write tl_order)
    qed
    moreover have "\<not> thr_conflict ?m (d_type (tk v)) ?t" if v: "v \<in> set (write_list lk)" "d_owner (tk v) \<noteq> d_owner (tk d)" for v
    proof -
      have a: "d_type (tk v) = TL_WRITE_ALLOW_WRITE \<or> ?m \<and> d_type (tk v) = TL_WRITE_CONCURRENT_INSERT"
        using other_writer [OF ok v(1) v0(1)] v0 v by simp
      have b: "d_type (tk v0) = TL_WRITE_ALLOW_WRITE \<or> ?m \<and> d_type (tk v0) = TL_WRITE_CONCURRENT_INSERT"
        using other_writer [OF ok v0(1) v(1)] v0 v by simp
      show ?thesis using a b below wt
        by (cases ?t) (auto simp: conflict_write_write tl_order is_write_def split: if_splits)
    qed
    moreover have "d_type (tk v) \<noteq> TL_WRITE_DELAYED" if "v \<in> set (write_list lk)" for v
      using other_writer [OF ok that v0(1)] that v0 wr by (cases "d_owner (tk v) = d_owner (tk d)") (auto simp: write_request_def)
    ultimately show ?thesis by blast
  next
    case False
    then have sh: "?t = TL_WRITE_ALLOW_WRITE \<or> ?t = TL_WRITE_CONCURRENT_INSERT \<and> ?m" "d_type (tk w) = ?t"
      using sw by (auto simp: second_write_def Let_def)
    then have all: "d_type (tk v) = ?t \<or> d_type (tk v) = TL_WRITE_ALLOW_WRITE \<or> ?m \<and> d_type (tk v) = TL_WRITE_CONCURRENT_INSERT"
      if "v \<in> set (write_list lk)" for v
      using head_writer [OF ok wl that] by (auto simp: tl_order)
    have "\<not> thr_conflict ?m (d_type (tk u)) ?t" if "u \<in> set (read_list lk)" for u
      using sh rs [OF that] wt by (auto simp: conflict_read_write tl_order)
    moreover have "\<not> thr_conflict ?m (d_type (tk v)) ?t" if "v \<in> set (write_list lk)" for v
      using sh all [OF that] ws [OF that] wt by (auto simp: conflict_write_write tl_order)
    moreover have "d_type (tk v) \<noteq> TL_WRITE_DELAYED" if "v \<in> set (write_list lk)" for v
      using all [OF that] wt by auto
    ultimately show ?thesis by blast
  qed
  then show "\<forall>u\<in>set (read_list lk) \<union> set (write_list lk). d_owner (tk u) \<noteq> d_owner (tk d) \<longrightarrow>
      \<not> thr_conflict ?m (d_type (tk u)) ?t" "\<forall>v\<in>set (write_list lk). d_type (tk v) \<noteq> TL_WRITE_DELAYED"
    by blast+
qed

text \<open>The outcome of a request: the instance is refused, active, or in one of the wait queues.\<close>

definition lists_grow :: "THR_LOCK \<Rightarrow> THR_LOCK \<Rightarrow> bool" where
  "lists_grow lk lk' \<longleftrightarrow> set (read_wait lk) \<subseteq> set (read_wait lk') \<and> set (read_list lk) \<subseteq> set (read_list lk') \<and>
     set (write_wait lk) \<subseteq> set (write_wait lk') \<and> set (write_list lk) \<subseteq> set (write_list lk')"

definition lock_outcome :: "data_store \<Rightarrow> THR_LOCK \<Rightarrow> data_id \<Rightarrow> lock_answer \<Rightarrow> data_store \<Rightarrow> THR_LOCK \<Rightarrow> bool" where
  "lock_outcome tk lk d a tk' lk' \<longleftrightarrow>
     lock_ok tk' lk' \<and> no_orphans lk' \<and> lock_config lk' = lock_config lk \<and> lists_grow lk lk' \<and>
     (\<forall>e. e \<noteq> d \<longrightarrow> tk' e = tk e) \<and> d_owner (tk' d) = d_owner (tk d) \<and> d_lock (tk' d) = d_lock (tk d) \<and>
     (a = Answered THR_LOCK_ABORTED \<and> d_type (tk' d) = TL_UNLOCK \<and> set (linked lk') = set (linked lk) \<or>
      set (linked lk') = insert d (set (linked lk)) \<and> grown (d_type (tk d)) (d_type (tk' d)) \<and>
      (a = Waiting \<longrightarrow> d \<in> set (read_wait lk') \<union> set (write_wait lk')) \<and>
      (a \<noteq> Waiting \<longrightarrow> d \<in> set (read_list lk') \<union> set (write_list lk') \<or>
         d \<in> set (write_wait lk') \<and> d_type (tk' d) = TL_WRITE_DELAYED))"

lemma outcome_refused:
  assumes "lock_ok tk lk" "no_orphans lk" "d \<notin> set (linked lk)" "lock_refused tk lk d = (a, tk', lk')"
  shows "lock_outcome tk lk d a tk' lk'"
proof -
  have eq: "a = Answered THR_LOCK_ABORTED" "tk' = set_type d TL_UNLOCK tk" "lk' = lk"
    using assms(4) by (auto simp: lock_refused_def)
  have "lock_ok tk' lk'" unfolding eq set_type_def using assms by (intro lock_ok_fresh)
  then show ?thesis using assms(2) eq by (auto simp: lock_outcome_def set_type_def lists_grow_def)
qed

lemma outcome_wait_write:
  assumes ok: "lock_ok tk lk" and new: "d \<notin> set (linked lk)" and wr: "is_write (d_type (tk d))"
      "check_status lk = None \<longrightarrow> d_type (tk d) \<noteq> TL_WRITE_CONCURRENT_INSERT"
    and act: "write_list lk \<noteq> [] \<or> read_list lk \<noteq> []"
    and eq: "tk' = set_cond d True tk" "lk' = lk\<lparr> write_wait := write_wait lk @ [d] \<rparr>"
    and a: "a = Waiting \<or> d_type (tk d) = TL_WRITE_DELAYED"
  shows "lock_outcome tk lk d a tk' lk'"
proof -
  have "lock_ok (set_cond d True tk) lk" unfolding set_cond_def using ok new by (rule lock_ok_fresh)
  moreover have "distinct (write_wait lk @ [d])" using linked_distinctD(3) [OF lock_okD(1) [OF ok]] new by (auto simp: linked_set)
  ultimately have "lock_ok tk' lk'" unfolding eq using new wr
    by (intro lock_ok_add_write_wait) auto
  moreover have "no_orphans lk'" using act by (auto simp: eq no_orphans_def)
  moreover have "set (linked lk') = insert d (set (linked lk))" by (auto simp: eq linked_set)
  moreover have "d \<in> set (write_wait lk')" by (simp add: eq)
  ultimately show ?thesis using a by (auto simp: lock_outcome_def lists_grow_def lock_config_def eq set_cond_def)
qed

lemma outcome_wait_read:
  assumes ok: "lock_ok tk lk" and new: "d \<notin> set (linked lk)" and rd: "is_read (d_type (tk d))"
    and room: "length (read_wait lk) + length (read_list lk) + 1 < 2 ^ 32"
    and act: "write_list lk \<noteq> [] \<or> write_wait lk \<noteq> [] \<and> read_list lk \<noteq> []"
    and w: "wait_for_read tk lk d = (a, tk', lk')"
  shows "lock_outcome tk lk d a tk' lk'"
proof -
  have eq: "a = Waiting" "tk' = set_cond d True tk" "lk' = lk\<lparr> read_wait := read_wait lk @ [d] \<rparr>"
    using w by (auto simp: wait_for_read_def)
  have "lock_ok (set_cond d True tk) lk" unfolding set_cond_def using ok new by (rule lock_ok_fresh)
  then have "lock_ok tk' lk'" unfolding eq using new rd room
    by (intro lock_ok_add_read_wait) auto
  moreover have "no_orphans lk'" using act by (auto simp: eq no_orphans_def)
  moreover have "set (linked lk') = insert d (set (linked lk))" by (auto simp: eq linked_set)
  moreover have "d \<in> set (read_wait lk')" by (simp add: eq)
  ultimately show ?thesis by (auto simp: lock_outcome_def lists_grow_def lock_config_def eq set_cond_def)
qed

lemma outcome_add_write:
  assumes ok: "lock_ok tk lk" and new: "d \<notin> set (linked lk)" and wr: "write_request tk lk d"
    and nc: "\<not> d_cond (tk d)"
    and compat: "\<forall>u\<in>set (read_list lk) \<union> set (write_list lk). d_owner (tk u) \<noteq> d_owner (tk d) \<longrightarrow>
      \<not> thr_conflict (allow_multiple_concurrent_insert lk) (d_type (tk u)) (d_type (tk d))"
    and del: "\<forall>v\<in>set (write_list lk). d_type (tk v) \<noteq> TL_WRITE_DELAYED" and a: "a \<noteq> Waiting"
  shows "lock_outcome tk lk d a tk (add_write d lk)"
proof -
  have "lock_ok tk (add_write d lk)"
  proof (rule lock_ok_add_write [OF ok new])
    show "write_list lk = [] \<or> d_type (tk d) \<noteq> TL_WRITE_DELAYED \<and>
      (\<forall>w\<in>set (write_list lk). d_type (tk w) \<noteq> TL_WRITE_DELAYED)"
      using wr del by (auto simp: write_request_def)
    fix w assume "w \<in> set (write_list lk)"
    then show "write_order tk w d"
      using wr by (auto simp: write_request_def write_order_def intro!: rank_mono)
  qed (use wr nc compat in \<open>auto simp: write_request_def\<close>)
  moreover have "set (linked (add_write d lk)) = insert d (set (linked lk))"
    by (auto simp: linked_set add_write_def)
  ultimately show ?thesis using a
    by (auto simp: lock_outcome_def lists_grow_def add_write_def no_orphans_def lock_config_def)
qed

lemma outcome_add_read:
  assumes ok: "lock_ok tk lk" "no_orphans lk" and new: "d \<notin> set (linked lk)" and rd: "is_read (d_type (tk d))"
    and nc: "\<not> d_cond (tk d)"
    and compat: "\<And>w. w \<in> set (write_list lk) \<Longrightarrow> d_owner (tk w) \<noteq> d_owner (tk d) \<Longrightarrow>
      \<not> thr_conflict (allow_multiple_concurrent_insert lk) (d_type (tk w)) (d_type (tk d))"
    and room: "length (read_wait lk) + length (read_list lk) + 1 < 2 ^ 32" and a: "a \<noteq> Waiting"
  shows "lock_outcome tk lk d a tk (add_read tk d lk)"
proof -
  have "lock_ok tk (add_read tk d lk)" using assms by (intro lock_ok_add_read) auto
  moreover have "set (linked (add_read tk d lk)) = insert d (set (linked lk))"
    by (auto simp: linked_set add_read_def)
  moreover have "no_orphans (add_read tk d lk)" using ok(2) by (auto simp: no_orphans_def add_read_def)
  ultimately show ?thesis using a
    by (auto simp: lock_outcome_def lists_grow_def add_read_def lock_config_def)
qed

lemma thr_lock_read_ok:
  assumes ok: "lock_ok tk lk" "no_orphans lk" and new: "d \<notin> set (linked lk)" and rd: "is_read (d_type (tk d))"
    and nc: "\<not> d_cond (tk d)" and room: "length (read_wait lk) + length (read_list lk) + 1 < 2 ^ 32"
    and eq: "thr_lock_read tk lk d = (a, tk', lk')"
  shows "lock_outcome tk lk d a tk' lk'"
proof (cases "write_list lk")
  case Nil
  let ?now = "write_wait lk = [] \<or> d_type (tk (hd (write_wait lk))) \<le> TL_WRITE_LOW_PRIORITY \<or>
             d_type (tk d) = TL_READ_HIGH_PRIORITY \<or> has_old_lock tk (read_list lk) (d_owner (tk d))"
  show ?thesis
  proof (cases ?now)
    case True
    then have "a \<noteq> Waiting" "tk' = tk" "lk' = add_read tk d lk" using eq Nil by (auto simp: thr_lock_read_def)
    then show ?thesis using outcome_add_read [OF ok new rd nc] room Nil by simp
  next
    case False
    then have "wait_for_read tk lk d = (a, tk', lk')" using eq Nil by (auto simp: thr_lock_read_def)
    moreover have "write_wait lk \<noteq> [] \<and> read_list lk \<noteq> []" using False ok(2) Nil by (auto simp: no_orphans_def)
    ultimately show ?thesis using outcome_wait_read [OF ok(1) new rd room] by simp
  qed
next
  case (Cons w ws)
  consider (beside) "read_beside_write tk d w" | (only) "lock_refused tk lk d = (a, tk', lk')"
    | (wait) "wait_for_read tk lk d = (a, tk', lk')"
    using eq Cons by (auto simp: thr_lock_read_def split: if_splits)
  then show ?thesis
  proof cases
    case beside
    then have "a \<noteq> Waiting" "tk' = tk" "lk' = add_read tk d lk" using eq Cons by (auto simp: thr_lock_read_def)
    then show ?thesis
      using outcome_add_read [OF ok new rd nc] room read_beside_write_compat [OF ok(1) Cons _ rd beside] by blast
  next
    case only
    then show ?thesis using outcome_refused [OF ok new] by simp
  next
    case wait
    then show ?thesis using outcome_wait_read [OF ok(1) new rd room _ wait] Cons by simp
  qed
qed

lemma thr_lock_write_ok:
  assumes ok: "lock_ok tk lk" "no_orphans lk" and new: "d \<notin> set (linked lk)" and wr: "write_request tk lk d"
    and nc: "\<not> d_cond (tk d)" and up: "upgraded = TL_WRITE \<or> upgraded = TL_WRITE_LOW_PRIORITY"
    and eq: "thr_lock_write upgraded tk lk d = (a, tk', lk')"
  shows "lock_outcome tk lk d a tk' lk'"
proof (cases "write_list lk")
  case (Cons w ws)
  consider (only) "lock_refused tk lk d = (a, tk', lk')"
    | (second) "second_write tk lk d w" "a \<noteq> Waiting" "tk' = tk" "lk' = add_write d lk"
    | (wait) "wait_for_write tk lk d = (a, tk', lk')"
    using eq Cons by (auto simp: thr_lock_write_def split: if_splits)
  then show ?thesis
  proof cases
    case only
    then show ?thesis using outcome_refused [OF ok new] by simp
  next
    case second
    then show ?thesis
      using outcome_add_write [OF ok(1) new wr nc second_write_compat [OF ok(1) Cons wr second(1)]] by simp
  next
    case wait
    then show ?thesis using wr Cons
      by (intro outcome_wait_write [OF ok(1) new]) (auto simp: wait_for_write_def write_request_def)
  qed
next
  case Nil
  show ?thesis
  proof (cases "write_wait lk = []")
    case False
    then have "wait_for_write tk lk d = (a, tk', lk')" using eq Nil by (simp add: thr_lock_write_def)
    moreover have "read_list lk \<noteq> []" using False ok(2) Nil by (auto simp: no_orphans_def)
    ultimately show ?thesis using wr
      by (intro outcome_wait_write [OF ok(1) new]) (auto simp: wait_for_write_def write_request_def)
  next
    case True
    define tk1 where "tk1 = (if d_type (tk d) = TL_WRITE_CONCURRENT_INSERT \<and> status_check tk lk d
      then set_type d upgraded tk else tk)"
    let ?now = "read_list lk = [] \<or> d_type (tk1 d) \<le> TL_WRITE_DELAYED \<and>
      (d_type (tk1 d) \<noteq> TL_WRITE_CONCURRENT_INSERT \<and> d_type (tk1 d) \<noteq> TL_WRITE_ALLOW_WRITE \<or> read_no_write_count lk = 0)"
    have ok1: "lock_ok tk1 lk" using ok(1) new lock_ok_fresh by (simp add: tk1_def set_type_def)
    have wr1: "write_request tk1 lk d"
      using wr up Nil by (auto simp: tk1_def write_request_def is_write_def tl_order)
    have nc1: "\<not> d_cond (tk1 d)" using nc by (simp add: tk1_def)
    have "lock_outcome tk1 lk d a tk' lk'"
    proof (cases ?now)
      case now: True
      then have r: "a \<noteq> Waiting" "tk' = tk1" "lk' = add_write d lk"
        using eq Nil True by (auto simp: thr_lock_write_def Let_def tk1_def)
      have "\<forall>u\<in>set (read_list lk). \<not> thr_conflict (allow_multiple_concurrent_insert lk) (d_type (tk1 u)) (d_type (tk1 d))"
        using now beside_readers_no_conflict [OF ok1] wr1 by (auto simp: write_request_def)
      then show ?thesis using outcome_add_write [OF ok1 new wr1 nc1] Nil r by simp
    next
      case False
      then have "wait_for_write tk1 lk d = (a, tk', lk')"
        using eq Nil True unfolding thr_lock_write_def Let_def tk1_def [symmetric] by (auto split: if_splits)
      then show ?thesis using wr1 False
        by (intro outcome_wait_write [OF ok1 new]) (auto simp: wait_for_write_def write_request_def)
    qed
    moreover have "d_owner (tk1 d) = d_owner (tk d)" "d_lock (tk1 d) = d_lock (tk d)" "\<forall>e. e \<noteq> d \<longrightarrow> tk1 e = tk e"
      by (auto simp: tk1_def set_type_def)
    moreover have "grown (d_type (tk d)) (d_type (tk1 d))" using up by (auto simp: tk1_def grown_def tl_order)
    ultimately show ?thesis using grown_trans by (auto simp: lock_outcome_def)
  qed
qed

lemma thr_lock_begin_ok:
  assumes ok: "lock_ok tk0 lk" "no_orphans lk" and req: "thr_request_ok upgraded tk0 lk d own"
    and eq: "thr_lock_begin upgraded tk0 lk d own = (a, tk', lk')"
  shows "lock_outcome (tk0(d := (tk0 d)\<lparr> d_owner := own \<rparr>)) lk d a tk' lk'"
proof -
  define tk where "tk = tk0(d := (tk0 d)\<lparr> d_cond := False, d_owner := own,
    d_priority := and (d_priority (tk0 d)) (not THR_LOCK_LATE_PRIV) \<rparr>)"
  let ?t = "d_type (tk d)"
  have new: "d \<notin> set (linked lk)" and room: "length (read_wait lk) + length (read_list lk) + 1 < 2 ^ 32"
    and up: "upgraded = TL_WRITE \<or> upgraded = TL_WRITE_LOW_PRIORITY"
    and ty: "is_read ?t \<or> is_write ?t"
    using req by (auto simp: thr_request_ok_def tk_def)
  have ok1: "lock_ok tk lk" unfolding tk_def using ok(1) new by (rule lock_ok_fresh)
  have nc: "\<not> d_cond (tk d)" by (simp add: tk_def)
  have own: "d_owner (tk d) = own" by (simp add: tk_def)
  have other: "tk w = tk0 w" if "w \<in> set (write_list lk)" for w
    using that new by (auto simp: tk_def linked_set)
  have sorted: "d_owner (tk w) = own \<Longrightarrow> ?t \<le> d_type (tk w) \<and> d_type (tk w) \<noteq> TL_WRITE_DELAYED"
    if "is_write ?t" "w \<in> set (write_list lk)" for w
    using req that other [OF that(2)] by (auto simp: thr_request_ok_def sorted_after_def tk_def)
  have "lock_outcome tk lk d a tk' lk'"
  proof (cases "?t < TL_FIRST_WRITE")
    case True
    then have "is_read ?t" using ty by (auto simp: is_write_def)
    moreover have "thr_lock_read tk lk d = (a, tk', lk')"
      using eq True unfolding thr_lock_begin_def Let_def tk_def [symmetric] by simp
    ultimately show ?thesis using thr_lock_read_ok [OF ok1 ok(2) new _ nc room] by simp
  next
    case False
    then have wt: "is_write ?t" using ty by (auto simp: is_read_def tl_order)
    consider (refused) "lock_refused tk lk d = (a, tk', lk')"
      | (delayed) "?t = TL_WRITE_DELAYED" "write_list lk \<noteq> [] \<or> read_list lk \<noteq> []"
          "tk' = set_cond d True tk" "lk' = lk\<lparr> write_wait := write_wait lk @ [d] \<rparr>"
      | (upgrade) "?t = TL_WRITE_CONCURRENT_INSERT" "check_status lk = None"
          "thr_lock_write upgraded (set_type d upgraded tk) lk d = (a, tk', lk')"
      | (plain) "?t = TL_WRITE_DELAYED \<Longrightarrow> write_list lk = []"
          "?t = TL_WRITE_CONCURRENT_INSERT \<Longrightarrow> check_status lk \<noteq> None"
          "thr_lock_write upgraded tk lk d = (a, tk', lk')"
      using eq False unfolding thr_lock_begin_def Let_def tk_def [symmetric] by (auto split: if_splits)
    then show ?thesis
    proof cases
      case refused
      then show ?thesis using outcome_refused [OF ok1 ok(2) new] by simp
    next
      case delayed
      then show ?thesis using wt by (intro outcome_wait_write [OF ok1 new]) auto
    next
      case plain
      have "write_request tk lk d"
        using plain(1,2) wt sorted own by (auto simp: write_request_def)
      then show ?thesis using thr_lock_write_ok [OF ok1 ok(2) new _ nc up plain(3)] by simp
    next
      case upgrade
      let ?tk = "set_type d upgraded tk"
      have big: "TL_WRITE_DELAYED < d_type (tk w) \<and> d_type (tk w) \<noteq> TL_WRITE_DELAYED" if "w \<in> set (write_list lk)" "d_owner (tk w) = own" for w
        using sorted [OF wt that] that(1) ok1 upgrade(1,2) lock_okD(5) [OF ok1 that(1)]
        by (cases "d_type (tk w)") (auto simp: lock_ok_def writers_ok_def tl_order)
      have "write_request ?tk lk d"
        using up own big new by (auto simp: write_request_def is_write_def tl_order linked_set)
      moreover have "lock_ok ?tk lk" unfolding set_type_def using ok1 new by (rule lock_ok_fresh)
      ultimately have "lock_outcome ?tk lk d a tk' lk'"
        using thr_lock_write_ok [OF _ ok(2) new _ _ up upgrade(3)] nc by simp
      moreover have "grown (d_type (tk d)) (d_type (?tk d))" using up upgrade(1) by (auto simp: grown_def tl_order)
      ultimately show ?thesis using grown_trans by (auto simp: lock_outcome_def set_type_def)
    qed
  qed
  then show ?thesis by (simp add: lock_outcome_def tk_def)
qed

subsection \<open>Ending a wait, releasing, aborting\<close>

definition release_frame :: "data_store \<Rightarrow> THR_LOCK \<Rightarrow> data_id set \<Rightarrow> bool \<Rightarrow> data_store \<Rightarrow> THR_LOCK \<Rightarrow> bool" where
  "release_frame tk lk D c tk' lk' \<longleftrightarrow>
     lock_ok tk' lk' \<and> no_orphans lk' \<and> lock_config lk' = lock_config lk \<and> same_fields tk tk' \<and>
     (\<forall>e. e \<notin> D \<union> set (read_wait lk) \<union> set (write_wait lk) \<longrightarrow> tk' e = tk e) \<and>
     set (linked lk') = set (linked lk) - D \<and>
     (\<forall>e\<in>D. d_type (tk' e) = TL_UNLOCK \<and> (d_cond (tk' e) \<longrightarrow> c)) \<and> (\<forall>e. e \<notin> D \<longrightarrow> grown (d_type (tk e)) (d_type (tk' e))) \<and>
     (\<forall>e\<in>set (read_list lk) - D. e \<in> set (read_list lk')) \<and>
     (\<forall>e\<in>set (write_list lk) - D. e \<in> set (write_list lk'))"

lemma release_wake:
  assumes ok: "lock_ok tk1 lk1" and w: "wake_up_waiters mx tk1 lk1 = (tk', lk')"
    and pre: "same_fields tk tk1" "lock_config lk1 = lock_config lk" "\<And>e. e \<notin> D \<Longrightarrow> tk1 e = tk e"
      "set (linked lk1) = set (linked lk) - D" "\<And>e. e \<in> D \<Longrightarrow> d_type (tk1 e) = TL_UNLOCK \<and> (d_cond (tk1 e) \<longrightarrow> c)"
      "set (read_wait lk1) \<subseteq> set (read_wait lk)" "set (write_wait lk1) \<subseteq> set (write_wait lk)"
      "\<And>e. e \<in> set (read_list lk) - D \<Longrightarrow> e \<in> set (read_list lk1)"
      "\<And>e. e \<in> set (write_list lk) - D \<Longrightarrow> e \<in> set (write_list lk1)"
  shows "release_frame tk lk D c tk' lk'"
proof -
  note wf = wake_up_waiters_frame [OF ok w]
  have out: "tk' e = tk1 e" if "e \<notin> set (read_wait lk1) \<union> set (write_wait lk1)" for e
    using wf(2) that by (simp add: wake_frame_def)
  have "d_type (tk' e) = TL_UNLOCK \<and> (d_cond (tk' e) \<longrightarrow> c)" if "e \<in> D" for e
    using out [of e] pre(4,5) that by (auto simp: linked_set)
  moreover have "tk' e = tk e" if "e \<notin> D \<union> set (read_wait lk) \<union> set (write_wait lk)" for e
    using out [of e] pre(3,6,7) that by auto
  moreover have "grown (d_type (tk e)) (d_type (tk' e))" if "e \<notin> D" for e
  proof -
    have "grown (d_type (tk1 e)) (d_type (tk' e))" using wf(2) by (simp add: wake_frame_def)
    then show ?thesis using pre(3) [OF that] by simp
  qed
  moreover have "set (read_list lk1) \<subseteq> set (read_list lk')" "set (write_list lk1) \<subseteq> set (write_list lk')"
    using wf(2) by (auto simp: wake_frame_def)
  moreover have "same_fields tk tk'" "lock_config lk' = lock_config lk"
    using wf(2) pre(1,2) by (auto simp: wake_frame_def same_fields_def)
  ultimately show ?thesis
    using wf(1,3) wake_frame_linked [OF wf(2)] pre(4,8,9) unfolding release_frame_def by blast
qed

lemma unlink_lists:
  assumes "lock_ok tk lk"
  shows "set (read_wait (unlink d lk)) = set (read_wait lk) - {d}"
    "set (write_wait (unlink d lk)) = set (write_wait lk) - {d}"
    "set (read_list (unlink d lk)) = set (read_list lk) - {d}"
    "set (write_list (unlink d lk)) = set (write_list lk) - {d}"
    "set (linked (unlink d lk)) = set (linked lk) - {d}"
  using linked_distinctD [OF lock_okD(1) [OF assms]] by (auto simp: linked_set remove1_filter)

lemma lock_ok_set_type_fresh: "lock_ok tk lk \<Longrightarrow> d \<notin> set (linked lk) \<Longrightarrow> lock_ok (set_type d ty tk) lk"
  by (simp add: set_type_def lock_ok_fresh)

lemma thr_unlock_released:
  assumes ok: "lock_ok tk lk" and d: "d \<in> set (read_list lk) \<union> set (write_list lk) \<union> set (write_wait lk)"
    and eq: "thr_unlock mx tk lk d = (tk', lk')"
  defines "lk1 \<equiv> (unlink d lk)\<lparr> read_no_write_count :=
    (if d_type (tk d) = TL_READ_NO_INSERT \<and> d \<in> set (read_list lk) then read_no_write_count lk - 1
     else read_no_write_count lk) \<rparr>"
  shows "lock_ok (set_type d TL_UNLOCK tk) lk1" "wake_up_waiters mx (set_type d TL_UNLOCK tk) lk1 = (tk', lk')"
proof -
  have dist: "distinct (linked lk)" using ok by (rule lock_okD)
  then have nrw: "d \<notin> set (read_wait lk)" using d by (auto simp: linked_def)
  have ni: "d_type (tk d) = TL_READ_NO_INSERT \<Longrightarrow> d \<in> set (read_list lk)"
    using d lock_okD(4,5) [OF ok] read_not_write by (force simp: is_read_def is_write_def tl_order)
  have "thr_unlock mx tk lk d = wake_up_waiters mx (set_type d TL_UNLOCK tk) lk1" unfolding lk1_def
    using ni by (cases "d_type (tk d) = TL_READ_NO_INSERT") (auto simp: thr_unlock_def Let_def unlink_def)
  then show "wake_up_waiters mx (set_type d TL_UNLOCK tk) lk1 = (tk', lk')" using eq by simp
  have l: "linked lk1 = linked (unlink d lk)" by (simp add: lk1_def linked_def)
  show "lock_ok (set_type d TL_UNLOCK tk) lk1" unfolding lk1_def
    using lock_ok_release [OF ok nrw] by (rule lock_ok_set_type_fresh)
      (simp add: l [unfolded lk1_def] not_linked_unlink [OF dist])
qed

lemma thr_unlock_ok:
  assumes ok: "lock_ok tk lk" and d: "d \<in> set (read_list lk) \<union> set (write_list lk) \<union> set (write_wait lk)"
    and eq: "thr_unlock mx tk lk d = (tk', lk')"
  shows "release_frame tk lk {d} True tk' lk'"
  using thr_unlock_released [OF ok d eq]
  by (rule release_wake) (use unlink_lists [OF ok, of d] in
    \<open>auto simp: same_fields_def lock_config_def unlink_def set_type_def linked_def\<close>)

lemma wait_for_lock_end_ok:
  assumes ok: "lock_ok tk lk" "no_orphans lk" and d: "d \<in> set (linked lk)" "d_cond (tk d)"
    and eq: "wait_for_lock_end mx tk lk d to = (res, tk', lk')"
  shows "release_frame tk lk {d} True tk' lk'" "res = (if to then THR_LOCK_WAIT_TIMEOUT else THR_LOCK_ABORTED)"
proof -
  have dist: "distinct (linked lk)" using ok(1) by (rule lock_okD)
  have nr: "d \<notin> set (read_list lk)" "d \<notin> set (write_list lk)" using d lock_okD(3,5) [OF ok(1)] by auto
  have w: "wake_up_waiters mx (set_type d TL_UNLOCK tk) (unlink d lk) = (tk', lk')"
    and r: "res = (if to then THR_LOCK_WAIT_TIMEOUT else THR_LOCK_ABORTED)"
    using eq d by (auto simp: wait_for_lock_end_def)
  have "lock_ok (set_type d TL_UNLOCK tk) (unlink d lk)"
    using lock_ok_unlink [OF ok(1) nr(1)] by (rule lock_ok_set_type_fresh) (simp add: not_linked_unlink [OF dist])
  then show "release_frame tk lk {d} True tk' lk'" using w
    by (rule release_wake) (use unlink_lists [OF ok(1), of d] in
      \<open>auto simp: same_fields_def lock_config_def unlink_def set_type_def\<close>)
  show "res = (if to then THR_LOCK_WAIT_TIMEOUT else THR_LOCK_ABORTED)" by (rule r)
qed

definition abort_all :: "data_id set \<Rightarrow> data_store \<Rightarrow> data_store" where
  "abort_all D tk = (\<lambda>e. if e \<in> D then (tk e)\<lparr>d_type := TL_UNLOCK, d_cond := False\<rparr> else tk e)"

lemma fold_abort: "fold abort_data ds tk = abort_all (set ds) tk"
proof (induction ds arbitrary: tk)
  case (Cons d ds)
  then show ?case by (auto simp: abort_all_def abort_data_def set_cond_def set_type_def fun_eq_iff)
qed (simp add: abort_all_def)

lemma abort_all_Un: "abort_all A (abort_all B tk) = abort_all (A \<union> B) tk"
  by (auto simp: abort_all_def fun_eq_iff)

lemma abort_all_same: "same_fields tk (abort_all D tk)"
  by (simp add: abort_all_def same_fields_def)

lemma lock_ok_abort_all: "lock_ok tk lk \<Longrightarrow> D \<inter> set (linked lk) = {} \<Longrightarrow> lock_ok (abort_all D tk) lk"
  using lock_ok_cong [of lk "abort_all D tk" tk] by (metis (no_types, lifting) abort_all_def disjoint_iff)

lemma thr_abort_locks_for_thread_ok:
  assumes ok: "lock_ok tk lk" and eq: "thr_abort_locks_for_thread mx info tk lk tid = (found, tk', lk')"
  shows "release_frame tk lk {d \<in> set (read_wait lk) \<union> set (write_wait lk). owned_by_thread info tk tid d} False tk' lk'"
    (is "release_frame tk lk ?D False tk' lk'")
proof -
  let ?lk = "lk\<lparr> read_wait := filter (\<lambda>d. \<not> owned_by_thread info tk tid d) (read_wait lk),
                    write_wait := filter (\<lambda>d. \<not> owned_by_thread info tk tid d) (write_wait lk) \<rparr>"
  have D: "?D = set (filter (owned_by_thread info tk tid) (write_wait lk)) \<union> set (filter (owned_by_thread info tk tid) (read_wait lk))"
    by auto
  have w: "wake_up_waiters mx (abort_all ?D tk) ?lk = (tk', lk')"
    using eq unfolding D by (simp add: thr_abort_locks_for_thread_def Let_def fold_abort abort_all_Un)
  have disj: "set (read_list lk) \<inter> ?D = {}" "set (write_list lk) \<inter> ?D = {}"
    using lock_okD(1) [OF ok] by (auto simp: linked_def)
  have "lock_ok (abort_all ?D tk) ?lk"
    using lock_ok_filter_waiters [OF ok] by (rule lock_ok_abort_all) (use disj in \<open>auto simp: linked_set\<close>)
  then show ?thesis using w
  proof (rule release_wake)
    show "set (linked ?lk) = set (linked lk) - ?D" using disj by (auto simp: linked_set)
    show "same_fields tk (abort_all ?D tk)" by (rule abort_all_same)
  qed (auto simp: lock_config_def abort_all_def)
qed

lemma thr_abort_locks_ok:
  assumes ok: "lock_ok tk lk" and eq: "thr_abort_locks tk lk False = (tk', lk')"
  shows "release_frame tk lk (set (read_wait lk) \<union> set (write_wait lk)) False tk' lk'"
proof -
  let ?D = "set (read_wait lk) \<union> set (write_wait lk)"
  have r: "tk' = abort_all ?D tk" "lk' = lk\<lparr> read_wait := [], write_wait := [] \<rparr>"
    using eq by (auto simp: thr_abort_locks_def Let_def fold_abort abort_all_Un Un_commute)
  have disj: "set (read_list lk) \<inter> ?D = {}" "set (write_list lk) \<inter> ?D = {}"
    using lock_okD(1) [OF ok] by (auto simp: linked_def)
  have "lock_ok tk (lk\<lparr> read_wait := filter (\<lambda>_. False) (read_wait lk), write_wait := filter (\<lambda>_. False) (write_wait lk) \<rparr>)"
    by (rule lock_ok_filter_waiters [OF ok])
  then have "lock_ok tk' lk'" unfolding r
    by (intro lock_ok_abort_all) (use disj in \<open>auto simp: linked_set\<close>)
  then show ?thesis using disj
    by (auto simp: release_frame_def r abort_all_same lock_config_def no_orphans_def linked_set)
      (auto simp: abort_all_def)
qed

subsection \<open>Delayed inserts\<close>

lemma put_first_fields [simp]:
  "read_wait (put_first_write_wait d lk) = read_wait lk" "read_list (put_first_write_wait d lk) = read_list lk"
  "write_wait (put_first_write_wait d lk) = d # write_wait lk" "write_list (put_first_write_wait d lk) = write_list lk"
  by (simp_all add: put_first_write_wait_def)

lemma lock_ok_requeue:
  assumes ok: "lock_ok tk lk" and d: "d \<in> set (write_list lk)"
    and x: "is_write (d_type x)" "d_cond x" "d_type x \<noteq> TL_WRITE_CONCURRENT_INSERT"
  shows "lock_ok (tk(d := x)) (put_first_write_wait d (unlink d lk))"
proof -
  have dist: "distinct (linked lk)" using ok by (rule lock_okD)
  have nr: "d \<notin> set (read_list lk)" "d \<notin> set (write_wait lk)" using dist d by (auto simp: linked_def)
  have ok1: "lock_ok (tk(d := x)) (unlink d lk)"
    using lock_ok_unlink [OF ok nr(1)] not_linked_unlink [OF dist] by (rule lock_ok_fresh)
  show ?thesis unfolding put_first_write_wait_def
    using dist nr x linked_distinctD(3) [OF dist]
    by (intro lock_ok_add_write_wait [OF ok1 not_linked_unlink [OF dist]]) (auto simp: remove1_idem)
qed

text \<open>
  A delayed insert is upgraded to an exclusive lock. While there are readers it goes back to the head
  of the queue; alone on the table it is upgraded in place.
\<close>

definition delayed_frame :: "data_store \<Rightarrow> THR_LOCK \<Rightarrow> data_id \<Rightarrow> data_store \<Rightarrow> THR_LOCK \<Rightarrow> bool" where
  "delayed_frame tk lk d tk' lk' \<longleftrightarrow>
     lock_ok tk' lk' \<and> no_orphans lk' \<and> lock_config lk' = lock_config lk \<and> same_fields tk tk' \<and>
     (\<forall>e. e \<noteq> d \<and> e \<notin> set (read_wait lk) \<longrightarrow> tk' e = tk e) \<and> set (linked lk') = set (linked lk) \<and>
     (\<forall>e. e \<noteq> d \<longrightarrow> d_type (tk' e) = d_type (tk e)) \<and>
     (\<forall>e\<in>set (read_list lk) \<union> set (write_list lk). e \<noteq> d \<longrightarrow> e \<in> set (read_list lk') \<union> set (write_list lk'))"

lemma thr_upgrade_write_delay_lock_ok:
  assumes ok: "lock_ok tk lk" "no_orphans lk" and d: "d \<in> set (write_list lk) \<union> set (write_wait lk)"
    "d_type (tk d) = TL_WRITE_DELAYED" and ty: "TL_WRITE_LOW_PRIORITY \<le> ty"
    and eq: "thr_upgrade_write_delay_lock tk lk d ty = (a, tk', lk')"
  shows "delayed_frame tk lk d tk' lk'"
proof (cases "d_cond (tk d)")
  case True
  then have w: "d \<in> set (write_wait lk)" using d lock_okD(5) [OF ok(1)] by auto
  have r: "tk' = set_cond d True (set_type d ty tk)" "lk' = lk"
    using eq True d by (auto simp: thr_upgrade_write_delay_lock_def Let_def tl_order)
  have "set_cond d True (set_type d ty tk) = set_type d ty tk"
    using True by (auto simp: set_cond_def set_type_def)
  moreover have "lock_ok (set_type d ty tk) lk"
    using ty by (intro lock_ok_retype_waiting [OF ok(1) w]) (auto simp: is_write_def tl_order)
  ultimately show ?thesis using ok(2) by (auto simp: delayed_frame_def r same_fields_def set_type_def)
next
  case False
  then have w: "d \<in> set (write_list lk)" using d lock_okD(4) [OF ok(1)] by auto
  then have alone: "write_list lk = [d]" using ok(1) d by (auto simp: lock_ok_def writers_ok_def)
  have tyw: "is_write ty" "ty \<noteq> TL_WRITE_CONCURRENT_INSERT" "ty \<noteq> TL_WRITE_DELAYED" using ty by (auto simp: is_write_def tl_order)
  show ?thesis
  proof (cases "read_list lk = []")
    case True
    then have r: "tk' = set_type d ty tk" "lk' = lk"
      using eq False d by (auto simp: thr_upgrade_write_delay_lock_def Let_def tl_order)
    have dist: "distinct (linked lk)" using ok(1) by (rule lock_okD)
    have "lock_ok (set_type d ty tk) (add_write d (unlink d lk))"
    proof (rule lock_ok_add_write)
      show "lock_ok (set_type d ty tk) (unlink d lk)"
        using lock_ok_unlink [OF ok(1)] True not_linked_unlink [OF dist] by (intro lock_ok_set_type_fresh) auto
    qed (use alone True tyw False not_linked_unlink [OF dist] in \<open>auto simp: write_order_def\<close>)
    moreover have "add_write d (unlink d lk) = lk"
      using alone dist by (auto simp: add_write_def unlink_def linked_def remove1_idem)
    ultimately have "lock_ok (set_type d ty tk) lk" by simp
    then show ?thesis using ok(2) by (auto simp: delayed_frame_def r same_fields_def set_type_def)
  next
    case readers: False
    let ?x = "(tk d)\<lparr> d_type := ty, d_cond := True \<rparr>"
    have r: "tk' = tk(d := ?x)" "lk' = put_first_write_wait d (unlink d lk)"
      using eq False readers d by (auto simp: thr_upgrade_write_delay_lock_def Let_def tl_order set_cond_def set_type_def)
    have nr: "d \<notin> set (read_list lk)" using lock_okD(1) [OF ok(1)] w by (auto simp: linked_def)
    have "lock_ok tk' lk'" unfolding r using tyw by (intro lock_ok_requeue [OF ok(1) w]) auto
    moreover have "no_orphans lk'" using readers nr by (auto simp: r no_orphans_def remove1_idem)
    moreover have "set (linked lk') = set (linked lk)"
      using unlink_lists [OF ok(1), of d] w by (auto simp: r linked_set)
    ultimately show ?thesis
      by (auto simp: delayed_frame_def r same_fields_def lock_config_def put_first_write_wait_def unlink_def
          dest: in_set_remove1 [THEN iffD2, rotated])
  qed
qed

lemma thr_reschedule_write_lock_ok:
  assumes ok: "lock_ok tk lk" "no_orphans lk" and alone: "write_list lk = [d]"
    and eq: "thr_reschedule_write_lock tk lk d = (a, tk', lk')"
  shows "delayed_frame tk lk d tk' lk'"
proof (cases "read_wait lk = []")
  case True
  then have "tk' = tk" "lk' = lk" using eq by (auto simp: thr_reschedule_write_lock_def)
  then show ?thesis using ok by (simp add: delayed_frame_def same_fields_def)
next
  case False
  let ?x = "(tk d)\<lparr> d_type := TL_WRITE_DELAYED, d_cond := True \<rparr>"
  let ?lk = "put_first_write_wait d (unlink d lk)"
  have dist: "distinct (linked lk)" using ok(1) by (rule lock_okD)
  have nr: "d \<notin> set (read_wait lk)" using dist alone by (auto simp: linked_def)
  have upd: "set_cond d True (set_type d TL_WRITE_DELAYED tk) = tk(d := ?x)"
    by (simp add: set_cond_def set_type_def)
  have f: "free_all_read_locks False (tk(d := ?x)) ?lk = (tk', lk')"
    using eq False unfolding thr_reschedule_write_lock_def Let_def upd by simp
  have ok1: "lock_ok (tk(d := ?x)) ?lk"
    using alone by (intro lock_ok_requeue [OF ok(1)]) (auto simp: is_write_def tl_order)
  have wl: "write_list ?lk = []" using alone by simp
  have "case free_all_read_locks False (tk(d := ?x)) ?lk of (tk', lk') \<Rightarrow> lock_ok tk' lk'"
    using wl by (intro lock_ok_free_all ok1) auto
  then have ok2: "lock_ok tk' lk'" using f by simp
  have wf: "wake_frame (tk(d := ?x)) ?lk tk' lk'" using wake_frame_free [OF lock_okD(1) [OF ok1] f] .
  have rw: "read_wait ?lk = read_wait lk" using nr by (simp add: remove1_idem)
  have nf: "tk' = wake_all (read_wait lk) (tk(d := ?x))" "read_list lk' = read_list ?lk @ read_wait lk"
    "read_wait lk' = []"
    using f rw by (auto simp: free_all_read_locks_eq [OF lock_okD(1) [OF ok1]] Let_def sent_back_def)
  have "no_orphans lk'" using wf False by (auto simp: no_orphans_def nf)
  moreover have "set (linked lk') = set (linked lk)"
    using wake_frame_linked [OF wf] unlink_lists [OF ok(1), of d] alone by (auto simp: linked_set)
  moreover have "lock_config lk' = lock_config lk"
    using wf by (simp add: wake_frame_def lock_config_def put_first_write_wait_def unlink_def)
  ultimately show ?thesis using ok2 alone
    by (auto simp: delayed_frame_def nf same_fields_def wake_all_def)
qed

end
