(* ===== verification/Thr_System.thy ===== *)
theory Thr_System
  imports Thr_Lock_Ops
begin

text \<open>
  All table locks of a server and the sessions that use them: the critical sections as the steps of
  a transition system, its invariant, and what a session may rely on while other sessions run.
\<close>

record thr_state =
  thr_data :: data_store
  thr_locks :: "lock_id \<Rightarrow> THR_LOCK"

text \<open>
  There are fewer than \<^verbatim>\<open>UINT_MAX\<close> lock instances, so that the \<^verbatim>\<open>uint\<close> counter of a lock cannot wrap
  around.
\<close>

definition max_instances :: nat where
  "max_instances = 2 ^ 32 - 1"

definition lock_at :: "thr_state \<Rightarrow> data_id \<Rightarrow> THR_LOCK" where
  "lock_at st d = thr_locks st (d_lock (thr_data st d))"

definition put_lock :: "lock_id \<Rightarrow> data_store \<times> THR_LOCK \<Rightarrow> thr_state \<Rightarrow> thr_state" where
  "put_lock l r st = st\<lparr> thr_data := fst r, thr_locks := (thr_locks st)(l := snd r) \<rparr>"

definition thr_active :: "thr_state \<Rightarrow> data_id \<Rightarrow> bool" where
  "thr_active st d \<longleftrightarrow> d \<in> set (read_list (lock_at st d)) \<union> set (write_list (lock_at st d))"

definition thr_waiting :: "thr_state \<Rightarrow> data_id \<Rightarrow> bool" where
  "thr_waiting st d \<longleftrightarrow> d \<in> set (read_wait (lock_at st d)) \<union> set (write_wait (lock_at st d))"

definition thr_inv :: "thr_state \<Rightarrow> bool" where
  "thr_inv st \<longleftrightarrow> (\<forall>l. lock_ok (thr_data st) (thr_locks st l) \<and> no_orphans (thr_locks st l) \<and>
     (\<forall>d\<in>set (linked (thr_locks st l)). d_lock (thr_data st d) = l \<and> d < max_instances))"

definition thr_idle :: "thr_state \<Rightarrow> bool" where
  "thr_idle st \<longleftrightarrow> (\<forall>l. \<exists>g c multi b1 b2 b3. thr_locks st l =
     thr_lock_init\<lparr> get_status := g, check_status := c, has_copy_status := b1, has_start_trans := b2,
       has_fix_status := b3, allow_multiple_concurrent_insert := multi \<rparr>)"

lemma thr_idle_inv: "thr_idle st \<Longrightarrow> thr_inv st"
  unfolding thr_inv_def thr_idle_def
proof (intro allI)
  fix l assume "\<forall>l. \<exists>g c multi b1 b2 b3. thr_locks st l =
     thr_lock_init\<lparr> get_status := g, check_status := c, has_copy_status := b1, has_start_trans := b2,
       has_fix_status := b3, allow_multiple_concurrent_insert := multi \<rparr>"
  then obtain g c multi b1 b2 b3 where "thr_locks st l =
     thr_lock_init\<lparr> get_status := g, check_status := c, has_copy_status := b1, has_start_trans := b2,
       has_fix_status := b3, allow_multiple_concurrent_insert := multi \<rparr>" by blast
  then show "lock_ok (thr_data st) (thr_locks st l) \<and> no_orphans (thr_locks st l) \<and>
     (\<forall>d\<in>set (linked (thr_locks st l)). d_lock (thr_data st d) = l \<and> d < max_instances)"
    by (simp add: thr_lock_init_def lock_ok_defs no_orphans_def linked_def thr.holders_ok_empty)
qed

lemma linked_iff: "d \<in> set (linked (lock_at st d)) \<longleftrightarrow> thr_active st d \<or> thr_waiting st d"
  by (auto simp: thr_active_def thr_waiting_def linked_set)

lemma thr_invD:
  assumes "thr_inv st"
  shows "lock_ok (thr_data st) (thr_locks st l)" "no_orphans (thr_locks st l)"
    "d \<in> set (linked (thr_locks st l)) \<Longrightarrow> d_lock (thr_data st d) = l"
    "d \<in> set (linked (thr_locks st l)) \<Longrightarrow> d < max_instances"
  using assms by (auto simp: thr_inv_def)

lemma linked_lock_at: "thr_inv st \<Longrightarrow> d \<in> set (linked (thr_locks st l)) \<Longrightarrow> lock_at st d = thr_locks st l"
  using thr_invD(3) by (simp add: lock_at_def)

lemma lock_room:
  assumes inv: "thr_inv st" and d: "d \<notin> set (linked (thr_locks st l))" "d < max_instances"
  shows "length (read_wait (thr_locks st l)) + length (read_list (thr_locks st l)) + 1 < 2 ^ 32"
proof -
  let ?ds = "d # read_wait (thr_locks st l) @ read_list (thr_locks st l)"
  have "distinct ?ds" using lock_okD(1) [OF thr_invD(1) [OF inv, of l]] d(1) by (auto simp: linked_def)
  moreover have "set ?ds \<subseteq> {..<max_instances}"
    using thr_invD(4) [OF inv, of _ l] d(2) by (auto simp: linked_set)
  ultimately have "length ?ds \<le> card {..<max_instances}"
    by (metis card_mono distinct_card finite_lessThan)
  then show ?thesis by (simp add: max_instances_def)
qed

text \<open>One lock and the instances that belong to it are replaced.\<close>

lemma thr_inv_put:
  assumes inv: "thr_inv st" and ok: "lock_ok tk' lk'" "no_orphans lk'"
    and own: "\<And>e. e \<in> set (linked lk') \<Longrightarrow> d_lock (tk' e) = l \<and> e < max_instances"
    and other: "\<And>e. d_lock (thr_data st e) \<noteq> l \<Longrightarrow> tk' e = thr_data st e"
  shows "thr_inv (put_lock l (tk', lk') st)"
proof -
  have "lock_ok tk' (thr_locks st k) \<and> no_orphans (thr_locks st k) \<and>
      (\<forall>d\<in>set (linked (thr_locks st k)). d_lock (tk' d) = k \<and> d < max_instances)" if "k \<noteq> l" for k
  proof -
    have same: "tk' d = thr_data st d" if "d \<in> set (linked (thr_locks st k))" for d
      using thr_invD(3) [OF inv that] \<open>k \<noteq> l\<close> other by simp
    then have "lock_ok tk' (thr_locks st k)"
      using lock_ok_cong [of "thr_locks st k" tk' "thr_data st"] thr_invD(1) [OF inv] by simp
    then show ?thesis using same thr_invD [OF inv] by simp
  qed
  then show ?thesis using ok own by (auto simp: thr_inv_def put_lock_def)
qed

subsection \<open>Steps\<close>

text \<open>
  \<^verbatim>\<open>step_engine\<close> is an engine changing what its status callbacks answer; \<^verbatim>\<open>step_prepare\<close> is a session
  setting the fields of an instance that is not linked, as \<^verbatim>\<open>thr_lock_data_init\<close> and the SQL layer
  (which sets the type before it locks) do. \<^verbatim>\<open>step_abort\<close> is \<^verbatim>\<open>thr_abort_locks\<close> with \<^verbatim>\<open>upgrade_lock\<close> false:
  with true it changes the type of a lock that a session holds to \<^verbatim>\<open>TL_WRITE_ONLY\<close>, whatever other
  sessions hold, and this is no step here. (No file of the server calls \<^verbatim>\<open>thr_abort_locks\<close>.) The label of a step is the instance a session works on
  and the session, or the server.
\<close>

datatype actor = By_session data_id owner_id | By_server

inductive thr_step :: "thr_lock_type \<Rightarrow> u64 \<Rightarrow> (owner_id \<Rightarrow> THR_LOCK_INFO) \<Rightarrow> actor \<Rightarrow> thr_state \<Rightarrow> thr_state \<Rightarrow> bool"
  for upgraded mx info where
  step_lock: "thr_request_ok upgraded (thr_data st) (lock_at st d) d own \<Longrightarrow> d < max_instances \<Longrightarrow>
     thr_lock_begin upgraded (thr_data st) (lock_at st d) d own = (a, r) \<Longrightarrow>
     thr_step upgraded mx info (By_session d own) st (put_lock (d_lock (thr_data st d)) r st)"
| step_wait_end: "thr_waiting st d \<Longrightarrow>
     wait_for_lock_end mx (thr_data st) (lock_at st d) d timed_out = (res, r) \<Longrightarrow>
     thr_step upgraded mx info (By_session d (d_owner (thr_data st d))) st (put_lock (d_lock (thr_data st d)) r st)"
| step_unlock: "thr_active st d \<or> thr_waiting st d \<and> d_type (thr_data st d) = TL_WRITE_DELAYED \<Longrightarrow>
     thr_unlock mx (thr_data st) (lock_at st d) d = r \<Longrightarrow>
     thr_step upgraded mx info (By_session d (d_owner (thr_data st d))) st (put_lock (d_lock (thr_data st d)) r st)"
| step_abort: "thr_abort_locks (thr_data st) (thr_locks st l) False = r \<Longrightarrow>
     thr_step upgraded mx info By_server st (put_lock l r st)"
| step_abort_thread:
     "thr_abort_locks_for_thread mx info (thr_data st) (thr_locks st l) tid = (found, r) \<Longrightarrow>
     thr_step upgraded mx info By_server st (put_lock l r st)"
| step_upgrade: "d \<in> set (write_list (lock_at st d)) \<union> set (write_wait (lock_at st d)) \<Longrightarrow>
     d_type (thr_data st d) = TL_WRITE_DELAYED \<Longrightarrow> TL_WRITE_LOW_PRIORITY \<le> ty \<Longrightarrow>
     thr_upgrade_write_delay_lock (thr_data st) (lock_at st d) d ty = (u, r) \<Longrightarrow>
     thr_step upgraded mx info (By_session d (d_owner (thr_data st d))) st (put_lock (d_lock (thr_data st d)) r st)"
| step_reschedule: "write_list (lock_at st d) = [d] \<Longrightarrow>
     thr_reschedule_write_lock (thr_data st) (lock_at st d) d = (t, r) \<Longrightarrow>
     thr_step upgraded mx info (By_session d (d_owner (thr_data st d))) st (put_lock (d_lock (thr_data st d)) r st)"
| step_prepare: "\<not> thr_active st d \<Longrightarrow> \<not> thr_waiting st d \<Longrightarrow>
     thr_step upgraded mx info (By_session d (d_owner x)) st (st\<lparr> thr_data := (thr_data st)(d := x) \<rparr>)"
| step_engine: "(check_status (thr_locks st l) = None \<longleftrightarrow> c = None) \<Longrightarrow>
     thr_step upgraded mx info By_server st (st\<lparr> thr_locks := (thr_locks st)
       (l := (thr_locks st l)\<lparr> get_status := g, check_status := c \<rparr>) \<rparr>)"

text \<open>Each section rewrites one lock; what it does to the instances of that lock.\<close>

definition section_ok :: "thr_state \<Rightarrow> actor \<Rightarrow> lock_id \<Rightarrow> data_store \<Rightarrow> THR_LOCK \<Rightarrow> bool" where
  "section_ok st act l tk' lk' \<longleftrightarrow>
     lock_ok tk' lk' \<and> no_orphans lk' \<and>
     allow_multiple_concurrent_insert lk' = allow_multiple_concurrent_insert (thr_locks st l) \<and>
     (\<forall>e\<in>set (linked (thr_locks st l)). d_owner (tk' e) = d_owner (thr_data st e)) \<and>
     (\<forall>e\<in>set (linked lk') - set (linked (thr_locks st l)).
        \<exists>own. act = By_session e own \<and> d_lock (tk' e) = l \<and> e < max_instances) \<and>
     (\<forall>e own. act = By_session e own \<longrightarrow> d_owner (tk' e) = own) \<and>
     (\<forall>e own. act = By_session e own \<longrightarrow> set (linked (thr_locks st l)) - {e} \<subseteq> set (linked lk')) \<and>
     (\<forall>e. e \<notin> set (linked (thr_locks st l)) \<and> (\<forall>own. act \<noteq> By_session e own) \<longrightarrow> tk' e = thr_data st e) \<and>
     (\<forall>e. d_lock (tk' e) = d_lock (thr_data st e)) \<and>
     (\<forall>e. (\<forall>own. act \<noteq> By_session e own) \<longrightarrow> d_owner (tk' e) = d_owner (thr_data st e) \<and>
        (e \<in> set (read_list (thr_locks st l)) \<union> set (write_list (thr_locks st l)) \<longrightarrow>
           tk' e = thr_data st e \<and> e \<in> set (read_list lk') \<union> set (write_list lk')) \<and>
        (e \<in> set (read_wait (thr_locks st l)) \<union> set (write_wait (thr_locks st l)) \<longrightarrow>
           e \<in> set (linked lk') \<and> grown (d_type (thr_data st e)) (d_type (tk' e)) \<or>
           e \<notin> set (linked lk') \<and> d_type (tk' e) = TL_UNLOCK \<and> \<not> d_cond (tk' e)))"

lemma section_outcome:
  assumes inv: "thr_inv st" and l: "l = d_lock (thr_data st d)" and new: "d \<notin> set (linked (thr_locks st l))" "d < max_instances"
    and out: "lock_outcome ((thr_data st)(d := (thr_data st d)\<lparr> d_owner := own \<rparr>)) (thr_locks st l) d a tk' lk'"
  shows "section_ok st (By_session d own) l tk' lk'"
proof -
  let ?lk = "thr_locks st l"
  have lk: "lock_ok tk' lk'" "no_orphans lk'" "lists_grow ?lk lk'"
      "allow_multiple_concurrent_insert lk' = allow_multiple_concurrent_insert ?lk"
    and same: "\<And>e. e \<noteq> d \<Longrightarrow> tk' e = thr_data st e" and dd: "d_owner (tk' d) = own" "d_lock (tk' d) = d_lock (thr_data st d)"
    using out by (auto simp: lock_outcome_def lock_config_def)
  have sub: "set (linked lk') \<subseteq> insert d (set (linked ?lk))" using out by (auto simp: lock_outcome_def)
  have grow: "e \<in> set (read_list ?lk) \<union> set (write_list ?lk) \<Longrightarrow> e \<in> set (read_list lk') \<union> set (write_list lk')"
    "e \<in> set (read_wait ?lk) \<union> set (write_wait ?lk) \<Longrightarrow> e \<in> set (linked lk')" for e
    using lk(3) by (auto simp: lists_grow_def linked_set)
  show ?thesis
    unfolding section_ok_def
  proof (intro conjI)
    show "\<forall>e\<in>set (linked lk') - set (linked ?lk). \<exists>o'. By_session d own = By_session e o' \<and> d_lock (tk' e) = l \<and> e < max_instances"
      using sub dd l new(2) by auto
    show "\<forall>e. d_lock (tk' e) = d_lock (thr_data st e)" using same dd by metis
    show "\<forall>e o'. By_session d own = By_session e o' \<longrightarrow> set (linked ?lk) - {e} \<subseteq> set (linked lk')"
      using lk(3) by (auto simp: lists_grow_def linked_set)
    show "\<forall>e\<in>set (linked ?lk). d_owner (tk' e) = d_owner (thr_data st e)" using same new(1) by metis
    show "\<forall>e. (\<forall>o'. By_session d own \<noteq> By_session e o') \<longrightarrow> d_owner (tk' e) = d_owner (thr_data st e) \<and>
        (e \<in> set (read_list ?lk) \<union> set (write_list ?lk) \<longrightarrow>
           tk' e = thr_data st e \<and> e \<in> set (read_list lk') \<union> set (write_list lk')) \<and>
        (e \<in> set (read_wait ?lk) \<union> set (write_wait ?lk) \<longrightarrow>
           e \<in> set (linked lk') \<and> grown (d_type (thr_data st e)) (d_type (tk' e)) \<or>
           e \<notin> set (linked lk') \<and> d_type (tk' e) = TL_UNLOCK \<and> \<not> d_cond (tk' e))"
      using same grow by simp
  qed (use lk same dd in simp_all)
qed

lemma section_release:
  assumes inv: "thr_inv st" and rel: "release_frame (thr_data st) (thr_locks st l) D c tk' lk'"
    and D: "D = {d} \<and> act = By_session d (d_owner (thr_data st d)) \<or> act = By_server \<and>
      D \<subseteq> set (read_wait (thr_locks st l)) \<union> set (write_wait (thr_locks st l)) \<and> \<not> c"
    and DL: "D \<subseteq> set (linked (thr_locks st l))"
  shows "section_ok st act l tk' lk'"
proof -
  let ?lk = "thr_locks st l"
  have dist: "distinct (linked ?lk)" using thr_invD(1) [OF inv] by (rule lock_okD)
  have "(e \<in> set (read_list ?lk) \<union> set (write_list ?lk) \<longrightarrow> tk' e = thr_data st e \<and> e \<in> set (read_list lk') \<union> set (write_list lk')) \<and>
      (e \<in> set (read_wait ?lk) \<union> set (write_wait ?lk) \<longrightarrow>
         e \<in> set (linked lk') \<and> grown (d_type (thr_data st e)) (d_type (tk' e)) \<or>
         e \<notin> set (linked lk') \<and> d_type (tk' e) = TL_UNLOCK \<and> \<not> d_cond (tk' e))"
    if a: "\<forall>own. act \<noteq> By_session e own" for e
  proof (cases "e \<in> D")
    case True
    then have w: "e \<in> set (read_wait ?lk) \<union> set (write_wait ?lk)" "\<not> c" using D a by auto
    then have "e \<notin> set (read_list ?lk) \<union> set (write_list ?lk)" using dist by (auto simp: linked_def)
    then show ?thesis using True rel w(2) by (auto simp: release_frame_def)
  next
    case False
    then have "e \<in> set (read_list ?lk) \<union> set (write_list ?lk) \<Longrightarrow> e \<notin> D \<union> set (read_wait ?lk) \<union> set (write_wait ?lk)"
      using dist by (auto simp: linked_def)
    then show ?thesis using rel False by (auto simp: release_frame_def linked_set)
  qed
  moreover have "tk' e = thr_data st e" if "e \<notin> set (linked ?lk)" for e
    using rel that DL by (auto simp: release_frame_def linked_set)
  moreover have "lock_ok tk' lk'" "no_orphans lk'" "set (linked lk') \<subseteq> set (linked ?lk)" "same_fields (thr_data st) tk'"
    "allow_multiple_concurrent_insert lk' = allow_multiple_concurrent_insert ?lk"
    using rel by (auto simp: release_frame_def lock_config_def)
  moreover have "\<forall>e own. act = By_session e own \<longrightarrow> d_owner (tk' e) = own"
    "\<forall>e own. act = By_session e own \<longrightarrow> set (linked ?lk) - {e} \<subseteq> set (linked lk')"
    using D rel by (auto simp: release_frame_def same_fields_def)
  ultimately show ?thesis unfolding section_ok_def same_fields_def by blast
qed

lemma section_delayed:
  assumes inv: "thr_inv st" and del: "delayed_frame (thr_data st) (thr_locks st l) d tk' lk'"
    and d: "d \<in> set (linked (thr_locks st l))"
  shows "section_ok st (By_session d (d_owner (thr_data st d))) l tk' lk'"
proof -
  let ?lk = "thr_locks st l"
  have dist: "distinct (linked ?lk)" using thr_invD(1) [OF inv] by (rule lock_okD)
  have "tk' e = thr_data st e \<and> e \<in> set (read_list lk') \<union> set (write_list lk')"
    if "e \<noteq> d" "e \<in> set (read_list ?lk) \<union> set (write_list ?lk)" for e
  proof -
    have "e \<notin> set (read_wait ?lk)" using that dist by (auto simp: linked_def)
    then show ?thesis using del that unfolding delayed_frame_def by blast
  qed
  moreover have "tk' e = thr_data st e" if "e \<notin> set (linked ?lk)" for e
    using del that d by (auto simp: delayed_frame_def linked_set)
  moreover have "lock_ok tk' lk'" "no_orphans lk'" "set (linked lk') = set (linked ?lk)" "same_fields (thr_data st) tk'"
    "\<forall>e. e \<noteq> d \<longrightarrow> d_type (tk' e) = d_type (thr_data st e)"
    "allow_multiple_concurrent_insert lk' = allow_multiple_concurrent_insert ?lk"
    using del by (auto simp: delayed_frame_def lock_config_def)
  ultimately show ?thesis unfolding section_ok_def same_fields_def
    by (auto simp: linked_set)
qed

lemma section_inv:
  assumes inv: "thr_inv st" and s: "section_ok st act l tk' lk'"
    and act: "\<And>d own. act = By_session d own \<Longrightarrow> d_lock (thr_data st d) = l"
  shows "thr_inv (put_lock l (tk', lk') st)"
proof (rule thr_inv_put [OF inv])
  show "lock_ok tk' lk'" "no_orphans lk'" using s by (auto simp: section_ok_def)
  show "d_lock (tk' e) = l \<and> e < max_instances" if "e \<in> set (linked lk')" for e
  proof (cases "e \<in> set (linked (thr_locks st l))")
    case True
    then show ?thesis using thr_invD(3,4) [OF inv True] s by (simp add: section_ok_def)
  next
    case False
    then show ?thesis using s that unfolding section_ok_def by blast
  qed
  show "tk' e = thr_data st e" if "d_lock (thr_data st e) \<noteq> l" for e
  proof -
    have "e \<notin> set (linked (thr_locks st l)) \<and> (\<forall>own. act \<noteq> By_session e own)"
      using that act thr_invD(3) [OF inv, of e l] by blast
    then show ?thesis using s unfolding section_ok_def by blast
  qed
qed

lemma lock_section:
  assumes inv: "thr_inv st" and req: "thr_request_ok upgraded (thr_data st) (lock_at st d) d own"
    and d: "d < max_instances"
    and eq: "thr_lock_begin upgraded (thr_data st) (lock_at st d) d own = (a, tk', lk')"
  shows "lock_outcome ((thr_data st)(d := (thr_data st d)\<lparr> d_owner := own \<rparr>)) (lock_at st d) d a tk' lk'"
    "section_ok st (By_session d own) (d_lock (thr_data st d)) tk' lk'"
proof -
  show out: "lock_outcome ((thr_data st)(d := (thr_data st d)\<lparr> d_owner := own \<rparr>)) (lock_at st d) d a tk' lk'"
    unfolding lock_at_def using thr_invD(1,2) [OF inv] req eq unfolding lock_at_def by (rule thr_lock_begin_ok)
  show "section_ok st (By_session d own) (d_lock (thr_data st d)) tk' lk'"
    using section_outcome [OF inv refl _ d] out req by (simp add: lock_at_def thr_request_ok_def)
qed

lemma thr_waiting_cond: "thr_inv st \<Longrightarrow> thr_waiting st d \<Longrightarrow> d_cond (thr_data st d)"
  using lock_okD(2,4) [OF thr_invD(1)] by (auto simp: thr_waiting_def lock_at_def)

lemma wait_end_section:
  assumes inv: "thr_inv st" and d: "thr_waiting st d"
    and eq: "wait_for_lock_end mx (thr_data st) (lock_at st d) d timed_out = (res, tk', lk')"
  shows "section_ok st (By_session d (d_owner (thr_data st d))) (d_lock (thr_data st d)) tk' lk'"
proof -
  have l: "d \<in> set (linked (lock_at st d))" using d by (simp add: linked_iff)
  have "release_frame (thr_data st) (thr_locks st (d_lock (thr_data st d))) {d} True tk' lk'"
    using wait_for_lock_end_ok(1) [OF thr_invD(1,2) [OF inv] _ thr_waiting_cond [OF inv d]] l eq
    by (simp add: lock_at_def)
  from section_release [OF inv this] show ?thesis using l by (simp add: lock_at_def)
qed

lemma unlock_section:
  assumes inv: "thr_inv st" and d: "thr_active st d \<or> thr_waiting st d \<and> d_type (thr_data st d) = TL_WRITE_DELAYED"
    and eq: "thr_unlock mx (thr_data st) (lock_at st d) d = (tk', lk')"
  shows "section_ok st (By_session d (d_owner (thr_data st d))) (d_lock (thr_data st d)) tk' lk'"
proof -
  have l: "d \<in> set (linked (lock_at st d))" using d by (auto simp: linked_iff)
  have "d \<notin> set (read_wait (lock_at st d))" if "d_type (thr_data st d) = TL_WRITE_DELAYED"
    using that lock_okD(2) [OF thr_invD(1) [OF inv], of d] by (auto simp: lock_at_def is_read_def tl_order)
  then have "d \<in> set (read_list (lock_at st d)) \<union> set (write_list (lock_at st d)) \<union> set (write_wait (lock_at st d))"
    using d by (auto simp: thr_active_def thr_waiting_def)
  then have rel: "release_frame (thr_data st) (thr_locks st (d_lock (thr_data st d))) {d} True tk' lk'"
    using thr_unlock_ok [OF thr_invD(1) [OF inv]] eq by (simp add: lock_at_def)
  show ?thesis using l by (intro section_release [OF inv rel]) (auto simp: lock_at_def)
qed

definition section_change :: "thr_state \<Rightarrow> actor \<Rightarrow> thr_state \<Rightarrow> bool" where
  "section_change st act st' \<longleftrightarrow> (\<exists>l tk' lk'. st' = put_lock l (tk', lk') st \<and> section_ok st act l tk' lk' \<and>
     (\<forall>d own. act = By_session d own \<longrightarrow> d_lock (thr_data st d) = l))"

definition prepare_change :: "thr_state \<Rightarrow> actor \<Rightarrow> thr_state \<Rightarrow> bool" where
  "prepare_change st act st' \<longleftrightarrow> (\<exists>d x. act = By_session d (d_owner x) \<and> \<not> thr_active st d \<and> \<not> thr_waiting st d \<and>
     st' = st\<lparr> thr_data := (thr_data st)(d := x) \<rparr>)"

lemma session_change:
  "section_ok st (By_session d own) (d_lock (thr_data st d)) tk' lk' \<Longrightarrow>
   section_change st (By_session d own) (put_lock (d_lock (thr_data st d)) (tk', lk') st)"
  by (auto simp: section_change_def)

lemma server_change:
  "section_ok st By_server l tk' lk' \<Longrightarrow> section_change st By_server (put_lock l (tk', lk') st)"
  by (auto simp: section_change_def)

lemma thr_step_section:
  assumes inv: "thr_inv st" and s: "thr_step upgraded mx info act st st'"
  shows "section_change st act st' \<or> prepare_change st act st'"
  using s
proof cases
  case (step_lock d own a r)
  then show ?thesis using lock_section(2) [OF inv, THEN session_change] by (cases r) simp
next
  case (step_wait_end d timed_out res r)
  then show ?thesis using wait_end_section [OF inv, THEN session_change] by (cases r) simp
next
  case (step_unlock d r)
  then obtain tk' lk' where r: "r = (tk', lk')" by (cases r)
  then have "section_ok st (By_session d (d_owner (thr_data st d))) (d_lock (thr_data st d)) tk' lk'"
    using unlock_section [OF inv step_unlock(3)] step_unlock(4) by blast
  then show ?thesis using step_unlock(1,2) r session_change by simp
next
  case (step_abort l r)
  then obtain tk' lk' where r: "r = (tk', lk')" by (cases r)
  have rel: "release_frame (thr_data st) (thr_locks st l) (set (read_wait (thr_locks st l)) \<union> set (write_wait (thr_locks st l))) False tk' lk'"
    using thr_abort_locks_ok [OF thr_invD(1) [OF inv, of l]] step_abort r by simp
  have "section_ok st By_server l tk' lk'"
    by (rule section_release [OF inv rel]) (auto simp: linked_set)
  then show ?thesis using step_abort(1,2) r server_change by simp
next
  case (step_abort_thread l tid found r)
  then obtain tk' lk' where r: "r = (tk', lk')" by (cases r)
  have rel: "release_frame (thr_data st) (thr_locks st l) {d \<in> set (read_wait (thr_locks st l)) \<union> set (write_wait (thr_locks st l)).
      owned_by_thread info (thr_data st) tid d} False tk' lk'"
    using thr_abort_locks_for_thread_ok [OF thr_invD(1) [OF inv, of l]] step_abort_thread r by blast
  have "section_ok st By_server l tk' lk'"
    by (rule section_release [OF inv rel]) (auto simp: linked_set)
  then show ?thesis using step_abort_thread(1,2) r server_change by simp
next
  case (step_upgrade d ty u r)
  then obtain tk' lk' where r: "r = (tk', lk')" by (cases r)
  have "section_ok st (By_session d (d_owner (thr_data st d))) (d_lock (thr_data st d)) tk' lk'"
  proof (rule section_delayed [OF inv])
    show "delayed_frame (thr_data st) (thr_locks st (d_lock (thr_data st d))) d tk' lk'"
      using thr_upgrade_write_delay_lock_ok [OF thr_invD(1,2) [OF inv]] step_upgrade r unfolding lock_at_def by blast
    show "d \<in> set (linked (thr_locks st (d_lock (thr_data st d))))"
      using step_upgrade by (auto simp: lock_at_def linked_set)
  qed
  then show ?thesis using step_upgrade(1,2) r session_change by simp
next
  case (step_reschedule d t r)
  then obtain tk' lk' where r: "r = (tk', lk')" by (cases r)
  have "section_ok st (By_session d (d_owner (thr_data st d))) (d_lock (thr_data st d)) tk' lk'"
  proof (rule section_delayed [OF inv])
    show "delayed_frame (thr_data st) (thr_locks st (d_lock (thr_data st d))) d tk' lk'"
      using thr_reschedule_write_lock_ok [OF thr_invD(1,2) [OF inv]] step_reschedule r unfolding lock_at_def by blast
    show "d \<in> set (linked (thr_locks st (d_lock (thr_data st d))))"
      using step_reschedule by (auto simp: lock_at_def linked_set)
  qed
  then show ?thesis using step_reschedule(1,2) r session_change by simp
next
  case (step_prepare d x)
  then show ?thesis by (auto simp: prepare_change_def)
next
  case (step_engine l c g)
  let ?lk = "(thr_locks st l)\<lparr> get_status := g, check_status := c \<rparr>"
  have "lock_ok (thr_data st) ?lk" "no_orphans ?lk" "linked ?lk = linked (thr_locks st l)"
    using thr_invD(1,2) [OF inv, of l] step_engine by (auto simp: lock_ok_defs no_orphans_def linked_def)
  then have "section_ok st By_server l (thr_data st) ?lk"
    by (auto simp: section_ok_def linked_set)
  moreover have "st' = put_lock l (thr_data st, ?lk) st" using step_engine by (simp add: put_lock_def)
  ultimately show ?thesis using step_engine(1) server_change by simp
qed

lemma prepare_inv:
  assumes inv: "thr_inv st" and d: "\<not> thr_active st d" "\<not> thr_waiting st d"
  shows "thr_inv (st\<lparr> thr_data := (thr_data st)(d := x) \<rparr>)"
proof -
  have "d \<notin> set (linked (thr_locks st l))" for l
    using d linked_iff [of d st] linked_lock_at [OF inv, of d l] by auto
  then show ?thesis using inv by (auto simp: thr_inv_def lock_ok_fresh)
qed

lemma thr_step_inv:
  assumes inv: "thr_inv st" and s: "thr_step upgraded mx info act st st'"
  shows "thr_inv st'"
  using thr_step_section [OF inv s] unfolding section_change_def prepare_change_def
proof (elim disjE exE conjE)
  fix l tk' lk'
  assume "st' = put_lock l (tk', lk') st" and sec: "section_ok st act l tk' lk'"
    and a: "\<forall>d own. act = By_session d own \<longrightarrow> d_lock (thr_data st d) = l"
  then show ?thesis using section_inv [OF inv sec] by simp
next
  fix d x
  assume "\<not> thr_active st d" "\<not> thr_waiting st d" "st' = st\<lparr> thr_data := (thr_data st)(d := x) \<rparr>"
  then show ?thesis using prepare_inv [OF inv] by simp
qed

inductive thr_reachable :: "thr_lock_type \<Rightarrow> u64 \<Rightarrow> (owner_id \<Rightarrow> THR_LOCK_INFO) \<Rightarrow> thr_state \<Rightarrow> bool"
  for upgraded mx info where
  thr_start: "thr_idle st \<Longrightarrow> thr_reachable upgraded mx info st"
| thr_next: "thr_reachable upgraded mx info st \<Longrightarrow> thr_step upgraded mx info act st st' \<Longrightarrow>
     thr_reachable upgraded mx info st'"

lemma thr_reachable_inv: "thr_reachable upgraded mx info st \<Longrightarrow> thr_inv st"
  by (induction rule: thr_reachable.induct) (auto intro: thr_idle_inv thr_step_inv)

subsection \<open>What a session may rely on\<close>

text \<open>
  \<^verbatim>\<open>others me D\<close> are the steps in which neither the session \<^verbatim>\<open>me\<close> nor an instance of its array \<^verbatim>\<open>D\<close> takes
  part. They leave its active instances and the unlinked ones alone; a waiting one may be granted
  or aborted.
\<close>

definition foreign :: "owner_id \<Rightarrow> data_id set \<Rightarrow> actor \<Rightarrow> bool" where
  "foreign me D act \<longleftrightarrow> (case act of By_session d own \<Rightarrow> d \<notin> D \<and> own \<noteq> me | By_server \<Rightarrow> True)"

definition others :: "thr_lock_type \<Rightarrow> u64 \<Rightarrow> (owner_id \<Rightarrow> THR_LOCK_INFO) \<Rightarrow> owner_id \<Rightarrow> data_id set \<Rightarrow> thr_state \<Rightarrow> thr_state \<Rightarrow> bool" where
  "others upgraded mx info me D st st' \<longleftrightarrow> (\<exists>act. foreign me D act \<and> thr_step upgraded mx info act st st')"

definition mine_only :: "owner_id \<Rightarrow> data_id set \<Rightarrow> thr_state \<Rightarrow> bool" where
  "mine_only me D st \<longleftrightarrow> (\<forall>l. \<forall>e\<in>set (linked (thr_locks st l)). d_owner (thr_data st e) = me \<longrightarrow> e \<in> D)"

definition keeps :: "thr_state \<Rightarrow> thr_state \<Rightarrow> data_id \<Rightarrow> bool" where
  "keeps st st' d \<longleftrightarrow>
     d_owner (thr_data st' d) = d_owner (thr_data st d) \<and> d_lock (thr_data st' d) = d_lock (thr_data st d) \<and>
     (\<not> thr_active st d \<and> \<not> thr_waiting st d \<longrightarrow>
        \<not> thr_active st' d \<and> \<not> thr_waiting st' d \<and> thr_data st' d = thr_data st d) \<and>
     (thr_active st d \<longrightarrow> thr_active st' d \<and> thr_data st' d = thr_data st d) \<and>
     (thr_waiting st d \<longrightarrow>
        (thr_active st' d \<or> thr_waiting st' d) \<and> grown (d_type (thr_data st d)) (d_type (thr_data st' d)) \<or>
        \<not> thr_active st' d \<and> \<not> thr_waiting st' d \<and> d_type (thr_data st' d) = TL_UNLOCK \<and> \<not> d_cond (thr_data st' d))"

definition rely :: "owner_id \<Rightarrow> data_id set \<Rightarrow> thr_state \<Rightarrow> thr_state \<Rightarrow> bool" where
  "rely me D st st' \<longleftrightarrow> thr_inv st' \<and> mine_only me D st' \<and> (\<forall>d\<in>D. keeps st st' d)"

lemma active_not_waiting: "thr_inv st \<Longrightarrow> thr_active st d \<Longrightarrow> \<not> thr_waiting st d"
  using lock_okD(1) [OF thr_invD(1), of st "d_lock (thr_data st d)"]
  by (auto simp: thr_active_def thr_waiting_def lock_at_def linked_def)

lemma keeps_trans:
  assumes inv: "thr_inv st1" and a: "keeps st st1 d" and b: "keeps st1 st2 d"
  shows "keeps st st2 d"
proof -
  consider "thr_active st1 d" "\<not> thr_waiting st1 d" | "thr_waiting st1 d" "\<not> thr_active st1 d"
    | "\<not> thr_active st1 d" "\<not> thr_waiting st1 d"
    using active_not_waiting [OF inv] by blast
  then show ?thesis
  proof cases
    case 1
    then show ?thesis using a b by (auto simp: keeps_def)
  next
    case 2
    then have "thr_waiting st d \<and> grown (d_type (thr_data st d)) (d_type (thr_data st1 d)) \<and> \<not> thr_active st d"
      using a by (auto simp: keeps_def)
    then show ?thesis using a b 2 grown_trans unfolding keeps_def by metis
  next
    case 3
    then show ?thesis using a b by (auto simp: keeps_def)
  qed
qed

text \<open>The lock an instance belongs to is the only one it is linked in.\<close>

lemma put_lock_simps [simp]:
  "thr_data (put_lock l (tk', lk') st) = tk'"
  "thr_locks (put_lock l (tk', lk') st) k = (if k = l then lk' else thr_locks st k)"
  by (simp_all add: put_lock_def)

lemma lock_at_put: "d_lock (tk' d) = d_lock (thr_data st d) \<Longrightarrow>
    lock_at (put_lock l (tk', lk') st) d = (if d_lock (thr_data st d) = l then lk' else lock_at st d)"
  by (simp add: lock_at_def)

lemma section_keeps:
  assumes inv: "thr_inv st" and sec: "section_ok st act l tk' lk'" and d: "\<forall>own. act \<noteq> By_session d own"
  shows "keeps st (put_lock l (tk', lk') st) d"
proof -
  let ?st = "put_lock l (tk', lk') st" and ?lk = "thr_locks st l"
  have f: "d_owner (tk' d) = d_owner (thr_data st d)" "d_lock (tk' d) = d_lock (thr_data st d)"
    using sec d unfolding section_ok_def by blast+
  have new: "d \<notin> set (linked ?lk) \<Longrightarrow> d \<notin> set (linked lk') \<and> tk' d = thr_data st d"
    using sec d unfolding section_ok_def by blast
  have act: "d \<in> set (read_list ?lk) \<union> set (write_list ?lk) \<Longrightarrow>
      tk' d = thr_data st d \<and> d \<in> set (read_list lk') \<union> set (write_list lk')"
    and wait: "d \<in> set (read_wait ?lk) \<union> set (write_wait ?lk) \<Longrightarrow>
      d \<in> set (linked lk') \<and> grown (d_type (thr_data st d)) (d_type (tk' d)) \<or>
      d \<notin> set (linked lk') \<and> d_type (tk' d) = TL_UNLOCK \<and> \<not> d_cond (tk' d)"
    using sec d unfolding section_ok_def by blast+
  show ?thesis
  proof (cases "d_lock (thr_data st d) = l")
    case True
    then have l: "lock_at st d = ?lk" "lock_at ?st d = lk'" using f(2) by (simp_all add: lock_at_def)
    show ?thesis using f new act wait unfolding keeps_def thr_active_def thr_waiting_def l
      by (auto simp: linked_set)
  next
    case False
    then have nl: "d \<notin> set (linked ?lk)" using thr_invD(3) [OF inv] by blast
    then have "tk' d = thr_data st d" using new by simp
    moreover have "lock_at ?st d = lock_at st d" using False f(2) by (simp add: lock_at_def)
    ultimately show ?thesis by (simp add: keeps_def thr_active_def thr_waiting_def)
  qed
qed

lemma prepare_keeps: "d \<noteq> e \<Longrightarrow> keeps st (st\<lparr> thr_data := (thr_data st)(e := x) \<rparr>) d"
  by (simp add: keeps_def thr_active_def thr_waiting_def lock_at_def)

lemma section_other:
  assumes "section_ok st act l tk' lk'" "\<forall>own. act \<noteq> By_session e own"
  shows "e \<in> set (linked lk') \<Longrightarrow> e \<in> set (linked (thr_locks st l))" "d_owner (tk' e) = d_owner (thr_data st e)"
  using assms unfolding section_ok_def by blast+

lemma foreignD: "foreign me D act \<Longrightarrow> d \<in> D \<Longrightarrow> \<forall>own. act \<noteq> By_session d own"
  by (auto simp: foreign_def)

lemma others_rely_step:
  assumes inv: "thr_inv st" and mine: "mine_only me D st" and s: "others upgraded mx info me D st st'"
  shows "rely me D st st'"
proof -
  from s obtain act where f: "foreign me D act" and s: "thr_step upgraded mx info act st st'"
    by (auto simp: others_def)
  have inv': "thr_inv st'" using inv s by (rule thr_step_inv)
  from thr_step_section [OF inv s] show ?thesis
    unfolding section_change_def prepare_change_def
  proof (elim disjE exE conjE)
    fix l tk' lk'
    assume st': "st' = put_lock l (tk', lk') st" and sec: "section_ok st act l tk' lk'"
    have "keeps st st' d" if "d \<in> D" for d
      unfolding st' using inv sec foreignD [OF f that] by (rule section_keeps)
    moreover have "mine_only me D st'"
      unfolding mine_only_def
    proof (intro allI ballI impI)
      fix k e
      assume e: "e \<in> set (linked (thr_locks st' k))" and own: "d_owner (thr_data st' e) = me"
      show "e \<in> D"
      proof (cases "\<exists>o'. act = By_session e o'")
        case True
        then obtain o' where o': "act = By_session e o'" by blast
        then have "d_owner (tk' e) = o'" using sec unfolding section_ok_def by blast
        then show ?thesis using own st' f o' by (simp add: foreign_def)
      next
        case False
        then have na: "\<forall>own. act \<noteq> By_session e own" by blast
        have el: "e \<in> set (linked (thr_locks st k))"
          using e section_other(1) [OF sec na] st' by (cases "k = l") simp_all
        have "d_owner (thr_data st e) = me" using section_other(2) [OF sec na] own st' by simp
        then show ?thesis using mine el by (auto simp: mine_only_def)
      qed
    qed
    ultimately show ?thesis using inv' by (simp add: rely_def)
  next
    fix e x
    assume a: "act = By_session e (d_owner x)" "\<not> thr_active st e" "\<not> thr_waiting st e"
      and st': "st' = st\<lparr> thr_data := (thr_data st)(e := x) \<rparr>"
    have "e \<notin> D" using f a(1) by (simp add: foreign_def)
    then have "\<forall>d\<in>D. keeps st st' d" unfolding st' by (intro ballI prepare_keeps) auto
    moreover have "e \<notin> set (linked (thr_locks st l))" for l
      using a linked_iff [of e st] linked_lock_at [OF inv, of e l] by auto
    then have "mine_only me D st'" using mine st' by (auto simp: mine_only_def)
    ultimately show ?thesis using inv' by (simp add: rely_def)
  qed
qed

lemma keeps_refl: "thr_inv st \<Longrightarrow> keeps st st d"
  using active_not_waiting by (auto simp: keeps_def)

lemma others_rely:
  assumes "(others upgraded mx info me D)\<^sup>*\<^sup>* st st'" "thr_inv st" "mine_only me D st"
  shows "rely me D st st'"
  using assms
proof (induction rule: rtranclp_induct)
  case base
  then show ?case by (simp add: rely_def keeps_refl)
next
  case (step st1 st2)
  then have r: "rely me D st st1" by simp
  then have i: "thr_inv st1" "mine_only me D st1" by (simp_all add: rely_def)
  have r2: "rely me D st1 st2" using i step.hyps(2) by (rule others_rely_step)
  have "keeps st st2 d" if "d \<in> D" for d
    using keeps_trans [OF i(1), of st d st2] r r2 that by (simp add: rely_def)
  then show ?case using r2 by (simp add: rely_def)
qed

end
