(* ===== verification/Thr_Multi.thy ===== *)
theory Thr_Multi
  imports Thr_System "HOL-Library.Product_Lexorder"
begin

text \<open>
  Locking a set of tables: the order of \<^verbatim>\<open>sort_locks\<close>, the whole of \<^verbatim>\<open>thr_lock\<close> with its wait, and
  \<^verbatim>\<open>thr_multi_lock\<close>, \<^verbatim>\<open>thr_multi_unlock\<close> and \<^verbatim>\<open>thr_merge_locks\<close>. What other sessions do between two
  critical sections, and while the session sleeps, is a parameter; the theorems assume of it that
  it consists of steps of other sessions.
\<close>

subsection \<open>Sorting\<close>

definition LOCK_CMP :: "data_store \<Rightarrow> data_id \<Rightarrow> data_id \<Rightarrow> bool" where
  "LOCK_CMP tk a b =
     (if d_lock (tk a) \<noteq> d_lock (tk b) then d_lock (tk a) < d_lock (tk b)
      else if d_type (tk a) \<noteq> d_type (tk b) then d_type (tk a) > d_type (tk b)
      else d_priority (tk a) < d_priority (tk b))"

text \<open>
  The inner loop of \<^verbatim>\<open>sort_locks\<close> on the array: \<^verbatim>\<open>sort_shift tk tmp a prev\<close> is the state of the loop
  with \<^verbatim>\<open>prev\<close> at that index.
\<close>

fun sort_shift :: "data_store \<Rightarrow> data_id \<Rightarrow> data_id list \<Rightarrow> nat \<Rightarrow> data_id list" where
  "sort_shift tk tmp a 0 = a[0 := tmp]"
| "sort_shift tk tmp a (Suc p) =
     (let a1 = a[Suc p := a ! p] in
      if p \<noteq> 0 \<and> LOCK_CMP tk tmp (a1 ! (p - 1)) then sort_shift tk tmp a1 p else a1[p := tmp])"

definition sort_step :: "data_store \<Rightarrow> nat \<Rightarrow> data_id list \<Rightarrow> data_id list" where
  "sort_step tk pos a =
     (let tmp = a ! pos in if LOCK_CMP tk tmp (a ! (pos - 1)) then sort_shift tk tmp a pos else a)"

definition sort_locks :: "data_store \<Rightarrow> data_id list \<Rightarrow> data_id list" where
  "sort_locks tk a = fold (sort_step tk) [1..<length a] a"

subsection \<open>Locking and unlocking\<close>

definition thr_lock_st :: "thr_lock_type \<Rightarrow> thr_state \<Rightarrow> data_id \<Rightarrow> owner_id \<Rightarrow> lock_answer \<times> thr_state" where
  "thr_lock_st upgraded st d own =
     (case thr_lock_begin upgraded (thr_data st) (lock_at st d) d own of
        (a, r) \<Rightarrow> (a, put_lock (d_lock (thr_data st d)) r st))"

definition wait_end_st :: "u64 \<Rightarrow> thr_state \<Rightarrow> data_id \<Rightarrow> bool \<Rightarrow> enum_thr_lock_result \<times> thr_state" where
  "wait_end_st mx st d timed_out =
     (case wait_for_lock_end mx (thr_data st) (lock_at st d) d timed_out of
        (res, r) \<Rightarrow> (res, put_lock (d_lock (thr_data st d)) r st))"

text \<open>
  The whole of \<^verbatim>\<open>thr_lock\<close>. \<^verbatim>\<open>sleep d st\<close> is the state in which the session runs again after its wait,
  with whether the wait timed out.
\<close>

definition thr_lock :: "thr_lock_type \<Rightarrow> u64 \<Rightarrow> (data_id \<Rightarrow> thr_state \<Rightarrow> thr_state \<times> bool) \<Rightarrow>
    thr_state \<Rightarrow> data_id \<Rightarrow> owner_id \<Rightarrow> enum_thr_lock_result \<times> thr_state" where
  "thr_lock upgraded mx sleep st d own =
     (case thr_lock_st upgraded st d own of
        (Answered res, st1) \<Rightarrow> (res, st1)
      | (Waiting, st1) \<Rightarrow> (case sleep d st1 of (st2, timed_out) \<Rightarrow> wait_end_st mx st2 d timed_out))"

definition thr_unlock_st :: "u64 \<Rightarrow> thr_state \<Rightarrow> data_id \<Rightarrow> thr_state" where
  "thr_unlock_st mx st d = put_lock (d_lock (thr_data st d)) (thr_unlock mx (thr_data st) (lock_at st d) d) st"

primrec thr_multi_unlock :: "u64 \<Rightarrow> (data_id \<Rightarrow> thr_state \<Rightarrow> thr_state) \<Rightarrow> data_id list \<Rightarrow> thr_state \<Rightarrow> thr_state" where
  "thr_multi_unlock mx env [] st = st"
| "thr_multi_unlock mx env (d # ds) st =
     (let st1 = env d st in
      thr_multi_unlock mx env ds
        (if d_type (thr_data st1 d) \<noteq> TL_UNLOCK then thr_unlock_st mx st1 d else st1))"

primrec mark_unlocked :: "data_id list \<Rightarrow> thr_state \<Rightarrow> thr_state" where
  "mark_unlocked [] st = st"
| "mark_unlocked (d # ds) st =
     mark_unlocked ds (st\<lparr> thr_data := set_type d TL_UNLOCK (thr_data st) \<rparr>)"

primrec lock_everything :: "thr_lock_type \<Rightarrow> u64 \<Rightarrow> (data_id \<Rightarrow> thr_state \<Rightarrow> thr_state \<times> bool) \<Rightarrow>
    (data_id \<Rightarrow> thr_state \<Rightarrow> thr_state) \<Rightarrow> (data_id \<Rightarrow> thr_state \<Rightarrow> thr_state) \<Rightarrow> owner_id \<Rightarrow>
    data_id list \<Rightarrow> data_id list \<Rightarrow> thr_state \<Rightarrow> enum_thr_lock_result \<times> thr_state" where
  "lock_everything upgraded mx sleep env env_un own held [] st = (THR_LOCK_SUCCESS, st)"
| "lock_everything upgraded mx sleep env env_un own held (d # ds) st =
     (case thr_lock upgraded mx sleep (env d st) d own of
        (res, st1) \<Rightarrow>
          if res \<noteq> THR_LOCK_SUCCESS
          then (res, mark_unlocked (d # ds) (thr_multi_unlock mx env_un held st1))
          else lock_everything upgraded mx sleep env env_un own (held @ [d]) ds st1)"

text \<open>
  Once everything is locked the engines are told: \<^verbatim>\<open>start_trans\<close> for every instance, and the second
  and later instances of a table get the status of the first through \<^verbatim>\<open>copy_status\<close>. \<^verbatim>\<open>status_calls\<close>
  is the list of these calls, in order; \<^verbatim>\<open>first\<close> is the variable \<^verbatim>\<open>first_lock\<close>.
\<close>

datatype status_call = Start_trans nat | Copy_status nat nat | Fix_status nat "nat option"

primrec status_loop :: "thr_state \<Rightarrow> data_id \<Rightarrow> data_id \<Rightarrow> data_id list \<Rightarrow> status_call list" where
  "status_loop st first prev [] = []"
| "status_loop st first prev (d # ds) =
     (if has_start_trans (lock_at st d) then [Start_trans (d_status_param (thr_data st d))] else []) @
     (if d_lock (thr_data st d) = d_lock (thr_data st prev) \<and> has_copy_status (lock_at st d)
      then Copy_status (d_status_param (thr_data st d)) (d_status_param (thr_data st first)) #
           status_loop st first d ds
      else status_loop st d d ds)"

definition status_calls :: "thr_state \<Rightarrow> data_id list \<Rightarrow> status_call list" where
  "status_calls st ds =
     (case ds of
        [] \<Rightarrow> []
      | d # ds' \<Rightarrow>
          (if has_start_trans (lock_at st d) then [Start_trans (d_status_param (thr_data st d))] else []) @
          status_loop st d d ds')"

text \<open>The result, the array as sorted, the calls to the engines, and the final state.\<close>

definition thr_multi_lock :: "thr_lock_type \<Rightarrow> u64 \<Rightarrow> (data_id \<Rightarrow> thr_state \<Rightarrow> thr_state \<times> bool) \<Rightarrow>
    (data_id \<Rightarrow> thr_state \<Rightarrow> thr_state) \<Rightarrow> (data_id \<Rightarrow> thr_state \<Rightarrow> thr_state) \<Rightarrow>
    data_id list \<Rightarrow> owner_id \<Rightarrow> thr_state \<Rightarrow> enum_thr_lock_result \<times> data_id list \<times> status_call list \<times> thr_state" where
  "thr_multi_lock upgraded mx sleep env env_un data own st =
     (if data = [] then (THR_LOCK_SUCCESS, [], [], st)
      else
        (let ds = (if length data > 1 then sort_locks (thr_data st) data else data) in
         case lock_everything upgraded mx sleep env env_un own [] ds st of
           (res, st1) \<Rightarrow>
             if res \<noteq> THR_LOCK_SUCCESS then (res, ds, [], st1)
             else (THR_LOCK_SUCCESS, ds, status_calls st1 ds, st1)))"

subsection \<open>Merging\<close>

definition clear_late :: "data_id \<Rightarrow> data_store \<Rightarrow> data_store" where
  "clear_late d tk = tk(d := (tk d)\<lparr> d_priority := and (d_priority (tk d)) (not THR_LOCK_LATE_PRIV) \<rparr>)"

definition set_late :: "data_id \<Rightarrow> data_store \<Rightarrow> data_store" where
  "set_late d tk = tk(d := (tk d)\<lparr> d_priority := or (d_priority (tk d)) THR_LOCK_LATE_PRIV \<rparr>)"

primrec merge_loop :: "thr_state \<Rightarrow> data_id option \<Rightarrow> data_id list \<Rightarrow> status_call list" where
  "merge_loop st first [] = []"
| "merge_loop st first (d # ds) =
     (if d_type (thr_data st d) = TL_UNLOCK \<or> \<not> has_fix_status (lock_at st d)
      then merge_loop st first ds
      else
        (case first of
           Some f \<Rightarrow>
             if d_lock (thr_data st d) = d_lock (thr_data st f)
             then Fix_status (d_status_param (thr_data st f)) (Some (d_status_param (thr_data st d))) #
                  merge_loop st first ds
             else Fix_status (d_status_param (thr_data st d)) None # merge_loop st (Some d) ds
         | None \<Rightarrow> Fix_status (d_status_param (thr_data st d)) None # merge_loop st (Some d) ds))"

definition thr_merge_locks :: "data_id list \<Rightarrow> nat \<Rightarrow> thr_state \<Rightarrow> data_id list \<times> status_call list \<times> thr_state" where
  "thr_merge_locks data old_count st =
     (let tk = fold set_late (drop old_count data) (fold clear_late (take old_count data) (thr_data st));
          st1 = st\<lparr> thr_data := tk \<rparr>;
          ds = sort_locks tk data
      in (ds, merge_loop st1 None ds, st1))"

subsection \<open>Sorting is the stable sort by table, type and priority\<close>

definition lock_key :: "data_store \<Rightarrow> data_id \<Rightarrow> nat \<times> int \<times> u32" where
  "lock_key tk d = (d_lock (tk d), - tl_value (d_type (tk d)), d_priority (tk d))"

lemma LOCK_CMP_key: "LOCK_CMP tk a b \<longleftrightarrow> lock_key tk a < lock_key tk b"
proof (cases "d_type (tk a) = d_type (tk b)")
  case False
  then have "tl_value (d_type (tk a)) \<noteq> tl_value (d_type (tk b))" using tl_value_inj by blast
  then show ?thesis using False by (auto simp: LOCK_CMP_def lock_key_def tl_order)
qed (auto simp: LOCK_CMP_def lock_key_def)

text \<open>The part of the array left of the current position, read from right to left.\<close>

primrec shift_ins :: "data_store \<Rightarrow> data_id \<Rightarrow> data_id list \<Rightarrow> data_id list" where
  "shift_ins tk tmp [] = [tmp]"
| "shift_ins tk tmp (x # xs) = (if LOCK_CMP tk tmp x then x # shift_ins tk tmp xs else tmp # x # xs)"

lemma sort_shift_ins:
  "sort_shift tk tmp (xs @ x # y # zs) (Suc (length xs)) = rev (x # shift_ins tk tmp (rev xs)) @ zs"
proof (induction xs arbitrary: x y zs rule: rev_induct)
  case Nil
  then show ?case by simp
next
  case (snoc x' xs)
  have "sort_shift tk tmp ((xs @ [x']) @ x # y # zs) (Suc (length (xs @ [x']))) =
    (if LOCK_CMP tk tmp x' then sort_shift tk tmp (xs @ x' # x # x # zs) (Suc (length xs)) else xs @ x' # tmp # x # zs)"
    by (subst sort_shift.simps(2)) (simp add: Let_def nth_append list_update_append del: sort_shift.simps)
  then show ?case using snoc [of x' x "x # zs"] by simp
qed

lemma sort_step_ins:
  assumes "ps \<noteq> []"
  shows "sort_step tk (length ps) (ps @ tmp # rest) = rev (shift_ins tk tmp (rev ps)) @ rest"
proof -
  obtain xs x where ps: "ps = xs @ [x]" using assms by (metis rev_exhaust)
  show ?thesis using sort_shift_ins [of tk tmp xs x tmp rest]
    by (simp add: sort_step_def ps nth_append)
qed

lemma mset_shift_ins: "mset (shift_ins tk tmp xs) = add_mset tmp (mset xs)"
  by (induction xs) auto

lemma shift_ins_stable:
  "filter (\<lambda>x. lock_key tk k = lock_key tk x) (rev (shift_ins tk tmp xs)) =
   filter (\<lambda>x. lock_key tk k = lock_key tk x) (rev xs @ [tmp])"
  by (induction xs) (auto simp: LOCK_CMP_key)

lemma shift_ins_sorted:
  assumes "sorted (map (lock_key tk) (rev xs))"
  shows "sorted (map (lock_key tk) (rev (shift_ins tk tmp xs)))"
  using assms
proof (induction xs)
  case Nil
  then show ?case by simp
next
  case (Cons x xs)
  have "set (shift_ins tk tmp xs) = insert tmp (set xs)"
    using mset_shift_ins [of tk tmp xs] by (metis set_mset_add_mset_insert set_mset_mset)
  then show ?case using Cons by (auto simp: LOCK_CMP_key sorted_append not_less)
qed

lemma shift_ins_sort:
  "rev (shift_ins tk tmp (rev (sort_key (lock_key tk) xs))) = sort_key (lock_key tk) (xs @ [tmp])"
proof (rule properties_for_sort_key [symmetric])
  show "mset (rev (shift_ins tk tmp (rev (sort_key (lock_key tk) xs)))) = mset (xs @ [tmp])"
    by (simp add: mset_shift_ins)
  show "filter (\<lambda>x. lock_key tk k = lock_key tk x) (rev (shift_ins tk tmp (rev (sort_key (lock_key tk) xs)))) =
      filter (\<lambda>x. lock_key tk k = lock_key tk x) (xs @ [tmp])" for k
  proof -
    have "filter (\<lambda>x. lock_key tk k = lock_key tk x) (sort_key (lock_key tk) xs) =
        filter (\<lambda>x. lock_key tk k = lock_key tk x) xs"
      using sort_key_stable [of "lock_key tk" "lock_key tk k" xs] by (simp only: eq_commute)
    then show ?thesis by (simp only: shift_ins_stable rev_rev_ident filter_append)
  qed
  show "sorted (map (lock_key tk) (rev (shift_ins tk tmp (rev (sort_key (lock_key tk) xs)))))"
    by (rule shift_ins_sorted) simp
qed

lemma sort_locks_prefix:
  assumes "0 < k" "k \<le> length a"
  shows "fold (sort_step tk) [1..<k] a = sort_key (lock_key tk) (take k a) @ drop k a"
  using assms
proof (induction k)
  case (Suc k)
  show ?case
  proof (cases k)
    case 0
    then show ?thesis using Suc.prems by (cases a) simp_all
  next
    case (Suc j)
    let ?ps = "sort_key (lock_key tk) (take k a)"
    have k: "0 < k" "k < length a" using Suc Suc.prems by simp_all
    then have IH: "fold (sort_step tk) [1..<k] a = ?ps @ a ! k # drop (Suc k) a"
      using Suc.IH by (simp add: Cons_nth_drop_Suc)
    have "length ?ps = k" "?ps \<noteq> []" using k by (auto simp flip: length_greater_0_conv)
    then have "sort_step tk k (?ps @ a ! k # drop (Suc k) a) = rev (shift_ins tk (a ! k) (rev ?ps)) @ drop (Suc k) a"
      using sort_step_ins [of ?ps tk "a ! k" "drop (Suc k) a"] by simp
    also have "\<dots> = sort_key (lock_key tk) (take (Suc k) a) @ drop (Suc k) a"
      using k by (simp only: shift_ins_sort take_Suc_conv_app_nth)
    finally show ?thesis using k IH by simp
  qed
qed simp

lemma sort_locks_eq: "sort_locks tk a = sort_key (lock_key tk) a"
proof (cases "a = []")
  case False
  then show ?thesis
    using sort_locks_prefix [of "length a" a tk] by (simp add: sort_locks_def)
qed (simp add: sort_locks_def)

subsection \<open>The steps of one session\<close>

text \<open>
  The engines of the server never let \<^verbatim>\<open>get_status\<close> fail: all implementations return 0. What happens
  when one does is the subject of a theorem of its own.
\<close>

definition quiet :: "thr_state \<Rightarrow> bool" where
  "quiet st \<longleftrightarrow> (\<forall>l f p c. get_status (thr_locks st l) = Some f \<longrightarrow> \<not> f p c)"

definition runs_others :: "thr_lock_type \<Rightarrow> u64 \<Rightarrow> (owner_id \<Rightarrow> THR_LOCK_INFO) \<Rightarrow> owner_id \<Rightarrow> data_id set \<Rightarrow>
    (data_id \<Rightarrow> thr_state \<Rightarrow> thr_state) \<Rightarrow> bool" where
  "runs_others upgraded mx info me D f \<longleftrightarrow>
     (\<forall>d st. (others upgraded mx info me D)\<^sup>*\<^sup>* st (f d st) \<and> (quiet st \<longrightarrow> quiet (f d st)))"

definition session_ok :: "owner_id \<Rightarrow> data_id set \<Rightarrow> thr_state \<Rightarrow> bool" where
  "session_ok me D st \<longleftrightarrow> thr_inv st \<and> mine_only me D st \<and> quiet st"

definition thr_free :: "thr_state \<Rightarrow> data_id \<Rightarrow> bool" where
  "thr_free st d \<longleftrightarrow> \<not> thr_active st d \<and> \<not> thr_waiting st d"

lemma keepsD:
  assumes "keeps st st' d"
  shows "thr_active st d \<Longrightarrow> thr_active st' d" "thr_active st d \<Longrightarrow> thr_data st' d = thr_data st d"
    "thr_free st d \<Longrightarrow> thr_free st' d" "thr_free st d \<Longrightarrow> thr_data st' d = thr_data st d"
  using assms by (simp_all add: keeps_def thr_free_def)

lemma env_step:
  assumes "session_ok me D st" "runs_others upgraded mx info me D f"
  shows "session_ok me D (f d st) \<and> (\<forall>e\<in>D. keeps st (f d st) e)"
  using assms others_rely [of upgraded mx info me D st "f d st"]
  by (simp add: session_ok_def runs_others_def rely_def)

lemma own_section:
  assumes s: "session_ok me D st" and d: "d \<in> D" and sec: "section_ok st (By_session d own) l tk' lk'"
    and l: "d_lock (thr_data st d) = l" and st: "get_status lk' = get_status (thr_locks st l)"
  shows "session_ok me D (put_lock l (tk', lk') st) \<and> (\<forall>e. e \<noteq> d \<longrightarrow> keeps st (put_lock l (tk', lk') st) e)"
proof -
  let ?st = "put_lock l (tk', lk') st"
  have inv: "thr_inv st" "mine_only me D st" "quiet st" using s by (simp_all add: session_ok_def)
  have "thr_inv ?st" using section_inv [OF inv(1) sec] l by simp
  moreover have "mine_only me D ?st"
    unfolding mine_only_def
  proof (intro allI ballI impI)
    fix k e
    assume e: "e \<in> set (linked (thr_locks ?st k))" "d_owner (thr_data ?st e) = me"
    show "e \<in> D"
    proof (cases "e = d")
      case False
      then have na: "\<forall>o'. By_session d own \<noteq> By_session e o'" by simp
      have "e \<in> set (linked (thr_locks st k))" using e(1) section_other(1) [OF sec na] by (cases "k = l") simp_all
      moreover have "d_owner (thr_data st e) = me" using section_other(2) [OF sec na] e(2) by simp
      ultimately show ?thesis using inv(2) by (auto simp: mine_only_def)
    qed (use d in simp)
  qed
  moreover have "quiet ?st" using inv(3) st by (auto simp: quiet_def)
  moreover have "keeps st ?st e" if "e \<noteq> d" for e
    using that by (intro section_keeps [OF inv(1) sec]) simp
  ultimately show ?thesis by (simp add: session_ok_def)
qed

lemma lock_at_put_same: "d_lock (tk' d) = d_lock (thr_data st d) \<Longrightarrow> lock_at (put_lock (d_lock (thr_data st d)) (tk', lk') st) d = lk'"
  by (simp add: lock_at_def)

lemma quiet_status: "quiet st \<Longrightarrow> status_result tk (lock_at st d) e c = THR_LOCK_SUCCESS"
  by (auto simp: quiet_def status_result_def lock_at_def split: option.split)

lemma unlock_own:
  assumes s: "session_ok me D st" and d: "d \<in> D" "thr_active st d"
  shows "session_ok me D (thr_unlock_st mx st d) \<and> (\<forall>e. e \<noteq> d \<longrightarrow> keeps st (thr_unlock_st mx st d) e) \<and>
    thr_free (thr_unlock_st mx st d) d \<and> d_type (thr_data (thr_unlock_st mx st d) d) = TL_UNLOCK"
proof -
  have inv: "thr_inv st" using s by (simp add: session_ok_def)
  obtain tk' lk' where eq: "thr_unlock mx (thr_data st) (lock_at st d) d = (tk', lk')" by fastforce
  have st': "thr_unlock_st mx st d = put_lock (d_lock (thr_data st d)) (tk', lk') st"
    by (simp add: thr_unlock_st_def eq)
  have ok: "lock_ok (thr_data st) (lock_at st d)" using thr_invD(1) [OF inv] by (simp add: lock_at_def)
  have rel: "release_frame (thr_data st) (lock_at st d) {d} True tk' lk'"
    using thr_unlock_ok [OF ok _ eq] d(2) by (auto simp: thr_active_def)
  have sec: "section_ok st (By_session d (d_owner (thr_data st d))) (d_lock (thr_data st d)) tk' lk'"
    using unlock_section [OF inv _ eq] d(2) by simp
  have "lock_at (thr_unlock_st mx st d) d = lk'"
    using rel by (simp add: st' lock_at_put_same release_frame_def same_fields_def)
  then have "thr_free (thr_unlock_st mx st d) d"
    using rel linked_iff [of d "thr_unlock_st mx st d"] by (auto simp: thr_free_def release_frame_def)
  moreover have "get_status lk' = get_status (thr_locks st (d_lock (thr_data st d)))"
    using rel by (simp add: release_frame_def lock_config_def lock_at_def)
  ultimately show ?thesis
    using own_section [OF s d(1) sec refl] rel by (simp add: st' release_frame_def)
qed

lemma put_lock_same: "put_lock (d_lock (thr_data st d)) (thr_data st, lock_at st d) st = st"
  by (simp add: put_lock_def lock_at_def)

lemma wait_end_own:
  assumes s: "session_ok me D st" and d: "d \<in> D"
    and eq: "wait_end_st mx st d timed_out = (res, st')"
    and cases: "thr_active st d \<or> thr_waiting st d \<or>
      thr_free st d \<and> d_type (thr_data st d) = TL_UNLOCK \<and> \<not> d_cond (thr_data st d)"
  shows "session_ok me D st' \<and> (\<forall>e. e \<noteq> d \<longrightarrow> keeps st st' e) \<and>
    (if res = THR_LOCK_SUCCESS then thr_active st d \<and> st' = st else thr_free st' d)"
proof -
  have inv: "thr_inv st" using s by (simp add: session_ok_def)
  have ok: "lock_ok (thr_data st) (lock_at st d)" "no_orphans (lock_at st d)"
    using thr_invD(1,2) [OF inv] by (simp_all add: lock_at_def)
  have q: "status_result (thr_data st) (lock_at st d) d c = THR_LOCK_SUCCESS" for c
    using s quiet_status by (simp add: session_ok_def)
  obtain tk' lk' where eq': "wait_for_lock_end mx (thr_data st) (lock_at st d) d timed_out = (res, tk', lk')"
    and st': "st' = put_lock (d_lock (thr_data st d)) (tk', lk') st"
    using eq by (auto simp: wait_end_st_def split: prod.splits)
  have stay: "session_ok me D st \<and> (\<forall>e. e \<noteq> d \<longrightarrow> keeps st st e)" using s keeps_refl [OF inv] by simp
  consider (act) "thr_active st d" | (wait) "thr_waiting st d"
    | (ab) "thr_free st d" "d_type (thr_data st d) = TL_UNLOCK" "\<not> d_cond (thr_data st d)" using cases by blast
  then show ?thesis
  proof cases
    case act
    then have "\<not> d_cond (thr_data st d)" "d_type (thr_data st d) \<noteq> TL_UNLOCK"
      using lock_okD(3,5) [OF ok(1), of d] by (auto simp: thr_active_def is_read_def is_write_def tl_order)
    then have "res = THR_LOCK_SUCCESS" "st' = st"
      using eq' q by (auto simp: wait_for_lock_end_def st' put_lock_same)
    then show ?thesis using act stay by simp
  next
    case ab
    then have "res = THR_LOCK_ABORTED" "st' = st" using eq' by (auto simp: wait_for_lock_end_def st' put_lock_same)
    then show ?thesis using ab stay by simp
  next
    case wait
    then have l: "d \<in> set (linked (lock_at st d))" "d_cond (thr_data st d)"
      using linked_iff thr_waiting_cond [OF inv] by auto
    note w = wait_for_lock_end_ok [OF ok l eq']
    have sec: "section_ok st (By_session d (d_owner (thr_data st d))) (d_lock (thr_data st d)) tk' lk'"
      using wait_end_section [OF inv wait eq'] .
    have "lock_at st' d = lk'"
      using w(1) by (simp add: st' lock_at_put_same release_frame_def same_fields_def)
    then have "thr_free st' d"
      using w(1) linked_iff [of d st'] by (auto simp: thr_free_def release_frame_def)
    moreover have "get_status lk' = get_status (thr_locks st (d_lock (thr_data st d)))"
      using w(1) by (simp add: release_frame_def lock_config_def lock_at_def)
    ultimately show ?thesis using own_section [OF s d sec refl] w(2) by (simp add: st')
  qed
qed

lemma thr_lock_begin_quiet:
  assumes q: "\<And>tk d c. status_result tk lk d c = THR_LOCK_SUCCESS"
    and eq: "thr_lock_begin upgraded tk lk d own = (Answered r, tk', lk')"
  shows "r = THR_LOCK_SUCCESS \<or> lk' = lk"
  using eq
  by (auto simp: thr_lock_begin_def thr_lock_read_def thr_lock_write_def lock_refused_def wait_for_read_def
      wait_for_write_def Let_def q split: if_splits list.splits)

lemma lock_own:
  assumes s: "session_ok me D st" and d: "d \<in> D" "thr_free st d" "d < max_instances"
    and req: "thr_request_ok upgraded (thr_data st) (lock_at st d) d me"
    and eq: "thr_lock_st upgraded st d me = (a, st')"
  shows "session_ok me D st' \<and> (\<forall>e. e \<noteq> d \<longrightarrow> keeps st st' e) \<and>
    (case a of
       Waiting \<Rightarrow> thr_waiting st' d \<and> grown (d_type (thr_data st d)) (d_type (thr_data st' d))
     | Answered r \<Rightarrow>
         if r = THR_LOCK_SUCCESS
         then grown (d_type (thr_data st d)) (d_type (thr_data st' d)) \<and>
              (thr_active st' d \<or> d_type (thr_data st' d) = TL_WRITE_DELAYED)
         else thr_free st' d) \<and>
    d_owner (thr_data st' d) = me \<and> d_lock (thr_data st' d) = d_lock (thr_data st d)"
proof -
  have inv: "thr_inv st" using s by (simp add: session_ok_def)
  obtain tk' lk' where eq': "thr_lock_begin upgraded (thr_data st) (lock_at st d) d me = (a, tk', lk')"
    and st': "st' = put_lock (d_lock (thr_data st d)) (tk', lk') st"
    using eq by (auto simp: thr_lock_st_def split: prod.splits)
  note out = lock_section(1) [OF inv req d(3) eq'] and sec = lock_section(2) [OF inv req d(3) eq']
  have own: "d_owner (tk' d) = me" "d_lock (tk' d) = d_lock (thr_data st d)" using out by (simp_all add: lock_outcome_def)
  have at: "lock_at st' d = lk'" "thr_data st' = tk'" using own(2) by (simp_all add: st' lock_at_put_same)
  have "get_status lk' = get_status (thr_locks st (d_lock (thr_data st d)))"
    using out by (simp add: lock_outcome_def lock_config_def lock_at_def)
  then have keep: "session_ok me D st' \<and> (\<forall>e. e \<noteq> d \<longrightarrow> keeps st st' e)"
    using own_section [OF s d(1) sec refl] by (simp add: st')
  have q: "status_result tk (lock_at st d) e c = THR_LOCK_SUCCESS" for tk e c
    using s quiet_status by (simp add: session_ok_def)
  have nl: "d \<notin> set (linked (lock_at st d))" using req by (simp add: thr_request_ok_def)
  have "case a of
       Waiting \<Rightarrow> thr_waiting st' d \<and> grown (d_type (thr_data st d)) (d_type (thr_data st' d))
     | Answered r \<Rightarrow>
         if r = THR_LOCK_SUCCESS
         then grown (d_type (thr_data st d)) (d_type (thr_data st' d)) \<and>
              (thr_active st' d \<or> d_type (thr_data st' d) = TL_WRITE_DELAYED)
         else thr_free st' d"
  proof (cases a)
    case Waiting
    then show ?thesis using out by (auto simp: lock_outcome_def thr_waiting_def at)
  next
    case (Answered r)
    show ?thesis
    proof (cases "r = THR_LOCK_SUCCESS")
      case True
      then show ?thesis using Answered out by (auto simp: lock_outcome_def thr_active_def at)
    next
      case False
      then have "lk' = lock_at st d" using thr_lock_begin_quiet [OF q eq' [unfolded Answered]] by simp
      then have "thr_free st' d" using nl linked_iff [of d st'] by (simp add: at thr_free_def)
      then show ?thesis using Answered False by simp
    qed
  qed
  then show ?thesis using keep own by (simp add: st')
qed

text \<open>The whole of \<^verbatim>\<open>thr_lock\<close>, with the steps of other sessions while it waits.\<close>

lemma thr_lock_own:
  assumes s: "session_ok me D st" and d: "d \<in> D" "thr_free st d" "d < max_instances"
    and nd: "d_type (thr_data st d) \<noteq> TL_WRITE_DELAYED"
    and req: "thr_request_ok upgraded (thr_data st) (lock_at st d) d me"
    and sl: "runs_others upgraded mx info me D (\<lambda>d st. fst (sleep d st))"
    and eq: "thr_lock upgraded mx sleep st d me = (res, st')"
  shows "session_ok me D st' \<and> (\<forall>e\<in>D. e \<noteq> d \<longrightarrow> keeps st st' e) \<and>
    (if res = THR_LOCK_SUCCESS
     then thr_active st' d \<and> grown (d_type (thr_data st d)) (d_type (thr_data st' d)) \<and>
          d_owner (thr_data st' d) = me \<and> d_lock (thr_data st' d) = d_lock (thr_data st d)
     else thr_free st' d)"
proof -
  obtain a st1 where l1: "thr_lock_st upgraded st d me = (a, st1)" by fastforce
  note lo = lock_own [OF s d req l1]
  have s1: "session_ok me D st1" and k1: "\<And>e. e \<noteq> d \<Longrightarrow> keeps st st1 e"
    and f1: "d_owner (thr_data st1 d) = me" "d_lock (thr_data st1 d) = d_lock (thr_data st d)"
    using lo by simp_all
  show ?thesis
  proof (cases a)
    case (Answered r)
    then have r: "res = r" "st' = st1" using eq l1 by (simp_all add: thr_lock_def)
    have "d_type (thr_data st1 d) \<noteq> TL_WRITE_DELAYED" if "grown (d_type (thr_data st d)) (d_type (thr_data st1 d))"
      using that nd by (auto simp: grown_def)
    then show ?thesis using lo Answered r by (auto split: if_splits)
  next
    case Waiting
    obtain st2 timed_out where sleep: "sleep d st1 = (st2, timed_out)" by fastforce
    have w: "thr_waiting st1 d" "grown (d_type (thr_data st d)) (d_type (thr_data st1 d))" using lo Waiting by simp_all
    have s2: "session_ok me D st2" and k2: "\<And>e. e \<in> D \<Longrightarrow> keeps st1 st2 e"
      using env_step [OF s1 sl, of d] sleep by simp_all
    have we: "wait_end_st mx st2 d timed_out = (res, st')" using eq l1 Waiting sleep by (simp add: thr_lock_def)
    have kd: "(thr_active st2 d \<or> thr_waiting st2 d) \<and> grown (d_type (thr_data st1 d)) (d_type (thr_data st2 d)) \<or>
        thr_free st2 d \<and> d_type (thr_data st2 d) = TL_UNLOCK \<and> \<not> d_cond (thr_data st2 d)"
      using k2 [OF d(1)] w(1) by (auto simp: keeps_def thr_free_def)
    have wo: "session_ok me D st' \<and> (\<forall>e. e \<noteq> d \<longrightarrow> keeps st2 st' e) \<and>
        (if res = THR_LOCK_SUCCESS then thr_active st2 d \<and> st' = st2 else thr_free st' d)"
      using kd by (intro wait_end_own [OF s2 d(1) we]) blast
    have "keeps st st' e" if "e \<in> D" "e \<noteq> d" for e
    proof -
      have i: "thr_inv st1" "thr_inv st2" using s1 s2 by (simp_all add: session_ok_def)
      have "keeps st st2 e" using keeps_trans [OF i(1)] k1 k2 that by blast
      then show ?thesis using keeps_trans [OF i(2)] wo that by blast
    qed
    moreover have "thr_active st' d \<and> grown (d_type (thr_data st d)) (d_type (thr_data st' d)) \<and>
        d_owner (thr_data st' d) = me \<and> d_lock (thr_data st' d) = d_lock (thr_data st d)"
      if r: "res = THR_LOCK_SUCCESS"
    proof -
      have a: "thr_active st2 d" "st' = st2" using wo r by simp_all
      then have "grown (d_type (thr_data st1 d)) (d_type (thr_data st2 d))" using kd by (auto simp: thr_free_def)
      then show ?thesis using a w(2) f1 k2 [OF d(1)] grown_trans by (auto simp: keeps_def)
    qed
    ultimately show ?thesis using wo by simp
  qed
qed

subsection \<open>Locking a set of tables\<close>

text \<open>
  What holds before each round of the loop: the instances done so far are active, the others are as
  they were at the start.
\<close>

definition holding :: "owner_id \<Rightarrow> data_id set \<Rightarrow> data_store \<Rightarrow> data_id list \<Rightarrow> data_id list \<Rightarrow> thr_state \<Rightarrow> bool" where
  "holding me D orig held todo st \<longleftrightarrow> session_ok me D st \<and>
     (\<forall>d\<in>set held. thr_active st d \<and> d_owner (thr_data st d) = me \<and> d_lock (thr_data st d) = d_lock (orig d) \<and>
        grown (d_type (orig d)) (d_type (thr_data st d))) \<and>
     (\<forall>d\<in>set todo. thr_free st d \<and> d_lock (thr_data st d) = d_lock (orig d) \<and> d_type (thr_data st d) = d_type (orig d))"

lemma holding_keeps:
  assumes "holding me D orig held todo st" "session_ok me D st'" "\<And>e. e \<in> set held \<union> set todo \<Longrightarrow> keeps st st' e"
  shows "holding me D orig held todo st'"
  using assms(1,2) keepsD [OF assms(3)] by (simp add: holding_def)

lemma request_in_order:
  assumes h: "holding me D orig held (d # todo) st" and D: "D = set held \<union> set (d # todo)"
    and ord: "\<forall>e\<in>set held. d_lock (orig e) = d_lock (orig d) \<longrightarrow> d_type (orig d) \<le> d_type (orig e)"
    and ty: "\<forall>e\<in>D. (is_read (d_type (orig e)) \<or> is_write (d_type (orig e))) \<and> d_type (orig e) \<noteq> TL_WRITE_DELAYED"
    and up: "upgraded = TL_WRITE \<or> upgraded = TL_WRITE_LOW_PRIORITY" and mx: "d < max_instances"
  shows "thr_request_ok upgraded (thr_data st) (lock_at st d) d me"
proof -
  have s: "session_ok me D st" using h by (simp add: holding_def)
  then have inv: "thr_inv st" and mine: "mine_only me D st" by (simp_all add: session_ok_def)
  have dd: "thr_free st d" "d_lock (thr_data st d) = d_lock (orig d)" "d_type (thr_data st d) = d_type (orig d)"
    using h by (simp_all add: holding_def)
  have nl: "d \<notin> set (linked (lock_at st d))" using dd(1) linked_iff [of d st] by (simp add: thr_free_def)
  have "d_type (thr_data st d) \<le> d_type (thr_data st w) \<and> d_type (thr_data st w) \<noteq> TL_WRITE_DELAYED"
    if w: "w \<in> set (write_list (lock_at st d))" "d_owner (thr_data st w) = me" for w
  proof -
    have wl: "w \<in> set (linked (thr_locks st (d_lock (thr_data st d))))" using w(1) by (simp add: lock_at_def linked_set)
    have wD: "w \<in> D" using mine wl w(2) by (auto simp: mine_only_def)
    have lk: "d_lock (thr_data st w) = d_lock (thr_data st d)" using thr_invD(3) [OF inv wl] .
    then have "\<not> thr_free st w" using wl linked_iff [of w st] by (simp add: thr_free_def lock_at_def)
    then have wh: "w \<in> set held" using wD D h by (auto simp: holding_def)
    then have g: "d_lock (thr_data st w) = d_lock (orig w)" "grown (d_type (orig w)) (d_type (thr_data st w))"
      using h by (auto simp: holding_def)
    have "d_type (orig d) \<le> d_type (orig w)" using ord wh g(1) lk dd(2) by simp
    then show ?thesis using g(2) ty wD dd(3) by (auto simp: grown_def)
  qed
  moreover have "length (read_wait (lock_at st d)) + length (read_list (lock_at st d)) + 1 < 2 ^ 32"
    using lock_room [OF inv] nl mx by (simp add: lock_at_def)
  ultimately show ?thesis using nl up ty D dd(3) by (auto simp: thr_request_ok_def sorted_after_def)
qed

definition released :: "thr_state \<Rightarrow> data_id list \<Rightarrow> bool" where
  "released st ds \<longleftrightarrow> (\<forall>d\<in>set ds. thr_free st d \<and> d_type (thr_data st d) = TL_UNLOCK)"

lemma multi_unlock_own:
  assumes "session_ok me D st" "set ds \<subseteq> D" "distinct ds" "\<forall>d\<in>set ds. thr_active st d"
    "runs_others upgraded mx info me D env"
  shows "session_ok me D (thr_multi_unlock mx env ds st) \<and> released (thr_multi_unlock mx env ds st) ds \<and>
    (\<forall>e\<in>D. e \<notin> set ds \<longrightarrow> keeps st (thr_multi_unlock mx env ds st) e)"
  using assms
proof (induction ds arbitrary: st)
  case Nil
  then show ?case by (simp add: released_def keeps_refl session_ok_def)
next
  case (Cons d ds)
  let ?st1 = "env d st"
  have e1: "session_ok me D ?st1" "\<And>e. e \<in> D \<Longrightarrow> keeps st ?st1 e"
    using env_step [OF Cons.prems(1,5), of d] by auto
  then have act: "thr_active ?st1 d" "\<forall>e\<in>set ds. thr_active ?st1 e"
    using Cons.prems(2,4) keepsD(1) [OF e1(2)] by auto
  have inv1: "thr_inv ?st1" using e1(1) by (simp add: session_ok_def)
  have ty: "d_type (thr_data ?st1 d) \<noteq> TL_UNLOCK"
    using act(1) lock_okD(3,5) [OF thr_invD(1) [OF inv1], of d]
    by (auto simp: thr_active_def lock_at_def is_read_def is_write_def tl_order)
  let ?st2 = "thr_unlock_st mx ?st1 d"
  have u: "session_ok me D ?st2" "\<And>e. e \<noteq> d \<Longrightarrow> keeps ?st1 ?st2 e" "thr_free ?st2 d" "d_type (thr_data ?st2 d) = TL_UNLOCK"
    using unlock_own [OF e1(1) _ act(1), of mx] Cons.prems(2) by auto
  have act2: "\<forall>e\<in>set ds. thr_active ?st2 e"
  proof
    fix e assume "e \<in> set ds"
    moreover from this have "e \<noteq> d" using Cons.prems(3) by auto
    ultimately show "thr_active ?st2 e" using act(2) keepsD(1) [OF u(2)] by blast
  qed
  have sub: "set ds \<subseteq> D" "distinct ds" using Cons.prems(2,3) by simp_all
  have IH: "session_ok me D (thr_multi_unlock mx env ds ?st2) \<and> released (thr_multi_unlock mx env ds ?st2) ds \<and>
    (\<forall>e\<in>D. e \<notin> set ds \<longrightarrow> keeps ?st2 (thr_multi_unlock mx env ds ?st2) e)"
    by (rule Cons.IH [OF u(1) sub act2 Cons.prems(5)])
  moreover have "keeps st (thr_multi_unlock mx env ds ?st2) e" if "e \<in> D" "e \<notin> set (d # ds)" for e
  proof -
    have "keeps st ?st2 e" using keeps_trans [OF inv1 e1(2) u(2)] that by simp
    moreover have "thr_inv ?st2" using u(1) by (simp add: session_ok_def)
    ultimately show ?thesis using keeps_trans [of ?st2 st e] IH that by simp
  qed
  moreover have "keeps ?st2 (thr_multi_unlock mx env ds ?st2) d" using IH Cons.prems(2,3) by simp
  then have "thr_free (thr_multi_unlock mx env ds ?st2) d \<and> d_type (thr_data (thr_multi_unlock mx env ds ?st2) d) = TL_UNLOCK"
    using u(3,4) keepsD(3,4) by metis
  ultimately show ?case using ty by (simp add: Let_def released_def)
qed

lemma mark_unlocked_own:
  assumes "session_ok me D st" "\<forall>d\<in>set ds. thr_free st d"
  shows "session_ok me D (mark_unlocked ds st) \<and> released (mark_unlocked ds st) ds \<and>
    (\<forall>es. released st es \<longrightarrow> released (mark_unlocked ds st) es)"
  using assms
proof (induction ds arbitrary: st)
  case Nil
  then show ?case by (simp add: released_def)
next
  case (Cons d ds)
  let ?st = "st\<lparr> thr_data := set_type d TL_UNLOCK (thr_data st) \<rparr>"
  have upd: "?st = st\<lparr> thr_data := (thr_data st)(d := (thr_data st d)\<lparr>d_type := TL_UNLOCK\<rparr>) \<rparr>" by (simp add: set_type_def)
  have inv: "thr_inv st" using Cons.prems(1) by (simp add: session_ok_def)
  have "thr_inv ?st" unfolding upd using Cons.prems(2) by (intro prepare_inv [OF inv]) (simp_all add: thr_free_def)
  moreover have "mine_only me D ?st = mine_only me D st" "quiet ?st = quiet st"
    by (simp_all add: mine_only_def quiet_def)
  ultimately have s: "session_ok me D ?st" using Cons.prems(1) by (simp add: session_ok_def)
  have same: "thr_free ?st e = thr_free st e" for e
    by (simp add: thr_free_def thr_active_def thr_waiting_def lock_at_def)
  have rel: "released st es \<Longrightarrow> released ?st es" for es by (auto simp: released_def same)
  have "session_ok me D (mark_unlocked ds ?st) \<and> released (mark_unlocked ds ?st) ds \<and>
    (\<forall>es. released ?st es \<longrightarrow> released (mark_unlocked ds ?st) es)"
    using Cons.prems(2) by (intro Cons.IH [OF s]) (simp add: same)
  moreover have "released ?st [d]" using Cons.prems(2) by (simp add: released_def same)
  ultimately have "session_ok me D (mark_unlocked ds ?st)" "released (mark_unlocked ds ?st) [d]"
    "released (mark_unlocked ds ?st) ds" "\<And>es. released st es \<Longrightarrow> released (mark_unlocked ds ?st) es"
    using rel by blast+
  then show ?case by (simp add: released_def)
qed

lemma lock_everything_own:
  assumes "holding me D orig held todo st" "D = set held \<union> set todo" "distinct (held @ todo)"
    "sorted_wrt (\<lambda>e d. d_lock (orig e) = d_lock (orig d) \<longrightarrow> d_type (orig d) \<le> d_type (orig e)) (held @ todo)"
    "\<forall>e\<in>D. (is_read (d_type (orig e)) \<or> is_write (d_type (orig e))) \<and> d_type (orig e) \<noteq> TL_WRITE_DELAYED \<and> e < max_instances"
    "upgraded = TL_WRITE \<or> upgraded = TL_WRITE_LOW_PRIORITY"
    "runs_others upgraded mx info me D (\<lambda>d st. fst (sleep d st))" "runs_others upgraded mx info me D env"
    "runs_others upgraded mx info me D env_un"
    "lock_everything upgraded mx sleep env env_un me held todo st = (res, st')"
  shows "session_ok me D st' \<and>
    (if res = THR_LOCK_SUCCESS then holding me D orig (held @ todo) [] st' else released st' (held @ todo))"
  using assms
proof (induction todo arbitrary: held st)
  case Nil
  then show ?case by (auto simp: holding_def)
next
  case (Cons d ds held st)
  let ?st1 = "env d st"
  have "session_ok me D st" using Cons.prems(1) by (simp add: holding_def)
  then have e1: "session_ok me D ?st1" "\<And>e. e \<in> D \<Longrightarrow> keeps st ?st1 e"
    using env_step [OF _ Cons.prems(8), of st d] by auto
  have h1: "holding me D orig held (d # ds) ?st1"
    using Cons.prems(2) by (intro holding_keeps [OF Cons.prems(1) e1(1)] e1(2)) auto
  have dd: "thr_free ?st1 d" "d_type (thr_data ?st1 d) = d_type (orig d)" "d_lock (thr_data ?st1 d) = d_lock (orig d)"
    using h1 by (simp_all add: holding_def)
  have "\<forall>e\<in>set held. d_lock (orig e) = d_lock (orig d) \<longrightarrow> d_type (orig d) \<le> d_type (orig e)"
    using Cons.prems(4) by (simp add: sorted_wrt_append)
  then have req: "thr_request_ok upgraded (thr_data ?st1) (lock_at ?st1 d) d me"
    using Cons.prems(2,5,6) by (intro request_in_order [OF h1]) auto
  obtain r st2 where l: "thr_lock upgraded mx sleep ?st1 d me = (r, st2)" by fastforce
  have dD: "d \<in> D" "d < max_instances" "d_type (thr_data ?st1 d) \<noteq> TL_WRITE_DELAYED"
    using Cons.prems(2,5) dd(2) by auto
  note lk = thr_lock_own [OF e1(1) dD(1) dd(1) dD(2,3) req Cons.prems(7) l]
  have s2: "session_ok me D st2" using lk by simp
  have other: "keeps ?st1 st2 e" if "e \<in> set held \<union> set ds" for e
  proof -
    have "e \<noteq> d \<and> e \<in> D" using that Cons.prems(2,3) by auto
    then show ?thesis using lk by blast
  qed
  have h2: "holding me D orig held ds st2"
  proof (rule holding_keeps [OF _ s2 other])
    show "holding me D orig held ds ?st1" using h1 by (simp add: holding_def)
  qed
  show ?case
  proof (cases "r = THR_LOCK_SUCCESS")
    case True
    then have h3: "holding me D orig (held @ [d]) ds st2"
      using h2 lk dd by (auto simp: holding_def)
    have l3: "lock_everything upgraded mx sleep env env_un me (held @ [d]) ds st2 = (res, st')"
      using Cons.prems(10) True l by simp
    have "session_ok me D st' \<and> (if res = THR_LOCK_SUCCESS then holding me D orig ((held @ [d]) @ ds) [] st'
        else released st' ((held @ [d]) @ ds))"
      by (rule Cons.IH [OF h3 _ _ _ Cons.prems(5-9) l3]) (use Cons.prems(2-4) in simp_all)
    then show ?thesis by (cases "res = THR_LOCK_SUCCESS") simp_all
  next
    case False
    have hs: "session_ok me D (thr_multi_unlock mx env_un held st2) \<and> released (thr_multi_unlock mx env_un held st2) held \<and>
      (\<forall>e\<in>D. e \<notin> set held \<longrightarrow> keeps st2 (thr_multi_unlock mx env_un held st2) e)"
      using h2 Cons.prems(2,3) by (intro multi_unlock_own [OF s2 _ _ _ Cons.prems(9)]) (auto simp: holding_def)
    have "thr_free st2 e" if "e \<in> set (d # ds)" for e
      using that lk False h2 by (auto simp: holding_def)
    then have free: "\<forall>e\<in>set (d # ds). thr_free (thr_multi_unlock mx env_un held st2) e"
      using hs Cons.prems(2,3) keepsD(3) [of st2 "thr_multi_unlock mx env_un held st2"] by auto
    have r: "res = r" "st' = mark_unlocked (d # ds) (thr_multi_unlock mx env_un held st2)"
      using Cons.prems(10) False l by simp_all
    have "session_ok me D st' \<and> released st' (d # ds) \<and> released st' held"
      unfolding r using mark_unlocked_own [OF _ free] hs by blast
    then show ?thesis using False r(1) by (auto simp: released_def)
  qed
qed

lemma sort_locks_order:
  "sorted_wrt (\<lambda>e d. d_lock (tk e) = d_lock (tk d) \<longrightarrow> d_type (tk d) \<le> d_type (tk e)) (sort_locks tk ds)"
proof -
  have "sorted_wrt (\<lambda>e d. lock_key tk e \<le> lock_key tk d) (sort_locks tk ds)"
    using sorted_sort_key [of "lock_key tk" ds] unfolding sort_locks_eq by (simp add: sorted_map)
  then show ?thesis
    by (rule sorted_wrt_mono_rel [rotated]) (auto simp: lock_key_def tl_order)
qed

lemma multi_lock_own:
  assumes st: "thr_inv st" "quiet st" and none: "mine_only me {} st"
    and ds: "distinct data" "\<forall>d\<in>set data. thr_free st d \<and> d < max_instances \<and>
       (is_read (d_type (thr_data st d)) \<or> is_write (d_type (thr_data st d))) \<and>
       d_type (thr_data st d) \<noteq> TL_WRITE_DELAYED"
    and up: "upgraded = TL_WRITE \<or> upgraded = TL_WRITE_LOW_PRIORITY"
    and env: "runs_others upgraded mx info me (set data) (\<lambda>d st. fst (sleep d st))"
      "runs_others upgraded mx info me (set data) env" "runs_others upgraded mx info me (set data) env_un"
    and eq: "thr_multi_lock upgraded mx sleep env env_un data me st = (res, arr, calls, st')"
  shows "session_ok me (set data) st' \<and> mset arr = mset data \<and>
    (if res = THR_LOCK_SUCCESS then holding me (set data) (thr_data st) arr [] st' else released st' arr)"
proof (cases "data = []")
  case True
  then have r: "res = THR_LOCK_SUCCESS" "arr = []" "st' = st" using eq by (auto simp: thr_multi_lock_def)
  have "mine_only me (set data) st" using none True by simp
  then show ?thesis using st True r by (simp add: holding_def session_ok_def)
next
  case False
  let ?ds = "sort_locks (thr_data st) data"
  have ds': "(if length data > 1 then ?ds else data) = ?ds"
    using False by (cases data) (auto simp: sort_locks_def)
  obtain st1 where le: "lock_everything upgraded mx sleep env env_un me [] ?ds st = (res, st1)" and r: "arr = ?ds" "st' = st1"
    using eq False unfolding thr_multi_lock_def Let_def ds' by (auto split: prod.splits if_splits)
  have perm: "set ?ds = set data" "distinct ?ds" "mset ?ds = mset data"
    using ds(1) by (simp_all add: sort_locks_eq)
  have "mine_only me (set data) st" using none by (auto simp: mine_only_def)
  then have "holding me (set data) (thr_data st) [] ?ds st"
    using st ds(2) perm(1) by (auto simp: holding_def session_ok_def)
  then have "session_ok me (set data) st1 \<and>
      (if res = THR_LOCK_SUCCESS then holding me (set data) (thr_data st) ([] @ ?ds) [] st1 else released st1 ([] @ ?ds))"
    by (rule lock_everything_own [OF _ _ _ _ _ up env le]) (use perm ds(2) sort_locks_order in auto)
  then show ?thesis using r perm(3) by (cases "res = THR_LOCK_SUCCESS") simp_all
qed

end
