(* ===== verification/Thr_Example.thy ===== *)
theory Thr_Example
  imports Thr_Multi
begin

text \<open>
  Small runs of the table lock manager, evaluated step by step. One table, at address 0, whose engine
  supports concurrent inserts. In the first run sessions 1 and 6 want to write with
  \<^const>\<open>TL_WRITE_ALLOW_WRITE\<close> and session 5 reads with \<^const>\<open>TL_READ_NO_INSERT\<close>.
\<close>

definition demo_instance :: "owner_id \<Rightarrow> thr_lock_type \<Rightarrow> bool \<Rightarrow> THR_LOCK_DATA" where
  "demo_instance own ty c = \<lparr> d_owner = own, d_lock = 0, d_cond = c, d_status_param = 0, d_type = ty, d_priority = 0 \<rparr>"

definition demo_lock :: "bool \<Rightarrow> data_id list \<Rightarrow> data_id list \<Rightarrow> data_id list \<Rightarrow> data_id list \<Rightarrow> u32 \<Rightarrow> THR_LOCK" where
  "demo_lock multi rw r ww w n = \<lparr> read_wait = rw, read_list = r, write_wait = ww, write_list = w,
     write_lock_count = 0, read_no_write_count = n, get_status = None, check_status = Some (\<lambda>_. False),
     has_copy_status = False, has_start_trans = False, has_fix_status = False,
     allow_multiple_concurrent_insert = multi \<rparr>"

definition demo_locks :: "bool \<Rightarrow> THR_LOCK \<Rightarrow> lock_id \<Rightarrow> THR_LOCK" where
  "demo_locks multi lk = (\<lambda>_. demo_lock multi [] [] [] [] 0)(0 := lk)"

fun demo_types :: "data_id \<Rightarrow> thr_lock_type" where
  "demo_types 0 = TL_WRITE_ALLOW_WRITE"
| "demo_types (Suc 0) = TL_READ_NO_INSERT"
| "demo_types (Suc (Suc 0)) = TL_WRITE_ALLOW_WRITE"
| "demo_types _ = TL_READ"

definition demo0 :: thr_state where
  "demo0 = \<lparr> thr_data = \<lambda>d. demo_instance 0 (demo_types d) False, thr_locks = demo_locks False (demo_lock False [] [] [] [] 0) \<rparr>"

definition demo1 :: thr_state where
  "demo1 = \<lparr> thr_data = (thr_data demo0)(0 := demo_instance 1 TL_WRITE_ALLOW_WRITE False),
     thr_locks = demo_locks False (demo_lock False [] [] [] [0] 0) \<rparr>"

definition demo2 :: thr_state where
  "demo2 = \<lparr> thr_data = (thr_data demo1)(Suc 0 := demo_instance 5 TL_READ_NO_INSERT False),
     thr_locks = demo_locks False (demo_lock False [] [Suc 0] [] [0] 1) \<rparr>"

definition demo3 :: thr_state where
  "demo3 = \<lparr> thr_data = (thr_data demo2)(Suc (Suc 0) := demo_instance 6 TL_WRITE_ALLOW_WRITE True),
     thr_locks = demo_locks False (demo_lock False [] [Suc 0] [Suc (Suc 0)] [0] 1) \<rparr>"

definition demo4 :: thr_state where
  "demo4 = \<lparr> thr_data = (thr_data demo3)(Suc 0 := demo_instance 5 TL_UNLOCK False),
     thr_locks = demo_locks False (demo_lock False [] [] [Suc (Suc 0)] [0] 0) \<rparr>"

lemmas demo_defs = demo0_def demo1_def demo2_def demo3_def demo4_def demo_instance_def demo_lock_def demo_locks_def

lemmas thr_exec = thr_lock_st_def thr_lock_begin_def thr_lock_read_def thr_lock_write_def second_write_def
  read_beside_write_def thr_lock_owner_equal_def add_read_def add_write_def wait_for_read_def wait_for_write_def
  status_result_def status_check_def lock_at_def put_lock_def set_cond_def set_type_def tl_order THR_LOCK_LATE_PRIV_def
  Let_def

lemmas thr_checks = thr_request_ok_def sorted_after_def is_read_def is_write_def tl_order linked_def lock_at_def
  max_instances_def

lemma demo0_idle: "thr_idle demo0"
  unfolding thr_idle_def
  by (intro allI exI [of _ None] exI [of _ "Some (\<lambda>_. False)"] exI [of _ False])
    (simp add: demo_defs thr_lock_init_def)

lemma demo_run1: "thr_lock_st TL_WRITE demo0 0 1 = (Answered THR_LOCK_SUCCESS, demo1)"
  by (simp add: thr_exec demo_defs fun_eq_iff)

lemma demo_run2: "thr_lock_st TL_WRITE demo1 (Suc 0) 5 = (Answered THR_LOCK_SUCCESS, demo2)"
  by (simp add: thr_exec demo_defs fun_eq_iff)

lemma demo_run3: "thr_lock_st TL_WRITE demo2 (Suc (Suc 0)) 6 = (Waiting, demo3)"
  by (simp add: thr_exec demo_defs fun_eq_iff)

lemma demo_run4: "thr_unlock_st mx demo3 (Suc 0) = demo4"
  by (simp add: thr_unlock_st_def thr_unlock_def wake_up_waiters_def unlink_def thr_exec demo_defs fun_eq_iff)

lemma demo_requests:
  "thr_request_ok TL_WRITE (thr_data demo0) (lock_at demo0 0) 0 1"
  "thr_request_ok TL_WRITE (thr_data demo1) (lock_at demo1 (Suc 0)) (Suc 0) 5"
  "thr_request_ok TL_WRITE (thr_data demo2) (lock_at demo2 (Suc (Suc 0))) (Suc (Suc 0)) 6"
  by (simp_all add: thr_checks demo_defs)

lemma lock_reachable:
  assumes "thr_reachable upgraded mx info st" "thr_request_ok upgraded (thr_data st) (lock_at st d) d own"
    "d < max_instances" "thr_lock_st upgraded st d own = (a, st')"
  shows "thr_reachable upgraded mx info st'"
proof -
  obtain r where "thr_lock_begin upgraded (thr_data st) (lock_at st d) d own = (a, r)"
    "st' = put_lock (d_lock (thr_data st d)) r st"
    using assms(4) by (auto simp: thr_lock_st_def split: prod.splits)
  then show ?thesis using thr_next [OF assms(1) step_lock [OF assms(2,3)]] by blast
qed

lemma unlock_reachable:
  assumes "thr_reachable upgraded mx info st" "thr_active st d"
  shows "thr_reachable upgraded mx info (thr_unlock_st mx st d)"
  unfolding thr_unlock_st_def by (rule thr_next [OF assms(1) step_unlock]) (use assms(2) in simp_all)

lemma demo_reachable:
  "thr_reachable TL_WRITE mx info demo0" "thr_reachable TL_WRITE mx info demo1" "thr_reachable TL_WRITE mx info demo2"
  "thr_reachable TL_WRITE mx info demo3" "thr_reachable TL_WRITE mx info demo4"
proof -
  show r0: "thr_reachable TL_WRITE mx info demo0" using demo0_idle by (rule thr_start)
  show r1: "thr_reachable TL_WRITE mx info demo1"
    by (rule lock_reachable [OF r0 demo_requests(1) _ demo_run1]) (simp add: max_instances_def)
  show r2: "thr_reachable TL_WRITE mx info demo2"
    by (rule lock_reachable [OF r1 demo_requests(2) _ demo_run2]) (simp add: max_instances_def)
  show r3: "thr_reachable TL_WRITE mx info demo3"
    by (rule lock_reachable [OF r2 demo_requests(3) _ demo_run3]) (simp add: max_instances_def)
  have "thr_active demo3 (Suc 0)" by (simp add: thr_active_def lock_at_def demo_defs)
  from unlock_reachable [OF r3 this] show "thr_reachable TL_WRITE mx info demo4" by (simp add: demo_run4)
qed

text \<open>
  In the second run the table allows several concurrent inserts. Sessions 1 and 5 insert, and session 1
  also reads the table, with \<^const>\<open>TL_READ_NO_INSERT\<close>.
\<close>

fun multi_types :: "data_id \<Rightarrow> thr_lock_type" where
  "multi_types (Suc (Suc 0)) = TL_READ_NO_INSERT"
| "multi_types _ = TL_WRITE_CONCURRENT_INSERT"

definition multi0 :: thr_state where
  "multi0 = \<lparr> thr_data = \<lambda>d. demo_instance 0 (multi_types d) False, thr_locks = demo_locks True (demo_lock True [] [] [] [] 0) \<rparr>"

definition multi1 :: thr_state where
  "multi1 = \<lparr> thr_data = (thr_data multi0)(0 := demo_instance 1 TL_WRITE_CONCURRENT_INSERT False),
     thr_locks = demo_locks True (demo_lock True [] [] [] [0] 0) \<rparr>"

definition multi2 :: thr_state where
  "multi2 = \<lparr> thr_data = (thr_data multi1)(Suc 0 := demo_instance 5 TL_WRITE_CONCURRENT_INSERT False),
     thr_locks = demo_locks True (demo_lock True [] [] [] [0, Suc 0] 0) \<rparr>"

definition multi3 :: thr_state where
  "multi3 = \<lparr> thr_data = (thr_data multi2)(Suc (Suc 0) := demo_instance 1 TL_READ_NO_INSERT False),
     thr_locks = demo_locks True (demo_lock True [] [Suc (Suc 0)] [] [0, Suc 0] 1) \<rparr>"

lemmas multi_defs = multi0_def multi1_def multi2_def multi3_def demo_instance_def demo_lock_def demo_locks_def

lemma multi_runs:
  "thr_lock_st TL_WRITE multi0 0 1 = (Answered THR_LOCK_SUCCESS, multi1)"
  "thr_lock_st TL_WRITE multi1 (Suc 0) 5 = (Answered THR_LOCK_SUCCESS, multi2)"
  "thr_lock_st TL_WRITE multi2 (Suc (Suc 0)) 1 = (Answered THR_LOCK_SUCCESS, multi3)"
  by (simp_all add: thr_exec multi_defs fun_eq_iff)

lemma multi_requests:
  "thr_request_ok TL_WRITE (thr_data multi0) (lock_at multi0 0) 0 1"
  "thr_request_ok TL_WRITE (thr_data multi1) (lock_at multi1 (Suc 0)) (Suc 0) 5"
  "thr_request_ok TL_WRITE (thr_data multi2) (lock_at multi2 (Suc (Suc 0))) (Suc (Suc 0)) 1"
  by (simp_all add: thr_checks multi_defs)

lemma multi_reachable: "thr_reachable TL_WRITE mx info multi3"
proof -
  have "thr_idle multi0"
    unfolding thr_idle_def
    by (intro allI exI [of _ None] exI [of _ "Some (\<lambda>_. False)"] exI [of _ True] exI [of _ False])
      (simp add: multi_defs thr_lock_init_def)
  then have r0: "thr_reachable TL_WRITE mx info multi0" by (rule thr_start)
  have r1: "thr_reachable TL_WRITE mx info multi1"
    by (rule lock_reachable [OF r0 multi_requests(1) _ multi_runs(1)]) (simp add: max_instances_def)
  have r2: "thr_reachable TL_WRITE mx info multi2"
    by (rule lock_reachable [OF r1 multi_requests(2) _ multi_runs(2)]) (simp add: max_instances_def)
  show ?thesis
    by (rule lock_reachable [OF r2 multi_requests(3) _ multi_runs(3)]) (simp add: max_instances_def)
qed

text \<open>In the third run session 1 writes and session 5 waits to read.\<close>

fun fair_types :: "data_id \<Rightarrow> thr_lock_type" where
  "fair_types 0 = TL_WRITE"
| "fair_types _ = TL_READ"

definition fair0 :: thr_state where
  "fair0 = \<lparr> thr_data = \<lambda>d. demo_instance 0 (fair_types d) False, thr_locks = demo_locks False (demo_lock False [] [] [] [] 0) \<rparr>"

definition fair1 :: thr_state where
  "fair1 = \<lparr> thr_data = (thr_data fair0)(0 := demo_instance 1 TL_WRITE False),
     thr_locks = demo_locks False (demo_lock False [] [] [] [0] 0) \<rparr>"

definition fair2 :: thr_state where
  "fair2 = \<lparr> thr_data = (thr_data fair1)(Suc 0 := demo_instance 5 TL_READ True),
     thr_locks = demo_locks False (demo_lock False [Suc 0] [] [] [0] 0) \<rparr>"

lemmas fair_defs = fair0_def fair1_def fair2_def demo_instance_def demo_lock_def demo_locks_def

lemma fair_runs:
  "thr_lock_st TL_WRITE fair0 0 1 = (Answered THR_LOCK_SUCCESS, fair1)"
  "thr_lock_st TL_WRITE fair1 (Suc 0) 5 = (Waiting, fair2)"
  by (simp_all add: thr_exec fair_defs fun_eq_iff)

lemma fair_requests:
  "thr_request_ok TL_WRITE (thr_data fair0) (lock_at fair0 0) 0 1"
  "thr_request_ok TL_WRITE (thr_data fair1) (lock_at fair1 (Suc 0)) (Suc 0) 5"
  by (simp_all add: thr_checks fair_defs)

lemma fair_reachable: "thr_reachable TL_WRITE mx info fair2"
proof -
  have "thr_idle fair0"
    unfolding thr_idle_def
    by (intro allI exI [of _ None] exI [of _ "Some (\<lambda>_. False)"] exI [of _ False])
      (simp add: fair_defs thr_lock_init_def)
  then have r0: "thr_reachable TL_WRITE mx info fair0" by (rule thr_start)
  have r1: "thr_reachable TL_WRITE mx info fair1"
    by (rule lock_reachable [OF r0 fair_requests(1) _ fair_runs(1)]) (simp add: max_instances_def)
  show ?thesis
    by (rule lock_reachable [OF r1 fair_requests(2) _ fair_runs(2)]) (simp add: max_instances_def)
qed

end
