(* ===== verification/Thr_Theorems.thy ===== *)
theory Thr_Theorems
  imports Thr_Example
begin

text \<open>
  What the table lock manager guarantees: exclusion, no waiter on an idle lock, no deadlock between
  sessions that lock through \<^verbatim>\<open>thr_multi_lock\<close>, all or nothing, and the places where the code
  does not do what it means to. The witnesses are runs of small examples.
\<close>

subsection \<open>Ordered requests\<close>

lemma read_type_below: "a \<le> b \<Longrightarrow> is_read b \<Longrightarrow> b \<noteq> TL_READ_NO_INSERT \<Longrightarrow> a \<le> TL_READ_HIGH_PRIORITY"
  by (cases b) (simp_all add: is_read_def tl_order)

text \<open>A session that already has the table and asks for a type that is not higher is never queued.\<close>

lemma ordered_request_answered:
  assumes ok: "lock_ok tk0 lk" and multi: "\<not> allow_multiple_concurrent_insert lk"
    and req: "thr_request_ok upgraded tk0 lk d own" and nd: "d_type (tk0 d) \<noteq> TL_WRITE_DELAYED"
    and e: "e \<in> set (read_list lk) \<union> set (write_list lk)" "d_owner (tk0 e) = own" "d_type (tk0 d) \<le> d_type (tk0 e)"
    and eq: "thr_lock_begin upgraded tk0 lk d own = (a, tk', lk')"
  shows "a \<noteq> Waiting"
proof -
  define tk where "tk = tk0(d := (tk0 d)\<lparr> d_cond := False, d_owner := own,
    d_priority := and (d_priority (tk0 d)) (not THR_LOCK_LATE_PRIV) \<rparr>)"
  have new: "d \<notin> set (linked lk)" and ty: "is_read (d_type (tk0 d)) \<or> is_write (d_type (tk0 d))"
    using req by (auto simp: thr_request_ok_def)
  have ok1: "lock_ok tk lk" unfolding tk_def using ok new by (rule lock_ok_fresh)
  have tkd: "d_type (tk d) = d_type (tk0 d)" "d_owner (tk d) = own" by (simp_all add: tk_def)
  have "e \<noteq> d" using e(1) new by (auto simp: linked_set)
  then have tke: "tk e = tk0 e" by (simp add: tk_def)
  show ?thesis
  proof (cases "d_type (tk0 d) < TL_FIRST_WRITE")
    case True
    then have rd: "is_read (d_type (tk d))" using ty tkd by (auto simp: is_write_def)
    have eq': "thr_lock_read tk lk d = (a, tk', lk')"
      using eq True tkd unfolding thr_lock_begin_def Let_def tk_def [symmetric] by simp
    show ?thesis
    proof (cases "write_list lk")
      case Nil
      then have "has_old_lock tk (read_list lk) (d_owner (tk d))"
        using e(1,2) tke tkd by (auto simp: has_old_lock_iff intro!: bexI [of _ e])
      then show ?thesis using eq' Nil by (auto simp: thr_lock_read_def)
    next
      case (Cons w ws)
      have wr: "is_write (d_type (tk w))" using lock_okD(5) [OF ok1] Cons by simp
      have "read_beside_write tk d w"
      proof (cases "d_owner (tk w) = own")
        case True
        then show ?thesis using tkd by (simp add: read_beside_write_def thr_lock_owner_equal_def)
      next
        case False
        have nc: "\<not> thr_conflict False (d_type (tk e)) (d_type (tk w))"
          using holders_compatibleD [OF ok1, of e w] e(1,2) Cons False tke multi by simp
        show ?thesis
        proof (cases "e \<in> set (read_list lk)")
          case True
          then have "is_read (d_type (tk e))" using lock_okD(3) [OF ok1] by simp
          then show ?thesis using nc wr e(3) tke tkd
              read_type_below [of "d_type (tk d)" "d_type (tk e)"]
            by (auto simp: read_beside_write_def conflict_read_write not_less)
        next
          case False
          then have "is_write (d_type (tk e))" using lock_okD(5) [OF ok1] e(1) by simp
          then show ?thesis using nc wr by (auto simp: read_beside_write_def conflict_write_write tl_order)
        qed
      qed
      then show ?thesis using eq' Cons by (auto simp: thr_lock_read_def)
    qed
  next
    case False
    then have "\<not> is_read (d_type (tk0 e))" using e(3) by (auto simp: is_read_def tl_order)
    then have ew: "e \<in> set (write_list lk)" using e(1) lock_okD(3) [OF ok] by auto
    then obtain w ws where Cons: "write_list lk = w # ws" by (cases "write_list lk") auto
    have old: "has_old_lock tk2 (write_list lk) own" if "\<And>x. x \<in> set (write_list lk) \<Longrightarrow> d_owner (tk2 x) = d_owner (tk0 x)" for tk2
      using ew e(2) that by (auto simp: has_old_lock_iff)
    have other: "d_owner (tk x) = d_owner (tk0 x)" if "x \<in> set (write_list lk)" for x
      using that new by (auto simp: tk_def linked_set)
    have "thr_lock_write upgraded tk2 lk d = (a, tk', lk') \<Longrightarrow> a \<noteq> Waiting"
      if "d_owner (tk2 d) = own" "\<And>x. x \<in> set (write_list lk) \<Longrightarrow> d_owner (tk2 x) = d_owner (tk0 x)" for tk2
      using old [OF that(2)] that(1) Cons
      by (auto simp: thr_lock_write_def second_write_def lock_refused_def split: if_splits)
    from this [of tk] this [of "set_type d upgraded tk"] show ?thesis
      using eq False nd tkd other
      unfolding thr_lock_begin_def Let_def tk_def [symmetric] by (auto split: if_splits)
  qed
qed

text \<open>
  Sessions that lock the way \<^verbatim>\<open>thr_multi_lock\<close> does: they ask in the order of \<^verbatim>\<open>LOCK_CMP\<close> and only while
  none of their requests is waiting. Every other step that links nothing and sends no holder back to
  a queue is allowed: ends of waits, releases, aborts, and what the engines do.
\<close>

definition in_order :: "thr_state \<Rightarrow> data_id \<Rightarrow> owner_id \<Rightarrow> bool" where
  "in_order st d own \<longleftrightarrow> (\<forall>l. \<forall>e\<in>set (linked (thr_locks st l)). d_owner (thr_data st e) = own \<longrightarrow>
     thr_active st e \<and> \<not> LOCK_CMP (thr_data st) d e)"

lemma not_before: "\<not> LOCK_CMP tk d e \<Longrightarrow>
    d_lock (tk e) < d_lock (tk d) \<or> d_lock (tk e) = d_lock (tk d) \<and> d_type (tk d) \<le> d_type (tk e)"
  by (auto simp: LOCK_CMP_def split: if_splits)

definition no_requeue :: "thr_state \<Rightarrow> thr_state \<Rightarrow> bool" where
  "no_requeue st st' \<longleftrightarrow> (\<forall>l. set (linked (thr_locks st' l)) \<subseteq> set (linked (thr_locks st l)) \<and>
     (set (read_wait (thr_locks st' l)) \<union> set (write_wait (thr_locks st' l)) \<subseteq>
      set (read_wait (thr_locks st l)) \<union> set (write_wait (thr_locks st l))))"

inductive ordered_reachable :: "thr_lock_type \<Rightarrow> u64 \<Rightarrow> (owner_id \<Rightarrow> THR_LOCK_INFO) \<Rightarrow> thr_state \<Rightarrow> bool"
  for upgraded mx info where
  ordered_start: "thr_idle st \<Longrightarrow> \<forall>l. \<not> allow_multiple_concurrent_insert (thr_locks st l) \<Longrightarrow>
     ordered_reachable upgraded mx info st"
| ordered_lock: "ordered_reachable upgraded mx info st \<Longrightarrow>
     thr_request_ok upgraded (thr_data st) (lock_at st d) d own \<Longrightarrow> d < max_instances \<Longrightarrow>
     d_type (thr_data st d) \<noteq> TL_WRITE_DELAYED \<Longrightarrow> in_order st d own \<Longrightarrow>
     thr_lock_st upgraded st d own = (a, st') \<Longrightarrow> ordered_reachable upgraded mx info st'"
| ordered_other: "ordered_reachable upgraded mx info st \<Longrightarrow> thr_step upgraded mx info act st st' \<Longrightarrow>
     no_requeue st st' \<Longrightarrow> ordered_reachable upgraded mx info st'"

definition ordered_waits :: "thr_state \<Rightarrow> bool" where
  "ordered_waits st \<longleftrightarrow> (\<forall>l. \<forall>d\<in>set (read_wait (thr_locks st l)) \<union> set (write_wait (thr_locks st l)).
     \<forall>k. \<forall>e\<in>set (linked (thr_locks st k)). e \<noteq> d \<and> d_owner (thr_data st e) = d_owner (thr_data st d) \<longrightarrow>
       e \<in> set (read_list (thr_locks st k)) \<union> set (write_list (thr_locks st k)) \<and> k < l)"

definition single_inserts :: "thr_state \<Rightarrow> bool" where
  "single_inserts st \<longleftrightarrow> (\<forall>l. \<not> allow_multiple_concurrent_insert (thr_locks st l))"

lemma step_single_inserts:
  assumes inv: "thr_inv st" and s: "thr_step upgraded mx info act st st'" and m: "single_inserts st"
  shows "single_inserts st'"
proof -
  from thr_step_section [OF inv s] show ?thesis
    using m unfolding section_change_def prepare_change_def section_ok_def single_inserts_def
    by (elim disjE exE conjE) simp_all
qed

lemma step_linked_fields:
  assumes inv: "thr_inv st" and s: "thr_step upgraded mx info act st st'" and sub: "no_requeue st st'"
    and e: "e \<in> set (linked (thr_locks st' l))"
  shows "e \<in> set (linked (thr_locks st l))" "d_owner (thr_data st' e) = d_owner (thr_data st e)"
proof -
  show el: "e \<in> set (linked (thr_locks st l))" using sub e by (auto simp: no_requeue_def)
  from thr_step_section [OF inv s] show "d_owner (thr_data st' e) = d_owner (thr_data st e)"
    unfolding section_change_def prepare_change_def
  proof (elim disjE exE conjE)
    fix k tk' lk'
    assume st': "st' = put_lock k (tk', lk') st" and sec: "section_ok st act k tk' lk'"
      and a: "\<forall>d own. act = By_session d own \<longrightarrow> d_lock (thr_data st d) = k"
    show ?thesis
    proof (cases "e \<in> set (linked (thr_locks st k))")
      case True
      then show ?thesis using sec st' unfolding section_ok_def by simp
    next
      case False
      then have "k \<noteq> l" using el by auto
      then have "\<forall>own. act \<noteq> By_session e own" using a thr_invD(3) [OF inv el] by auto
      then show ?thesis using section_other(2) [OF sec] st' by simp
    qed
  next
    fix d x
    assume "\<not> thr_active st d" "\<not> thr_waiting st d" "st' = st\<lparr> thr_data := (thr_data st)(d := x) \<rparr>"
    moreover from this have "e \<noteq> d" using el linked_iff [of d st] linked_lock_at [OF inv, of d l] by auto
    ultimately show ?thesis by simp
  qed
qed

lemma ordered_waits_lock:
  assumes inv: "thr_inv st" and m: "single_inserts st" and ow: "ordered_waits st"
    and req: "thr_request_ok upgraded (thr_data st) (lock_at st d) d own" "d < max_instances"
    and nd: "d_type (thr_data st d) \<noteq> TL_WRITE_DELAYED" and ord: "in_order st d own"
    and eq: "thr_lock_st upgraded st d own = (a, st')"
  shows "ordered_waits st'"
proof -
  let ?l = "d_lock (thr_data st d)"
  obtain tk' lk' where eq': "thr_lock_begin upgraded (thr_data st) (lock_at st d) d own = (a, tk', lk')"
    and st': "st' = put_lock ?l (tk', lk') st"
    using eq by (auto simp: thr_lock_st_def split: prod.splits)
  note out = lock_section(1) [OF inv req eq']
  have ok: "lock_ok (thr_data st) (lock_at st d)" using thr_invD(1) [OF inv] by (simp add: lock_at_def)
  have dl: "d \<notin> set (linked (thr_locks st k))" for k
    using req(1) linked_lock_at [OF inv, of d k] by (auto simp: thr_request_ok_def)
  have same: "\<And>e. e \<noteq> d \<Longrightarrow> tk' e = thr_data st e" and owner: "d_owner (tk' d) = own"
    and ok': "lock_ok tk' lk'" and grow: "lists_grow (lock_at st d) lk'"
    and lnk: "set (linked lk') \<subseteq> insert d (set (linked (lock_at st d)))"
    and nd': "d_type (tk' d) \<noteq> TL_WRITE_DELAYED"
    using out nd by (auto simp: lock_outcome_def grown_def)
  have wait_a: "a = Waiting" if "d \<in> set (read_wait lk') \<union> set (write_wait lk')"
  proof (rule ccontr)
    assume "a \<noteq> Waiting"
    then have "d \<in> set (read_list lk') \<union> set (write_list lk') \<or> d \<notin> set (linked lk')"
      using out nd' dl [of ?l] by (auto simp: lock_outcome_def lock_at_def)
    then show False using that lock_okD(1) [OF ok'] by (auto simp: linked_def)
  qed
  have waiting: "e \<in> set (read_wait (thr_locks st k)) \<union> set (write_wait (thr_locks st k)) \<or> e = d \<and> k = ?l \<and> a = Waiting"
    if "e \<in> set (read_wait (thr_locks st' k)) \<union> set (write_wait (thr_locks st' k))" for e k
  proof (cases "k = ?l")
    case True
    show ?thesis
    proof (cases "e = d")
      case False
      have "e \<in> set (linked (lock_at st d))" using that lnk False True st' by (auto simp: linked_set)
      moreover have "e \<notin> set (read_list lk') \<union> set (write_list lk')"
        using that True st' lock_okD(1) [OF ok'] by (auto simp: linked_def)
      ultimately show ?thesis using grow True by (auto simp: lists_grow_def linked_set lock_at_def)
    qed (use True that wait_a st' in simp)
  qed (use that st' in simp)
  have linked': "e \<in> set (linked (thr_locks st k)) \<or> e = d \<and> k = ?l" if "e \<in> set (linked (thr_locks st' k))" for e k
    using that lnk st' by (cases "k = ?l") (auto simp: lock_at_def)
  have active': "e \<in> set (read_list (thr_locks st' k)) \<union> set (write_list (thr_locks st' k))"
    if "e \<in> set (read_list (thr_locks st k)) \<union> set (write_list (thr_locks st k))" for e k
    using that grow st' by (cases "k = ?l") (auto simp: lists_grow_def lock_at_def)
  have mine: "e \<in> set (read_list (thr_locks st k)) \<union> set (write_list (thr_locks st k)) \<and>
      (k < ?l \<or> k = ?l \<and> d_type (thr_data st d) \<le> d_type (thr_data st e))"
    if "e \<in> set (linked (thr_locks st k))" "d_owner (thr_data st e) = own" for e k
  proof -
    have "thr_active st e \<and> (k < ?l \<or> k = ?l \<and> d_type (thr_data st d) \<le> d_type (thr_data st e))"
      using ord that not_before [of "thr_data st" d e] thr_invD(3) [OF inv that(1)] unfolding in_order_def by blast
    then show ?thesis using linked_lock_at [OF inv that(1)] by (simp add: thr_active_def)
  qed
  show ?thesis
    unfolding ordered_waits_def
  proof (intro allI ballI impI)
    fix l x k e
    assume x: "x \<in> set (read_wait (thr_locks st' l)) \<union> set (write_wait (thr_locks st' l))"
      and e: "e \<in> set (linked (thr_locks st' k))" and xe: "e \<noteq> x \<and> d_owner (thr_data st' e) = d_owner (thr_data st' x)"
    from waiting [OF x] show "e \<in> set (read_list (thr_locks st' k)) \<union> set (write_list (thr_locks st' k)) \<and> k < l"
    proof
      assume xw: "x \<in> set (read_wait (thr_locks st l)) \<union> set (write_wait (thr_locks st l))"
      then have xl: "x \<in> set (linked (thr_locks st l))" by (auto simp: linked_set)
      then have xd: "x \<noteq> d" using dl by blast
      have ed: "e \<noteq> d"
      proof
        assume "e = d"
        then have "d_owner (thr_data st x) = own" using xe xd same owner st' by simp
        then have "x \<in> set (read_list (thr_locks st l)) \<union> set (write_list (thr_locks st l))" using mine xl by blast
        then show False using xw lock_okD(1) [OF thr_invD(1) [OF inv, of l]] by (auto simp: linked_def)
      qed
      then have "e \<in> set (linked (thr_locks st k))" using linked' [OF e] by blast
      moreover have "d_owner (thr_data st e) = d_owner (thr_data st x)" using xe xd ed same st' by simp
      ultimately have "e \<in> set (read_list (thr_locks st k)) \<union> set (write_list (thr_locks st k)) \<and> k < l"
        using ow xw xe unfolding ordered_waits_def by blast
      then show ?thesis using active' by blast
    next
      assume xd: "x = d \<and> l = ?l \<and> a = Waiting"
      then have el: "e \<in> set (linked (thr_locks st k))" using linked' [OF e] xe by blast
      have eo: "d_owner (thr_data st e) = own" using xe xd same [of e] owner st' by auto
      note me = mine [OF el eo]
      have "k \<noteq> ?l"
      proof
        assume k: "k = ?l"
        have "a \<noteq> Waiting"
        proof (rule ordered_request_answered [OF ok _ req(1) nd _ eo _ eq'])
          show "\<not> allow_multiple_concurrent_insert (lock_at st d)" using m by (simp add: single_inserts_def lock_at_def)
          show "e \<in> set (read_list (lock_at st d)) \<union> set (write_list (lock_at st d))" using me k by (simp add: lock_at_def)
          show "d_type (thr_data st d) \<le> d_type (thr_data st e)" using me k by simp
        qed
        then show False using xd by simp
      qed
      then show ?thesis using me xd active' by auto
    qed
  qed
qed

lemma ordered_waits_other:
  assumes inv: "thr_inv st" and ow: "ordered_waits st" and s: "thr_step upgraded mx info act st st'" and sub: "no_requeue st st'"
  shows "ordered_waits st'"
  unfolding ordered_waits_def
proof (intro allI ballI impI)
  fix l x k e
  assume x: "x \<in> set (read_wait (thr_locks st' l)) \<union> set (write_wait (thr_locks st' l))"
    and e: "e \<in> set (linked (thr_locks st' k))" and xe: "e \<noteq> x \<and> d_owner (thr_data st' e) = d_owner (thr_data st' x)"
  have xw: "x \<in> set (read_wait (thr_locks st l)) \<union> set (write_wait (thr_locks st l))"
    using x sub by (auto simp: no_requeue_def)
  have xl: "x \<in> set (linked (thr_locks st' l))" using x by (auto simp: linked_set)
  have "d_owner (thr_data st e) = d_owner (thr_data st x)"
    using xe step_linked_fields(2) [OF inv s sub] e xl by metis
  then have "e \<in> set (read_list (thr_locks st k)) \<union> set (write_list (thr_locks st k)) \<and> k < l"
    using ow xw xe step_linked_fields(1) [OF inv s sub e] unfolding ordered_waits_def by blast
  moreover have "e \<notin> set (read_wait (thr_locks st k)) \<union> set (write_wait (thr_locks st k))"
    using calculation lock_okD(1) [OF thr_invD(1) [OF inv, of k]] by (auto simp: linked_def)
  then have "e \<notin> set (read_wait (thr_locks st' k)) \<union> set (write_wait (thr_locks st' k))"
    using sub unfolding no_requeue_def by blast
  ultimately show "e \<in> set (read_list (thr_locks st' k)) \<union> set (write_list (thr_locks st' k)) \<and> k < l"
    using e by (auto simp: linked_set)
qed

lemma thr_lock_st_step:
  assumes "thr_request_ok upgraded (thr_data st) (lock_at st d) d own" "d < max_instances"
    "thr_lock_st upgraded st d own = (a, st')"
  shows "thr_step upgraded mx info (By_session d own) st st'"
proof -
  obtain r where "thr_lock_begin upgraded (thr_data st) (lock_at st d) d own = (a, r)"
    "st' = put_lock (d_lock (thr_data st d)) r st"
    using assms(3) by (auto simp: thr_lock_st_def split: prod.splits)
  then show ?thesis using assms by (auto intro: step_lock)
qed

lemma thr_idle_waits:
  assumes "thr_idle st"
  shows "read_wait (thr_locks st l) = []" "write_wait (thr_locks st l) = []"
proof -
  obtain g c multi b1 b2 b3 where "thr_locks st l =
     thr_lock_init\<lparr> get_status := g, check_status := c, has_copy_status := b1, has_start_trans := b2,
       has_fix_status := b3, allow_multiple_concurrent_insert := multi \<rparr>"
    using assms unfolding thr_idle_def by blast
  then show "read_wait (thr_locks st l) = []" "write_wait (thr_locks st l) = []"
    by (simp_all add: thr_lock_init_def)
qed

lemma ordered_reachable_inv:
  assumes "ordered_reachable upgraded mx info st"
  shows "thr_inv st \<and> single_inserts st \<and> ordered_waits st"
  using assms
proof (induction rule: ordered_reachable.induct)
  case (ordered_start st)
  then show ?case using thr_idle_inv thr_idle_waits by (simp add: ordered_waits_def single_inserts_def)
next
  case (ordered_lock st d own a st')
  then show ?case
    using thr_lock_st_step ordered_waits_lock thr_step_inv step_single_inserts by metis
next
  case (ordered_other st act st')
  then show ?case using ordered_waits_other thr_step_inv step_single_inserts by metis
qed

lemma demo_ordered: "ordered_reachable TL_WRITE mx info demo3"
proof -
  have r0: "ordered_reachable TL_WRITE mx info demo0"
    using demo0_idle by (rule ordered_start) (simp add: demo_defs)
  have r1: "ordered_reachable TL_WRITE mx info demo1"
    by (rule ordered_lock [OF r0 demo_requests(1) _ _ _ demo_run1])
      (simp_all add: max_instances_def in_order_def linked_def demo_defs)
  have r2: "ordered_reachable TL_WRITE mx info demo2"
    by (rule ordered_lock [OF r1 demo_requests(2) _ _ _ demo_run2])
      (simp_all add: max_instances_def in_order_def linked_def demo_defs)
  show ?thesis
    by (rule ordered_lock [OF r2 demo_requests(3) _ _ _ demo_run3])
      (simp_all add: max_instances_def in_order_def linked_def demo_defs)
qed

subsection \<open>Exclusion and progress\<close>

text \<open>
  C4: In every reachable state two different sessions hold a table together only as the matrix of
  \<^verbatim>\<open>thr_lock\<close> allows: beside a foreign reader a writer is at most a delayed insert, and no concurrent
  insert runs beside \<^verbatim>\<open>TL_READ_NO_INSERT\<close>; two foreign writers are both \<^verbatim>\<open>TL_WRITE_ALLOW_WRITE\<close>, or
  with \<^verbatim>\<open>allow_multiple_concurrent_insert\<close> each of them is that or a concurrent insert, and in that
  mode only the rule for \<^verbatim>\<open>TL_READ_NO_INSERT\<close> is lost.
\<close>

theorem thr_exclusion:
  assumes "thr_reachable upgraded mx info st" "w \<in> set (write_list (thr_locks st l))"
    "e \<in> set (read_list (thr_locks st l)) \<union> set (write_list (thr_locks st l))"
    "d_owner (thr_data st e) \<noteq> d_owner (thr_data st w)"
  shows "if e \<in> set (read_list (thr_locks st l))
    then d_type (thr_data st w) \<le> TL_WRITE_DELAYED \<and>
      (allow_multiple_concurrent_insert (thr_locks st l) \<or>
       \<not> (d_type (thr_data st w) = TL_WRITE_CONCURRENT_INSERT \<and> d_type (thr_data st e) = TL_READ_NO_INSERT))
    else if allow_multiple_concurrent_insert (thr_locks st l)
      then d_type (thr_data st w) \<le> TL_WRITE_CONCURRENT_INSERT \<and> d_type (thr_data st e) \<le> TL_WRITE_CONCURRENT_INSERT
      else d_type (thr_data st w) = TL_WRITE_ALLOW_WRITE \<and> d_type (thr_data st e) = TL_WRITE_ALLOW_WRITE"
proof -
  have ok: "lock_ok (thr_data st) (thr_locks st l)" using thr_invD(1) [OF thr_reachable_inv [OF assms(1)]] .
  have nc: "\<not> thr_conflict (allow_multiple_concurrent_insert (thr_locks st l)) (d_type (thr_data st e)) (d_type (thr_data st w))"
    using holders_compatibleD [OF ok assms(3) _ assms(4)] assms(2) by simp
  have w: "is_write (d_type (thr_data st w))" using lock_okD(5) [OF ok assms(2)] by simp
  show ?thesis
  proof (cases "e \<in> set (read_list (thr_locks st l))")
    case True
    then show ?thesis using nc w lock_okD(3) [OF ok True] by (simp add: conflict_read_write not_less)
  next
    case False
    then have "is_write (d_type (thr_data st e))" using lock_okD(5) [OF ok] assms(3) by simp
    then show ?thesis using nc w False by (simp add: conflict_write_write split: if_splits)
  qed
qed

theorem thr_exclusion_witness:
  "d_type (thr_data demo2 0) \<le> TL_WRITE_DELAYED \<and>
   \<not> (d_type (thr_data demo2 0) = TL_WRITE_CONCURRENT_INSERT \<and> d_type (thr_data demo2 (Suc 0)) = TL_READ_NO_INSERT)"
  using thr_exclusion [OF demo_reachable(3), where w = 0 and e = "Suc 0" and l = 0] by (simp add: demo_defs)

text \<open>
  C6: In every reachable state a table lock that somebody waits for is held by somebody, and readers
  wait only while there is an active or a waiting writer: no request is left behind on an idle lock.
\<close>

theorem thr_no_orphan_waiters:
  assumes "thr_reachable upgraded mx info st" "thr_waiting st d"
  shows "(\<exists>e. thr_active st e \<and> d_lock (thr_data st e) = d_lock (thr_data st d)) \<and>
    (d \<in> set (read_wait (lock_at st d)) \<longrightarrow> write_list (lock_at st d) \<noteq> [] \<or> write_wait (lock_at st d) \<noteq> [])"
proof -
  have inv: "thr_inv st" using thr_reachable_inv [OF assms(1)] .
  let ?lk = "thr_locks st (d_lock (thr_data st d))"
  have no: "no_orphans ?lk" using thr_invD(2) [OF inv] .
  have w: "d \<in> set (read_wait ?lk) \<union> set (write_wait ?lk)" using assms(2) by (simp add: thr_waiting_def lock_at_def)
  then have "read_list ?lk \<noteq> [] \<or> write_list ?lk \<noteq> []" using no by (auto simp: no_orphans_def)
  then obtain e where e: "e \<in> set (read_list ?lk) \<union> set (write_list ?lk)" by (metis Un_iff list.set_intros(1) neq_Nil_conv)
  then have el: "e \<in> set (linked ?lk)" by (auto simp: linked_set)
  then have "thr_active st e" using e linked_lock_at [OF inv el] by (simp add: thr_active_def)
  moreover have "d_lock (thr_data st e) = d_lock (thr_data st d)" using thr_invD(3) [OF inv el] .
  moreover have "d \<in> set (read_wait ?lk) \<Longrightarrow> write_list ?lk \<noteq> [] \<or> write_wait ?lk \<noteq> []"
    using no by (auto simp: no_orphans_def)
  ultimately show ?thesis by (auto simp: lock_at_def)
qed

theorem thr_no_orphan_waiters_witness:
  "\<exists>e. thr_active demo3 e \<and> d_lock (thr_data demo3 e) = 0"
  using thr_no_orphan_waiters [OF demo_reachable(4), where d = "Suc (Suc 0)"]
  by (simp add: thr_waiting_def lock_at_def demo_defs)

text \<open>
  Who waits for whom: a session that waits for a table waits for every session that holds the table.
  A request that is queued behind other requests waits, as those do, for the holders.
\<close>

definition thr_waits_for :: "thr_state \<Rightarrow> (owner_id \<times> owner_id) set" where
  "thr_waits_for st = {(a, b). \<exists>d e. thr_waiting st d \<and> d_owner (thr_data st d) = a \<and>
     thr_active st e \<and> d_owner (thr_data st e) = b \<and> d_lock (thr_data st e) = d_lock (thr_data st d)}"

lemma waiting_in_queue:
  "thr_waiting st y \<Longrightarrow> y \<in> set (read_wait (thr_locks st (d_lock (thr_data st y)))) \<union>
     set (write_wait (thr_locks st (d_lock (thr_data st y))))"
  "thr_waiting st y \<or> thr_active st y \<Longrightarrow> y \<in> set (linked (thr_locks st (d_lock (thr_data st y))))"
  using linked_iff [of y st] by (auto simp: lock_at_def thr_waiting_def thr_active_def)

lemma ordered_edge:
  assumes inv: "thr_inv st" and ow: "ordered_waits st" and e: "thr_active st e" and y: "thr_waiting st y"
    "d_owner (thr_data st y) = d_owner (thr_data st e)"
  shows "d_lock (thr_data st e) < d_lock (thr_data st y)"
proof -
  have "e \<noteq> y" using e y active_not_waiting [OF inv] by blast
  then show ?thesis
    using ow waiting_in_queue(1) [OF y(1)] waiting_in_queue(2) [of st e] e y(2)
    unfolding ordered_waits_def by (metis (no_types, lifting))
qed

lemma ordered_chain:
  assumes inv: "thr_inv st" and ow: "ordered_waits st" and ab: "(a, b) \<in> (thr_waits_for st)\<^sup>+"
  shows "\<exists>d. thr_waiting st d \<and> d_owner (thr_data st d) = a \<and>
    (\<forall>y. thr_waiting st y \<and> d_owner (thr_data st y) = b \<longrightarrow> d_lock (thr_data st d) < d_lock (thr_data st y))"
  using ab
proof (induction rule: trancl_induct)
  case (base b)
  then show ?case using ordered_edge [OF inv ow] unfolding thr_waits_for_def by fastforce
next
  case (step b c)
  from step.hyps(2) obtain x e where x: "thr_waiting st x" "d_owner (thr_data st x) = b" "thr_active st e"
    "d_owner (thr_data st e) = c" "d_lock (thr_data st e) = d_lock (thr_data st x)"
    unfolding thr_waits_for_def by blast
  have "d_lock (thr_data st x) < d_lock (thr_data st y)" if "thr_waiting st y \<and> d_owner (thr_data st y) = c" for y
    using ordered_edge [OF inv ow x(3), of y] that x by simp
  moreover obtain d where d: "thr_waiting st d" "d_owner (thr_data st d) = a" "d_lock (thr_data st d) < d_lock (thr_data st x)"
    using step.IH x(1,2) by blast
  ultimately show ?case using order.strict_trans [OF d(3)] by blast
qed

lemma waiting_holder:
  assumes inv: "thr_inv st" and x: "thr_waiting st x"
  shows "\<exists>e. thr_active st e \<and> d_lock (thr_data st e) = d_lock (thr_data st x)"
proof -
  let ?lk = "thr_locks st (d_lock (thr_data st x))"
  have "read_list ?lk \<noteq> [] \<or> write_list ?lk \<noteq> []"
    using thr_invD(2) [OF inv] waiting_in_queue(1) [OF x] by (auto simp: no_orphans_def)
  then obtain e where e: "e \<in> set (read_list ?lk) \<union> set (write_list ?lk)" by (metis Un_iff list.set_intros(1) neq_Nil_conv)
  then have el: "e \<in> set (linked ?lk)" by (auto simp: linked_set)
  have "thr_active st e \<and> d_lock (thr_data st e) = d_lock (thr_data st x)"
    using e linked_lock_at [OF inv el] thr_invD(3) [OF inv el] by (simp add: thr_active_def)
  then show ?thesis by blast
qed

lemma ordered_running_end:
  assumes inv: "thr_inv st" and ow: "ordered_waits st" and d: "thr_waiting st d"
  shows "\<exists>b. (d_owner (thr_data st d), b) \<in> (thr_waits_for st)\<^sup>+ \<and>
    (\<forall>y. thr_waiting st y \<longrightarrow> d_owner (thr_data st y) \<noteq> b)"
proof -
  let ?a = "d_owner (thr_data st d)" and ?R = "thr_waits_for st"
  let ?W = "{y. thr_waiting st y \<and> (?a, d_owner (thr_data st y)) \<in> ?R\<^sup>*}"
  have "?W \<subseteq> {..<max_instances}" using thr_invD(4) [OF inv waiting_in_queue(2)] by auto
  then have fin: "finite ?W" by (rule finite_subset) simp
  have "d \<in> ?W" using d by simp
  then obtain x where x: "x \<in> ?W" "\<And>y. y \<in> ?W \<Longrightarrow> d_lock (thr_data st y) \<le> d_lock (thr_data st x)"
    using obtains_MAX [OF fin, of "\<lambda>y. d_lock (thr_data st y)"]
    by (metis (no_types, lifting) Max_ge empty_iff fin finite_imageI imageI)
  have xw: "thr_waiting st x" and xa: "(?a, d_owner (thr_data st x)) \<in> ?R\<^sup>*" using x(1) by simp_all
  obtain e where e: "thr_active st e" "d_lock (thr_data st e) = d_lock (thr_data st x)"
    using waiting_holder [OF inv xw] by blast
  have "(d_owner (thr_data st x), d_owner (thr_data st e)) \<in> ?R" using xw e unfolding thr_waits_for_def by blast
  with xa have r: "(?a, d_owner (thr_data st e)) \<in> ?R\<^sup>+" by (rule rtrancl_into_trancl1)
  have "d_owner (thr_data st y) \<noteq> d_owner (thr_data st e)" if y: "thr_waiting st y" for y
  proof
    assume o: "d_owner (thr_data st y) = d_owner (thr_data st e)"
    then have "d_lock (thr_data st x) < d_lock (thr_data st y)" using ordered_edge [OF inv ow e(1) y] e(2) by simp
    moreover have "y \<in> ?W" using y r o by (simp add: trancl_into_rtrancl)
    ultimately show False using x(2) by fastforce
  qed
  then show ?thesis using r by blast
qed

text \<open>
  C8: Sessions that take their table locks in the order of \<^verbatim>\<open>sort_locks\<close> never deadlock: the sessions never
  wait for each other in a circle, and from every waiting session the chain of who waits for whom leads
  to a session that holds a table and waits for nothing. This is for tables that do not set
  \<^verbatim>\<open>allow_multiple_concurrent_insert\<close> and requests other than \<^verbatim>\<open>TL_WRITE_DELAYED\<close>. Besides such
  requests, every step may occur that puts no lock held into a wait queue; the ones that do are
  \<^verbatim>\<open>thr_upgrade_write_delay_lock\<close> and \<^verbatim>\<open>thr_reschedule_write_lock\<close>, which a session with a delayed
  insert lock calls outside of the order.
\<close>

theorem ordered_locking_no_deadlock:
  assumes "ordered_reachable upgraded mx info st"
  shows "(\<forall>s. (s, s) \<notin> (thr_waits_for st)\<^sup>+) \<and>
    (\<forall>d. thr_waiting st d \<longrightarrow>
       (\<exists>b. (d_owner (thr_data st d), b) \<in> (thr_waits_for st)\<^sup>+ \<and>
          (\<forall>y. thr_waiting st y \<longrightarrow> d_owner (thr_data st y) \<noteq> b)))"
proof -
  have inv: "thr_inv st" and ow: "ordered_waits st" using ordered_reachable_inv [OF assms] by simp_all
  show ?thesis using ordered_chain [OF inv ow] ordered_running_end [OF inv ow] by blast
qed

theorem ordered_locking_no_deadlock_witness:
  "thr_waiting demo3 (Suc (Suc 0)) \<and> (\<forall>s. (s, s) \<notin> (thr_waits_for demo3)\<^sup>+) \<and>
   (\<exists>b. (d_owner (thr_data demo3 (Suc (Suc 0))), b) \<in> (thr_waits_for demo3)\<^sup>+ \<and>
      (\<forall>y. thr_waiting demo3 y \<longrightarrow> d_owner (thr_data demo3 y) \<noteq> b))"
proof -
  have "thr_waiting demo3 (Suc (Suc 0))" by (simp add: thr_waiting_def lock_at_def demo_defs)
  then show ?thesis using ordered_locking_no_deadlock [OF demo_ordered] by blast
qed

text \<open>
  C13: In a table that does not set \<^verbatim>\<open>allow_multiple_concurrent_insert\<close>, a session that already holds the
  table and asks for it again with a type that is not higher (which is the order \<^verbatim>\<open>sort_locks\<close>
  establishes) and is not \<^verbatim>\<open>TL_WRITE_DELAYED\<close> is answered at once, whatever other sessions hold or wait
  for.
\<close>

theorem repeated_request_no_wait:
  assumes "thr_reachable upgraded mx info st" "\<not> allow_multiple_concurrent_insert (lock_at st d)"
    "thr_request_ok upgraded (thr_data st) (lock_at st d) d own" "d_type (thr_data st d) \<noteq> TL_WRITE_DELAYED"
    "e \<in> set (read_list (lock_at st d)) \<union> set (write_list (lock_at st d))" "d_owner (thr_data st e) = own"
    "d_type (thr_data st d) \<le> d_type (thr_data st e)"
  shows "fst (thr_lock_begin upgraded (thr_data st) (lock_at st d) d own) \<noteq> Waiting"
proof -
  have "lock_ok (thr_data st) (lock_at st d)"
    using thr_invD(1) [OF thr_reachable_inv [OF assms(1)]] by (simp add: lock_at_def)
  then show ?thesis
    using ordered_request_answered [OF _ assms(2-7)] by (metis prod.collapse)
qed

theorem repeated_request_no_wait_witness:
  "fst (thr_lock_begin TL_WRITE (thr_data demo2) (lock_at demo2 3) 3 5) \<noteq> Waiting"
  by (rule repeated_request_no_wait [OF demo_reachable(3), where e = "Suc 0"])
    (simp_all add: thr_checks demo_defs numeral_3_eq_3)

subsection \<open>Sorting and locking sets of tables\<close>

text \<open>
  C15: The insertion sort of \<^verbatim>\<open>sort_locks\<close>, on the array with its shifting loop, computes the stable sort
  by the address of the table lock, then by descending lock type, then by priority.
\<close>

theorem sort_locks_correct:
  "sort_locks tk a = sort_key (\<lambda>d. (d_lock (tk d), - tl_value (d_type (tk d)), d_priority (tk d))) a"
  unfolding sort_locks_eq lock_key_def by simp

text \<open>
  C9: \<^verbatim>\<open>thr_multi_lock\<close> takes all locks or none. It is run by a session that holds nothing, with other
  sessions taking any steps between its critical sections and while it sleeps, in engines whose
  \<^verbatim>\<open>get_status\<close> does not fail, and no instance of the array asks for \<^verbatim>\<open>TL_WRITE_DELAYED\<close> (such a
  request returns success although it may only be queued). When it returns \<^verbatim>\<open>THR_LOCK_SUCCESS\<close> every instance of the array is
  active for this session; otherwise no instance is linked anywhere and each is marked
  \<^verbatim>\<open>TL_UNLOCK\<close>. The array is permuted only.
\<close>

theorem thr_multi_lock_all_or_nothing:
  assumes "thr_reachable upgraded mx info st" "quiet st" "mine_only me {} st" "distinct data"
    "\<forall>d\<in>set data. thr_free st d \<and> d < max_instances \<and>
       (is_read (d_type (thr_data st d)) \<or> is_write (d_type (thr_data st d))) \<and>
       d_type (thr_data st d) \<noteq> TL_WRITE_DELAYED"
    "upgraded = TL_WRITE \<or> upgraded = TL_WRITE_LOW_PRIORITY"
    "runs_others upgraded mx info me (set data) (\<lambda>d st. fst (sleep d st))"
    "runs_others upgraded mx info me (set data) env" "runs_others upgraded mx info me (set data) env_un"
    "thr_multi_lock upgraded mx sleep env env_un data me st = (res, arr, calls, st')"
  shows "mset arr = mset data \<and>
    (if res = THR_LOCK_SUCCESS then \<forall>d\<in>set data. thr_active st' d \<and> d_owner (thr_data st' d) = me
     else \<forall>d\<in>set data. thr_free st' d \<and> d_type (thr_data st' d) = TL_UNLOCK)"
proof -
  note own = multi_lock_own [OF thr_reachable_inv [OF assms(1)] assms(2-10)]
  then have "set arr = set data" by (metis set_mset_mset)
  then show ?thesis using own by (cases "res = THR_LOCK_SUCCESS") (auto simp: holding_def released_def)
qed

theorem thr_multi_lock_all_or_nothing_witness:
  "thr_multi_lock TL_WRITE 0 (\<lambda>d st. (st, True)) (\<lambda>d st. st) (\<lambda>d st. st) [Suc 0] 5 demo1 =
     (THR_LOCK_SUCCESS, [Suc 0], [], demo2) \<and> thr_active demo2 (Suc 0) \<and> d_owner (thr_data demo2 (Suc 0)) = 5"
proof -
  have m: "thr_multi_lock TL_WRITE 0 (\<lambda>d st. (st, True)) (\<lambda>d st. st) (\<lambda>d st. st) [Suc 0] 5 demo1 =
      (THR_LOCK_SUCCESS, [Suc 0], [], demo2)"
    by (simp add: thr_multi_lock_def thr_lock_def demo_run2 status_calls_def lock_at_def) (simp add: demo_defs)
  have q: "quiet demo1" "mine_only 5 {} demo1" "distinct [Suc 0]"
    by (simp_all add: quiet_def mine_only_def linked_def demo_defs)
  have d: "\<forall>d\<in>set [Suc 0]. thr_free demo1 d \<and> d < max_instances \<and>
       (is_read (d_type (thr_data demo1 d)) \<or> is_write (d_type (thr_data demo1 d))) \<and>
       d_type (thr_data demo1 d) \<noteq> TL_WRITE_DELAYED"
    by (simp add: thr_free_def thr_active_def thr_waiting_def thr_checks demo_defs)
  have r: "runs_others TL_WRITE 0 info 5 (set [Suc 0]) (\<lambda>d st. st)" for info by (simp add: runs_others_def)
  show ?thesis
    using thr_multi_lock_all_or_nothing [OF demo_reachable(2) q d _ _ r r m] r m by simp
qed

subsection \<open>Typing of the queues\<close>

text \<open>
  C7: In every reachable state the four queues of a table lock are well-typed: an instance is in at most
  one of them and in one of the table it belongs to, read queues hold read types and write queues
  write types, exactly the waiting instances have a condition to be woken by, and
  \<^verbatim>\<open>read_no_write_count\<close> is the number of active \<^verbatim>\<open>TL_READ_NO_INSERT\<close> locks, without wrap-around.
\<close>

theorem thr_queues_typed:
  assumes "thr_reachable upgraded mx info st" "lk = thr_locks st l"
  shows "distinct (read_wait lk @ read_list lk @ write_wait lk @ write_list lk) \<and>
    (\<forall>d\<in>set (read_wait lk @ read_list lk). TL_UNLOCK < d_type (thr_data st d) \<and> d_type (thr_data st d) < TL_FIRST_WRITE) \<and>
    (\<forall>d\<in>set (write_wait lk @ write_list lk). TL_FIRST_WRITE \<le> d_type (thr_data st d)) \<and>
    (\<forall>d\<in>set (read_wait lk @ read_list lk @ write_wait lk @ write_list lk). d_lock (thr_data st d) = l \<and>
       (d_cond (thr_data st d) \<longleftrightarrow> d \<in> set (read_wait lk) \<union> set (write_wait lk))) \<and>
    unat (read_no_write_count lk) = length (filter (\<lambda>d. d_type (thr_data st d) = TL_READ_NO_INSERT) (read_list lk))"
proof -
  note inv = thr_reachable_inv [OF assms(1)]
  have ok: "lock_ok (thr_data st) lk" using thr_invD(1) [OF inv] assms(2) by simp
  have dist: "distinct (read_wait lk @ read_list lk @ write_wait lk @ write_list lk)"
    using lock_okD(1) [OF ok] by (simp add: linked_def)
  have rd: "TL_UNLOCK < d_type (thr_data st d) \<and> d_type (thr_data st d) < TL_FIRST_WRITE" if "d \<in> set (read_wait lk @ read_list lk)" for d
    using lock_okD(2,3) [OF ok, of d] that by (cases "d_type (thr_data st d)") (auto simp: is_read_def tl_order)
  have wr: "TL_FIRST_WRITE \<le> d_type (thr_data st d)" if "d \<in> set (write_wait lk @ write_list lk)" for d
    using lock_okD(4,5) [OF ok, of d] that by (auto simp: is_write_def)
  have ln: "d_lock (thr_data st d) = l \<and> (d_cond (thr_data st d) \<longleftrightarrow> d \<in> set (read_wait lk) \<union> set (write_wait lk))"
    if "d \<in> set (read_wait lk @ read_list lk @ write_wait lk @ write_list lk)" for d
    using thr_invD(3) [OF inv, of d l] lock_okD(2-5) [OF ok, of d] that assms(2) by (auto simp: linked_def)
  have c: "count_ok (thr_data st) lk" using ok by (simp add: lock_ok_def)
  have le: "no_insert_reads (thr_data st) (read_list lk) \<le> length (read_list lk)" by (simp add: no_insert_reads_def)
  then have "unat (read_no_write_count lk) = no_insert_reads (thr_data st) (read_list lk)"
    using c by (simp add: count_ok_def unat_of_nat)
  then show ?thesis using dist rd wr ln unfolding no_insert_reads_def by blast
qed

theorem thr_queues_typed_witness:
  "unat (read_no_write_count (thr_locks demo3 0)) =
     length (filter (\<lambda>d. d_type (thr_data demo3 d) = TL_READ_NO_INSERT) (read_list (thr_locks demo3 0))) \<and>
   read_list (thr_locks demo3 0) = [Suc 0]"
  using thr_queues_typed [OF demo_reachable(4) [of 0 "\<lambda>_. \<lparr> thread = 0, thread_id = 0 \<rparr>"] refl, of 0]
  by (simp add: demo_defs)

end
