(* ===== verification/Thr_Fair.thy ===== *)
theory Thr_Fair
  imports Thr_Example
begin

text \<open>
  Writers and waiting readers of a table lock: how often the table can pass from its holders to waiting
  writers while a reader is in \<^verbatim>\<open>read_wait\<close>. The counter \<^verbatim>\<open>write_lock_count\<close> of a lock is followed
  through every critical section.
\<close>

definition active_set :: "THR_LOCK \<Rightarrow> data_id set" where
  "active_set lk = set (read_list lk) \<union> set (write_list lk)"

text \<open>
  The turn of the writers: all holders of the table are gone and writers, one or several of them that
  may write together, have got it instead.
\<close>

definition writers_turn :: "THR_LOCK \<Rightarrow> THR_LOCK \<Rightarrow> bool" where
  "writers_turn lk lk' \<longleftrightarrow> write_list lk' \<noteq> [] \<and> active_set lk \<inter> active_set lk' = {}"

text \<open>
  A piece of a run during which the reader \<^verbatim>\<open>r\<close> is in \<^verbatim>\<open>read_wait\<close> of table \<^verbatim>\<open>l\<close> all the time, with
  the number of turns the writers get in it.
\<close>

inductive reader_waits :: "thr_lock_type \<Rightarrow> u64 \<Rightarrow> (owner_id \<Rightarrow> THR_LOCK_INFO) \<Rightarrow> lock_id \<Rightarrow> data_id \<Rightarrow>
    thr_state \<Rightarrow> nat \<Rightarrow> thr_state \<Rightarrow> bool"
  for upgraded mx info l r where
  waits_start: "r \<in> set (read_wait (thr_locks st l)) \<Longrightarrow> reader_waits upgraded mx info l r st 0 st"
| waits_step: "reader_waits upgraded mx info l r st n st1 \<Longrightarrow> thr_step upgraded mx info act st1 st2 \<Longrightarrow>
     r \<in> set (read_wait (thr_locks st2 l)) \<Longrightarrow>
     reader_waits upgraded mx info l r st
       (if writers_turn (thr_locks st1 l) (thr_locks st2 l) then n + 1 else n) st2"

subsection \<open>The counter in one critical section\<close>

definition turn_counted :: "u64 \<Rightarrow> THR_LOCK \<Rightarrow> THR_LOCK \<Rightarrow> bool" where
  "turn_counted mx lk lk' \<longleftrightarrow>
     write_lock_count lk' = write_lock_count lk \<and> \<not> writers_turn lk lk' \<or>
     write_lock_count lk \<le> mx \<and> write_lock_count lk' = write_lock_count lk + 1"

lemma holders_stay:
  "e \<in> active_set lk \<Longrightarrow> e \<in> active_set lk' \<Longrightarrow> write_lock_count lk' = write_lock_count lk \<Longrightarrow> turn_counted mx lk lk'"
  by (auto simp: turn_counted_def writers_turn_def)

lemma waiting_active: "no_orphans lk \<Longrightarrow> r \<in> set (read_wait lk) \<Longrightarrow> \<exists>e. e \<in> active_set lk"
  by (cases "read_list lk"; cases "write_list lk") (auto simp: no_orphans_def active_set_def)

lemma start_writers_count:
  "start_writers d ws tk lk = (e, tk', lk') \<Longrightarrow> write_lock_count lk' = write_lock_count lk"
  by (induction ws arbitrary: d tk lk) (auto simp: start_writers_step split: if_splits)

lemma join_writers_count:
  "join_writers ty d ws tk lk = (tk', lk') \<Longrightarrow> write_lock_count lk' = write_lock_count lk"
  by (induction ws arbitrary: d tk lk) (auto simp: join_writers_step split: if_splits)

lemma join_writers_distinct:
  "join_writers ty d ws tk lk = (tk', lk') \<Longrightarrow> write_wait lk = d # ws \<Longrightarrow> distinct (linked lk) \<Longrightarrow> distinct (linked lk')"
proof (induction ws arbitrary: d tk lk)
  case Nil
  then show ?case by (auto simp: join_writers_step linked_def)
next
  case (Cons f ws)
  let ?lk = "lk\<lparr> write_wait := f # ws, write_list := write_list lk @ [d] \<rparr>"
  have "distinct (linked ?lk)" using Cons.prems(2,3) by (auto simp: linked_def)
  then show ?case using Cons.prems(1) Cons.IH [of f _ ?lk] by (auto simp: join_writers_step split: if_splits)
qed

lemma free_if_kept:
  assumes "distinct (linked lk)" "free_readers_if u tk lk = (tk', lk')" "r \<in> set (read_wait lk')"
  shows "u \<and> write_lock_count lk' = write_lock_count lk"
  using assms(2,3)
  by (auto simp: free_readers_if_def free_all_read_locks_eq [OF assms(1)] Let_def sent_back_def filter_empty_conv
      split: if_splits)

text \<open>A reader that is still queued after an idle lock was handed on was passed by writers, and that was counted.\<close>

lemma wake_up_idle_kept:
  assumes ok: "lock_ok tk lk" and idle: "write_list lk = []" "read_list lk = []"
    and w: "wake_up_idle mx tk lk = (tk', lk')" and r: "r \<in> set (read_wait lk')" and rw: "read_wait lk \<noteq> []"
  shows "write_lock_count lk \<le> mx \<and> write_lock_count lk' = write_lock_count lk + 1"
proof -
  have dist: "distinct (linked lk)" using ok by (rule lock_okD)
  have never: "free_readers_if False tk lk1 \<noteq> (tk', lk')" if "linked lk1 = linked lk" for lk1
    using free_if_kept [of lk1 False tk tk' lk' r] that dist r by auto
  show ?thesis
  proof (cases "write_wait lk")
    case Nil
    then show ?thesis using never [of lk] w by (simp add: wake_up_idle_def)
  next
    case (Cons d ws)
    let ?over = "write_lock_count lk > mx"
    let ?lk = "lk\<lparr> write_lock_count := (if ?over then 0 else write_lock_count lk + 1) \<rparr>"
    let ?first = "d_type (tk d) \<noteq> TL_WRITE_LOW_PRIORITY \<or> d_type (tk (hd (read_wait lk))) < TL_READ_HIGH_PRIORITY"
    have wk: "wake_up_idle mx tk lk =
      (if ?first then
         if ?over then free_readers_if False tk ?lk
         else (case start_writers d ws tk ?lk of (e, tk2, lk2) \<Rightarrow>
           if d_type (tk2 e) \<ge> TL_WRITE_LOW_PRIORITY then (tk2, lk2)
           else free_readers_if (shares_insert (d_type (tk2 e))) tk2 lk2)
       else free_readers_if False tk lk)"
      using rw by (auto simp: wake_up_idle_def Cons Let_def shares_insert_def free_readers_if_def)
    have l: "linked ?lk = linked lk" by (simp add: linked_def)
    have go: "?first \<and> \<not> ?over" using w never [of lk] never [OF l] unfolding wk by (auto split: if_splits)
    obtain e tk2 lk2 where st: "start_writers d ws tk ?lk = (e, tk2, lk2)" by (metis prod_cases3)
    have "lock_ok tk ?lk" using ok by (simp add: lock_ok_defs linked_def)
    then have "writers_started tk ?lk e tk2 lk2"
      using st idle Cons by (intro start_writers_ok) (auto simp: writers_so_far_def)
    then have d2: "distinct (linked lk2)" using lock_okD(1) by (auto simp: writers_started_def)
    have c2: "write_lock_count lk2 = write_lock_count lk + 1" using start_writers_count [OF st] go by simp
    have "(tk', lk') = (tk2, lk2) \<or> free_readers_if (shares_insert (d_type (tk2 e))) tk2 lk2 = (tk', lk')"
      using w go st unfolding wk by (auto split: if_splits)
    then show ?thesis using go c2 free_if_kept [OF d2 _ r] by auto
  qed
qed

lemma wake_up_beside_readers_kept:
  assumes ok: "lock_ok tk lk" and idle: "write_list lk = []" "read_list lk \<noteq> []"
    and w: "wake_up_beside_readers tk lk = (tk', lk')" and r: "r \<in> set (read_wait lk')"
  shows "write_lock_count lk' = write_lock_count lk"
proof (cases "write_wait lk")
  case Nil
  then show ?thesis using w free_if_kept [OF lock_okD(1) [OF ok] _ r] by (auto simp: wake_up_beside_readers_def)
next
  case (Cons d ws)
  let ?ty = "d_type (tk d)"
  have dist: "distinct (linked lk)" using ok by (rule lock_okD)
  obtain tk1 lk1 where jn: "join_writers ?ty d ws tk lk = (tk1, lk1)" by fastforce
  have "lk' = lk \<or> free_readers_if False (set_type d TL_WRITE tk) lk = (tk', lk') \<or>
      free_readers_if (shares_insert ?ty) tk1 lk1 = (tk', lk')"
    using w jn by (auto simp: wake_up_beside_readers_def Cons Let_def split: if_splits)
  moreover have "distinct (linked lk1)" by (rule join_writers_distinct [OF jn Cons dist])
  ultimately show ?thesis using free_if_kept r dist join_writers_count [OF jn] by metis
qed

lemma wake_up_waiters_kept:
  assumes ok: "lock_ok tk1 lk1" and w: "wake_up_waiters mx tk1 lk1 = (tk', lk')" and r: "r \<in> set (read_wait lk')"
    and pre: "write_lock_count lk1 = write_lock_count lk" "active_set lk1 \<subseteq> active_set lk"
  shows "turn_counted mx lk lk'"
proof (cases "active_set lk1 = {}")
  case True
  then have idle: "write_list lk1 = []" "read_list lk1 = []" by (auto simp: active_set_def)
  have "read_wait lk1 \<noteq> []" using wake_up_waiters_frame(2) [OF ok w] r by (auto simp: wake_frame_def)
  then show ?thesis
    using wake_up_idle_kept [OF ok idle _ r] w idle pre(1) by (simp add: wake_up_waiters_def turn_counted_def)
next
  case False
  then obtain e where e: "e \<in> active_set lk1" by blast
  then have "e \<in> active_set lk'" using wake_up_waiters_frame(2) [OF ok w] by (auto simp: wake_frame_def active_set_def)
  moreover have "write_lock_count lk' = write_lock_count lk1"
  proof (cases "write_list lk1 = []")
    case True
    then have "read_list lk1 \<noteq> []" using False by (auto simp: active_set_def)
    then show ?thesis using wake_up_beside_readers_kept [OF ok True _ _ r] w True by (simp add: wake_up_waiters_def)
  next
    case False
    then show ?thesis using w by (simp add: wake_up_waiters_def)
  qed
  ultimately show ?thesis using holders_stay pre e by (metis subsetD)
qed

lemma thr_unlock_kept:
  assumes ok: "lock_ok tk lk" and d: "d \<in> set (read_list lk) \<union> set (write_list lk) \<union> set (write_wait lk)"
    and eq: "thr_unlock mx tk lk d = (tk', lk')" and r: "r \<in> set (read_wait lk')"
  shows "turn_counted mx lk lk'"
proof -
  note rel = thr_unlock_released [OF ok d eq]
  show ?thesis
    by (rule wake_up_waiters_kept [OF rel r]) (use unlink_lists [OF ok, of d] in \<open>auto simp: active_set_def unlink_def\<close>)
qed

lemma wait_end_kept:
  assumes ok: "lock_ok tk lk" "no_orphans lk" and eq: "wait_for_lock_end mx tk lk d to = (res, tk', lk')"
    and r: "r \<in> set (read_wait lk)" "r \<in> set (read_wait lk')"
  shows "turn_counted mx lk lk'"
proof (cases "d_cond (tk d)")
  case True
  have dist: "distinct (linked lk)" using ok(1) by (rule lock_okD)
  have "d \<notin> set (read_list lk)" using True lock_okD(3) [OF ok(1)] by auto
  then have "lock_ok (set_type d TL_UNLOCK tk) (unlink d lk)"
    using lock_ok_unlink [OF ok(1)] not_linked_unlink [OF dist] by (simp add: lock_ok_set_type_fresh)
  moreover have "wake_up_waiters mx (set_type d TL_UNLOCK tk) (unlink d lk) = (tk', lk')"
    using eq True by (simp add: wait_for_lock_end_def)
  ultimately show ?thesis using r(2)
    by (rule wake_up_waiters_kept) (use unlink_lists [OF ok(1), of d] in \<open>auto simp: active_set_def unlink_def\<close>)
next
  case False
  then have "lk' = lk" using eq by (auto simp: wait_for_lock_end_def split: if_splits)
  then show ?thesis using waiting_active [OF ok(2) r(1)] holders_stay by auto
qed

lemma abort_thread_kept:
  assumes ok: "lock_ok tk lk" and eq: "thr_abort_locks_for_thread mx info tk lk tid = (found, tk', lk')"
    and r: "r \<in> set (read_wait lk')"
  shows "turn_counted mx lk lk'"
proof -
  let ?D = "{d \<in> set (read_wait lk) \<union> set (write_wait lk). owned_by_thread info tk tid d}"
  let ?lk = "lk\<lparr> read_wait := filter (\<lambda>d. \<not> owned_by_thread info tk tid d) (read_wait lk),
                    write_wait := filter (\<lambda>d. \<not> owned_by_thread info tk tid d) (write_wait lk) \<rparr>"
  have D: "?D = set (filter (owned_by_thread info tk tid) (write_wait lk)) \<union> set (filter (owned_by_thread info tk tid) (read_wait lk))"
    by auto
  have w: "wake_up_waiters mx (abort_all ?D tk) ?lk = (tk', lk')"
    using eq unfolding D by (simp add: thr_abort_locks_for_thread_def Let_def fold_abort abort_all_Un)
  have "?D \<inter> set (linked ?lk) = {}" using lock_okD(1) [OF ok] by (auto simp: linked_def)
  then have "lock_ok (abort_all ?D tk) ?lk" using lock_ok_filter_waiters [OF ok] by (intro lock_ok_abort_all)
  then show ?thesis using w r by (rule wake_up_waiters_kept) (simp_all add: active_set_def)
qed

lemma upgrade_kept:
  assumes ok: "lock_ok tk lk" "no_orphans lk" and d: "d \<in> set (write_list lk) \<union> set (write_wait lk)"
    and eq: "thr_upgrade_write_delay_lock tk lk d ty = (u, tk', lk')" and r: "r \<in> set (read_wait lk)"
  shows "turn_counted mx lk lk'"
proof (cases "lk' = lk")
  case True
  then show ?thesis using waiting_active [OF ok(2) r] holders_stay by auto
next
  case False
  then have l: "read_list lk \<noteq> []" "lk' = put_first_write_wait d (unlink d lk)"
    using eq by (auto simp: thr_upgrade_write_delay_lock_def Let_def split: if_splits)
  then obtain e where e: "e \<in> set (read_list lk)" by (cases "read_list lk") auto
  have "d \<notin> set (read_list lk)" using d lock_okD(1) [OF ok(1)] by (auto simp: linked_def)
  then have "e \<in> active_set lk'" "write_lock_count lk' = write_lock_count lk"
    using e l by (simp_all add: active_set_def put_first_write_wait_def unlink_def remove1_idem)
  then show ?thesis using e by (intro holders_stay [of e]) (simp_all add: active_set_def)
qed

lemma reschedule_kept:
  assumes ok: "lock_ok tk lk" and d: "write_list lk = [d]"
    and eq: "thr_reschedule_write_lock tk lk d = (t, tk', lk')" and r: "r \<in> set (read_wait lk)" "r \<in> set (read_wait lk')"
  shows False
proof -
  have "distinct (linked (put_first_write_wait d (unlink d lk)))"
    using lock_okD(1) [OF ok] d by (auto simp: linked_def put_first_write_wait_def unlink_def)
  moreover have "free_readers_if False (set_cond d True (set_type d TL_WRITE_DELAYED tk)) (put_first_write_wait d (unlink d lk)) = (tk', lk')"
    using eq r(1) lock_okD(1) [OF ok] d
    by (auto simp: linked_def thr_reschedule_write_lock_def Let_def free_readers_if_def put_first_write_wait_def unlink_def remove1_idem split: if_splits)
  ultimately show False using free_if_kept r(2) by blast
qed

lemma lock_begin_count:
  "thr_lock_begin upgraded tk lk d own = (a, tk', lk') \<Longrightarrow> write_lock_count lk' = write_lock_count lk"
  by (auto simp: thr_lock_begin_def thr_lock_read_def thr_lock_write_def Let_def wait_for_read_def wait_for_write_def
      lock_refused_def add_read_def add_write_def split: if_splits list.splits)

subsection \<open>Every step\<close>

lemma step_turn_counted:
  assumes inv: "thr_inv st" and s: "thr_step upgraded mx info act st st'"
    and r: "r \<in> set (read_wait (thr_locks st l))" "r \<in> set (read_wait (thr_locks st' l))"
  shows "turn_counted mx (thr_locks st l) (thr_locks st' l)"
proof (cases "thr_locks st' l = thr_locks st l")
  case True
  then show ?thesis using waiting_active [OF thr_invD(2) [OF inv] r(1)] holders_stay by auto
next
  case False
  note ok = thr_invD(1) [OF inv, of l] thr_invD(2) [OF inv, of l]
  obtain e where e: "e \<in> active_set (thr_locks st l)" using waiting_active [OF ok(2) r(1)] by blast
  from s show ?thesis
  proof cases
    case (step_lock d own a q)
    have q: "thr_lock_begin upgraded (thr_data st) (lock_at st d) d own = (a, fst q, snd q)" using step_lock by simp
    have l: "l = d_lock (thr_data st d)" "thr_locks st' l = snd q" using False step_lock by (auto simp: put_lock_def split: if_splits)
    have "e \<in> active_set (snd q)"
      using lock_section(1) [OF inv step_lock(3,4) q] e l by (auto simp: lock_outcome_def lists_grow_def active_set_def lock_at_def)
    then show ?thesis using holders_stay [OF e] l lock_begin_count [OF q] by (simp add: lock_at_def)
  next
    case (step_wait_end d timed_out res q)
    then have l: "l = d_lock (thr_data st d)" "thr_locks st' l = snd q" using False by (auto simp: put_lock_def split: if_splits)
    show ?thesis
      using wait_end_kept [OF ok, of mx d timed_out res "fst q" "snd q"] step_wait_end r l by (simp add: lock_at_def)
  next
    case (step_unlock d q)
    then have l: "l = d_lock (thr_data st d)" "thr_locks st' l = snd q" using False by (auto simp: put_lock_def split: if_splits)
    have "d \<in> set (read_list (thr_locks st l)) \<union> set (write_list (thr_locks st l)) \<union> set (write_wait (thr_locks st l))"
      using step_unlock(3) l lock_okD(2) [OF ok(1), of d] by (auto simp: thr_active_def thr_waiting_def lock_at_def is_read_def tl_order)
    then show ?thesis
      using thr_unlock_kept [OF ok(1), of d mx "fst q" "snd q"] step_unlock r l by (simp add: lock_at_def)
  next
    case (step_abort k q)
    then have l: "l = k" "thr_locks st' l = snd q" using False by (auto simp: put_lock_def split: if_splits)
    then show ?thesis using r(2) step_abort(3) by (auto simp: thr_abort_locks_def Let_def)
  next
    case (step_abort_thread k tid found q)
    then have l: "l = k" "thr_locks st' l = snd q" using False by (auto simp: put_lock_def split: if_splits)
    show ?thesis
      using abort_thread_kept [OF ok(1), of mx info tid found "fst q" "snd q"] step_abort_thread r l by simp
  next
    case (step_upgrade d ty u q)
    then have l: "l = d_lock (thr_data st d)" "thr_locks st' l = snd q" using False by (auto simp: put_lock_def split: if_splits)
    show ?thesis
      using upgrade_kept [OF ok, of d ty u "fst q" "snd q"] step_upgrade r(1) l by (simp add: lock_at_def)
  next
    case (step_reschedule d t q)
    then have l: "l = d_lock (thr_data st d)" "thr_locks st' l = snd q" using False by (auto simp: put_lock_def split: if_splits)
    show ?thesis
      using reschedule_kept [OF ok(1), of d t "fst q" "snd q" r] step_reschedule r l by (simp add: lock_at_def)
  next
    case (step_prepare d x)
    then show ?thesis using False by simp
  next
    case (step_engine k c g)
    then show ?thesis using e holders_stay [OF e] False by (auto simp: active_set_def split: if_splits)
  qed
qed

lemma reader_waits_inv:
  assumes "reader_waits upgraded mx info l r st n st'" "thr_inv st"
  shows "thr_inv st' \<and> r \<in> set (read_wait (thr_locks st' l))"
  using assms by (induction rule: reader_waits.induct) (auto intro: thr_step_inv)

lemma reader_waits_count:
  assumes "reader_waits upgraded mx info l r st n st'" "thr_inv st" "unat mx < 2 ^ 64 - 1"
  shows "n \<le> unat (write_lock_count (thr_locks st' l)) \<and>
    (0 < n \<longrightarrow> unat (write_lock_count (thr_locks st' l)) \<le> unat mx + 1)"
  using assms
proof (induction rule: reader_waits.induct)
  case (waits_start st)
  then show ?case by simp
next
  case (waits_step st n st1 act st2)
  let ?c = "write_lock_count (thr_locks st1 l)"
  have inv: "thr_inv st1" "r \<in> set (read_wait (thr_locks st1 l))"
    using reader_waits_inv [OF waits_step.hyps(1) waits_step.prems(1)] by simp_all
  have "turn_counted mx (thr_locks st1 l) (thr_locks st2 l)"
    using step_turn_counted [OF inv(1) waits_step.hyps(2) inv(2) waits_step.hyps(3)] .
  moreover have "unat (?c + 1) = unat ?c + 1 \<and> unat ?c \<le> unat mx" if "?c \<le> mx"
  proof -
    have "unat ?c \<le> unat mx" using that by (simp add: word_le_nat_alt)
    moreover from this have "unat ?c + unat (1 :: u64) < 2 ^ LENGTH(64)" using waits_step.prems(2) by simp
    ultimately show ?thesis unfolding unat_add_lem by simp
  qed
  ultimately show ?case using waits_step.IH [OF waits_step.prems] by (auto simp: turn_counted_def)
qed

subsection \<open>The bound\<close>

text \<open>The run of the witness: session 1 writes, session 5 waits to read, session 9 waits to write and gets its turn.\<close>

definition turn0 :: thr_state where
  "turn0 = fair2\<lparr> thr_data := (thr_data fair2)(Suc (Suc 0) := demo_instance 9 TL_WRITE False) \<rparr>"

definition turn1 :: thr_state where
  "turn1 = \<lparr> thr_data = (thr_data turn0)(Suc (Suc 0) := demo_instance 9 TL_WRITE True),
     thr_locks = demo_locks False (demo_lock False [Suc 0] [] [Suc (Suc 0)] [0] 0) \<rparr>"

definition turn2 :: thr_state where
  "turn2 = \<lparr> thr_data = (thr_data turn0)(0 := demo_instance 1 TL_UNLOCK False),
     thr_locks = demo_locks False (demo_lock False [Suc 0] [] [] [Suc (Suc 0)] 0\<lparr> write_lock_count := 1 \<rparr>) \<rparr>"

lemmas turn_defs = turn0_def turn1_def turn2_def fair_defs

lemma turn_reachable: "thr_reachable TL_WRITE mx info turn1"
proof -
  have "thr_step TL_WRITE mx info (By_session (Suc (Suc 0)) 9) fair2 turn0"
    using step_prepare [of fair2 "Suc (Suc 0)" TL_WRITE mx info "demo_instance 9 TL_WRITE False"]
    by (simp add: turn0_def thr_active_def thr_waiting_def lock_at_def fair_defs)
  then have r0: "thr_reachable TL_WRITE mx info turn0" using fair_reachable thr_next by blast
  have q: "thr_request_ok TL_WRITE (thr_data turn0) (lock_at turn0 (Suc (Suc 0))) (Suc (Suc 0)) 9"
    by (simp add: thr_checks turn_defs)
  have w: "thr_lock_st TL_WRITE turn0 (Suc (Suc 0)) 9 = (Waiting, turn1)" by (simp add: thr_exec turn_defs fun_eq_iff)
  show ?thesis by (rule lock_reachable [OF r0 q _ w]) (simp add: max_instances_def)
qed

lemma turn_taken: "reader_waits TL_WRITE 0 info 0 (Suc 0) turn1 1 turn2"
proof -
  have "thr_active turn1 0" by (simp add: thr_active_def lock_at_def turn_defs)
  then have "thr_step TL_WRITE 0 info (By_session 0 (d_owner (thr_data turn1 0))) turn1
      (put_lock (d_lock (thr_data turn1 0)) (thr_unlock 0 (thr_data turn1) (lock_at turn1 0) 0) turn1)"
    by (intro step_unlock [OF _ refl]) simp
  also have "put_lock (d_lock (thr_data turn1 0)) (thr_unlock 0 (thr_data turn1) (lock_at turn1 0) 0) turn1 = turn2"
    by (simp add: thr_exec thr_unlock_def wake_up_waiters_def wake_up_idle_def start_writers_step started_def
        unlink_def turn_defs fun_eq_iff)
  finally have s: "thr_step TL_WRITE 0 info (By_session 0 (d_owner (thr_data turn1 0))) turn1 turn2" .
  have "reader_waits TL_WRITE 0 info 0 (Suc 0) turn1 0 turn1" by (rule waits_start) (simp add: turn_defs)
  from waits_step [OF this s] show ?thesis
    by (simp add: writers_turn_def active_set_def) (simp add: turn_defs)
qed

text \<open>
  C14: Writers do not starve a waiting reader. While a reader stays queued for a table, whatever steps the
  sessions take, the table passes from its holders to waiting writers at most \<^verbatim>\<open>max_write_lock_count\<close> + 1
  times; before the writers can get another turn the reader has the table or has left the queue. A turn may start several \<^verbatim>\<open>TL_WRITE_ALLOW_WRITE\<close> locks
  at once, and a writer that is let in beside holders of the table is no turn. The limit is not changed
  meanwhile, and it is less than the largest \<^verbatim>\<open>ulong\<close>, which is the default and stands for no limit.
\<close>

theorem writers_in_a_row_bound:
  assumes "thr_reachable upgraded mx info st" "reader_waits upgraded mx info l r st n st'" "unat mx < 2 ^ 64 - 1"
  shows "n \<le> unat mx + 1"
  using reader_waits_count [OF assms(2) thr_reachable_inv [OF assms(1)] assms(3)] by linarith

theorem writers_in_a_row_bound_witness:
  "reader_waits TL_WRITE 0 (\<lambda>_. \<lparr> thread = 0, thread_id = 0 \<rparr>) 0 (Suc 0) turn1 1 turn2 \<and> 1 \<le> unat (0 :: u64) + 1"
  using writers_in_a_row_bound [OF turn_reachable turn_taken] turn_taken by simp

end
