(* ===== verification/Thr_Abstract.thy ===== *)
theory Thr_Abstract
  imports Thr_Example
begin

text \<open>
  What the table lock manager promises its callers, without queues, priorities and counters: each lock
  instance is unlinked, waits, or is held, and five kinds of step move it between these. The lock
  manager refines this: each of its critical sections is a sequence of such steps, but for
  \<^verbatim>\<open>thr_abort_locks\<close> with \<^verbatim>\<open>upgrade_lock\<close> true.
\<close>

datatype link = Unlinked | Queued lock_id owner_id thr_lock_type | Held lock_id owner_id thr_lock_type

type_synonym lock_spec = "data_id \<Rightarrow> link"

text \<open>An instance may become held when it fits beside what other sessions hold of the same table.\<close>

definition fits :: "(lock_id \<Rightarrow> bool) \<Rightarrow> lock_spec \<Rightarrow> data_id \<Rightarrow> lock_id \<Rightarrow> owner_id \<Rightarrow> thr_lock_type \<Rightarrow> bool" where
  "fits multi s d l own ty \<longleftrightarrow>
     (\<forall>e own' ty'. e \<noteq> d \<and> s e = Held l own' ty' \<and> own' \<noteq> own \<longrightarrow> \<not> thr_conflict (multi l) ty' ty)"

inductive spec_step :: "(lock_id \<Rightarrow> bool) \<Rightarrow> actor \<Rightarrow> lock_spec \<Rightarrow> lock_spec \<Rightarrow> bool" for multi where
  spec_enter: "s d = Unlinked \<Longrightarrow> spec_step multi (By_session d own) s (s(d := Queued l own ty))"
| spec_leave: "s d \<in> {Queued l own ty, Held l own ty} \<Longrightarrow> spec_step multi (By_session d own) s (s(d := Unlinked))"
| spec_grant: "s e = Queued l own ty \<Longrightarrow> grown ty ty' \<Longrightarrow> fits multi s e l own ty' \<Longrightarrow>
     spec_step multi act s (s(e := Held l own ty'))"
| spec_grow: "s e = Queued l own ty \<Longrightarrow> grown ty ty' \<Longrightarrow> spec_step multi act s (s(e := Queued l own ty'))"
| spec_cancel: "s e = Queued l own ty \<Longrightarrow> spec_step multi By_server s (s(e := Unlinked))"

text \<open>A change of one instance by a step that any actor may take, and the state between changes.\<close>

definition spec_change :: "actor \<Rightarrow> link \<Rightarrow> link \<Rightarrow> bool" where
  "spec_change act a b \<longleftrightarrow>
     (\<exists>l own ty. a = Queued l own ty \<and>
        (b = Unlinked \<and> act = By_server \<or> (\<exists>ty'. grown ty ty' \<and> (b = Queued l own ty' \<or> b = Held l own ty'))))"

definition spec_compatible :: "(lock_id \<Rightarrow> bool) \<Rightarrow> lock_spec \<Rightarrow> bool" where
  "spec_compatible multi s \<longleftrightarrow> (\<forall>d l own ty. s d = Held l own ty \<longrightarrow> fits multi s d l own ty)"

lemma spec_compatible_upd: "spec_compatible multi s \<Longrightarrow> \<forall>l own ty. x \<noteq> Held l own ty \<Longrightarrow> spec_compatible multi (s(d := x))"
  by (auto simp: spec_compatible_def fits_def)

lemma spec_changes:
  assumes fin: "finite D" and D: "{e. s e \<noteq> s' e} = D"
    and ch: "\<And>e. s e \<noteq> s' e \<Longrightarrow> spec_change act (s e) (s' e)" and ok: "spec_compatible multi s'"
  shows "(spec_step multi act)\<^sup>*\<^sup>* s s'"
  using fin D ch
proof (induction D arbitrary: s rule: finite_induct)
  case empty
  then have "s = s'" by auto
  then show ?case by simp
next
  case (insert x D)
  let ?s = "s(x := s' x)"
  have x: "spec_change act (s x) (s' x)" using insert.prems by blast
  have fit: "fits multi s x l own ty" if "s' x = Held l own ty" for l own ty
  proof -
    have "s' e = Held l own' ty'" if "s e = Held l own' ty'" for e own' ty'
      using insert.prems(2) [of e] that by (cases "s e = s' e") (auto simp: spec_change_def)
    then show ?thesis using ok that unfolding spec_compatible_def fits_def by blast
  qed
  have "spec_step multi act s ?s"
    using x fit by (auto simp: spec_change_def intro: spec_cancel spec_grant spec_grow)
  moreover have "(spec_step multi act)\<^sup>*\<^sup>* ?s s'"
  proof (rule insert.IH)
    show "{e. ?s e \<noteq> s' e} = D" using insert.prems(1) insert.hyps(2) by auto
    show "spec_change act (?s e) (s' e)" if "?s e \<noteq> s' e" for e using insert.prems(2) [of e] that by (auto split: if_splits)
  qed
  ultimately show ?case by (rule converse_rtranclp_into_rtranclp)
qed

text \<open>The instance of the acting session may leave, and enter again after the others have changed.\<close>

lemma spec_session_changes:
  assumes fin: "finite {e. s e \<noteq> s' e}" and ok: "spec_compatible multi s'"
    and ch: "\<And>e. e \<noteq> d \<Longrightarrow> s e \<noteq> s' e \<Longrightarrow> spec_change (By_session d own) (s e) (s' e)"
    and own: "\<And>l o' ty. s d \<in> {Queued l o' ty, Held l o' ty} \<or> s' d \<in> {Queued l o' ty, Held l o' ty} \<Longrightarrow> o' = own"
  shows "(spec_step multi (By_session d own))\<^sup>*\<^sup>* s s'"
proof -
  let ?s = "s(d := Unlinked)" and ?s' = "s'(d := Unlinked)"
  have leave: "(spec_step multi (By_session d own))\<^sup>*\<^sup>* s ?s"
  proof (cases "s d")
    case (Queued l o' ty)
    then have "s d \<in> {Queued l own ty, Held l own ty}" using own [of l o' ty] by simp
    then show ?thesis by (intro r_into_rtranclp spec_leave)
  next
    case (Held l o' ty)
    then have "s d \<in> {Queued l own ty, Held l own ty}" using own [of l o' ty] by simp
    then show ?thesis by (intro r_into_rtranclp spec_leave)
  qed (simp add: fun_upd_idem)
  have sub: "{e. ?s e \<noteq> ?s' e} \<subseteq> {e. s e \<noteq> s' e}" by auto
  have change: "(spec_step multi (By_session d own))\<^sup>*\<^sup>* ?s ?s'"
  proof (rule spec_changes [OF finite_subset [OF sub fin] refl])
    show "spec_compatible multi ?s'" by (rule spec_compatible_upd [OF ok]) simp
  qed (use ch in \<open>auto split: if_splits\<close>)
  have "(spec_step multi (By_session d own))\<^sup>*\<^sup>* ?s' s'"
  proof (cases "s' d")
    case (Queued l o' ty)
    then have "s' = ?s'(d := Queued l own ty)" using own [of l o' ty] by (simp add: fun_upd_idem)
    then show ?thesis using spec_enter [of ?s' d multi own l ty] by (metis fun_upd_same r_into_rtranclp)
  next
    case (Held l o' ty)
    then have eq: "s' = ?s'(d := Queued l own ty, d := Held l own ty)" and h: "s' d = Held l own ty"
      using own [of l o' ty] by (simp_all add: fun_upd_idem)
    have "spec_step multi (By_session d own) ?s' (?s'(d := Queued l own ty))" by (rule spec_enter) simp
    moreover have "spec_step multi (By_session d own) (?s'(d := Queued l own ty)) (?s'(d := Queued l own ty, d := Held l own ty))"
      using ok h by (intro spec_grant [where ty = ty]) (auto simp: spec_compatible_def fits_def)
    ultimately show ?thesis using eq by (metis converse_rtranclp_into_rtranclp r_into_rtranclp)
  qed (simp add: fun_upd_idem)
  with leave change show ?thesis by (meson rtranclp_trans)
qed

subsection \<open>The abstraction of a state of the lock manager\<close>

definition spec_of :: "thr_state \<Rightarrow> lock_spec" where
  "spec_of st d =
     (if thr_active st d then Held (d_lock (thr_data st d)) (d_owner (thr_data st d)) (d_type (thr_data st d))
      else if thr_waiting st d then Queued (d_lock (thr_data st d)) (d_owner (thr_data st d)) (d_type (thr_data st d))
      else Unlinked)"

definition multi_of :: "thr_state \<Rightarrow> lock_id \<Rightarrow> bool" where
  "multi_of st l = allow_multiple_concurrent_insert (thr_locks st l)"

lemma spec_of_compatible:
  assumes "thr_inv st"
  shows "spec_compatible (multi_of st) (spec_of st)"
  unfolding spec_compatible_def fits_def multi_of_def
proof (intro allI impI)
  fix d l own ty e own' ty'
  assume "spec_of st d = Held l own ty" "e \<noteq> d \<and> spec_of st e = Held l own' ty' \<and> own' \<noteq> own"
  then show "\<not> thr_conflict (allow_multiple_concurrent_insert (thr_locks st l)) ty' ty"
    using holders_compatibleD [OF thr_invD(1) [OF assms, of l], of e d]
    by (auto simp: spec_of_def thr_active_def lock_at_def split: if_splits)
qed


lemma spec_of_section:
  assumes inv: "thr_inv st" and sec: "section_ok st act l tk' lk'" and st': "st' = put_lock l (tk', lk') st"
    and act: "\<forall>d own. act = By_session d own \<longrightarrow> d_lock (thr_data st d) = l"
    and e: "\<forall>own. act \<noteq> By_session e own" "spec_of st e \<noteq> spec_of st' e"
  shows "spec_change act (spec_of st e) (spec_of st' e)"
proof -
  let ?lk = "thr_locks st l"
  have frame: "d_lock (tk' e) = d_lock (thr_data st e)" "d_owner (tk' e) = d_owner (thr_data st e)"
    "e \<in> set (read_list ?lk) \<union> set (write_list ?lk) \<Longrightarrow> tk' e = thr_data st e \<and> e \<in> set (read_list lk') \<union> set (write_list lk')"
    "e \<in> set (read_wait ?lk) \<union> set (write_wait ?lk) \<Longrightarrow>
       e \<in> set (linked lk') \<and> grown (d_type (thr_data st e)) (d_type (tk' e)) \<or>
       e \<notin> set (linked lk')"
    "e \<notin> set (linked ?lk) \<Longrightarrow> tk' e = thr_data st e \<and> e \<notin> set (linked lk')"
    using sec e(1) unfolding section_ok_def by blast+
  have keep: "act \<noteq> By_server \<Longrightarrow> e \<in> set (linked ?lk) \<Longrightarrow> e \<in> set (linked lk')"
    using sec e(1) unfolding section_ok_def by (cases act) blast+
  show ?thesis
  proof (cases "d_lock (thr_data st e) = l")
    case False
    then have "e \<notin> set (linked ?lk)" using thr_invD(3) [OF inv] by blast
    then have "spec_of st' e = spec_of st e"
      using frame(5) False by (simp add: spec_of_def st' put_lock_def thr_active_def thr_waiting_def lock_at_def)
    with e(2) show ?thesis by simp
  next
    case True
    have s: "spec_of st e = (if e \<in> set (read_list ?lk) \<union> set (write_list ?lk) then Held l (d_owner (thr_data st e)) (d_type (thr_data st e))
        else if e \<in> set (linked ?lk) then Queued l (d_owner (thr_data st e)) (d_type (thr_data st e)) else Unlinked)"
      using True by (auto simp: spec_of_def thr_active_def thr_waiting_def lock_at_def linked_set)
    have s': "spec_of st' e = (if e \<in> set (read_list lk') \<union> set (write_list lk') then Held l (d_owner (thr_data st e)) (d_type (tk' e))
        else if e \<in> set (linked lk') then Queued l (d_owner (thr_data st e)) (d_type (tk' e)) else Unlinked)"
      using True frame(1,2) by (auto simp: spec_of_def thr_active_def thr_waiting_def lock_at_def linked_set st' put_lock_def)
    have na: "e \<notin> set (read_list ?lk) \<union> set (write_list ?lk)" using e(2) frame(3) unfolding s s' by auto
    have ln: "e \<in> set (linked ?lk)"
    proof (rule ccontr)
      assume "e \<notin> set (linked ?lk)"
      with frame(5) na have "spec_of st e = Unlinked" "spec_of st' e = Unlinked" by (simp_all add: s s' linked_set)
      with e(2) show False by simp
    qed
    have q: "spec_of st e = Queued l (d_owner (thr_data st e)) (d_type (thr_data st e))" using na ln s by simp
    show ?thesis
    proof (cases "e \<in> set (linked lk')")
      case True
      then have "grown (d_type (thr_data st e)) (d_type (tk' e))" using frame(4) na ln by (auto simp: linked_set)
      then show ?thesis using True q unfolding spec_change_def s' by auto
    next
      case False
      then have "spec_of st' e = Unlinked" "act = By_server" using keep ln s' by (auto simp: linked_set)
      then show ?thesis using q by (simp add: spec_change_def)
    qed
  qed
qed

lemma spec_owner: "spec_of st d \<in> {Queued k o' ty, Held k o' ty} \<Longrightarrow> o' = d_owner (thr_data st d) \<and> d \<in> set (linked (lock_at st d))"
  unfolding linked_iff by (auto simp: spec_of_def split: if_splits)

lemma spec_of_owner:
  assumes sec: "section_ok st (By_session d own) l tk' lk'" and st': "st' = put_lock l (tk', lk') st"
    and l: "\<forall>e o'. By_session d own = By_session e o' \<longrightarrow> d_lock (thr_data st e) = l"
    and s: "spec_of st d \<in> {Queued k o' ty, Held k o' ty} \<or> spec_of st' d \<in> {Queued k o' ty, Held k o' ty}"
  shows "o' = own"
proof -
  have "\<forall>e o'. By_session d own = By_session e o' \<longrightarrow> d_owner (tk' e) = o'"
    using sec unfolding section_ok_def by (elim conjE)
  moreover have "\<forall>e\<in>set (linked (thr_locks st l)). d_owner (tk' e) = d_owner (thr_data st e)"
    using sec unfolding section_ok_def by (elim conjE)
  ultimately have "d_owner (tk' d) = own" "d \<in> set (linked (thr_locks st l)) \<Longrightarrow> d_owner (tk' d) = d_owner (thr_data st d)"
    by simp_all
  moreover have "lock_at st d = thr_locks st l" using l by (simp add: lock_at_def)
  moreover have "thr_data st' = tk'" by (simp add: st' put_lock_def)
  ultimately show ?thesis using s spec_owner [of st d] spec_owner [of st' d] by metis
qed

lemma spec_of_linked:
  "thr_inv st \<Longrightarrow> spec_of st d \<noteq> Unlinked \<Longrightarrow> d < max_instances"
  using thr_invD(4) [of st d "d_lock (thr_data st d)"] linked_iff [of d st]
  by (auto simp: spec_of_def lock_at_def split: if_splits)

text \<open>
  C5: Every critical section of the table lock manager, with the exception of \<^verbatim>\<open>thr_abort_locks\<close> called
  with \<^verbatim>\<open>upgrade_lock\<close> true (which retypes a lock that is held), is a sequence of steps of the abstract
  specification: a session takes part with its own instance only, which it may enter, leave and, when it
  fits beside what others hold, be granted; whatever other sessions hold stays held with its type;
  waiting instances of others are granted when they fit, keep waiting, or are cancelled by the server.
\<close>

theorem thr_step_refines_spec:
  assumes "thr_reachable upgraded mx info st" "thr_step upgraded mx info act st st'"
  shows "(spec_step (multi_of st) act)\<^sup>*\<^sup>* (spec_of st) (spec_of st')"
proof -
  note inv = thr_reachable_inv [OF assms(1)]
  note inv' = thr_step_inv [OF inv assms(2)]
  have fin: "finite {e. spec_of st e \<noteq> spec_of st' e}"
  proof (rule finite_subset)
    show "{e. spec_of st e \<noteq> spec_of st' e} \<subseteq> {..<max_instances}"
      using spec_of_linked [OF inv] spec_of_linked [OF inv'] by (metis (mono_tags, lifting) lessThan_iff mem_Collect_eq subsetI)
  qed simp
  from thr_step_section [OF inv assms(2)] show ?thesis
    unfolding section_change_def prepare_change_def
  proof (elim disjE exE conjE)
    fix l tk' lk'
    assume st': "st' = put_lock l (tk', lk') st" and sec: "section_ok st act l tk' lk'"
      and a: "\<forall>d own. act = By_session d own \<longrightarrow> d_lock (thr_data st d) = l"
    have "allow_multiple_concurrent_insert lk' = allow_multiple_concurrent_insert (thr_locks st l)"
      using sec unfolding section_ok_def by blast
    then have m: "multi_of st' = multi_of st" by (auto simp: fun_eq_iff multi_of_def st' put_lock_def)
    have ok: "spec_compatible (multi_of st) (spec_of st')" using spec_of_compatible [OF inv'] m by simp
    note change = spec_of_section [OF inv sec st' a]
    show ?thesis
    proof (cases act)
      case By_server
      then show ?thesis using change ok by (intro spec_changes [OF fin refl]) auto
    next
      case (By_session d own)
      have "o' = own" if "spec_of st d \<in> {Queued k o' ty, Held k o' ty} \<or> spec_of st' d \<in> {Queued k o' ty, Held k o' ty}"
        for k o' ty
        using spec_of_owner [OF _ st'] sec a that unfolding By_session by blast
      note own = this
      have "spec_change (By_session d own) (spec_of st e) (spec_of st' e)" if "e \<noteq> d" "spec_of st e \<noteq> spec_of st' e" for e
        using change [of e] that By_session by simp
      from spec_session_changes [OF fin ok this own] show ?thesis unfolding By_session .
    qed
  next
    fix d x
    assume d: "\<not> thr_active st d" "\<not> thr_waiting st d" "st' = st\<lparr> thr_data := (thr_data st)(d := x) \<rparr>"
    have "d \<notin> set (linked (thr_locks st l))" for l
      using d(1,2) linked_iff [of d st] linked_lock_at [OF inv, of d l] by metis
    then have "spec_of st' = spec_of st"
      using d by (auto simp: fun_eq_iff spec_of_def thr_active_def thr_waiting_def lock_at_def linked_set)
    then show ?thesis by simp
  qed
qed

theorem thr_step_refines_spec_witness:
  "(spec_step (multi_of demo3) (By_session (Suc 0) 5))\<^sup>*\<^sup>* (spec_of demo3) (spec_of demo4)"
proof -
  have "thr_step TL_WRITE 0 (\<lambda>_. \<lparr> thread = 0, thread_id = 0 \<rparr>) (By_session (Suc 0) (d_owner (thr_data demo3 (Suc 0)))) demo3
      (thr_unlock_st 0 demo3 (Suc 0))"
    unfolding thr_unlock_st_def by (rule step_unlock) (simp_all add: thr_active_def lock_at_def demo_defs)
  moreover have "d_owner (thr_data demo3 (Suc 0)) = 5" by (simp add: demo_defs)
  ultimately show ?thesis using thr_step_refines_spec [OF demo_reachable(4)] by (simp add: demo_run4)
qed

end
