(* ===== verification/Thr_Check.thy ===== *)
theory Thr_Check
  imports Thr_Example
begin

text \<open>
  The consistency checks \<^verbatim>\<open>check_lock\<close> and \<^verbatim>\<open>check_locks\<close> that builds with \<^verbatim>\<open>EXTRA_DEBUG\<close> run around
  every critical section, as functions that return the warnings they print, and which of these
  warnings the lock manager can cause. \<^verbatim>\<open>check_lock\<close> also tests that the \<^verbatim>\<open>prev\<close> field of each instance
  and the \<^verbatim>\<open>last\<close> field of the queue point where they should; the queues of the model are lists, which
  have no such fields, so these two of its seven warnings are left out and nothing is shown of them.
\<close>

definition MAX_LOCKS :: nat where
  "MAX_LOCKS = 1000"

definition MAX_FOUND_ERRORS :: nat where
  "MAX_FOUND_ERRORS = 10"

datatype check_warning =
    Found_unlocked | Wrong_queue | Different_threads | Cond_not_reset | Too_many_locks
  | Wrong_read_no_write_count | No_locks_but_waiters | No_writers_but_read_waits
  | Write_waits_without_exclusive_reads | Insert_mixed | Allow_write_waits | Write_and_read_locked | Read_waits_for_shared_write

text \<open>
  The loop of \<^verbatim>\<open>check_lock\<close> and \<^verbatim>\<open>check_lock\<close> itself, without the tests of \<^verbatim>\<open>prev\<close> and \<^verbatim>\<open>last\<close>: the
  warning with which it returns 1, if any.
\<close>

primrec check_lock_loop :: "data_store \<Rightarrow> bool \<Rightarrow> bool \<Rightarrow> bool \<Rightarrow> owner_id \<Rightarrow> thr_lock_type \<Rightarrow> nat \<Rightarrow> data_id list \<Rightarrow>
    check_warning option" where
  "check_lock_loop tk same_owner no_cond read_lock first_owner last_lock_type cnt [] = None"
| "check_lock_loop tk same_owner no_cond read_lock first_owner last_lock_type cnt (d # ds) =
     (if \<not> cnt < MAX_LOCKS then Some Too_many_locks
      else if d_type (tk d) = TL_UNLOCK then Some Found_unlocked
      else if read_lock \<and> d_type (tk d) \<ge> TL_FIRST_WRITE \<or> \<not> read_lock \<and> d_type (tk d) < TL_FIRST_WRITE
      then Some Wrong_queue
      else
        (let last1 = (if d_type (tk d) \<noteq> last_lock_type then TL_IGNORE else last_lock_type) in
         if same_owner \<and> \<not> thr_lock_owner_equal (d_owner (tk d)) first_owner \<and>
            last1 \<noteq> TL_WRITE_ALLOW_WRITE \<and> last1 \<noteq> TL_WRITE_CONCURRENT_INSERT
         then Some Different_threads
         else if no_cond \<and> d_cond (tk d) then Some Cond_not_reset
         else check_lock_loop tk same_owner no_cond read_lock first_owner last1 (cnt + 1) ds))"

definition check_lock :: "data_store \<Rightarrow> data_id list \<Rightarrow> bool \<Rightarrow> bool \<Rightarrow> bool \<Rightarrow> check_warning list" where
  "check_lock tk list same_owner no_cond read_lock =
     (case list of
        [] \<Rightarrow> []
      | d # _ \<Rightarrow>
          (case check_lock_loop tk same_owner no_cond read_lock (d_owner (tk d)) (d_type (tk d)) 0 list of
             None \<Rightarrow> []
           | Some w \<Rightarrow> [w]))"

text \<open>The four calls of \<^verbatim>\<open>check_lock\<close>.\<close>

definition check_queues :: "data_store \<Rightarrow> THR_LOCK \<Rightarrow> check_warning list" where
  "check_queues tk lk =
     check_lock tk (write_list lk) True True False @ check_lock tk (write_wait lk) False False False @
     check_lock tk (read_list lk) False True True @ check_lock tk (read_wait lk) False False True"

text \<open>The tests for a lock without and with an active writer.\<close>

definition check_no_writer :: "data_store \<Rightarrow> THR_LOCK \<Rightarrow> bool \<Rightarrow> check_warning list" where
  "check_no_writer tk lk allow_no_locks =
     (if \<not> allow_no_locks \<and> read_list lk = [] \<and> (write_wait lk \<noteq> [] \<or> read_wait lk \<noteq> [])
      then [No_locks_but_waiters] else []) @
     (case write_wait lk of
        [] \<Rightarrow> if \<not> allow_no_locks \<and> read_wait lk \<noteq> [] then [No_writers_but_read_waits] else []
      | w # _ \<Rightarrow>
          if \<not> allow_no_locks \<and>
             ((d_type (tk w) = TL_WRITE_CONCURRENT_INSERT \<or> d_type (tk w) = TL_WRITE_ALLOW_WRITE) \<and>
              read_no_write_count lk = 0 \<or>
              d_type (tk w) = TL_WRITE_DELAYED \<and> read_list lk = [])
          then [Write_waits_without_exclusive_reads] else [])"

definition read_write_clash :: "data_store \<Rightarrow> data_id \<Rightarrow> data_id \<Rightarrow> bool" where
  "read_write_clash tk w d \<longleftrightarrow>
     \<not> thr_lock_owner_equal (d_owner (tk w)) (d_owner (tk d)) \<and>
     (TL_WRITE_DELAYED < d_type (tk w) \<and> d_type (tk w) \<noteq> TL_WRITE_ONLY \<or>
      (d_type (tk w) = TL_WRITE_CONCURRENT_INSERT \<or> d_type (tk w) = TL_WRITE_ALLOW_WRITE) \<and>
      d_type (tk d) = TL_READ_NO_INSERT)"

definition check_writer :: "data_store \<Rightarrow> THR_LOCK \<Rightarrow> data_id \<Rightarrow> data_id list \<Rightarrow> bool \<Rightarrow> check_warning list" where
  "check_writer tk lk w ws allow_no_locks =
     (if d_type (tk w) = TL_WRITE_CONCURRENT_INSERT \<and>
         list_ex (\<lambda>e. d_type (tk e) \<noteq> TL_WRITE_CONCURRENT_INSERT \<and> d_type (tk e) \<noteq> TL_WRITE_ALLOW_WRITE) ws
      then [Insert_mixed] else []) @
     (if write_wait lk \<noteq> [] \<and> \<not> allow_no_locks \<and> d_type (tk w) = TL_WRITE_ALLOW_WRITE \<and>
         d_type (tk (hd (write_wait lk))) = TL_WRITE_ALLOW_WRITE
      then [Allow_write_waits] else []) @
     map (\<lambda>_. Write_and_read_locked) (filter (read_write_clash tk w) (read_list lk)) @
     (if read_wait lk \<noteq> [] \<and> \<not> allow_no_locks \<and> d_type (tk w) \<le> TL_WRITE_DELAYED \<and>
         d_type (tk (hd (read_wait lk))) \<le> TL_READ_HIGH_PRIORITY
      then [Read_waits_for_shared_write] else [])"

text \<open>
  \<^verbatim>\<open>check_locks\<close>: the new value of \<^verbatim>\<open>found_errors\<close> and the warnings. The warning about mixed concurrent
  inserts is printed but not counted, and the four calls of \<^verbatim>\<open>check_lock\<close> count once.
\<close>

definition check_locks :: "data_store \<Rightarrow> THR_LOCK \<Rightarrow> bool \<Rightarrow> nat \<Rightarrow> nat \<times> check_warning list" where
  "check_locks tk lk allow_no_locks found_errors =
     (if \<not> found_errors < MAX_FOUND_ERRORS then (found_errors, [])
      else
        (let queues = check_queues tk lk;
             found1 = found_errors + (if queues \<noteq> [] then 1 else 0)
         in if \<not> found1 < MAX_FOUND_ERRORS then (found1, queues)
            else
              (let counts = (if of_nat (length (filter (\<lambda>d. d_type (tk d) = TL_READ_NO_INSERT) (read_list lk))) \<noteq>
                                read_no_write_count lk then [Wrong_read_no_write_count] else []);
                   rest = counts @ (case write_list lk of
                                      [] \<Rightarrow> check_no_writer tk lk allow_no_locks
                                    | w # ws \<Rightarrow> check_writer tk lk w ws allow_no_locks)
               in (found1 + length (filter (\<lambda>x. x \<noteq> Insert_mixed) rest), queues @ rest))))"

subsection \<open>Which warnings can occur\<close>

lemma check_loop_quiet:
  assumes "cnt + length ds \<le> MAX_LOCKS"
    "\<And>d. d \<in> set ds \<Longrightarrow> if rd then is_read (d_type (tk d)) else is_write (d_type (tk d))"
    "\<And>d. d \<in> set ds \<Longrightarrow> nc \<Longrightarrow> \<not> d_cond (tk d)"
    "so \<Longrightarrow> (\<forall>d\<in>set ds. d_owner (tk d) = fo) \<or> lt = TL_WRITE_ALLOW_WRITE \<and> (\<forall>d\<in>set ds. d_type (tk d) = TL_WRITE_ALLOW_WRITE)"
  shows "check_lock_loop tk so nc rd fo lt cnt ds = None"
  using assms
proof (induction ds arbitrary: cnt lt)
  case (Cons d ds)
  let ?lt = "if d_type (tk d) \<noteq> lt then TL_IGNORE else lt"
  have "check_lock_loop tk so nc rd fo ?lt (cnt + 1) ds = None"
  proof (rule Cons.IH)
    show "cnt + 1 + length ds \<le> MAX_LOCKS" using Cons.prems(1) by simp
    show "if rd then is_read (d_type (tk e)) else is_write (d_type (tk e))" if "e \<in> set ds" for e
      using Cons.prems(2) [of e] that by simp
    show "\<not> d_cond (tk e)" if "e \<in> set ds" nc for e using Cons.prems(3) [of e] that by simp
    show "(\<forall>d\<in>set ds. d_owner (tk d) = fo) \<or> ?lt = TL_WRITE_ALLOW_WRITE \<and> (\<forall>d\<in>set ds. d_type (tk d) = TL_WRITE_ALLOW_WRITE)"
      if so using Cons.prems(4) [OF that] by auto
  qed
  moreover have "d_type (tk d) \<noteq> TL_UNLOCK \<and>
      \<not> (rd \<and> d_type (tk d) \<ge> TL_FIRST_WRITE \<or> \<not> rd \<and> d_type (tk d) < TL_FIRST_WRITE)"
    using Cons.prems(2) [of d] by (cases "d_type (tk d)"; cases rd) (simp_all add: is_read_def is_write_def tl_order)
  moreover have "so \<Longrightarrow> d_owner (tk d) = fo \<or> ?lt = TL_WRITE_ALLOW_WRITE" using Cons.prems(4) by auto
  ultimately show ?case
    using Cons.prems(1) Cons.prems(3) [of d] by (auto simp: Let_def thr_lock_owner_equal_def)
qed simp

text \<open>Without \<^verbatim>\<open>allow_multiple_concurrent_insert\<close> the writers are of one session or all allow writes.\<close>

lemma writers_one_owner:
  assumes ok: "lock_ok tk lk" and m: "\<not> allow_multiple_concurrent_insert lk" and w: "write_list lk = w # ws"
  shows "(\<forall>e\<in>set (w # ws). d_owner (tk e) = d_owner (tk w)) \<or> (\<forall>e\<in>set (w # ws). d_type (tk e) = TL_WRITE_ALLOW_WRITE)"
proof (rule disjCI)
  assume "\<not> (\<forall>e\<in>set (w # ws). d_type (tk e) = TL_WRITE_ALLOW_WRITE)"
  then obtain x where x: "x \<in> set (write_list lk)" "d_type (tk x) \<noteq> TL_WRITE_ALLOW_WRITE" using w by auto
  have same: "d_owner (tk e) = d_owner (tk x)" if e: "e \<in> set (write_list lk)" for e
  proof (rule ccontr)
    assume "d_owner (tk e) \<noteq> d_owner (tk x)"
    then have "\<not> thr_conflict False (d_type (tk e)) (d_type (tk x))"
      using holders_compatibleD [OF ok, of e x] e x(1) m by simp
    then show False using x(2) lock_okD(5) [OF ok e] lock_okD(5) [OF ok x(1)] by (simp add: conflict_write_write)
  qed
  show "\<forall>e\<in>set (w # ws). d_owner (tk e) = d_owner (tk w)"
    using same [unfolded w] by (metis list.set_intros(1))
qed

definition short_queues :: "THR_LOCK \<Rightarrow> bool" where
  "short_queues lk \<longleftrightarrow> length (write_list lk) \<le> MAX_LOCKS \<and> length (write_wait lk) \<le> MAX_LOCKS \<and>
     length (read_list lk) \<le> MAX_LOCKS \<and> length (read_wait lk) \<le> MAX_LOCKS"

lemma check_lock_quiet:
  assumes "length ds \<le> MAX_LOCKS"
    "\<And>d. d \<in> set ds \<Longrightarrow> if rd then is_read (d_type (tk d)) else is_write (d_type (tk d))"
    "\<And>d. d \<in> set ds \<Longrightarrow> nc \<Longrightarrow> \<not> d_cond (tk d)"
    "so \<Longrightarrow> (\<forall>d\<in>set ds. d_owner (tk d) = d_owner (tk (hd ds))) \<or> (\<forall>d\<in>set ds. d_type (tk d) = TL_WRITE_ALLOW_WRITE)"
  shows "check_lock tk ds so nc rd = []"
proof (cases ds)
  case (Cons d es)
  have "check_lock_loop tk so nc rd (d_owner (tk d)) (d_type (tk d)) 0 ds = None"
    by (rule check_loop_quiet) (use assms Cons in auto)
  then show ?thesis by (simp add: check_lock_def Cons del: check_lock_loop.simps)
qed (simp add: check_lock_def)

lemma check_queues_quiet:
  assumes ok: "lock_ok tk lk" and m: "\<not> allow_multiple_concurrent_insert lk" and short: "short_queues lk"
  shows "check_queues tk lk = []"
proof -
  have "check_lock tk (write_list lk) True True False = []"
  proof (rule check_lock_quiet)
    show "(\<forall>d\<in>set (write_list lk). d_owner (tk d) = d_owner (tk (hd (write_list lk)))) \<or>
        (\<forall>d\<in>set (write_list lk). d_type (tk d) = TL_WRITE_ALLOW_WRITE)"
      using writers_one_owner [OF ok m] by (cases "write_list lk") simp_all
  qed (use short lock_okD(5) [OF ok] in \<open>simp_all add: short_queues_def\<close>)
  moreover have "check_lock tk (write_wait lk) False False False = []"
    using short lock_okD(4) [OF ok] by (intro check_lock_quiet) (simp_all add: short_queues_def)
  moreover have "check_lock tk (read_list lk) False True True = []"
    using short lock_okD(3) [OF ok] by (intro check_lock_quiet) (simp_all add: short_queues_def)
  moreover have "check_lock tk (read_wait lk) False False True = []"
    using short lock_okD(2) [OF ok] by (intro check_lock_quiet) (simp_all add: short_queues_def)
  ultimately show ?thesis by (simp add: check_queues_def)
qed

lemma check_counts_quiet:
  "lock_ok tk lk \<Longrightarrow>
    of_nat (length (filter (\<lambda>d. d_type (tk d) = TL_READ_NO_INSERT) (read_list lk))) = read_no_write_count lk"
  by (simp add: lock_ok_def count_ok_def no_insert_reads_def)

text \<open>Readers beside the first writer clash with it only as the matrix in \<^verbatim>\<open>thr_lock\<close> permits.\<close>

lemma clash_iff:
  assumes ok: "lock_ok tk lk" and m: "\<not> allow_multiple_concurrent_insert lk" and w: "w \<in> set (write_list lk)"
    and d: "d \<in> set (read_list lk)"
  shows "read_write_clash tk w d \<longleftrightarrow>
    d_owner (tk d) \<noteq> d_owner (tk w) \<and> d_type (tk w) = TL_WRITE_ALLOW_WRITE \<and> d_type (tk d) = TL_READ_NO_INSERT"
proof (cases "d_owner (tk w) = d_owner (tk d)")
  case False
  then have "\<not> thr_conflict False (d_type (tk d)) (d_type (tk w))"
    using holders_compatibleD [OF ok, of d w] w d m by auto
  then show ?thesis
    using lock_okD(3) [OF ok d] lock_okD(5) [OF ok w] False
    by (auto simp: conflict_read_write read_write_clash_def thr_lock_owner_equal_def tl_order)
qed (simp add: read_write_clash_def thr_lock_owner_equal_def)

lemma insert_not_mixed:
  assumes ok: "lock_ok tk lk" and m: "\<not> allow_multiple_concurrent_insert lk" and w: "write_list lk = w # ws"
    and ci: "d_type (tk w) = TL_WRITE_CONCURRENT_INSERT" and e: "e \<in> set ws"
  shows "d_type (tk e) = TL_WRITE_CONCURRENT_INSERT \<or> d_type (tk e) = TL_WRITE_ALLOW_WRITE"
proof -
  have "d_owner (tk e) = d_owner (tk w)" using writers_one_owner [OF ok m w] ci e by auto
  moreover have "write_order tk w e" using ok w e by (simp add: lock_ok_def writers_ok_def)
  ultimately have "tl_rank (d_type (tk e)) \<le> tl_rank TL_WRITE_CONCURRENT_INSERT" using ci by (simp add: write_order_def)
  moreover have "is_write (d_type (tk e))" using lock_okD(5) [OF ok, of e] w e by simp
  ultimately show ?thesis by (cases "d_type (tk e)") (simp_all add: tl_rank_def is_write_def tl_order)
qed


lemma check_writer_reports:
  assumes ok: "lock_ok tk lk" and m: "\<not> allow_multiple_concurrent_insert lk" and w: "write_list lk = w # ws"
  shows "set (check_writer tk lk w ws a) \<subseteq>
      (if a then {Write_and_read_locked} else {Write_and_read_locked, Allow_write_waits, Read_waits_for_shared_write})"
    "Write_and_read_locked \<in> set (check_writer tk lk w ws a) \<longleftrightarrow> d_type (tk w) = TL_WRITE_ALLOW_WRITE \<and>
      (\<exists>d\<in>set (read_list lk). d_owner (tk d) \<noteq> d_owner (tk w) \<and> d_type (tk d) = TL_READ_NO_INSERT)"
proof -
  have "\<not> (d_type (tk w) = TL_WRITE_CONCURRENT_INSERT \<and>
      list_ex (\<lambda>e. d_type (tk e) \<noteq> TL_WRITE_CONCURRENT_INSERT \<and> d_type (tk e) \<noteq> TL_WRITE_ALLOW_WRITE) ws)"
    using insert_not_mixed [OF ok m w] by (auto simp: list_ex_iff)
  then show "set (check_writer tk lk w ws a) \<subseteq>
      (if a then {Write_and_read_locked} else {Write_and_read_locked, Allow_write_waits, Read_waits_for_shared_write})"
    by (auto simp: check_writer_def)
  show "Write_and_read_locked \<in> set (check_writer tk lk w ws a) \<longleftrightarrow> d_type (tk w) = TL_WRITE_ALLOW_WRITE \<and>
      (\<exists>d\<in>set (read_list lk). d_owner (tk d) \<noteq> d_owner (tk w) \<and> d_type (tk d) = TL_READ_NO_INSERT)"
    using clash_iff [OF ok m, of w] w by (auto simp: check_writer_def split: if_splits)
qed

lemma check_no_writer_reports:
  assumes "no_orphans lk" "write_list lk = []"
  shows "set (check_no_writer tk lk a) \<subseteq> (if a then {} else {Write_waits_without_exclusive_reads})"
  using assms by (auto simp: check_no_writer_def no_orphans_def split: list.splits if_splits)

lemma check_locks_warnings:
  assumes "lock_ok tk lk" "\<not> allow_multiple_concurrent_insert lk" "short_queues lk" "found < MAX_FOUND_ERRORS"
  shows "snd (check_locks tk lk a found) = (case write_list lk of
      [] \<Rightarrow> check_no_writer tk lk a | w # ws \<Rightarrow> check_writer tk lk w ws a)"
  using assms check_queues_quiet check_counts_quiet by (simp add: check_locks_def Let_def split: list.split)

text \<open>
  C26: In every reachable state of a table that does not set \<^verbatim>\<open>allow_multiple_concurrent_insert\<close>, with
  at most 1000 instances in a queue, the checks of debug builds find in no queue an instance that is
  unlocked, of a type of the other kind, or active with its condition set, no active writers of different
  sessions other than \<^verbatim>\<open>TL_WRITE_ALLOW_WRITE\<close>, and no wrong \<^verbatim>\<open>read_no_write_count\<close>. (The tests of the \<^verbatim>\<open>prev\<close> and \<^verbatim>\<open>last\<close> links are
  not modelled.) With \<^verbatim>\<open>allow_no_locks\<close> the only report is that of a first writer with
  \<^verbatim>\<open>TL_WRITE_ALLOW_WRITE\<close> beside a foreign \<^verbatim>\<open>TL_READ_NO_INSERT\<close>, which \<^verbatim>\<open>thr_lock\<close> grants; without it
  three kinds of waiting may be reported too.
\<close>

theorem check_locks_reports:
  assumes "thr_reachable upgraded mx info st" "lk = thr_locks st l" "\<not> allow_multiple_concurrent_insert lk"
    "short_queues lk" "found < MAX_FOUND_ERRORS"
  shows "set (snd (check_locks (thr_data st) lk a found)) \<subseteq>
      (if a then {Write_and_read_locked}
       else {Write_and_read_locked, Allow_write_waits, Read_waits_for_shared_write, Write_waits_without_exclusive_reads}) \<and>
    (Write_and_read_locked \<in> set (snd (check_locks (thr_data st) lk a found)) \<longleftrightarrow>
      (\<exists>w ws. write_list lk = w # ws \<and> d_type (thr_data st w) = TL_WRITE_ALLOW_WRITE \<and>
        (\<exists>d\<in>set (read_list lk). d_owner (thr_data st d) \<noteq> d_owner (thr_data st w) \<and>
           d_type (thr_data st d) = TL_READ_NO_INSERT)))"
proof -
  note inv = thr_reachable_inv [OF assms(1)]
  have ok: "lock_ok (thr_data st) lk" and no: "no_orphans lk" using thr_invD(1,2) [OF inv] assms(2) by simp_all
  note eq = check_locks_warnings [OF ok assms(3-5), of a]
  show ?thesis
  proof (cases "write_list lk")
    case Nil
    have r: "set (check_no_writer (thr_data st) lk a) \<subseteq> (if a then {} else {Write_waits_without_exclusive_reads})"
      by (rule check_no_writer_reports [OF no Nil])
    then have "Write_and_read_locked \<notin> set (check_no_writer (thr_data st) lk a)" by (auto split: if_splits)
    with r show ?thesis unfolding eq Nil by (auto split: if_splits)
  next
    case (Cons w ws)
    show ?thesis
      using check_writer_reports(1) [OF ok assms(3) Cons, of a] check_writer_reports(2) [OF ok assms(3) Cons, of a]
      unfolding eq Cons by (auto split: if_splits)
  qed
qed

lemmas check_exec = check_locks_def check_queues_def check_lock_def check_no_writer_def check_writer_def
  read_write_clash_def thr_lock_owner_equal_def MAX_LOCKS_def MAX_FOUND_ERRORS_def tl_order Let_def

theorem check_locks_reports_witness:
  "set (snd (check_locks (thr_data demo2) (thr_locks demo2 0) True 0)) \<subseteq> {Write_and_read_locked} \<and>
   Write_and_read_locked \<in> set (snd (check_locks (thr_data demo2) (thr_locks demo2 0) True 0))"
  using check_locks_reports [OF demo_reachable(3) refl, where l = 0 and a = True and found = 0]
  by (simp add: short_queues_def MAX_LOCKS_def MAX_FOUND_ERRORS_def) (simp add: demo_defs)

text \<open>
  C34: A session can be left waiting with \<^verbatim>\<open>TL_WRITE_ALLOW_WRITE\<close> for a foreign
  \<^verbatim>\<open>TL_WRITE_ALLOW_WRITE\<close>, with no other lock active: it had to wait for a reader, and the release of
  the read lock does not look at the waiters because a writer is active. The checks at the end of
  \<^verbatim>\<open>wake_up_waiters\<close> report this state.
\<close>

theorem allow_write_waits_for_allow_write:
  "\<exists>st d w. thr_reachable TL_WRITE mx info st \<and> read_list (thr_locks st 0) = [] \<and>
     write_list (thr_locks st 0) = [w] \<and> write_wait (thr_locks st 0) = [d] \<and> read_wait (thr_locks st 0) = [] \<and>
     d_type (thr_data st w) = TL_WRITE_ALLOW_WRITE \<and> d_type (thr_data st d) = TL_WRITE_ALLOW_WRITE \<and>
     wake_up_waiters mx (thr_data st) (thr_locks st 0) = (thr_data st, thr_locks st 0) \<and>
     snd (check_locks (thr_data st) (thr_locks st 0) False 0) = [Allow_write_waits]"
  using demo_reachable(5) [of mx info]
  by (intro exI [of _ demo4] exI [of _ "Suc (Suc 0)"] exI [of _ 0])
    (simp add: demo_defs check_exec wake_up_waiters_def)

end
