(* ===== verification/Thr_Merge.thy ===== *)
theory Thr_Merge
  imports Thr_Example
begin

text \<open>
  How the engines are told about sets of locks. All instances of one table share the status of the
  first of them; the loops of \<^verbatim>\<open>thr_multi_lock\<close> and \<^verbatim>\<open>thr_merge_locks\<close> achieve this with one pointer
  into the sorted array. Here they are compared with what they are meant to compute.
\<close>

definition first_of :: "thr_state \<Rightarrow> data_id list \<Rightarrow> data_id \<Rightarrow> data_id" where
  "first_of st ds d = hd (filter (\<lambda>e. d_lock (thr_data st e) = d_lock (thr_data st d)) ds)"

definition shared_fix :: "thr_state \<Rightarrow> data_id list \<Rightarrow> data_id \<Rightarrow> status_call" where
  "shared_fix st ds d =
     (if first_of st ds d = d then Fix_status (d_status_param (thr_data st d)) None
      else Fix_status (d_status_param (thr_data st (first_of st ds d))) (Some (d_status_param (thr_data st d))))"

definition shared_status :: "thr_state \<Rightarrow> data_id list \<Rightarrow> data_id \<Rightarrow> status_call list" where
  "shared_status st ds d =
     (if has_start_trans (lock_at st d) then [Start_trans (d_status_param (thr_data st d))] else []) @
     (if first_of st ds d \<noteq> d \<and> has_copy_status (lock_at st d)
      then [Copy_status (d_status_param (thr_data st d)) (d_status_param (thr_data st (first_of st ds d)))] else [])"

definition live :: "thr_state \<Rightarrow> data_id \<Rightarrow> bool" where
  "live st d \<longleftrightarrow> d_type (thr_data st d) \<noteq> TL_UNLOCK \<and> has_fix_status (lock_at st d)"

definition by_table :: "thr_state \<Rightarrow> data_id list \<Rightarrow> bool" where
  "by_table st ds \<longleftrightarrow> distinct ds \<and> sorted (map (\<lambda>d. d_lock (thr_data st d)) ds)"

subsection \<open>The first instance of a table in a sorted array\<close>

lemma first_of_append:
  assumes "e \<in> set ys" "d_lock (thr_data st e) = d_lock (thr_data st d)"
  shows "first_of st (ys @ zs) d = first_of st ys e" "first_of st ys e \<in> set ys"
    "d_lock (thr_data st (first_of st ys e)) = d_lock (thr_data st e)"
proof -
  let ?ys = "filter (\<lambda>x. d_lock (thr_data st x) = d_lock (thr_data st e)) ys"
  have "e \<in> set ?ys" using assms(1) by simp
  then have ne: "?ys \<noteq> []" by (metis empty_iff list.set(1))
  then have "hd ?ys \<in> set ?ys" by (rule hd_in_set)
  then show "first_of st ys e \<in> set ys" "d_lock (thr_data st (first_of st ys e)) = d_lock (thr_data st e)"
    by (simp_all add: first_of_def)
  show "first_of st (ys @ zs) d = first_of st ys e" using ne assms(2) by (simp add: first_of_def hd_append)
qed

lemma first_of_new:
  assumes "\<And>e. e \<in> set ys \<Longrightarrow> d_lock (thr_data st e) \<noteq> d_lock (thr_data st d)"
  shows "first_of st (ys @ d # zs) d = d"
proof -
  have "filter (\<lambda>e. d_lock (thr_data st e) = d_lock (thr_data st d)) ys = []" using assms by (simp add: filter_empty_conv)
  then show ?thesis by (simp add: first_of_def)
qed

text \<open>Either the instance is of the same table as the last one before it, or it is the first of its table.\<close>

lemma by_table_cases:
  assumes b: "by_table st (ys @ d # zs)" and ne: "ys \<noteq> []"
  shows "if d_lock (thr_data st d) = d_lock (thr_data st (last ys))
    then first_of st (ys @ d # zs) d = first_of st ys (last ys) \<and> first_of st (ys @ [d]) d = first_of st ys (last ys) \<and>
      first_of st ys (last ys) \<noteq> d \<and> d_lock (thr_data st (first_of st ys (last ys))) = d_lock (thr_data st d)
    else first_of st (ys @ d # zs) d = d \<and> first_of st (ys @ [d]) d = d"
proof (cases "d_lock (thr_data st d) = d_lock (thr_data st (last ys))")
  case True
  have l: "last ys \<in> set ys" using ne by simp
  have "d \<notin> set ys" using b by (simp add: by_table_def)
  then show ?thesis using first_of_append [OF l True [symmetric]] True by auto
next
  case False
  obtain us x where ys: "ys = us @ [x]" using ne by (metis rev_exhaust)
  have "d_lock (thr_data st e) \<noteq> d_lock (thr_data st d)" if e: "e \<in> set ys" for e
  proof -
    have "d_lock (thr_data st e) \<le> d_lock (thr_data st x)" "d_lock (thr_data st x) \<le> d_lock (thr_data st d)"
      using b e by (auto simp: by_table_def ys sorted_append)
    then show ?thesis using False by (simp add: ys)
  qed
  then show ?thesis using False first_of_new [of ys st d] by simp
qed

subsection \<open>The loops\<close>

lemma merge_loop_live: "merge_loop st first ds = merge_loop st first (filter (live st) ds)"
proof (induction ds arbitrary: first)
  case (Cons d ds)
  show ?case
  proof (cases "live st d")
    case True
    then have "merge_loop st first (d # ds) = (case first of
           Some f \<Rightarrow>
             if d_lock (thr_data st d) = d_lock (thr_data st f)
             then Fix_status (d_status_param (thr_data st f)) (Some (d_status_param (thr_data st d))) #
                  merge_loop st first ds
             else Fix_status (d_status_param (thr_data st d)) None # merge_loop st (Some d) ds
         | None \<Rightarrow> Fix_status (d_status_param (thr_data st d)) None # merge_loop st (Some d) ds)" for ds
      by (simp add: live_def)
    then show ?thesis using True Cons.IH by (simp add: option.case_eq_if)
  next
    case False
    then have "merge_loop st first (d # ds) = merge_loop st first ds" by (auto simp: live_def)
    then show ?thesis using False Cons.IH by simp
  qed
qed simp

lemma merge_loop_shared:
  assumes "by_table st (ys @ zs)" "\<And>d. d \<in> set zs \<Longrightarrow> live st d"
    "first = (if ys = [] then None else Some (first_of st ys (last ys)))"
  shows "merge_loop st first zs = map (shared_fix st (ys @ zs)) zs"
  using assms
proof (induction zs arbitrary: ys first)
  case (Cons d zs)
  have live: "d_type (thr_data st d) \<noteq> TL_UNLOCK" "has_fix_status (lock_at st d)"
    using Cons.prems(2) [of d] by (simp_all add: live_def)
  have IH: "merge_loop st (Some (first_of st (ys @ [d]) d)) zs = map (shared_fix st (ys @ d # zs)) zs"
    using Cons.IH [of "ys @ [d]"] Cons.prems(1,2) by simp
  show ?case
  proof (cases "ys = []")
    case True
    then show ?thesis using IH live Cons.prems(3) first_of_new [of "[]" st d] by (simp add: shared_fix_def)
  next
    case False
    have f: "first = Some (first_of st ys (last ys))" using Cons.prems(3) False by simp
    show ?thesis
    proof (cases "d_lock (thr_data st d) = d_lock (thr_data st (last ys))")
      case True
      then show ?thesis using by_table_cases [OF Cons.prems(1) False] IH live f by (simp add: shared_fix_def)
    next
      case diff: False
      have "d_lock (thr_data st (first_of st ys (last ys))) = d_lock (thr_data st (last ys))"
        using first_of_append(3) [of "last ys" ys st "last ys"] False by simp
      then show ?thesis using by_table_cases [OF Cons.prems(1) False] diff IH live f by (simp add: shared_fix_def)
    qed
  qed
qed simp

lemma status_loop_shared:
  assumes "by_table st (ys @ zs)" "ys \<noteq> []"
    "first = (if has_copy_status (lock_at st (last ys)) then first_of st ys (last ys) else last ys)"
  shows "status_loop st first (last ys) zs = concat (map (shared_status st (ys @ zs)) zs)"
  using assms
proof (induction zs arbitrary: ys first)
  case (Cons d zs)
  have IH: "status_loop st (if has_copy_status (lock_at st d) then first_of st (ys @ [d]) d else d) d zs =
      concat (map (shared_status st (ys @ d # zs)) zs)"
    using Cons.IH [of "ys @ [d]"] Cons.prems(1) by (cases "has_copy_status (lock_at st d)") simp_all
  show ?case
  proof (cases "d_lock (thr_data st d) = d_lock (thr_data st (last ys))")
    case True
    then have "lock_at st d = lock_at st (last ys)" by (simp add: lock_at_def)
    then show ?thesis
      using by_table_cases [OF Cons.prems(1,2)] True IH Cons.prems(3)
      by (cases "has_copy_status (lock_at st d)") (simp_all add: shared_status_def [of st "ys @ d # zs" d])
  next
    case False
    then show ?thesis using by_table_cases [OF Cons.prems(1,2)] IH
      by (cases "has_copy_status (lock_at st d)") (simp_all add: shared_status_def [of st "ys @ d # zs" d])
  qed
qed simp

lemma status_calls_shared:
  assumes "by_table st ds"
  shows "status_calls st ds = concat (map (shared_status st ds) ds)"
proof (cases ds)
  case (Cons d zs)
  have "first_of st [d] d = d" "first_of st (d # zs) d = d" by (simp_all add: first_of_def)
  then show ?thesis
    using status_loop_shared [of st "[d]" zs d] assms Cons
    by (simp add: status_calls_def shared_status_def [of st "d # zs" d])
qed (simp add: status_calls_def)


subsection \<open>Sorted arrays\<close>

lemma sort_locks_by_table: "distinct ds \<Longrightarrow> by_table st (sort_locks (thr_data st) ds)"
proof -
  have "sorted_wrt (\<lambda>e d. lock_key (thr_data st) e \<le> lock_key (thr_data st) d) (sort_locks (thr_data st) ds)"
    using sorted_sort_key [of "lock_key (thr_data st)" ds] unfolding sort_locks_eq by (simp add: sorted_map)
  then have "sorted_wrt (\<lambda>e d. d_lock (thr_data st e) \<le> d_lock (thr_data st d)) (sort_locks (thr_data st) ds)"
    by (rule sorted_wrt_mono_rel [rotated]) (auto simp: lock_key_def)
  then show "distinct ds \<Longrightarrow> ?thesis" by (simp add: by_table_def sorted_map sort_locks_eq)
qed

lemma by_table_filter: "by_table st ds \<Longrightarrow> by_table st (filter P ds)"
  by (simp add: by_table_def sorted_map sorted_wrt_filter)

lemma late_priority:
  fixes p q :: u32
  assumes "and p (not THR_LOCK_LATE_PRIV) = and q (not THR_LOCK_LATE_PRIV)"
  shows "and p (not THR_LOCK_LATE_PRIV) < or q THR_LOCK_LATE_PRIV"
proof -
  let ?b = "and q (not THR_LOCK_LATE_PRIV)"
  have or: "or q THR_LOCK_LATE_PRIV = or ?b THR_LOCK_LATE_PRIV" by (auto simp: bit_eq_iff bit_simps)
  have "?b \<le> or ?b THR_LOCK_LATE_PRIV"
    by (simp only: word_le_def unsigned_or_eq) (simp add: or_greater_eq)
  moreover have "\<not> bit ?b 0" "bit (or ?b THR_LOCK_LATE_PRIV) 0" by (simp_all add: bit_simps THR_LOCK_LATE_PRIV_def)
  ultimately show ?thesis using or assms by (metis order_less_le)
qed

lemma fold_clear_late: "fold clear_late ds tk e =
    (if e \<in> set ds then (tk e)\<lparr> d_priority := and (d_priority (tk e)) (not THR_LOCK_LATE_PRIV) \<rparr> else tk e)"
  by (induction ds arbitrary: tk) (auto simp: clear_late_def ac_simps)

lemma fold_set_late: "fold set_late ds tk e =
    (if e \<in> set ds then (tk e)\<lparr> d_priority := or (d_priority (tk e)) THR_LOCK_LATE_PRIV \<rparr> else tk e)"
  by (induction ds arbitrary: tk) (auto simp: set_late_def ac_simps)


subsection \<open>Results\<close>

text \<open>
  C17: When \<^verbatim>\<open>thr_multi_lock\<close> succeeds, whatever other sessions did meanwhile, it has called \<^verbatim>\<open>start_trans\<close>
  once for each instance whose engine has it, in the order of the array, and \<^verbatim>\<open>copy_status\<close> for exactly
  those that are not the first of their table, each time with the status of the first one.
\<close>

theorem thr_multi_lock_shares_status:
  assumes "thr_reachable upgraded mx info st" "quiet st" "mine_only me {} st" "distinct data"
    "\<forall>d\<in>set data. thr_free st d \<and> d < max_instances \<and>
       (is_read (d_type (thr_data st d)) \<or> is_write (d_type (thr_data st d))) \<and>
       d_type (thr_data st d) \<noteq> TL_WRITE_DELAYED"
    "upgraded = TL_WRITE \<or> upgraded = TL_WRITE_LOW_PRIORITY"
    "runs_others upgraded mx info me (set data) (\<lambda>d st. fst (sleep d st))"
    "runs_others upgraded mx info me (set data) env" "runs_others upgraded mx info me (set data) env_un"
    "thr_multi_lock upgraded mx sleep env env_un data me st = (THR_LOCK_SUCCESS, arr, calls, st')"
  shows "calls = concat (map (shared_status st' arr) arr)"
proof (cases "data = []")
  case True
  then show ?thesis using assms(10) by (auto simp: thr_multi_lock_def)
next
  case False
  have "(if length data > 1 then sort_locks (thr_data st) data else data) = sort_locks (thr_data st) data"
    using False by (cases data) (auto simp: sort_locks_def)
  then have r: "arr = sort_locks (thr_data st) data" "calls = status_calls st' arr"
    using assms(10) False unfolding thr_multi_lock_def Let_def by (auto split: prod.splits if_splits)
  have "holding me (set data) (thr_data st) arr [] st'"
    using multi_lock_own [OF thr_reachable_inv [OF assms(1)] assms(2-10)] by simp
  then have "\<forall>d\<in>set arr. d_lock (thr_data st' d) = d_lock (thr_data st d)" by (simp add: holding_def)
  then have "map (\<lambda>d. d_lock (thr_data st' d)) arr = map (\<lambda>d. d_lock (thr_data st d)) arr" by simp
  then have "by_table st' arr" using sort_locks_by_table [OF assms(4), of st] unfolding by_table_def r(1) by metis
  then show ?thesis using status_calls_shared r(2) by simp
qed

text \<open>A table whose engine has both callbacks, locked twice for reading by session 5.\<close>

definition share_lock :: "data_id list \<Rightarrow> THR_LOCK" where
  "share_lock rs = (demo_lock False [] rs [] [] 0)\<lparr> has_copy_status := True, has_start_trans := True \<rparr>"

definition share_instance :: "owner_id \<Rightarrow> data_id \<Rightarrow> THR_LOCK_DATA" where
  "share_instance own d = \<lparr> d_owner = own, d_lock = 0, d_cond = False, d_status_param = d, d_type = TL_READ, d_priority = 0 \<rparr>"

definition share0 :: thr_state where
  "share0 = \<lparr> thr_data = share_instance 0, thr_locks = \<lambda>_. share_lock [] \<rparr>"

definition share1 :: thr_state where
  "share1 = \<lparr> thr_data = (share_instance 0)(0 := share_instance 5 0), thr_locks = (\<lambda>_. share_lock [])(0 := share_lock [0]) \<rparr>"

definition share2 :: thr_state where
  "share2 = \<lparr> thr_data = (share_instance 0)(0 := share_instance 5 0, Suc 0 := share_instance 5 (Suc 0)),
     thr_locks = (\<lambda>_. share_lock [])(0 := share_lock [0, Suc 0]) \<rparr>"

lemmas share_defs = share0_def share1_def share2_def share_lock_def share_instance_def demo_lock_def

lemma share_runs:
  "thr_lock_st TL_WRITE share0 0 5 = (Answered THR_LOCK_SUCCESS, share1)"
  "thr_lock_st TL_WRITE share1 (Suc 0) 5 = (Answered THR_LOCK_SUCCESS, share2)"
  by (simp_all add: thr_exec share_defs fun_eq_iff)

lemma share_sort: "sort_locks (thr_data share0) [0, Suc 0] = [0, Suc 0]"
  by (simp add: sort_locks_eq lock_key_def share_defs)

lemma share_multi_lock:
  "thr_multi_lock TL_WRITE 0 (\<lambda>d st. (st, True)) (\<lambda>d st. st) (\<lambda>d st. st) [0, Suc 0] 5 share0 =
     (THR_LOCK_SUCCESS, [0, Suc 0], [Start_trans 0, Start_trans 1, Copy_status 1 0], share2)"
  by (simp add: thr_multi_lock_def thr_lock_def share_sort share_runs status_calls_def lock_at_def) (simp add: share_defs)

theorem thr_multi_lock_shares_status_witness:
  "[Start_trans 0, Start_trans 1, Copy_status 1 0] = concat (map (shared_status share2 [0, Suc 0]) [0, Suc 0])"
proof -
  have "thr_idle share0"
    unfolding thr_idle_def
    by (intro allI exI [of _ None] exI [of _ "Some (\<lambda>_. False)"] exI [of _ False] exI [of _ True])
      (simp add: share_defs thr_lock_init_def)
  then have s: "thr_reachable TL_WRITE 0 (\<lambda>_. \<lparr> thread = 0, thread_id = 0 \<rparr>) share0" by (rule thr_start)
  have q: "quiet share0" "mine_only 5 {} share0" "distinct [0, Suc 0]"
    by (simp_all add: quiet_def mine_only_def linked_def share_defs)
  have d: "\<forall>d\<in>set [0, Suc 0]. thr_free share0 d \<and> d < max_instances \<and>
       (is_read (d_type (thr_data share0 d)) \<or> is_write (d_type (thr_data share0 d))) \<and>
       d_type (thr_data share0 d) \<noteq> TL_WRITE_DELAYED"
    by (simp add: thr_free_def thr_active_def thr_waiting_def thr_checks share_defs)
  have r: "runs_others TL_WRITE 0 info 5 (set [0, Suc 0]) (\<lambda>d st. st)" for info by (simp add: runs_others_def)
  show ?thesis
    using thr_multi_lock_shares_status [OF s q d _ _ r r share_multi_lock] r by simp
qed

text \<open>
  C16: \<^verbatim>\<open>thr_merge_locks\<close> permutes the array into the order of \<^verbatim>\<open>sort_locks\<close>, in which among the instances of
  one table with one type and one base priority the old ones come before the new ones, leaves the
  locks alone, and calls \<^verbatim>\<open>fix_status\<close> once for each locked instance whose engine has it: alone for
  the first of its table, and together with the first for every later one.
\<close>

theorem thr_merge_locks_correct:
  assumes "distinct data" "thr_merge_locks data old_count st = (ds, calls, st')"
  shows "mset ds = mset data \<and> sorted (map (lock_key (thr_data st')) ds) \<and> thr_locks st' = thr_locks st \<and>
    calls = map (shared_fix st' (filter (live st') ds)) (filter (live st') ds) \<and>
    (\<forall>a\<in>set (take old_count data). \<forall>b\<in>set (drop old_count data).
       d_lock (thr_data st a) = d_lock (thr_data st b) \<and> d_type (thr_data st a) = d_type (thr_data st b) \<and>
       and (d_priority (thr_data st a)) (not THR_LOCK_LATE_PRIV) = and (d_priority (thr_data st b)) (not THR_LOCK_LATE_PRIV) \<longrightarrow>
       lock_key (thr_data st') a < lock_key (thr_data st') b)"
proof -
  have e: "ds = sort_locks (thr_data st') data" "calls = merge_loop st' None ds" "thr_locks st' = thr_locks st"
    and tk: "thr_data st' = fold set_late (drop old_count data) (fold clear_late (take old_count data) (thr_data st))"
    using assms(2) by (auto simp: thr_merge_locks_def Let_def)
  have "by_table st' ds" using sort_locks_by_table [OF assms(1)] e(1) by simp
  then have "by_table st' ([] @ filter (live st') ds)" by (simp add: by_table_filter)
  then have "merge_loop st' None (filter (live st') ds) = map (shared_fix st' ([] @ filter (live st') ds)) (filter (live st') ds)"
    by (rule merge_loop_shared) simp_all
  then have c: "calls = map (shared_fix st' (filter (live st') ds)) (filter (live st') ds)"
    unfolding e(2) by (subst merge_loop_live) simp
  have "lock_key (thr_data st') a < lock_key (thr_data st') b"
    if "a \<in> set (take old_count data)" "b \<in> set (drop old_count data)"
      "d_lock (thr_data st a) = d_lock (thr_data st b)" "d_type (thr_data st a) = d_type (thr_data st b)"
      "and (d_priority (thr_data st a)) (not THR_LOCK_LATE_PRIV) = and (d_priority (thr_data st b)) (not THR_LOCK_LATE_PRIV)" for a b
  proof -
    have "a \<notin> set (drop old_count data)" "b \<notin> set (take old_count data)"
      using that(1,2) assms(1) set_take_disj_set_drop_if_distinct [of data old_count old_count] by blast+
    then show ?thesis using that late_priority [OF that(5)] by (simp add: lock_key_def tk fold_clear_late fold_set_late)
  qed
  then show ?thesis using e c by (simp add: sort_locks_eq)
qed

theorem thr_merge_locks_correct_witness:
  "\<exists>ds calls st'. thr_merge_locks [0, Suc (Suc 0)] 1 demo0 = (ds, calls, st') \<and> mset ds = {#0, Suc (Suc 0)#} \<and>
     lock_key (thr_data st') 0 < lock_key (thr_data st') (Suc (Suc 0))"
proof -
  obtain ds calls st' where e: "thr_merge_locks [0, Suc (Suc 0)] 1 demo0 = (ds, calls, st')" by (metis prod_cases3)
  have "distinct [0, Suc (Suc 0)]" by simp
  from thr_merge_locks_correct [OF this e] have "mset ds = {#0, Suc (Suc 0)#} \<and>
     lock_key (thr_data st') 0 < lock_key (thr_data st') (Suc (Suc 0))" by (simp add: demo_defs)
  then show ?thesis using e by blast
qed

end
