(* ===== verification/Thr_Faults.thy ===== *)
theory Thr_Faults
  imports Thr_Example
begin

text \<open>
  Situations in which the code of the table lock manager does not do what its comments and callers
  expect, each proved of the model: a timeout that is reported as success, a failed status callback
  that leaves a dangling lock instance, and concurrent inserts beside a lock that forbids them.
\<close>

subsection \<open>A run with a delayed insert\<close>

text \<open>Session 1 reads the table, the delayed insert thread 5 queues its lock and upgrades it.\<close>

fun delay_types :: "data_id \<Rightarrow> thr_lock_type" where
  "delay_types 0 = TL_READ"
| "delay_types _ = TL_WRITE_DELAYED"

definition delay0 :: thr_state where
  "delay0 = \<lparr> thr_data = \<lambda>d. demo_instance 0 (delay_types d) False, thr_locks = demo_locks False (demo_lock False [] [] [] [] 0) \<rparr>"

definition delay1 :: thr_state where
  "delay1 = \<lparr> thr_data = (thr_data delay0)(0 := demo_instance 1 TL_READ False),
     thr_locks = demo_locks False (demo_lock False [] [0] [] [] 0) \<rparr>"

definition delay2 :: thr_state where
  "delay2 = \<lparr> thr_data = (thr_data delay1)(Suc 0 := demo_instance 5 TL_WRITE_DELAYED True),
     thr_locks = demo_locks False (demo_lock False [] [0] [Suc 0] [] 0) \<rparr>"

definition delay3 :: thr_state where
  "delay3 = \<lparr> thr_data = (thr_data delay2)(Suc 0 := demo_instance 5 TL_WRITE True),
     thr_locks = demo_locks False (demo_lock False [] [0] [Suc 0] [] 0) \<rparr>"

lemmas delay_defs = delay0_def delay1_def delay2_def delay3_def demo_instance_def demo_lock_def demo_locks_def

lemma delay_runs:
  "thr_lock_st TL_WRITE delay0 0 1 = (Answered THR_LOCK_SUCCESS, delay1)"
  "thr_lock_st TL_WRITE delay1 (Suc 0) 5 = (Answered THR_LOCK_SUCCESS, delay2)"
  by (simp_all add: thr_exec delay_defs fun_eq_iff)

lemma delay_requests:
  "thr_request_ok TL_WRITE (thr_data delay0) (lock_at delay0 0) 0 1"
  "thr_request_ok TL_WRITE (thr_data delay1) (lock_at delay1 (Suc 0)) (Suc 0) 5"
  by (simp_all add: thr_checks delay_defs)

lemma delay_upgrade:
  "thr_upgrade_write_delay_lock (thr_data delay2) (lock_at delay2 (Suc 0)) (Suc 0) TL_WRITE =
     (Must_wait, thr_data delay3, thr_locks delay3 0)"
  by (simp add: thr_upgrade_write_delay_lock_def thr_exec delay_defs fun_eq_iff)

lemma delay_reachable: "thr_reachable TL_WRITE mx info delay3"
proof -
  have "thr_idle delay0"
    unfolding thr_idle_def
    by (intro allI exI [of _ None] exI [of _ "Some (\<lambda>_. False)"] exI [of _ False])
      (simp add: delay_defs thr_lock_init_def)
  then have r0: "thr_reachable TL_WRITE mx info delay0" by (rule thr_start)
  have r1: "thr_reachable TL_WRITE mx info delay1"
    by (rule lock_reachable [OF r0 delay_requests(1) _ delay_runs(1)]) (simp add: max_instances_def)
  have r2: "thr_reachable TL_WRITE mx info delay2"
    by (rule lock_reachable [OF r1 delay_requests(2) _ delay_runs(2)]) (simp add: max_instances_def)
  have "thr_step TL_WRITE mx info (By_session (Suc 0) (d_owner (thr_data delay2 (Suc 0)))) delay2
      (put_lock (d_lock (thr_data delay2 (Suc 0))) (thr_data delay3, thr_locks delay3 0) delay2)"
    by (rule step_upgrade [OF _ _ _ delay_upgrade]) (simp_all add: lock_at_def delay_defs tl_order)
  moreover have "put_lock (d_lock (thr_data delay2 (Suc 0))) (thr_data delay3, thr_locks delay3 0) delay2 = delay3"
    by (simp add: put_lock_def delay_defs fun_eq_iff)
  ultimately show ?thesis using thr_next [OF r2] by simp
qed

text \<open>
  C31: When the wait of \<^verbatim>\<open>thr_upgrade_write_delay_lock\<close> times out the function returns 0, which its caller
  takes for success, although the session holds nothing any more: the instance is unlinked and
  marked \<^verbatim>\<open>TL_UNLOCK\<close>.
\<close>

theorem upgrade_timeout_reports_success:
  assumes "thr_reachable upgraded mx info st" "thr_waiting st d"
    "thr_upgrade_write_delay_lock_end mx begin_trans (thr_data st) (lock_at st d) d True = (aborted, tk', lk')"
  shows "\<not> aborted \<and> d \<notin> set (linked lk') \<and> d_type (tk' d) = TL_UNLOCK"
proof -
  note inv = thr_reachable_inv [OF assms(1)]
  have c: "d_cond (thr_data st d)" by (rule thr_waiting_cond [OF inv assms(2)])
  then obtain w: "wait_for_lock_end mx (thr_data st) (lock_at st d) d True = (THR_LOCK_WAIT_TIMEOUT, tk', lk')" and a: "\<not> aborted"
    using assms(3) by (auto simp: thr_upgrade_write_delay_lock_end_def wait_for_lock_end_def split: prod.splits)
  have "d \<in> set (linked (lock_at st d))" using assms(2) by (simp add: linked_iff)
  then have "release_frame (thr_data st) (lock_at st d) {d} True tk' lk'"
    using wait_for_lock_end_ok(1) [OF thr_invD(1,2) [OF inv] _ c] w by (simp add: lock_at_def)
  then show ?thesis using a by (auto simp: release_frame_def)
qed

theorem upgrade_timeout_reports_success_witness:
  "\<exists>tk' lk'. thr_upgrade_write_delay_lock_end 0 (\<lambda>_. False) (thr_data delay3) (lock_at delay3 (Suc 0)) (Suc 0) True =
     (False, tk', lk') \<and> Suc 0 \<notin> set (linked lk')"
proof -
  obtain r tk' lk' where e: "thr_upgrade_write_delay_lock_end 0 (\<lambda>_. False) (thr_data delay3) (lock_at delay3 (Suc 0)) (Suc 0) True =
     (r, tk', lk')" by (metis prod_cases3)
  have "thr_waiting delay3 (Suc 0)" by (simp add: thr_waiting_def lock_at_def delay_defs)
  from upgrade_timeout_reports_success [OF delay_reachable this e] show ?thesis using e by simp
qed

subsection \<open>A status callback that fails\<close>

text \<open>
  C32: When \<^verbatim>\<open>get_status\<close> of the engine fails for a read request on a table without writers,
  \<^verbatim>\<open>thr_multi_lock\<close> returns \<^verbatim>\<open>THR_LOCK_ABORTED\<close> and marks the instance \<^verbatim>\<open>TL_UNLOCK\<close>, but leaves it in
  the list of active readers, from which nothing removes it: \<^verbatim>\<open>thr_multi_unlock\<close> skips it.
\<close>

theorem failed_status_leaves_reader:
  assumes "write_list (lock_at st d) = []" "write_wait (lock_at st d) = []" "is_read (d_type (thr_data st d))"
    "get_status (lock_at st d) = Some f" "f (d_status_param (thr_data st d)) False"
    "thr_multi_lock upgraded mx sleep (\<lambda>d st. st) (\<lambda>d st. st) [d] me st = (res, arr, calls, st')"
  shows "res = THR_LOCK_ABORTED \<and> d_type (thr_data st' d) = TL_UNLOCK \<and> d \<in> set (read_list (lock_at st' d)) \<and>
    thr_multi_unlock mx (\<lambda>d st. st) [d] st' = st'"
proof -
  have lt: "d_type (thr_data st d) < TL_FIRST_WRITE"
    using assms(3) by (cases "d_type (thr_data st d)") (simp_all add: is_read_def tl_order)
  obtain st1 where "thr_lock_st upgraded st d me = (Answered THR_LOCK_ABORTED, st1)"
    "d \<in> set (read_list (thr_locks st1 (d_lock (thr_data st d))))" "d_lock (thr_data st1 d) = d_lock (thr_data st d)"
    using assms(1,2,4,5) lt
    by (simp add: thr_lock_st_def thr_lock_begin_def thr_lock_read_def status_result_def Let_def put_lock_def add_read_def)
  then have "thr_lock upgraded mx sleep st d me = (THR_LOCK_ABORTED, st1)"
    "d \<in> set (read_list (thr_locks st1 (d_lock (thr_data st d))))" "d_lock (thr_data st1 d) = d_lock (thr_data st d)"
    by (simp_all add: thr_lock_def)
  then show ?thesis using assms(6) by (auto simp: thr_multi_lock_def set_type_def lock_at_def)
qed

definition faulty :: thr_state where
  "faulty = demo0\<lparr> thr_locks := \<lambda>_. (demo_lock False [] [] [] [] 0)\<lparr> get_status := Some (\<lambda>_ _. True) \<rparr> \<rparr>"

theorem failed_status_leaves_reader_witness:
  "\<exists>res arr calls st'. thr_multi_lock TL_WRITE 0 (\<lambda>d st. (st, False)) (\<lambda>d st. st) (\<lambda>d st. st) [Suc 0] 5 faulty = (res, arr, calls, st') \<and>
     res = THR_LOCK_ABORTED \<and> Suc 0 \<in> set (read_list (lock_at st' (Suc 0)))"
proof -
  obtain res arr calls st' where e:
    "thr_multi_lock TL_WRITE 0 (\<lambda>d st. (st, False)) (\<lambda>d st. st) (\<lambda>d st. st) [Suc 0] 5 faulty = (res, arr, calls, st')"
    by (metis prod_cases4)
  have "res = THR_LOCK_ABORTED \<and> Suc 0 \<in> set (read_list (lock_at st' (Suc 0)))"
    using failed_status_leaves_reader [OF _ _ _ _ _ e, where f = "\<lambda>_ _. True"]
    by (simp add: faulty_def lock_at_def is_read_def tl_order demo_defs)
  then show ?thesis using e by blast
qed

subsection \<open>Concurrent inserts beside a lock that forbids them\<close>

text \<open>
  C33: With \<^verbatim>\<open>allow_multiple_concurrent_insert\<close> a session holds \<^verbatim>\<open>TL_READ_NO_INSERT\<close> on a table while a
  concurrent insert of another session is active: the read request is granted because the session
  itself owns the first write lock, without a look at the others.
\<close>

theorem no_insert_beside_insert:
  "\<exists>st r w. thr_reachable TL_WRITE mx info st \<and> r \<in> set (read_list (thr_locks st 0)) \<and> w \<in> set (write_list (thr_locks st 0)) \<and>
     d_owner (thr_data st r) \<noteq> d_owner (thr_data st w) \<and> d_type (thr_data st r) = TL_READ_NO_INSERT \<and>
     d_type (thr_data st w) = TL_WRITE_CONCURRENT_INSERT"
  using multi_reachable [of mx info]
  by (intro exI [of _ multi3] exI [of _ "Suc (Suc 0)"] exI [of _ "Suc 0"]) (simp add: multi_defs)

end
