(* ===== verification/Spec2Isabelle.thy ===== *)
theory Spec2Isabelle
  imports Mdb_Queue Mdb_Timer_Theorems Mdb_Hash_Theorems Mdl_Key Mdl_Theorems Thr_Theorems Thr_Fair Thr_Abstract Thr_Check Thr_Merge Thr_Faults
begin

text \<open>
  The synchronisation core of MariaDB Server: how sessions keep out of each other's way. A statement
  first takes metadata locks on the objects it names (\<^verbatim>\<open>sql/mdl.cc\<close>), with deadlock detection, and then
  table locks on the tables it opened (\<^verbatim>\<open>mysys/thr_lock.c\<close>), in a fixed order and without deadlock
  detection. The priority queue (\<^verbatim>\<open>mysys/queues.c\<close>) and the hash table (\<^verbatim>\<open>mysys/hash.c\<close>) are containers used
  throughout the server, the queue among others by the timers (\<^verbatim>\<open>mysys/thr_timer.c\<close>) that limit the time
  of statements.

  \<^bold>\<open>Theories and sources.\<close>

  \<^item> \<^verbatim>\<open>Mdb_Prelude\<close>: generic lemmas on lists, maps and multisets; the locales for total preorders and
    for sets of holders that must be pairwise compatible, which the components interpret.

  \<^item> \<^verbatim>\<open>Mdb_Queue\<close>: \<^verbatim>\<open>mysys/queues.c\<close>, \<^verbatim>\<open>include/queues.h\<close>. The record \<^verbatim>\<open>QUEUE\<close> with its 1-based array,
    and one definition for each function and loop (\<^verbatim>\<open>queue_insert\<close>, \<^verbatim>\<open>queue_remove\<close>, \<^verbatim>\<open>queue_replace\<close>,
    \<^verbatim>\<open>queue_fix\<close>, \<^verbatim>\<open>_downheap\<close>). Its lemmas show that the heap order and the positions stored in the
    elements are kept, that exactly the given element is added or removed, and that draining a queue
    sorts it. Loops end by measures on positions; no fuel is used.

  \<^item> \<^verbatim>\<open>Mdb_Timer\<close>: \<^verbatim>\<open>mysys/thr_timer.c\<close>, \<^verbatim>\<open>include/thr_timer.h\<close>, on top of \<^verbatim>\<open>Mdb_Queue\<close>. The timers in a priority queue keyed by
    expiry time, arming and stopping them, and the thread that calls the functions of expired
    timers; its loop is a partial function that is proved to return. \<^verbatim>\<open>Mdb_Timer_Inv\<close> has the invariant (a timer is
    in the queue exactly while it is armed), \<^verbatim>\<open>Mdb_Timer_System\<close> the interleavings of the thread with the
    other operations, and \<^verbatim>\<open>Mdb_Timer_Theorems\<close> that the thread never sleeps past the expiry of an armed timer and
    calls exactly the expired ones, in order.

  \<^item> \<^verbatim>\<open>Mdb_Hash\<close>: \<^verbatim>\<open>mysys/hash.c\<close>, \<^verbatim>\<open>include/hash.h\<close>. The records \<^verbatim>\<open>HASH\<close> and \<^verbatim>\<open>HASH_LINK\<close>, with the dynamic array as a
    list, and one definition for each function, loop and longer part of a function. Loops that follow
    links are partial functions into \<^verbatim>\<open>option\<close>; that they return is part of the theorems.
    \<^verbatim>\<open>Mdb_Hash_Chain\<close> has the representation invariant (every bucket is a chain that starts in its own slot)
    and the elementary changes of chains, \<^verbatim>\<open>Mdb_Hash_Split\<close> the loop that splits a bucket in place,
    \<^verbatim>\<open>Mdb_Hash_Search\<close>, \<^verbatim>\<open>Mdb_Hash_Insert\<close>, \<^verbatim>\<open>Mdb_Hash_Delete\<close>, \<^verbatim>\<open>Mdb_Hash_Update\<close> and \<^verbatim>\<open>Mdb_Hash_Check\<close> the operations.
    \<^verbatim>\<open>Mdb_Hash_Table\<close> has the contract of a table as a locale, of which the hash table is an instance;
    \<^verbatim>\<open>Mdb_Hash_Theorems\<close> the results: each operation returns, keeps the invariant and does to the
    records what it should, searching lists exactly the matching records, and any sequence of
    operations implements a multiset of records.

  \<^item> \<^verbatim>\<open>Mdl_Types\<close>, \<^verbatim>\<open>Mdl_Key\<close>, \<^verbatim>\<open>Mdl_Ticket_List\<close>, \<^verbatim>\<open>Mdl_Fast_Road\<close>, \<^verbatim>\<open>Mdl_Lock\<close>: \<^verbatim>\<open>sql/mdl.h\<close> and the class
    \<^verbatim>\<open>MDL_lock\<close> of \<^verbatim>\<open>sql/mdl.cc\<close>. Lock types and compatibility matrices as the bitmaps of the source, keys
    as byte strings, ticket lists with type counters and bitmap, the lanes of the fast road, and the
    scheduler (\<^verbatim>\<open>can_grant_lock\<close>, \<^verbatim>\<open>reschedule_waiters\<close>, \<^verbatim>\<open>remove_ticket\<close>). \<^verbatim>\<open>Mdl_Lock_Inv\<close> has the
    invariant of one lock and that every operation keeps it.

  \<^item> \<^verbatim>\<open>Mdl_Context\<close>: \<^verbatim>\<open>MDL_map\<close> and \<^verbatim>\<open>MDL_context\<close>: acquiring, cloning, upgrading, downgrading and releasing
    tickets, savepoints and durations. The variable \<^verbatim>\<open>wait_status\<close> of \<^verbatim>\<open>acquire_lock\<close> is a field of the context,
    apart from the wait slot that other sessions write. \<^verbatim>\<open>Mdl_System\<close> has the invariant of the whole
    subsystem, \<^verbatim>\<open>Mdl_Session\<close> the steps of interleaved sessions and that they keep it. \<^verbatim>\<open>mdl_step\<close> has all steps
    but one, the end of \<^verbatim>\<open>acquire_lock\<close> when the client was found gone and the lock was granted in the
    meantime; \<^verbatim>\<open>mdl_any_step\<close> has this one too. \<^verbatim>\<open>max_write_lock_count\<close> may differ from step to step.

  \<^item> \<^verbatim>\<open>Mdl_Deadlock\<close>: \<^verbatim>\<open>Deadlock_detection_visitor\<close>, \<^verbatim>\<open>visit_subgraph\<close> of locks and contexts, and
    \<^verbatim>\<open>find_deadlock\<close>. The recursion of the search is bounded by the search depth of the source,
    \<^verbatim>\<open>MAX_SEARCH_DEPTH\<close> = 32, not by fuel; the outer loop that picks victims is a partial function that
    is proved to return.

  \<^item> \<^verbatim>\<open>Mdl_Example\<close>, \<^verbatim>\<open>Mdl_Theorems\<close>: concrete runs, and the results on metadata locks, for the states that
    \<^verbatim>\<open>mdl_step\<close> reaches: mutual exclusion, no deadlock left behind, no lost wake-up, soundness and termination
    of the search, exactness of the bitmap tests, effects of acquiring and of rolling back, and the limit
    on consecutive strong grants. \<^verbatim>\<open>Mdl_Race\<close>: with the step that is left out, a state is reached in which
    the lock object is damaged and a compatible request is refused.

  \<^item> \<^verbatim>\<open>Thr_Lock\<close>: \<^verbatim>\<open>include/thr_lock.h\<close> and the critical sections of \<^verbatim>\<open>mysys/thr_lock.c\<close> on one lock: requests,
    the two halves of a wait, waking up, release, abort, and the upgrade of delayed locks. The four
    intrusive lists of a \<^verbatim>\<open>THR_LOCK\<close> are lists of instance addresses. \<^verbatim>\<open>Thr_Lock_Inv\<close> and \<^verbatim>\<open>Thr_Lock_Ops\<close>
    have the invariant of a lock and what each section may change.

  \<^item> \<^verbatim>\<open>Thr_System\<close>: all table locks of a server; the critical sections as steps labelled with the session
    that takes them, the reachable states, and what a session may rely on while others run.
    \<^verbatim>\<open>thr_abort_locks\<close> is a step with \<^verbatim>\<open>upgrade_lock\<close> false only; with true it retypes a lock that is held.
    \<^verbatim>\<open>Thr_Multi\<close>: \<^verbatim>\<open>sort_locks\<close>, \<^verbatim>\<open>thr_multi_lock\<close>, \<^verbatim>\<open>thr_multi_unlock\<close>, \<^verbatim>\<open>thr_merge_locks\<close>; the steps of other
    sessions between two sections of these functions are parameters.

  \<^item> \<^verbatim>\<open>Thr_Theorems\<close>, \<^verbatim>\<open>Thr_Fair\<close>, \<^verbatim>\<open>Thr_Abstract\<close>, \<^verbatim>\<open>Thr_Merge\<close>, \<^verbatim>\<open>Thr_Check\<close>, \<^verbatim>\<open>Thr_Faults\<close>: the results on table locks.
    Exclusion, typing of the queues, no waiter on an idle lock, no circle of waiting sessions among those
    that lock in the order of \<^verbatim>\<open>LOCK_CMP\<close>, the bound on the turns of writers before a waiting reader; refinement of an abstract specification
    without queues; all or nothing for \<^verbatim>\<open>thr_multi_lock\<close>; sharing of status among the instances of a
    table; what the debug checks \<^verbatim>\<open>check_locks\<close> can report, those of the links of the lists apart; and places where the code does not do what its
    comments say. \<^verbatim>\<open>Thr_Example\<close> has the concrete runs.

  \<^bold>\<open>State and atomicity.\<close> A C structure is a record, a pointer to a ticket, context or lock instance a
  number that indexes a store. A step of the transition systems is one critical section: of
  \<^verbatim>\<open>MDL_lock::m_rwlock\<close> for metadata locks (closing all lanes of the fast road is one step, and a deadlock
  search sees one state, where the source takes the locks hand over hand), and of \<^verbatim>\<open>THR_LOCK::mutex\<close> for
  table locks. Waiting is split into the section before the sleep and the section after it. Galera
  support is off, as in a build without the \<^verbatim>\<open>wsrep-lib\<close> submodule. Callbacks of storage engines are
  functions in the records of the locks where the code depends on their answer, and lists of calls
  where it only makes them.

  \<^bold>\<open>Bounds.\<close> Type counters and close counts are words of their C width; the invariants show they do
  not wrap. Addresses of table lock instances are below \<^verbatim>\<open>max_instances\<close> = 2^32 - 1, so that the \<^verbatim>\<open>uint\<close>
  counter \<^verbatim>\<open>read_no_write_count\<close> cannot wrap; a server cannot allocate more. \<^verbatim>\<open>write_lock_count\<close>,
  \<^verbatim>\<open>m_hog_lock_count\<close> and \<^verbatim>\<open>max_write_lock_count\<close> are 64-bit words, weights of the deadlock detector 32-bit ones.
  The capacity of a priority queue is computed at 32 bits, and results on growing queues and on timers
  are for capacities that fit.

  A hash table has fewer than \<^verbatim>\<open>NO_RECORD\<close> = 2^32 - 1 slots, since that number marks the end of a chain;
  the code does not check it. Sizes of the table are natural numbers, hash numbers 32-bit words.
  Clock and periods of timers are below 2^53 microseconds, so that times in nanoseconds fit into 64 bits.

  \<^bold>\<open>Not modelled.\<close> Condition variables, the scheduling of threads, and the time that lock waits take (a wait
  ends in any state, with or without a timeout); memory allocation and its failure, except where a queue or a hash table grows;
  statistics, performance schema and debug sync calls; notification of conflicting metadata lock
  owners, and waits for table flushes, which also take part in the wait-for graph; printing of locks.
  The other parts of the server (SQL front end and optimizer, storage engines, replication,
  client protocol, character sets, plug-ins) only use this core.
\<close>

end
